(* ===== verification/Nachos_Prelude.thy ===== *)
theory Nachos_Prelude
  imports Main "HOL-Library.Word" "HOL-Library.Signed_Division"
begin

text \<open>
  Shared vocabulary of the development: the type of results of C++ code that may abort or leave
  defined behaviour, its sequencing operator, the byte and word types, the macros of
  \<^verbatim>\<open>threads/utility.h\<close>, little-endian encodings of machine integers, and the generic lemmas on
  lists and results that the component theories use.
\<close>

unbundle bit_operations_syntax

section \<open>Results of C++ code\<close>

text \<open>
  \<^verbatim>\<open>ASSERT\<close> of \<^verbatim>\<open>threads/utility.h\<close> prints a message and aborts: the model returns
  \<open>Inl AssertFailed\<close>. A read or write through a null or dangling pointer, or past the end of an
  array, has no defined meaning in C++: the model returns \<open>Inl OutOfBounds\<close> or \<open>Inl BadPointer\<close>
  there and never makes up a value; \<open>UndefinedOp\<close> is an arithmetic operation the host traps on
  (\<^verbatim>\<open>INT_MIN / -1\<close>). \<open>Diverges\<close> marks a loop that ran out of the fuel the model
  gives it; the component theories prove that this does not happen in well-formed states. \<open>Halted\<close>
  is the orderly end of the whole simulation (\<^verbatim>\<open>Exit\<close> called by \<^verbatim>\<open>Cleanup\<close>).
\<close>

datatype fault = AssertFailed | OutOfBounds | BadPointer | UndefinedOp | Diverges | Halted

type_synonym 'a result = "fault + 'a"

definition bindr :: "'e + 'a \<Rightarrow> ('a \<Rightarrow> 'e + 'b) \<Rightarrow> 'e + 'b" where
  "bindr m f = (case m of Inl e \<Rightarrow> Inl e | Inr x \<Rightarrow> f x)"

definition ASSERT :: "bool \<Rightarrow> unit result" where
  "ASSERT c = (if c then Inr () else Inl AssertFailed)"

definition arr_get :: "'a list \<Rightarrow> int \<Rightarrow> 'a result" where
  "arr_get xs i = (if 0 \<le> i \<and> i < int (length xs) then Inr (xs ! nat i) else Inl OutOfBounds)"

definition arr_set :: "'a list \<Rightarrow> int \<Rightarrow> 'a \<Rightarrow> 'a list result" where
  "arr_set xs i v =
     (if 0 \<le> i \<and> i < int (length xs) then Inr (xs[nat i := v]) else Inl OutOfBounds)"

named_theorems result_simps \<open>unfolding sequenced results\<close>

lemma bindr_Inr [simp, result_simps]: "bindr (Inr x) f = f x"
  by (simp add: bindr_def)

lemma bindr_Inl [simp, result_simps]: "bindr (Inl e) f = Inl e"
  by (simp add: bindr_def)

lemma bindr_eq_Inr: "bindr m f = Inr y \<longleftrightarrow> (\<exists>x. m = Inr x \<and> f x = Inr y)"
  by (cases m) auto

lemma bindr_InrE [elim]:
  assumes "bindr m f = Inr y"
  obtains x where "m = Inr x" and "f x = Inr y"
  using assms by (auto simp: bindr_eq_Inr)

lemma bindr_assoc: "bindr (bindr m f) g = bindr m (\<lambda>x. bindr (f x) g)"
  by (cases m) auto

lemma bindr_cong [fundef_cong]:
  "m = m' \<Longrightarrow> (\<And>x. m' = Inr x \<Longrightarrow> f x = g x) \<Longrightarrow> bindr m f = bindr m' g"
  by (cases m') auto

lemma ASSERT_True [simp, result_simps]: "ASSERT True = Inr ()"
  by (simp add: ASSERT_def)

lemma ASSERT_False [simp, result_simps]: "ASSERT False = Inl AssertFailed"
  by (simp add: ASSERT_def)

lemma ASSERT_eq_Inr [simp]: "ASSERT c = Inr u \<longleftrightarrow> c"
  by (simp add: ASSERT_def)

lemma arr_get_ok [simp]: "0 \<le> i \<Longrightarrow> i < int (length xs) \<Longrightarrow> arr_get xs i = Inr (xs ! nat i)"
  by (simp add: arr_get_def)

lemma arr_get_eq_Inr:
  "arr_get xs i = Inr v \<longleftrightarrow> 0 \<le> i \<and> i < int (length xs) \<and> v = xs ! nat i"
  by (auto simp: arr_get_def)

lemma arr_set_ok [simp]: "0 \<le> i \<Longrightarrow> i < int (length xs) \<Longrightarrow> arr_set xs i v = Inr (xs[nat i := v])"
  by (simp add: arr_set_def)

lemma arr_set_eq_Inr:
  "arr_set xs i v = Inr ys \<longleftrightarrow> 0 \<le> i \<and> i < int (length xs) \<and> ys = xs[nat i := v]"
  by (auto simp: arr_set_def)

lemma find_append:
  "find P (xs @ ys) = (case find P xs of None \<Rightarrow> find P ys | Some x \<Rightarrow> Some x)"
  by (induction xs) auto

lemma find_Some_mem: "find P xs = Some x \<Longrightarrow> x \<in> set xs \<and> P x"
  by (induction xs) (auto split: if_splits)

section \<open>Machine integers and bytes\<close>

type_synonym byte = "8 word"
type_synonym u16 = "16 word"
type_synonym u32 = "32 word"

text \<open>The macros of \<^verbatim>\<open>threads/utility.h\<close>: C division truncates towards zero.\<close>

definition divRoundDown :: "int \<Rightarrow> int \<Rightarrow> int" where
  "divRoundDown n s = n sdiv s"

definition divRoundUp :: "int \<Rightarrow> int \<Rightarrow> int" where
  "divRoundUp n s = n sdiv s + (if n smod s > 0 then 1 else 0)"

lemma sdiv_nonneg [simp]: "0 \<le> n \<Longrightarrow> 0 < s \<Longrightarrow> (n::int) sdiv s = n div s"
  by (cases "n = 0") (auto simp: signed_divide_int_def)

lemma smod_nonneg [simp]: "0 \<le> n \<Longrightarrow> 0 < s \<Longrightarrow> (n::int) smod s = n mod s"
  by (cases "n = 0") (auto simp: signed_modulo_int_def)

lemma divRoundUp_nonneg: "0 \<le> n \<Longrightarrow> 0 < s \<Longrightarrow> divRoundUp n s = (n + s - 1) div s"
proof -
  assume n: "0 \<le> n" and s: "0 < s"
  define q r where "q = n div s" and "r = n mod s"
  have nq: "n = q * s + r" and r: "0 \<le> r" "r < s"
    using s by (simp_all add: q_def r_def)
  have "(n + s - 1) div s = q + (r + s - 1) div s"
    using s by (simp add: nq add.assoc add_diff_eq [symmetric])
  moreover have "(r + s - 1) div s = (if r > 0 then 1 else 0)"
  proof (cases "r > 0")
    case True
    have "(r + s - 1) div s = ((r - 1) + 1 * s) div s"
      by (simp add: algebra_simps)
    also have "\<dots> = (r - 1) div s + 1"
      using s by (subst div_mult_self1) auto
    finally show ?thesis using True r by simp
  next
    case False
    with r s show ?thesis by simp
  qed
  ultimately show ?thesis
    using n s by (simp add: divRoundUp_def q_def r_def)
qed

lemma divRoundUp_bounds:
  assumes "0 \<le> n" and "0 < s"
  shows "n \<le> divRoundUp n s * s" and "divRoundUp n s * s < n + s"
proof -
  define q r where "q = n div s" and "r = n mod s"
  have m: "0 \<le> r" "r < s" "n = q * s + r"
    using assms by (simp_all add: q_def r_def)
  have d: "divRoundUp n s * s = q * s + (if r > 0 then s else 0)"
    using assms by (simp add: divRoundUp_def q_def r_def distrib_right)
  show "n \<le> divRoundUp n s * s" "divRoundUp n s * s < n + s"
    unfolding d using m by (auto split: if_splits)
qed

text \<open>
  A 32-bit integer in memory is four bytes, least significant first (the host is i386, and the
  simulated MIPS is little-endian as well); \<^verbatim>\<open>int\<close> is read back as two's complement.
\<close>

definition le32 :: "u32 \<Rightarrow> byte list" where
  "le32 w = [ucast w, ucast (drop_bit 8 w), ucast (drop_bit 16 w), ucast (drop_bit 24 w)]"

definition un_le32 :: "byte list \<Rightarrow> u32" where
  "un_le32 bs = (case bs of
       [a, b, c, d] \<Rightarrow> ucast a OR push_bit 8 (ucast b) OR push_bit 16 (ucast c) OR push_bit 24 (ucast d)
     | _ \<Rightarrow> 0)"

lemma length_le32 [simp]: "length (le32 w) = 4"
  by (simp add: le32_def)

lemma un_le32_le32 [simp]: "un_le32 (le32 w) = w"
proof (rule bit_word_eqI)
  fix n assume "n < LENGTH(32)"
  then consider "n < 8" | "8 \<le> n" "n < 16" | "16 \<le> n" "n < 24" | "24 \<le> n" "n < 32"
    by (simp, linarith)
  then show "bit (un_le32 (le32 w)) n = bit w n"
    by cases (auto simp: un_le32_def le32_def bit_simps)
qed

lemma length_4_conv: "length bs = 4 \<longleftrightarrow> (\<exists>a b c d. bs = [a, b, c, d])"
  by (auto simp: length_Suc_conv numeral_eq_Suc)

lemma le32_un_le32 [simp]:
  assumes "length bs = 4"
  shows "le32 (un_le32 bs) = bs"
proof -
  obtain a b c d where bs: "bs = [a, b, c, d]"
    using assms by (auto simp: length_4_conv)
  show ?thesis
    unfolding bs le32_def un_le32_def
    by (simp, intro conjI) (rule bit_word_eqI, auto simp: bit_simps dest: bit_imp_le_length)+
qed

text \<open>The values a 32-bit \<^verbatim>\<open>int\<close> can have.\<close>

definition fits32 :: "int \<Rightarrow> bool" where
  "fits32 z \<longleftrightarrow> - (2 ^ 31) \<le> z \<and> z < 2 ^ 31"

lemma sint_of_fits32: "fits32 z \<Longrightarrow> sint (word_of_int z :: u32) = z"
  by (simp add: fits32_def sint_sbintrunc' signed_take_bit_int_eq_self)

lemma fits32_sint [simp]: "fits32 (sint (w :: u32))"
  using sint_range_size [of w] by (simp add: fits32_def word_size)

end
