(* ===== verification/Nachos_List.thy ===== *)
theory Nachos_List
  imports Nachos_Prelude "HOL-Library.Multiset"
begin

text \<open>
  The singly linked list of \<^verbatim>\<open>threads/list.h\<close> and \<^verbatim>\<open>threads/list.cc\<close>: \<^verbatim>\<open>ListElement\<close> cells in
  an explicit store, the \<^verbatim>\<open>List\<close> object with its \<^verbatim>\<open>first\<close> and \<^verbatim>\<open>last\<close> pointers, and every
  operation with the pointer assignments of the source. The second half gives the list of
  (key, item) pairs a store represents and shows that each operation refines the obvious
  operation on it. The other components use the list through the locale \<open>keyed_list\<close> and the
  abstract operations \<open>kl_append\<close>, \<open>kl_sorted_insert\<close> and so on.
\<close>

section \<open>Cells, the store and the list object\<close>

text \<open>
  A pointer is an address, \<open>None\<close> for \<^verbatim>\<open>NULL\<close>. The store maps the addresses of live cells to
  their contents; \<open>brk\<close> is above every address that \<^verbatim>\<open>new\<close> has handed out. The items are the
  caller's pointers, which the list never follows, and are not null.
\<close>

record 'a list_element =
  elem_next :: "nat option"
  elem_key :: int
  elem_item :: 'a

record 'a store =
  cells :: "nat \<Rightarrow> 'a list_element option"
  brk :: nat

record nlist =
  lfirst :: "nat option"
  llast :: "nat option"

definition deref :: "'a store \<Rightarrow> nat option \<Rightarrow> (nat \<times> 'a list_element) result" where
  "deref h p = (case p of None \<Rightarrow> Inl BadPointer
     | Some a \<Rightarrow> (case cells h a of None \<Rightarrow> Inl BadPointer | Some e \<Rightarrow> Inr (a, e)))"

definition poke :: "'a store \<Rightarrow> nat \<Rightarrow> 'a list_element \<Rightarrow> 'a store" where
  "poke h a e = h\<lparr>cells := (cells h)(a \<mapsto> e)\<rparr>"

definition ListElement_new :: "'a store \<Rightarrow> 'a \<Rightarrow> int \<Rightarrow> 'a store \<times> nat" where
  "ListElement_new h itemPtr sortKey =
     (h\<lparr>cells := (cells h)(brk h \<mapsto> \<lparr>elem_next = None, elem_key = sortKey, elem_item = itemPtr\<rparr>),
        brk := Suc (brk h)\<rparr>, brk h)"

definition delete_cell :: "'a store \<Rightarrow> nat \<Rightarrow> 'a store" where
  "delete_cell h a = h\<lparr>cells := (cells h)(a := None)\<rparr>"

section \<open>The operations\<close>

definition List_new :: nlist where
  "List_new = \<lparr>lfirst = None, llast = None\<rparr>"

definition List_IsEmpty :: "nlist \<Rightarrow> bool" where
  "List_IsEmpty l = (if lfirst l = None then True else False)"

definition List_Append :: "'a store \<Rightarrow> nlist \<Rightarrow> 'a \<Rightarrow> ('a store \<times> nlist) result" where
  "List_Append h l x =
     (case ListElement_new h x 0 of (h1, element) \<Rightarrow>
        if List_IsEmpty l then Inr (h1, \<lparr>lfirst = Some element, llast = Some element\<rparr>)
        else bindr (deref h1 (llast l)) (\<lambda>(a, e).
               Inr (poke h1 a (e\<lparr>elem_next := Some element\<rparr>), l\<lparr>llast := Some element\<rparr>)))"

definition List_Prepend :: "'a store \<Rightarrow> nlist \<Rightarrow> 'a \<Rightarrow> ('a store \<times> nlist) result" where
  "List_Prepend h l x =
     (case ListElement_new h x 0 of (h1, element) \<Rightarrow>
        if List_IsEmpty l then Inr (h1, \<lparr>lfirst = Some element, llast = Some element\<rparr>)
        else bindr (deref h1 (Some element)) (\<lambda>(a, e).
               Inr (poke h1 a (e\<lparr>elem_next := lfirst l\<rparr>), l\<lparr>lfirst := Some element\<rparr>)))"

text \<open>
  The result of \<^verbatim>\<open>SortedRemove\<close> is the removed item with its key (the value the source stores
  through \<^verbatim>\<open>keyPtr\<close>), or \<open>None\<close> where the source returns \<^verbatim>\<open>NULL\<close>.
\<close>

definition List_SortedRemove ::
  "'a store \<Rightarrow> nlist \<Rightarrow> ('a store \<times> nlist \<times> (int \<times> 'a) option) result" where
  "List_SortedRemove h l =
     (if List_IsEmpty l then Inr (h, l, None)
      else bindr (deref h (lfirst l)) (\<lambda>(a, e).
        let l' = (if lfirst l = llast l then l\<lparr>lfirst := None, llast := None\<rparr>
                  else l\<lparr>lfirst := elem_next e\<rparr>)
        in Inr (delete_cell h a, l', Some (elem_key e, elem_item e))))"

definition List_Remove :: "'a store \<Rightarrow> nlist \<Rightarrow> ('a store \<times> nlist \<times> 'a option) result" where
  "List_Remove h l =
     bindr (List_SortedRemove h l) (\<lambda>(h', l', r). Inr (h', l', map_option snd r))"

definition List_Head :: "'a store \<Rightarrow> nlist \<Rightarrow> (int \<times> 'a) option result" where
  "List_Head h l =
     (if List_IsEmpty l then Inr None
      else bindr (deref h (lfirst l)) (\<lambda>(a, e). Inr (Some (elem_key e, elem_item e))))"

text \<open>
  The search loop of \<^verbatim>\<open>SortedInsert\<close>: \<open>ptr\<close> walks the list while \<^verbatim>\<open>ptr->next\<close> is not null, and
  stops before the first element with a bigger key. \<open>fuel\<close> bounds the number of cells visited;
  \<open>brk\<close> is enough, because a list never holds more cells than were allocated.
\<close>

fun sorted_insert_loop ::
  "nat \<Rightarrow> 'a store \<Rightarrow> nlist \<Rightarrow> nat \<Rightarrow> int \<Rightarrow> nat option \<Rightarrow> ('a store \<times> nlist) result" where
  "sorted_insert_loop 0 h l element sortKey ptr = Inl Diverges"
| "sorted_insert_loop (Suc fuel) h l element sortKey ptr =
     bindr (deref h ptr) (\<lambda>(a, e).
       if elem_next e = None then
         bindr (deref h (llast l)) (\<lambda>(b, eb).
           Inr (poke h b (eb\<lparr>elem_next := Some element\<rparr>), l\<lparr>llast := Some element\<rparr>))
       else bindr (deref h (elem_next e)) (\<lambda>(n, en).
         if sortKey < elem_key en then
           bindr (deref h (Some element)) (\<lambda>(c, ec).
             let h1 = poke h c (ec\<lparr>elem_next := elem_next e\<rparr>)
             in Inr (poke h1 a (e\<lparr>elem_next := Some element\<rparr>), l))
         else sorted_insert_loop fuel h l element sortKey (elem_next e)))"

definition List_SortedInsert ::
  "'a store \<Rightarrow> nlist \<Rightarrow> 'a \<Rightarrow> int \<Rightarrow> ('a store \<times> nlist) result" where
  "List_SortedInsert h l x sortKey =
     (case ListElement_new h x sortKey of (h1, element) \<Rightarrow>
        if List_IsEmpty l then Inr (h1, \<lparr>lfirst = Some element, llast = Some element\<rparr>)
        else bindr (deref h1 (lfirst l)) (\<lambda>(a, e).
          if sortKey < elem_key e then
            bindr (deref h1 (Some element)) (\<lambda>(c, ec).
              Inr (poke h1 c (ec\<lparr>elem_next := lfirst l\<rparr>), l\<lparr>lfirst := Some element\<rparr>))
          else sorted_insert_loop (brk h1) h1 l element sortKey (lfirst l)))"

text \<open>\<^verbatim>\<open>Mapcar\<close> calls the function on every item, first to last; the function may change \<open>s\<close>.\<close>

fun mapcar_loop ::
  "nat \<Rightarrow> 'a store \<Rightarrow> ('a \<Rightarrow> 's \<Rightarrow> 's result) \<Rightarrow> nat option \<Rightarrow> 's \<Rightarrow> 's result" where
  "mapcar_loop 0 h func ptr s = (if ptr = None then Inr s else Inl Diverges)"
| "mapcar_loop (Suc fuel) h func ptr s =
     (if ptr = None then Inr s
      else bindr (deref h ptr) (\<lambda>(a, e).
             bindr (func (elem_item e) s) (mapcar_loop fuel h func (elem_next e))))"

definition List_Mapcar ::
  "'a store \<Rightarrow> nlist \<Rightarrow> ('a \<Rightarrow> 's \<Rightarrow> 's result) \<Rightarrow> 's \<Rightarrow> 's result" where
  "List_Mapcar h l func s = mapcar_loop (brk h) h func (lfirst l) s"

text \<open>
  The destructor removes until \<^verbatim>\<open>Remove\<close> returns \<^verbatim>\<open>NULL\<close>: when the list is empty, or when the item it removed is a
  \<^verbatim>\<open>NULL\<close> pointer. Items are any type here; \<open>null\<close> says which of them is the null pointer.
\<close>

fun list_delete_loop :: "('a \<Rightarrow> bool) \<Rightarrow> nat \<Rightarrow> 'a store \<Rightarrow> nlist \<Rightarrow> ('a store \<times> nlist) result" where
  "list_delete_loop null 0 h l = Inl Diverges"
| "list_delete_loop null (Suc fuel) h l =
     bindr (List_Remove h l) (\<lambda>(h', l', r).
       case r of None \<Rightarrow> Inr (h', l') | Some x \<Rightarrow> if null x then Inr (h', l') else list_delete_loop null fuel h' l')"

definition List_delete :: "('a \<Rightarrow> bool) \<Rightarrow> 'a store \<Rightarrow> nlist \<Rightarrow> ('a store \<times> nlist) result" where
  "List_delete null h l = list_delete_loop null (Suc (brk h)) h l"

section \<open>The list that a store represents\<close>

text \<open>\<open>lseg h p ps xs q\<close>: from \<open>p\<close> the cells \<open>ps\<close> lead to \<open>q\<close> and hold the pairs \<open>xs\<close>.\<close>

fun lseg ::
  "(nat \<Rightarrow> 'a list_element option) \<Rightarrow> nat option \<Rightarrow> nat list \<Rightarrow> (int \<times> 'a) list \<Rightarrow> nat option \<Rightarrow> bool"
  where
  "lseg c p [] xs q \<longleftrightarrow> xs = [] \<and> p = q"
| "lseg c p (a # ps) xs q \<longleftrightarrow>
     p = Some a \<and> (\<exists>k x ys n. xs = (k, x) # ys \<and>
       c a = Some \<lparr>elem_next = n, elem_key = k, elem_item = x\<rparr> \<and> lseg c n ps ys q)"

definition list_rep :: "'a store \<Rightarrow> nlist \<Rightarrow> nat list \<Rightarrow> (int \<times> 'a) list \<Rightarrow> bool" where
  "list_rep h l ps xs \<longleftrightarrow>
     lseg (cells h) (lfirst l) ps xs None \<and> distinct ps \<and> (\<forall>a\<in>set ps. a < brk h) \<and>
     (ps \<noteq> [] \<longrightarrow> llast l = Some (last ps))"

definition store_wf :: "'a store \<Rightarrow> bool" where
  "store_wf h \<longleftrightarrow> (\<forall>a. brk h \<le> a \<longrightarrow> cells h a = None)"

text \<open>What an operation on one list leaves alone: the cells outside it.\<close>

definition store_frame :: "'a store \<Rightarrow> nat list \<Rightarrow> 'a store \<Rightarrow> bool" where
  "store_frame h ps h' \<longleftrightarrow>
     brk h \<le> brk h' \<and> (\<forall>a. a < brk h \<longrightarrow> a \<notin> set ps \<longrightarrow> cells h' a = cells h a)"

section \<open>The abstract operations\<close>

definition kl_append :: "'a \<Rightarrow> (int \<times> 'a) list \<Rightarrow> (int \<times> 'a) list" where
  "kl_append x xs = xs @ [(0, x)]"

definition kl_prepend :: "'a \<Rightarrow> (int \<times> 'a) list \<Rightarrow> (int \<times> 'a) list" where
  "kl_prepend x xs = (0, x) # xs"

fun kl_sorted_insert :: "'a \<Rightarrow> int \<Rightarrow> (int \<times> 'a) list \<Rightarrow> (int \<times> 'a) list" where
  "kl_sorted_insert x k [] = [(k, x)]"
| "kl_sorted_insert x k ((k', y) # xs) =
     (if k < k' then (k, x) # (k', y) # xs else (k', y) # kl_sorted_insert x k xs)"

fun kl_sorted_remove :: "(int \<times> 'a) list \<Rightarrow> (int \<times> 'a) option \<times> (int \<times> 'a) list" where
  "kl_sorted_remove [] = (None, [])"
| "kl_sorted_remove (kx # xs) = (Some kx, xs)"

definition kl_remove :: "(int \<times> 'a) list \<Rightarrow> 'a option \<times> (int \<times> 'a) list" where
  "kl_remove xs = (case kl_sorted_remove xs of (r, ys) \<Rightarrow> (map_option snd r, ys))"

definition kl_sorted :: "(int \<times> 'a) list \<Rightarrow> bool" where
  "kl_sorted xs \<longleftrightarrow> sorted (map fst xs)"

fun kl_mapcar :: "('a \<Rightarrow> 's \<Rightarrow> 's result) \<Rightarrow> (int \<times> 'a) list \<Rightarrow> 's \<Rightarrow> 's result" where
  "kl_mapcar f [] s = Inr s"
| "kl_mapcar f ((k, x) # xs) s = bindr (f x s) (kl_mapcar f xs)"


text \<open>A sequence of calls on one list, with the item and key each removal returned.\<close>

datatype 'a list_op = OpAppend 'a | OpPrepend 'a | OpSortedInsert 'a int | OpSortedRemove

definition list_step ::
  "'a list_op \<Rightarrow> 'a store \<times> nlist \<Rightarrow> (('a store \<times> nlist) \<times> (int \<times> 'a) option list) result" where
  "list_step op s = (case s of (h, l) \<Rightarrow> (case op of
       OpAppend x \<Rightarrow> bindr (List_Append h l x) (\<lambda>s'. Inr (s', []))
     | OpPrepend x \<Rightarrow> bindr (List_Prepend h l x) (\<lambda>s'. Inr (s', []))
     | OpSortedInsert x k \<Rightarrow> bindr (List_SortedInsert h l x k) (\<lambda>s'. Inr (s', []))
     | OpSortedRemove \<Rightarrow> bindr (List_SortedRemove h l) (\<lambda>(h', l', r). Inr ((h', l'), [r]))))"

definition kl_step ::
  "'a list_op \<Rightarrow> (int \<times> 'a) list \<Rightarrow> (int \<times> 'a) list \<times> (int \<times> 'a) option list" where
  "kl_step op xs = (case op of
       OpAppend x \<Rightarrow> (kl_append x xs, [])
     | OpPrepend x \<Rightarrow> (kl_prepend x xs, [])
     | OpSortedInsert x k \<Rightarrow> (kl_sorted_insert x k xs, [])
     | OpSortedRemove \<Rightarrow> (case kl_sorted_remove xs of (r, ys) \<Rightarrow> (ys, [r])))"

fun list_run ::
  "'a list_op list \<Rightarrow> 'a store \<times> nlist \<Rightarrow> (('a store \<times> nlist) \<times> (int \<times> 'a) option list) result" where
  "list_run [] s = Inr (s, [])"
| "list_run (op # ops) s = bindr (list_step op s) (\<lambda>(s', out).
     bindr (list_run ops s') (\<lambda>(s'', outs). Inr (s'', out @ outs)))"

fun kl_run ::
  "'a list_op list \<Rightarrow> (int \<times> 'a) list \<Rightarrow> (int \<times> 'a) list \<times> (int \<times> 'a) option list" where
  "kl_run [] xs = (xs, [])"
| "kl_run (op # ops) xs = (case kl_step op xs of (ys, out) \<Rightarrow>
     (case kl_run ops ys of (zs, outs) \<Rightarrow> (zs, out @ outs)))"

definition empty_store :: "'a store" where
  "empty_store = \<lparr>cells = (\<lambda>_. None), brk = 0\<rparr>"

definition list_ok :: "'a store \<times> nlist \<Rightarrow> (int \<times> 'a) list \<Rightarrow> bool" where
  "list_ok s xs \<longleftrightarrow> store_wf (fst s) \<and> (\<exists>ps. list_rep (fst s) (snd s) ps xs)"

section \<open>Segments\<close>

lemma lseg_length: "lseg c p ps xs q \<Longrightarrow> length ps = length xs"
  by (induction ps arbitrary: p xs) auto

lemma lseg_Nil_xs [simp]: "lseg c p ps [] q \<longleftrightarrow> ps = [] \<and> p = q"
  by (cases ps) auto

lemma lseg_frame:
  "lseg c p ps xs q \<Longrightarrow> (\<And>a. a \<in> set ps \<Longrightarrow> c' a = c a) \<Longrightarrow> lseg c' p ps xs q"
  by (induction ps arbitrary: p xs) auto

lemma lseg_upd [simp]: "a \<notin> set ps \<Longrightarrow> lseg (c(a := v)) p ps xs q \<longleftrightarrow> lseg c p ps xs q"
  by (auto elim!: lseg_frame)

lemma lseg_append:
  "lseg c p (ps @ qs) xs q \<longleftrightarrow>
     (\<exists>ys zs r. xs = ys @ zs \<and> lseg c p ps ys r \<and> lseg c r qs zs q)"
proof (induction ps arbitrary: p xs)
  case Nil
  then show ?case by simp
next
  case (Cons a ps)
  have "lseg c p (a # ps @ qs) xs q \<longleftrightarrow> p = Some a \<and> (\<exists>k x ys n. xs = (k, x) # ys \<and>
      c a = Some \<lparr>elem_next = n, elem_key = k, elem_item = x\<rparr> \<and>
      (\<exists>us zs r. ys = us @ zs \<and> lseg c n ps us r \<and> lseg c r qs zs q))"
    by (simp add: Cons.IH)
  also have "\<dots> \<longleftrightarrow> (\<exists>ys zs r. xs = ys @ zs \<and> lseg c p (a # ps) ys r \<and> lseg c r qs zs q)"
    by (simp del: append_eq_Cons_conv) (metis append_Cons)
  finally show ?case by simp
qed

lemma lseg_cells: "lseg c p ps xs q \<Longrightarrow> a \<in> set ps \<Longrightarrow> c a \<noteq> None"
  by (induction ps arbitrary: p xs) auto

lemma deref_Some: "cells h a = Some e \<Longrightarrow> deref h (Some a) = Inr (a, e)"
  by (simp add: deref_def)

lemma list_rep_empty_iff: "list_rep h l ps xs \<Longrightarrow> List_IsEmpty l \<longleftrightarrow> xs = []"
  by (cases ps) (auto simp: list_rep_def List_IsEmpty_def split: list.splits)

lemma list_rep_bounded: "list_rep h l ps xs \<Longrightarrow> length xs \<le> brk h"
proof -
  assume rep: "list_rep h l ps xs"
  then have "set ps \<subseteq> {..<brk h}" and "distinct ps" and "length ps = length xs"
    by (auto simp: list_rep_def lseg_length)
  then have "length xs = card (set ps)" and "card (set ps) \<le> brk h"
    using card_mono [of "{..<brk h}" "set ps"] by (simp_all add: distinct_card)
  then show ?thesis by simp
qed

section \<open>Each operation refines its abstract counterpart\<close>

lemmas list_op_defs = ListElement_new_def poke_def deref_def delete_cell_def List_IsEmpty_def

lemma List_Append_rep:
  assumes rep: "list_rep h l ps xs" and wf: "store_wf h"
  shows "\<exists>h' l'. List_Append h l x = Inr (h', l') \<and> store_wf h' \<and>
           list_rep h' l' (ps @ [brk h]) (kl_append x xs) \<and> store_frame h ps h'"
proof (cases ps rule: rev_cases)
  case Nil
  then show ?thesis
    using rep wf
    by (auto simp: List_Append_def list_op_defs list_rep_def store_wf_def store_frame_def
        kl_append_def)
next
  case (snoc qs a)
  let ?new = "\<lparr>elem_next = None, elem_key = 0, elem_item = x\<rparr>"
  from rep snoc obtain ys k y where xs: "xs = ys @ [(k, y)]"
    and seg: "lseg (cells h) (lfirst l) qs ys (Some a)"
    and ca: "cells h a = Some \<lparr>elem_next = None, elem_key = k, elem_item = y\<rparr>"
    by (auto simp: list_rep_def lseg_append)
  from rep snoc have d: "distinct (qs @ [a])" and b: "\<forall>p\<in>set (qs @ [a]). p < brk h"
    and la: "llast l = Some a"
    by (auto simp: list_rep_def)
  have ne: "a \<noteq> brk h" "brk h \<notin> set qs" "a \<notin> set qs" using b d by auto
  have "lfirst l \<noteq> None" using seg by (cases qs) auto
  then obtain p where "lfirst l = Some p" by blast
  then have eq: "List_Append h l x = Inr
      (h\<lparr>cells := (cells h)(brk h \<mapsto> ?new,
           a \<mapsto> \<lparr>elem_next = Some (brk h), elem_key = k, elem_item = y\<rparr>),
         brk := Suc (brk h)\<rparr>, l\<lparr>llast := Some (brk h)\<rparr>)"
    using la ca ne by (simp add: List_Append_def list_op_defs)
  show ?thesis
    unfolding eq using seg ne d b wf snoc xs
    by (auto simp: list_rep_def lseg_append store_wf_def store_frame_def kl_append_def)
qed

lemma List_Prepend_rep:
  assumes rep: "list_rep h l ps xs" and wf: "store_wf h"
  shows "\<exists>h' l'. List_Prepend h l x = Inr (h', l') \<and> store_wf h' \<and>
           list_rep h' l' (brk h # ps) (kl_prepend x xs) \<and> store_frame h ps h'"
proof -
  have "brk h \<notin> set ps" using rep by (auto simp: list_rep_def)
  with rep wf show ?thesis
    by (cases ps)
      (auto simp: List_Prepend_def list_op_defs list_rep_def store_wf_def store_frame_def
        kl_prepend_def)
qed

lemma List_SortedRemove_rep:
  assumes rep: "list_rep h l ps xs" and wf: "store_wf h"
  shows "\<exists>h' l'. List_SortedRemove h l = Inr (h', l', fst (kl_sorted_remove xs)) \<and> store_wf h' \<and>
           list_rep h' l' (tl ps) (snd (kl_sorted_remove xs)) \<and> store_frame h ps h' \<and>
           (\<forall>a\<in>set ps. cells h' a \<noteq> None \<longleftrightarrow> a \<in> set (tl ps))"
proof (cases ps)
  case Nil
  then show ?thesis
    using rep wf by (auto simp: List_SortedRemove_def List_IsEmpty_def list_rep_def store_frame_def)
next
  case (Cons a qs)
  from rep Cons obtain k x ys n where f: "lfirst l = Some a" and xs: "xs = (k, x) # ys"
    and ca: "cells h a = Some \<lparr>elem_next = n, elem_key = k, elem_item = x\<rparr>"
    and seg: "lseg (cells h) n qs ys None"
    by (auto simp: list_rep_def)
  from rep Cons have d: "distinct (a # qs)" and la: "llast l = Some (last (a # qs))"
    by (auto simp: list_rep_def)
  let ?l' = "if lfirst l = llast l then l\<lparr>lfirst := None, llast := None\<rparr> else l\<lparr>lfirst := n\<rparr>"
  have same: "lfirst l = llast l \<longleftrightarrow> qs = []"
    using f la d by (cases qs rule: rev_cases) auto
  have eq: "List_SortedRemove h l = Inr (delete_cell h a, ?l', Some (k, x))"
    using f ca by (simp add: List_SortedRemove_def list_op_defs Let_def)
  have "list_rep (delete_cell h a) ?l' qs ys"
    using rep seg d la same Cons by (auto simp: list_rep_def delete_cell_def)
  moreover have "\<forall>p\<in>set ps. cells (delete_cell h a) p \<noteq> None \<longleftrightarrow> p \<in> set qs"
    using d Cons seg by (auto simp: delete_cell_def dest: lseg_cells)
  moreover have "store_wf (delete_cell h a)" and "store_frame h ps (delete_cell h a)"
    using wf Cons by (auto simp: store_wf_def store_frame_def delete_cell_def)
  ultimately show ?thesis
    unfolding eq using xs Cons by auto
qed

lemma List_Remove_rep:
  assumes rep: "list_rep h l ps xs" and wf: "store_wf h"
  shows "\<exists>h' l'. List_Remove h l = Inr (h', l', fst (kl_remove xs)) \<and> store_wf h' \<and>
           list_rep h' l' (tl ps) (snd (kl_remove xs)) \<and> store_frame h ps h' \<and>
           (\<forall>a\<in>set ps. cells h' a \<noteq> None \<longleftrightarrow> a \<in> set (tl ps))"
  using List_SortedRemove_rep [OF assms]
  by (auto simp: List_Remove_def kl_remove_def split: prod.splits)

lemma List_Head_rep:
  assumes rep: "list_rep h l ps xs"
  shows "List_Head h l = Inr (fst (kl_sorted_remove xs))"
  using assms
  by (cases ps) (auto simp: List_Head_def list_op_defs list_rep_def)

lemma sorted_insert_loop_rep:
  assumes "lseg (cells h) (Some a) (a # rs) ((k, x) # ys) None"
    and "distinct (a # rs)" and "element \<notin> set (a # rs)"
    and "cells h element = Some \<lparr>elem_next = None, elem_key = sk, elem_item = it\<rparr>"
    and "llast l = Some (last (a # rs))" and "length rs < fuel"
  shows "\<exists>h' l' rs'. sorted_insert_loop fuel h l element sk (Some a) = Inr (h', l') \<and>
     lseg (cells h') (Some a) (a # rs') ((k, x) # kl_sorted_insert it sk ys) None \<and>
     distinct (a # rs') \<and> set rs' = insert element (set rs) \<and>
     lfirst l' = lfirst l \<and> llast l' = Some (last (a # rs')) \<and> brk h' = brk h \<and>
     (\<forall>p. p \<noteq> element \<longrightarrow> p \<notin> set (a # rs) \<longrightarrow> cells h' p = cells h p)"
  using assms
proof (induction rs arbitrary: a k x ys fuel)
  case Nil
  then obtain f where "fuel = Suc f" by (cases fuel) auto
  with Nil have "sorted_insert_loop fuel h l element sk (Some a) =
     Inr (poke h a \<lparr>elem_next = Some element, elem_key = k, elem_item = x\<rparr>, l\<lparr>llast := Some element\<rparr>)"
    by (auto simp: deref_def)
  with Nil show ?case
    by (intro exI [of _ "poke h a \<lparr>elem_next = Some element, elem_key = k, elem_item = x\<rparr>"]
        exI [of _ "l\<lparr>llast := Some element\<rparr>"] exI [of _ "[element]"]) (auto simp: poke_def)
next
  case (Cons b rs)
  from Cons.prems(6) obtain f where f: "fuel = Suc f" by (cases fuel) auto
  from Cons.prems(1) obtain k' y zs n where ys: "ys = (k', y) # zs"
    and ca: "cells h a = Some \<lparr>elem_next = Some b, elem_key = k, elem_item = x\<rparr>"
    and cb: "cells h b = Some \<lparr>elem_next = n, elem_key = k', elem_item = y\<rparr>"
    and seg: "lseg (cells h) (Some b) (b # rs) ((k', y) # zs) None"
    by (auto)
  show ?case
  proof (cases "sk < k'")
    case True
    let ?ec = "\<lparr>elem_next = Some b, elem_key = sk, elem_item = it\<rparr>"
    let ?ea = "\<lparr>elem_next = Some element, elem_key = k, elem_item = x\<rparr>"
    have "sorted_insert_loop fuel h l element sk (Some a) = Inr (poke (poke h element ?ec) a ?ea, l)"
      using True f ca cb Cons.prems(4) by (simp add: deref_def Let_def)
    moreover have "lseg (cells (poke (poke h element ?ec) a ?ea)) (Some b) (b # rs) ((k', y) # zs) None"
      using Cons.prems by (intro lseg_frame [OF seg]) (auto simp: poke_def)
    ultimately show ?thesis
      using Cons.prems True ys
      by (intro exI [of _ "poke (poke h element ?ec) a ?ea"] exI [of _ l]
          exI [of _ "element # b # rs"]) (auto simp: poke_def simp del: fun_upd_apply lseg_upd
          simp: fun_upd_def)
  next
    case False
    have "sorted_insert_loop fuel h l element sk (Some a) = sorted_insert_loop f h l element sk (Some b)"
      using False f ca cb by (simp add: deref_def)
    moreover obtain h' l' rs' where
      "sorted_insert_loop f h l element sk (Some b) = Inr (h', l')"
      "lseg (cells h') (Some b) (b # rs') ((k', y) # kl_sorted_insert it sk zs) None"
      "distinct (b # rs')" "set rs' = insert element (set rs)" "lfirst l' = lfirst l"
      "llast l' = Some (last (b # rs'))" "brk h' = brk h"
      "\<forall>p. p \<noteq> element \<longrightarrow> p \<notin> set (b # rs) \<longrightarrow> cells h' p = cells h p"
      using Cons.IH [OF seg, of f] Cons.prems f by auto
    moreover have "cells h' a = Some \<lparr>elem_next = Some b, elem_key = k, elem_item = x\<rparr>"
      using Cons.prems ca calculation by simp
    ultimately show ?thesis
      using Cons.prems False ys
      by (intro exI [of _ h'] exI [of _ l'] exI [of _ "b # rs'"]) auto
  qed
qed

lemma List_SortedInsert_rep:
  assumes rep: "list_rep h l ps xs" and wf: "store_wf h"
  shows "\<exists>h' l' ps'. List_SortedInsert h l x k = Inr (h', l') \<and> store_wf h' \<and>
           list_rep h' l' ps' (kl_sorted_insert x k xs) \<and> set ps' = insert (brk h) (set ps) \<and>
           store_frame h ps h'"
proof (cases ps)
  case Nil
  then show ?thesis
    using rep wf
    by (auto simp: List_SortedInsert_def list_op_defs list_rep_def store_wf_def store_frame_def
        intro!: exI [of _ "[brk h]"])
next
  case (Cons a qs)
  let ?h1 = "fst (ListElement_new h x k)"
  from rep Cons obtain k' y ys n where f: "lfirst l = Some a" and xs: "xs = (k', y) # ys"
    and ca: "cells h a = Some \<lparr>elem_next = n, elem_key = k', elem_item = y\<rparr>"
    and seg: "lseg (cells h) (Some a) (a # qs) ((k', y) # ys) None"
    by (auto simp: list_rep_def)
  from rep Cons have d: "distinct (a # qs)" and b: "\<forall>p\<in>set (a # qs). p < brk h"
    and la: "llast l = Some (last (a # qs))"
    by (auto simp: list_rep_def)
  have fresh: "brk h \<notin> set (a # qs)" using b by auto
  have h1: "cells ?h1 = (cells h)(brk h \<mapsto> \<lparr>elem_next = None, elem_key = k, elem_item = x\<rparr>)"
    "brk ?h1 = Suc (brk h)"
    by (simp_all add: ListElement_new_def)
  show ?thesis
  proof (cases "k < k'")
    case True
    let ?h' = "poke ?h1 (brk h) \<lparr>elem_next = Some a, elem_key = k, elem_item = x\<rparr>"
    have "List_SortedInsert h l x k = Inr (?h', l\<lparr>lfirst := Some (brk h)\<rparr>)"
      using True f ca fresh by (simp add: List_SortedInsert_def list_op_defs)
    then show ?thesis
      using seg d b la fresh wf True xs Cons h1
      by (intro exI [of _ ?h'] exI [of _ "l\<lparr>lfirst := Some (brk h)\<rparr>"] exI [of _ "brk h # ps"])
        (auto simp: poke_def list_rep_def store_wf_def store_frame_def)
  next
    case False
    have seg1: "lseg (cells ?h1) (Some a) (a # qs) ((k', y) # ys) None"
      unfolding h1 using fresh seg by (simp only: lseg_upd not_False_eq_True)
    have len: "length qs < brk ?h1"
      using list_rep_bounded [OF rep] lseg_length [OF seg] xs h1 by simp
    obtain h' l' rs' where r: "sorted_insert_loop (brk ?h1) ?h1 l (brk h) k (Some a) = Inr (h', l')"
      "lseg (cells h') (Some a) (a # rs') ((k', y) # kl_sorted_insert x k ys) None"
      "distinct (a # rs')" "set rs' = insert (brk h) (set qs)" "lfirst l' = lfirst l"
      "llast l' = Some (last (a # rs'))" "brk h' = brk ?h1"
      "\<forall>p. p \<noteq> brk h \<longrightarrow> p \<notin> set (a # qs) \<longrightarrow> cells h' p = cells ?h1 p"
      using sorted_insert_loop_rep [OF seg1 d fresh _ la len, of k x] h1 by auto
    have "List_SortedInsert h l x k = Inr (h', l')"
      using False f ca fresh r(1) by (simp add: List_SortedInsert_def list_op_defs)
    moreover have "list_rep h' l' (a # rs') (kl_sorted_insert x k xs)"
      using r b f xs False h1 by (auto simp: list_rep_def)
    moreover have "store_wf h'"
      unfolding store_wf_def
    proof (intro allI impI)
      fix p assume "brk h' \<le> p"
      then have "p \<noteq> brk h" and "p \<notin> set (a # qs)" and "brk h \<le> p" using r(7) h1 b by auto
      with r(8) h1 wf show "cells h' p = None" by (simp add: store_wf_def)
    qed
    moreover have "store_frame h ps h'"
      using r(7,8) h1 b Cons by (auto simp: store_frame_def)
    ultimately show ?thesis
      using r(4) Cons by (intro exI [of _ h'] exI [of _ l'] exI [of _ "a # rs'"]) auto
  qed
qed


lemma store_frame_trans:
  assumes "store_frame h ps h1" and "store_frame h1 qs h2" and "set qs \<subseteq> set ps"
  shows "store_frame h ps h2"
  using assms unfolding store_frame_def by (metis le_trans less_le_trans subsetD)

lemma mapcar_loop_rep:
  "lseg (cells h) p ps xs None \<Longrightarrow> length xs \<le> fuel \<Longrightarrow> mapcar_loop fuel h f p s = kl_mapcar f xs s"
proof (induction ps arbitrary: p xs fuel s)
  case Nil
  then show ?case by (cases fuel) auto
next
  case (Cons a ps)
  then obtain k x ys n m where "p = Some a" "xs = (k, x) # ys" "fuel = Suc m"
    "cells h a = Some \<lparr>elem_next = n, elem_key = k, elem_item = x\<rparr>" "lseg (cells h) n ps ys None"
    "length ys \<le> m"
    by (cases fuel) auto
  then show ?case by (auto simp: deref_def Cons.IH intro!: bindr_cong)
qed

lemma List_Mapcar_rep: "list_rep h l ps xs \<Longrightarrow> List_Mapcar h l f s = kl_mapcar f xs s"
  unfolding List_Mapcar_def
  using list_rep_bounded [of h l ps xs] mapcar_loop_rep [of h "lfirst l" ps xs "brk h"]
  by (simp add: list_rep_def)

text \<open>How many cells the destructor frees: up to and including the first null item, or all.\<close>

definition deleted :: "('a \<Rightarrow> bool) \<Rightarrow> (int \<times> 'a) list \<Rightarrow> nat" where
  "deleted null xs = Suc (length (takeWhile (\<lambda>y. \<not> null (snd y)) xs))"

lemma deleted_simps: "deleted null (y # ys) = Suc (if null (snd y) then 0 else deleted null ys)" "deleted null [] = 1"
  by (simp_all add: deleted_def)

lemma freed_stays:
  assumes "\<forall>a \<in> set ps. a < brk h" "store_frame h ps h1" "\<forall>a \<in> set ps. cells h1 a \<noteq> None \<longleftrightarrow> a \<in> set (tl ps)"
    and "store_frame h1 (tl ps) h'" "distinct ps" "\<forall>a \<in> set (take m (tl ps)). cells h' a = None"
  shows "\<forall>a \<in> set (take (Suc m) ps). cells h' a = None"
proof (cases ps)
  case (Cons p qs)
  then have "cells h1 p = None" "p < brk h1" "p \<notin> set qs" using assms by (auto simp: store_frame_def)
  then have "cells h' p = None" using assms(4) Cons by (simp add: store_frame_def)
  then show ?thesis using assms(6) Cons by simp
qed simp

lemma list_delete_loop_rep:
  "list_rep h l ps xs \<Longrightarrow> store_wf h \<Longrightarrow> length xs < fuel \<Longrightarrow>
   \<exists>h' l'. list_delete_loop null fuel h l = Inr (h', l') \<and> list_rep h' l' (drop (deleted null xs) ps) (drop (deleted null xs) xs) \<and>
     store_wf h' \<and> (\<forall>a\<in>set (take (deleted null xs) ps). cells h' a = None) \<and> store_frame h ps h'"
proof (induction xs arbitrary: h l ps fuel)
  case Nil
  then show ?case
    using List_Remove_rep [OF Nil.prems(1,2)]
    by (cases fuel) (auto simp: kl_remove_def list_rep_def store_frame_def deleted_simps)
next
  case (Cons kx ys)
  from Cons.prems(3) obtain m where m: "fuel = Suc m" "length ys < m" by (cases fuel) auto
  obtain h1 l1 where r: "List_Remove h l = Inr (h1, l1, Some (snd kx))" "store_wf h1"
    "list_rep h1 l1 (tl ps) ys" "store_frame h ps h1" "\<forall>a\<in>set ps. cells h1 a \<noteq> None \<longleftrightarrow> a \<in> set (tl ps)"
    using List_Remove_rep [OF Cons.prems(1,2)] by (auto simp: kl_remove_def)
  have bound: "\<forall>a\<in>set ps. a < brk h" "distinct ps" using Cons.prems(1) by (simp_all add: list_rep_def)
  note freed = freed_stays [OF bound(1) r(4,5) _ bound(2)]
  show ?case
  proof (cases "null (snd kx)")
    case True
    then have "list_delete_loop null fuel h l = Inr (h1, l1)" using m(1) r(1) by simp
    moreover have "\<forall>a\<in>set (take 1 ps). cells h1 a = None" using freed [of h1 0] by (simp add: store_frame_def)
    ultimately show ?thesis using r True by (simp add: deleted_simps drop_Suc)
  next
    case False
    obtain h' l' where h': "list_delete_loop null m h1 l1 = Inr (h', l')"
      "list_rep h' l' (drop (deleted null ys) (tl ps)) (drop (deleted null ys) ys)" "store_wf h'"
      "\<forall>a\<in>set (take (deleted null ys) (tl ps)). cells h' a = None" "store_frame h1 (tl ps) h'"
      using Cons.IH [OF r(3,2) m(2)] by auto
    have "set (tl ps) \<subseteq> set ps" by (cases ps) auto
    then show ?thesis
      using m(1) r(1) False h'(1-3) freed [OF h'(5,4)] store_frame_trans [OF r(4) h'(5)] by (simp add: deleted_simps drop_Suc)
  qed
qed

lemma List_delete_rep:
  assumes "list_rep h l ps xs" and "store_wf h"
  shows "\<exists>h' l'. List_delete null h l = Inr (h', l') \<and> list_rep h' l' (drop (deleted null xs) ps) (drop (deleted null xs) xs) \<and>
     store_wf h' \<and> (\<forall>a\<in>set (take (deleted null xs) ps). cells h' a = None) \<and> store_frame h ps h'"
  unfolding List_delete_def
  using list_delete_loop_rep [OF assms, of "Suc (brk h)" null] list_rep_bounded [OF assms(1)] by simp

lemma deleted_all: "\<forall>y \<in> set xs. \<not> null (snd y) \<Longrightarrow> deleted null xs = Suc (length xs)"
  by (simp add: deleted_def takeWhile_eq_all_conv [THEN iffD2])

section \<open>The interface the other components use\<close>

text \<open>
  A keyed list is any implementation whose states stand for lists of (key, item) pairs and whose
  operations are total on represented states and refine the abstract ones.
\<close>

locale keyed_list =
  fixes rep :: "'s \<Rightarrow> (int \<times> 'a) list \<Rightarrow> bool"
    and step :: "'a list_op \<Rightarrow> 's \<Rightarrow> ('s \<times> (int \<times> 'a) option list) result"
    and run :: "'a list_op list \<Rightarrow> 's \<Rightarrow> ('s \<times> (int \<times> 'a) option list) result"
    and init :: 's
  assumes rep_init: "rep init []"
    and step_refines: "rep s xs \<Longrightarrow> \<exists>s'. step op s = Inr (s', snd (kl_step op xs)) \<and>
          rep s' (fst (kl_step op xs))"
    and run_Nil: "run [] s = Inr (s, [])"
    and run_Cons: "run (op # ops) s = bindr (step op s) (\<lambda>(s', out).
          bindr (run ops s') (\<lambda>(s'', outs). Inr (s'', out @ outs)))"
begin

lemma run_refines:
  "rep s xs \<Longrightarrow> \<exists>s'. run ops s = Inr (s', snd (kl_run ops xs)) \<and> rep s' (fst (kl_run ops xs))"
proof (induction ops arbitrary: s xs)
  case Nil
  then show ?case by (simp add: run_Nil)
next
  case (Cons op ops)
  obtain s1 where s1: "step op s = Inr (s1, snd (kl_step op xs))" "rep s1 (fst (kl_step op xs))"
    using step_refines [OF Cons.prems, of op] by blast
  obtain s2 where "run ops s1 = Inr (s2, snd (kl_run ops (fst (kl_step op xs))))"
    "rep s2 (fst (kl_run ops (fst (kl_step op xs))))"
    using Cons.IH [OF s1(2)] by blast
  with s1 show ?case by (auto simp: run_Cons split: prod.splits)
qed

lemma run_from_init: "\<exists>s'. run ops init = Inr (s', snd (kl_run ops [])) \<and> rep s' (fst (kl_run ops []))"
  by (rule run_refines [OF rep_init])

end

interpretation nl: keyed_list list_ok list_step list_run "(empty_store, List_new)"
proof unfold_locales
  show "list_ok (empty_store, List_new) []"
    by (auto simp: list_ok_def store_wf_def empty_store_def list_rep_def List_new_def)
next
  fix s :: "'a store \<times> nlist" and xs op
  assume ok: "list_ok s xs"
  obtain h l where s: "s = (h, l)" by (cases s)
  with ok obtain ps where rep: "list_rep h l ps xs" and wf: "store_wf h" by (auto simp: list_ok_def)
  note ops = List_Append_rep [OF rep wf] List_Prepend_rep [OF rep wf]
    List_SortedInsert_rep [OF rep wf] List_SortedRemove_rep [OF rep wf]
  show "\<exists>s'. list_step op s = Inr (s', snd (kl_step op xs)) \<and> list_ok s' (fst (kl_step op xs))"
  proof (cases op)
    case (OpAppend x)
    with ops(1) [of x] s show ?thesis by (auto simp: list_step_def kl_step_def list_ok_def)
  next
    case (OpPrepend x)
    with ops(2) [of x] s show ?thesis by (auto simp: list_step_def kl_step_def list_ok_def)
  next
    case (OpSortedInsert x k)
    with ops(3) [of x k] s show ?thesis by (fastforce simp: list_step_def kl_step_def list_ok_def)
  next
    case OpSortedRemove
    with ops(4) s show ?thesis
      by (auto simp: list_step_def kl_step_def list_ok_def split: prod.splits)
  qed
qed simp_all

section \<open>Order of a sorted list\<close>

lemma mset_kl_sorted_insert [simp]: "mset (kl_sorted_insert x k xs) = add_mset (k, x) (mset xs)"
  by (induction x k xs rule: kl_sorted_insert.induct) auto

lemma set_kl_sorted_insert [simp]: "set (kl_sorted_insert x k xs) = insert (k, x) (set xs)"
  by (induction x k xs rule: kl_sorted_insert.induct) auto

lemma length_kl_sorted_insert [simp]: "length (kl_sorted_insert x k xs) = Suc (length xs)"
  by (induction x k xs rule: kl_sorted_insert.induct) auto

lemma kl_sorted_insert_sorted: "kl_sorted xs \<Longrightarrow> kl_sorted (kl_sorted_insert x k xs)"
  by (induction x k xs rule: kl_sorted_insert.induct) (force simp: kl_sorted_def)+

lemma kl_sorted_tl: "kl_sorted xs \<Longrightarrow> kl_sorted (snd (kl_sorted_remove xs))"
  by (cases xs) (auto simp: kl_sorted_def)

lemma kl_sorted_hd_least:
  "kl_sorted xs \<Longrightarrow> fst (kl_sorted_remove xs) = Some (k, x) \<Longrightarrow> (k', y) \<in> set xs \<Longrightarrow> k \<le> k'"
  by (cases xs) (auto simp: kl_sorted_def)

lemma kl_sorted_insert_split:
  "kl_sorted xs \<Longrightarrow>
   kl_sorted_insert x k xs = filter (\<lambda>y. fst y \<le> k) xs @ (k, x) # filter (\<lambda>y. k < fst y) xs"
proof (induction x k xs rule: kl_sorted_insert.induct)
  case (1 x k)
  then show ?case by simp
next
  case (2 x k k' y xs)
  show ?case
  proof (cases "k < k'")
    case True
    with 2(2) have "\<forall>z\<in>set xs. k < fst z" by (fastforce simp: kl_sorted_def)
    then have "filter (\<lambda>z. fst z \<le> k) xs = []" and "filter (\<lambda>z. k < fst z) xs = xs"
      by (auto simp: filter_empty_conv filter_id_conv)
    with True show ?thesis by simp
  next
    case False
    with 2 show ?thesis by (auto simp: kl_sorted_def)
  qed
qed

lemma kl_sorted_insert_filter_key:
  "kl_sorted xs \<Longrightarrow>
   filter (\<lambda>y. fst y = j) (kl_sorted_insert x k xs) =
     filter (\<lambda>y. fst y = j) xs @ (if k = j then [(k, x)] else [])"
proof -
  assume "kl_sorted xs"
  then show ?thesis
  proof (induction x k xs rule: kl_sorted_insert.induct)
    case (1 x k)
    then show ?case by simp
  next
    case (2 x k k' y xs)
    have none: "filter (\<lambda>z. fst z = k) xs = []" if "k < k'"
      using 2(2) that by (fastforce simp: kl_sorted_def filter_empty_conv)
    show ?case using 2 none by (auto simp: kl_sorted_def)
  qed
qed

lemma kl_sorted_fold_insert:
  "kl_sorted ys \<Longrightarrow> kl_sorted (fold (\<lambda>(k, x) l. kl_sorted_insert x k l) xs ys)"
  by (induction xs arbitrary: ys) (auto simp: kl_sorted_insert_sorted)

lemma filter_fold_insert:
  "kl_sorted ys \<Longrightarrow>
   filter (\<lambda>y. fst y = j) (fold (\<lambda>(k, x) l. kl_sorted_insert x k l) xs ys) =
     filter (\<lambda>y. fst y = j) ys @ filter (\<lambda>y. fst y = j) xs"
  by (induction xs arbitrary: ys)
    (auto simp: kl_sorted_insert_filter_key kl_sorted_insert_sorted)

lemma mset_fold_insert:
  "mset (fold (\<lambda>(k, x) l. kl_sorted_insert x k l) xs ys) = mset xs + mset ys"
  by (induction xs arbitrary: ys) (auto split: prod.splits)

lemma fold_sorted_insert_sort_key:
  "fold (\<lambda>(k, x) l. kl_sorted_insert x k l) xs [] = sort_key fst xs"
proof (rule properties_for_sort_key [symmetric])
  show "mset (fold (\<lambda>(k, x) l. kl_sorted_insert x k l) xs []) = mset xs"
    by (simp add: mset_fold_insert)
  show "filter (\<lambda>y. fst kx = fst y) (fold (\<lambda>(k, x) l. kl_sorted_insert x k l) xs []) =
      filter (\<lambda>y. fst kx = fst y) xs" for kx :: "int \<times> 'a"
    using filter_fold_insert [of "[]" "fst kx" xs] by (simp add: kl_sorted_def eq_commute)
  show "sorted (map fst (fold (\<lambda>(k, x) l. kl_sorted_insert x k l) xs []))"
    using kl_sorted_fold_insert [of "[]" xs] by (simp add: kl_sorted_def)
qed

lemma kl_run_inserts:
  "kl_run (map (\<lambda>(k, x). OpSortedInsert x k) xs) ys =
     (fold (\<lambda>(k, x) l. kl_sorted_insert x k l) xs ys, [])"
  by (induction xs arbitrary: ys) (auto simp: kl_step_def)

lemma kl_run_drain:
  "kl_run (replicate (length xs) OpSortedRemove) xs = ([], map Some xs)"
  by (induction xs) (auto simp: kl_step_def)

lemma kl_run_append:
  "kl_run (as @ bs) xs = (case kl_run as xs of (ys, out) \<Rightarrow>
     (case kl_run bs ys of (zs, outs) \<Rightarrow> (zs, out @ outs)))"
  by (induction as arbitrary: xs) (auto split: prod.splits)


section \<open>Properties\<close>

text \<open>
  (C16) Any sequence of \<^verbatim>\<open>Append\<close>, \<^verbatim>\<open>Prepend\<close>, \<^verbatim>\<open>SortedInsert\<close> and \<^verbatim>\<open>SortedRemove\<close> calls on a new
  list runs without following a null or dangling pointer and without looping forever, returns
  what the abstract list returns, and leaves a store that represents the abstract list.
\<close>

theorem List_run_refines:
  "\<exists>s. list_run ops (empty_store, List_new) = Inr (s, snd (kl_run ops [])) \<and>
       list_ok s (fst (kl_run ops []))"
  by (rule nl.run_from_init)

text \<open>
  (C26) Items put on a new list with \<^verbatim>\<open>SortedInsert\<close> come off it with \<^verbatim>\<open>SortedRemove\<close> in the stable
  sorted order of their keys: smallest key first, and among equal keys in insertion order.
\<close>

theorem SortedInsert_SortedRemove_sorts:
  "\<exists>s. list_run (map (\<lambda>(k, x). OpSortedInsert x k) kxs @ replicate (length kxs) OpSortedRemove)
         (empty_store, List_new) = Inr (s, map Some (sort_key fst kxs)) \<and> list_ok s []"
proof -
  let ?ops = "map (\<lambda>(k, x). OpSortedInsert x k) kxs @ replicate (length kxs) OpSortedRemove"
  have "kl_run ?ops [] = ([], map Some (sort_key fst kxs))"
    using kl_run_drain [of "sort_key fst kxs"]
    by (simp add: kl_run_append kl_run_inserts fold_sorted_insert_sort_key)
  then show ?thesis using nl.run_from_init [of ?ops] by simp
qed

text \<open>
  On a well-formed list \<^verbatim>\<open>SortedInsert\<close> returns, inserts after the elements with smaller or
  equal keys, keeps a sorted list sorted, and changes no cell outside the list.
\<close>

lemma List_SortedInsert_correct:
  assumes "list_rep h l ps xs" and "store_wf h" and "kl_sorted xs"
  shows "\<exists>h' l' ps'. List_SortedInsert h l x k = Inr (h', l') \<and>
     list_rep h' l' ps' (filter (\<lambda>y. fst y \<le> k) xs @ (k, x) # filter (\<lambda>y. k < fst y) xs) \<and>
     kl_sorted (filter (\<lambda>y. fst y \<le> k) xs @ (k, x) # filter (\<lambda>y. k < fst y) xs) \<and>
     store_wf h' \<and> store_frame h ps h'"
  using List_SortedInsert_rep [OF assms(1,2), of x k] kl_sorted_insert_sorted [OF assms(3), of x k]
  by (auto simp: kl_sorted_insert_split [OF assms(3)])

text \<open>
  (C27) The destructor of a well-formed list terminates and touches no cell outside the list. When no item is a null
  pointer it frees every cell and the list is empty. In general it frees the cells up to and including the first
  null item, because it takes that item for the end; the cells behind it stay allocated, and the list still
  holds exactly them.
\<close>

theorem List_delete_frees:
  assumes "list_rep h l ps xs" and "store_wf h"
  shows "\<exists>h' l'. List_delete null h l = Inr (h', l') \<and> store_frame h ps h' \<and>
     ((\<forall>y \<in> set xs. \<not> null (snd y)) \<longrightarrow> List_IsEmpty l' \<and> (\<forall>a\<in>set ps. cells h' a = None)) \<and>
     (\<forall>us k x vs. xs = us @ (k, x) # vs \<and> null x \<and> (\<forall>y \<in> set us. \<not> null (snd y)) \<longrightarrow>
        (\<forall>a\<in>set (take (length us + 1) ps). cells h' a = None) \<and> list_rep h' l' (drop (length us + 1) ps) vs)"
proof -
  obtain h' l' where d: "List_delete null h l = Inr (h', l')" "list_rep h' l' (drop (deleted null xs) ps) (drop (deleted null xs) xs)"
    "\<forall>a\<in>set (take (deleted null xs) ps). cells h' a = None" "store_frame h ps h'" using List_delete_rep [OF assms] by blast
  have len: "length ps = length xs" using assms(1) lseg_length by (auto simp: list_rep_def)
  have "List_IsEmpty l' \<and> (\<forall>a\<in>set ps. cells h' a = None)" if "\<forall>y \<in> set xs. \<not> null (snd y)"
    using d(2,3) len by (simp add: deleted_all [OF that] list_rep_def List_IsEmpty_def)
  moreover have "(\<forall>a\<in>set (take (length us + 1) ps). cells h' a = None) \<and> list_rep h' l' (drop (length us + 1) ps) vs"
    if "xs = us @ (k, x) # vs" "null x" "\<forall>y \<in> set us. \<not> null (snd y)" for us k x vs
  proof -
    have "deleted null xs = length us + 1" using that by (simp add: deleted_def takeWhile_append2)
    then show ?thesis using d(2,3) that(1) by simp
  qed
  ultimately show ?thesis using d(1,4) by blast
qed

theorem List_delete_frees_witness:
  "\<exists>h' l'. List_delete Not \<lparr>cells = [0 \<mapsto> \<lparr>elem_next = Some 1, elem_key = 3, elem_item = False\<rparr>, 1 \<mapsto> \<lparr>elem_next = None, elem_key = 4, elem_item = True\<rparr>], brk = 2\<rparr>
       \<lparr>lfirst = Some 0, llast = Some 1\<rparr> = Inr (h', l') \<and> cells h' 0 = None \<and> list_rep h' l' [1] [(4, True)]"
proof -
  let ?h = "\<lparr>cells = [0 \<mapsto> \<lparr>elem_next = Some 1, elem_key = 3, elem_item = False\<rparr>, 1 \<mapsto> \<lparr>elem_next = None, elem_key = 4, elem_item = True\<rparr>], brk = 2\<rparr>"
  have "list_rep ?h \<lparr>lfirst = Some 0, llast = Some 1\<rparr> [0, 1] [(3, False), (4, True)]" and "store_wf ?h"
    by (auto simp: list_rep_def store_wf_def)
  from List_delete_frees [OF this, of Not] show ?thesis by fastforce
qed

end
