(* ===== verification/Nachos_BitMap.thy ===== *)
theory Nachos_BitMap
  imports Nachos_Prelude
begin

text \<open>
  The allocation bitmap of \<^verbatim>\<open>userprog/bitmap.h\<close> and \<^verbatim>\<open>userprog/bitmap.cc\<close>: bits packed into
  32-bit words, with the assertions and loops of the source. The lemmas relate it to the set of
  marked bit numbers, and the locale \<open>unit_allocator\<close> states what a client that calls
  \<^verbatim>\<open>Find\<close> repeatedly (\<^verbatim>\<open>FileHeader::Allocate\<close>, the page fault handler) may rely on.
\<close>

section \<open>The data structure and its operations\<close>

definition BitsInByte :: int where "BitsInByte = 8"
definition BitsInWord :: int where "BitsInWord = 32"

record BitMap =
  numBits :: int
  numWords :: int
  bmap :: "u32 list"

definition BitMap_Mark :: "BitMap \<Rightarrow> int \<Rightarrow> BitMap result" where
  "BitMap_Mark bm which =
     bindr (ASSERT (which \<ge> 0 \<and> which < numBits bm)) (\<lambda>_.
     bindr (arr_get (bmap bm) (which sdiv BitsInWord)) (\<lambda>w.
     bindr (arr_set (bmap bm) (which sdiv BitsInWord) (w OR push_bit (nat (which smod BitsInWord)) 1))
       (\<lambda>m. Inr (bm\<lparr>bmap := m\<rparr>))))"

definition BitMap_Clear :: "BitMap \<Rightarrow> int \<Rightarrow> BitMap result" where
  "BitMap_Clear bm which =
     bindr (ASSERT (which \<ge> 0 \<and> which < numBits bm)) (\<lambda>_.
     bindr (arr_get (bmap bm) (which sdiv BitsInWord)) (\<lambda>w.
     bindr (arr_set (bmap bm) (which sdiv BitsInWord)
              (w AND NOT (push_bit (nat (which smod BitsInWord)) 1)))
       (\<lambda>m. Inr (bm\<lparr>bmap := m\<rparr>))))"

definition BitMap_Test :: "BitMap \<Rightarrow> int \<Rightarrow> bool result" where
  "BitMap_Test bm which =
     bindr (ASSERT (which \<ge> 0 \<and> which < numBits bm)) (\<lambda>_.
     bindr (arr_get (bmap bm) (which sdiv BitsInWord)) (\<lambda>w.
       Inr (w AND push_bit (nat (which smod BitsInWord)) 1 \<noteq> 0)))"

text \<open>
  The constructor allocates \<^verbatim>\<open>numWords\<close> words without initialising them (\<open>mem\<close> is what the
  memory happens to hold) and clears the first \<^verbatim>\<open>nitems\<close> bits one by one.
\<close>

function clear_loop :: "int \<Rightarrow> BitMap \<Rightarrow> int \<Rightarrow> BitMap result" where
  "clear_loop n bm i =
     (if i < n then bindr (BitMap_Clear bm i) (\<lambda>bm'. clear_loop n bm' (i + 1)) else Inr bm)"
  by pat_completeness auto
termination
  by (relation "measure (\<lambda>(n, bm, i). nat (n - i))") auto

definition BitMap_new :: "u32 list \<Rightarrow> int \<Rightarrow> BitMap result" where
  "BitMap_new mem nitems =
     (let nw = divRoundUp nitems BitsInWord
      in clear_loop nitems \<lparr>numBits = nitems, numWords = nw, bmap = take (nat nw) mem\<rparr> 0)"

function find_loop :: "BitMap \<Rightarrow> int \<Rightarrow> (BitMap \<times> int) result" where
  "find_loop bm i =
     (if i < numBits bm then
        bindr (BitMap_Test bm i) (\<lambda>t.
          if \<not> t then bindr (BitMap_Mark bm i) (\<lambda>bm'. Inr (bm', i))
          else find_loop bm (i + 1))
      else Inr (bm, -1))"
  by pat_completeness auto
termination
  by (relation "measure (\<lambda>(bm, i). nat (numBits bm - i))") auto

definition BitMap_Find :: "BitMap \<Rightarrow> (BitMap \<times> int) result" where
  "BitMap_Find bm = find_loop bm 0"

function num_clear_loop :: "BitMap \<Rightarrow> int \<Rightarrow> int \<Rightarrow> int result" where
  "num_clear_loop bm i count =
     (if i < numBits bm then
        bindr (BitMap_Test bm i) (\<lambda>t. num_clear_loop bm (i + 1) (if \<not> t then count + 1 else count))
      else Inr count)"
  by pat_completeness auto
termination
  by (relation "measure (\<lambda>(bm, i, c). nat (numBits bm - i))") auto

definition BitMap_NumClear :: "BitMap \<Rightarrow> int result" where
  "BitMap_NumClear bm = num_clear_loop bm 0 0"

text \<open>
  \<^verbatim>\<open>myFind\<close> looks for \<^verbatim>\<open>size\<close> consecutive clear bits. Its inner loop tests every \<^verbatim>\<open>i + j\<close>, without
  a check against \<^verbatim>\<open>numBits\<close> of its own: past the end the assertion of \<^verbatim>\<open>Test\<close> fails.
\<close>

function my_test_loop :: "BitMap \<Rightarrow> int \<Rightarrow> int \<Rightarrow> int \<Rightarrow> bool \<Rightarrow> bool result" where
  "my_test_loop bm i sz j flag =
     (if j < sz then
        bindr (BitMap_Test bm (i + j)) (\<lambda>t. my_test_loop bm i sz (j + 1) (if t then False else flag))
      else Inr flag)"
  by pat_completeness auto
termination
  by (relation "measure (\<lambda>(bm, i, sz, j, f). nat (sz - j))") auto

function my_mark_loop :: "BitMap \<Rightarrow> int \<Rightarrow> int \<Rightarrow> int \<Rightarrow> BitMap result" where
  "my_mark_loop bm i sz j =
     (if j < sz then bindr (BitMap_Mark bm (i + j)) (\<lambda>bm'. my_mark_loop bm' i sz (j + 1))
      else Inr bm)"
  by pat_completeness auto
termination
  by (relation "measure (\<lambda>(bm, i, sz, j). nat (sz - j))") auto

function my_find_loop :: "BitMap \<Rightarrow> int \<Rightarrow> int \<Rightarrow> (BitMap \<times> int) result" where
  "my_find_loop bm sz i =
     (if i < numBits bm then
        bindr (my_test_loop bm i sz 0 True) (\<lambda>flag.
          if flag then bindr (my_mark_loop bm i sz 0) (\<lambda>bm'. Inr (bm', i))
          else my_find_loop bm sz (i + 1))
      else Inr (bm, -1))"
  by pat_completeness auto
termination
  by (relation "measure (\<lambda>(bm, sz, i). nat (numBits bm - i))") auto

definition BitMap_myFind :: "BitMap \<Rightarrow> int \<Rightarrow> (BitMap \<times> int) result" where
  "BitMap_myFind bm sz = my_find_loop bm sz 0"

text \<open>\<^verbatim>\<open>Print\<close> prints the numbers of the marked bits; the model returns them in order.\<close>

function print_loop :: "BitMap \<Rightarrow> int \<Rightarrow> int list result" where
  "print_loop bm i =
     (if i < numBits bm then
        bindr (BitMap_Test bm i) (\<lambda>t.
        bindr (print_loop bm (i + 1)) (\<lambda>out. Inr (if t then i # out else out)))
      else Inr [])"
  by pat_completeness auto
termination
  by (relation "measure (\<lambda>(bm, i). nat (numBits bm - i))") auto

definition BitMap_Print :: "BitMap \<Rightarrow> int list result" where
  "BitMap_Print bm = print_loop bm 0"

text \<open>The words as the bytes that \<^verbatim>\<open>WriteBack\<close> hands to a file and \<^verbatim>\<open>FetchFrom\<close> reads.\<close>

definition BitMap_bytes :: "BitMap \<Rightarrow> byte list" where
  "BitMap_bytes bm = concat (map le32 (bmap bm))"

fun words_of_bytes :: "byte list \<Rightarrow> u32 list" where
  "words_of_bytes (a # b # c # d # bs) = un_le32 [a, b, c, d] # words_of_bytes bs"
| "words_of_bytes _ = []"

declare clear_loop.simps [simp del] find_loop.simps [simp del] num_clear_loop.simps [simp del]
  my_test_loop.simps [simp del] my_mark_loop.simps [simp del] my_find_loop.simps [simp del]
  print_loop.simps [simp del]

section \<open>The set of marked bits\<close>

definition bm_wf :: "BitMap \<Rightarrow> bool" where
  "bm_wf bm \<longleftrightarrow> 0 \<le> numBits bm \<and> numWords bm = divRoundUp (numBits bm) BitsInWord \<and>
     length (bmap bm) = nat (numWords bm)"

definition bm_bit :: "BitMap \<Rightarrow> int \<Rightarrow> bool" where
  "bm_bit bm i \<longleftrightarrow> bit (bmap bm ! nat (i div 32)) (nat (i mod 32))"

definition bm_marked :: "BitMap \<Rightarrow> int set" where
  "bm_marked bm = {i. 0 \<le> i \<and> i < numBits bm \<and> bm_bit bm i}"

text \<open>Calling an allocator \<open>k\<close> times, as the loops of \<^verbatim>\<open>FileHeader::Allocate\<close> do.\<close>

fun alloc_n :: "('s \<Rightarrow> ('s \<times> int) result) \<Rightarrow> nat \<Rightarrow> 's \<Rightarrow> ('s \<times> int list) result" where
  "alloc_n fnd 0 s = Inr (s, [])"
| "alloc_n fnd (Suc k) s =
     bindr (fnd s) (\<lambda>(s', i). bindr (alloc_n fnd k s') (\<lambda>(s'', ks). Inr (s'', i # ks)))"

section \<open>Basic facts\<close>

lemma bm_word_index:
  assumes "bm_wf bm" "0 \<le> i" "i < numBits bm"
  shows "nat (i div 32) < length (bmap bm)"
proof -
  have "numBits bm \<le> numWords bm * 32"
    using assms divRoundUp_bounds(1) [of "numBits bm" 32] by (simp add: bm_wf_def BitsInWord_def)
  then have "i div 32 < numWords bm" using assms by (simp add: div_less_iff_less_mult)
  then show ?thesis using assms by (simp add: bm_wf_def)
qed

lemma word_index_ok:
  assumes "bm_wf bm" "0 \<le> i" "i < numBits bm"
  shows "arr_get (bmap bm) (i sdiv BitsInWord) = Inr (bmap bm ! nat (i div 32))"
    and "arr_set (bmap bm) (i sdiv BitsInWord) w = Inr ((bmap bm)[nat (i div 32) := w])"
    and "nat (i smod BitsInWord) = nat (i mod 32)"
  using bm_word_index [OF assms] assms by (auto simp: BitsInWord_def nat_less_iff zless_nat_eq_int_zless)

lemma BitMap_Test_ok:
  "bm_wf bm \<Longrightarrow> 0 \<le> i \<Longrightarrow> i < numBits bm \<Longrightarrow> BitMap_Test bm i = Inr (i \<in> bm_marked bm)"
  by (simp add: BitMap_Test_def word_index_ok bm_marked_def bm_bit_def bit_iff_and_push_bit_not_eq_0)

lemma BitMap_Test_out: "i < 0 \<or> numBits bm \<le> i \<Longrightarrow> BitMap_Test bm i = Inl AssertFailed"
  by (auto simp: BitMap_Test_def ASSERT_def)

lemma index_eq_iff:
  "0 \<le> (i::int) \<Longrightarrow> 0 \<le> j \<Longrightarrow> nat (i div 32) = nat (j div 32) \<and> nat (i mod 32) = nat (j mod 32) \<longleftrightarrow> i = j"
  by (metis div_mult_mod_eq eq_nat_nat_iff pos_imp_zdiv_nonneg_iff pos_mod_sign zero_less_numeral)

lemma mod32_less: "0 \<le> (i::int) \<Longrightarrow> nat (i mod 32) < 32"
  by (simp add: nat_less_iff)

lemma bm_bit_update:
  assumes "nat (i div 32) < length (bmap bm)" "0 \<le> i" "0 \<le> j"
    and b: "\<And>n. n < 32 \<Longrightarrow> bit w n = (if n = nat (i mod 32) then v else bit (bmap bm ! nat (i div 32)) n)"
  shows "bm_bit (bm\<lparr>bmap := (bmap bm)[nat (i div 32) := w]\<rparr>) j = (if j = i then v else bm_bit bm j)"
proof (cases "nat (j div 32) = nat (i div 32)")
  case True
  then show ?thesis
    using assms index_eq_iff [of j i] mod32_less [of j] by (simp add: bm_bit_def)
next
  case False
  then show ?thesis using index_eq_iff [of j i] assms by (auto simp: bm_bit_def)
qed

lemma BitMap_Mark_ok:
  assumes "bm_wf bm" "0 \<le> i" "i < numBits bm"
  shows "\<exists>bm'. BitMap_Mark bm i = Inr bm' \<and> bm_wf bm' \<and> numBits bm' = numBits bm \<and>
     bm_marked bm' = insert i (bm_marked bm)"
proof -
  let ?w = "bmap bm ! nat (i div 32) OR push_bit (nat (i mod 32)) 1"
  let ?bm' = "bm\<lparr>bmap := (bmap bm)[nat (i div 32) := ?w]\<rparr>"
  have eq: "BitMap_Mark bm i = Inr ?bm'"
    using assms by (simp add: BitMap_Mark_def word_index_ok)
  have "bm_bit ?bm' j = (if j = i then True else bm_bit bm j)" if "0 \<le> j" for j
    using bm_word_index [OF assms] assms(2) that mod32_less [OF assms(2)]
    by (intro bm_bit_update) (auto simp: bit_simps)
  then have "bm_marked ?bm' = insert i (bm_marked bm)"
    using assms by (auto simp: bm_marked_def)
  with eq show ?thesis using assms(1) by (simp add: bm_wf_def)
qed

lemma BitMap_Clear_ok:
  assumes "bm_wf bm" "0 \<le> i" "i < numBits bm"
  shows "\<exists>bm'. BitMap_Clear bm i = Inr bm' \<and> bm_wf bm' \<and> numBits bm' = numBits bm \<and>
     bm_marked bm' = bm_marked bm - {i}"
proof -
  let ?w = "bmap bm ! nat (i div 32) AND NOT (push_bit (nat (i mod 32)) 1)"
  let ?bm' = "bm\<lparr>bmap := (bmap bm)[nat (i div 32) := ?w]\<rparr>"
  have eq: "BitMap_Clear bm i = Inr ?bm'"
    using assms by (simp add: BitMap_Clear_def word_index_ok)
  have "bm_bit ?bm' j = (if j = i then False else bm_bit bm j)" if "0 \<le> j" for j
    using bm_word_index [OF assms] assms(2) that mod32_less [OF assms(2)]
    by (intro bm_bit_update) (auto simp: bit_simps)
  then have "bm_marked ?bm' = bm_marked bm - {i}"
    using assms unfolding bm_marked_def by (auto split: if_splits)
  with eq show ?thesis using assms(1) by (simp add: bm_wf_def)
qed

lemma BitMap_Clear_out: "i < 0 \<or> numBits bm \<le> i \<Longrightarrow> BitMap_Clear bm i = Inl AssertFailed"
  by (auto simp: BitMap_Clear_def ASSERT_def)

lemma finite_bm_marked [simp]: "finite (bm_marked bm)"
  by (rule finite_subset [of _ "{0..<numBits bm}"]) (auto simp: bm_marked_def)

lemma bm_marked_bounds: "i \<in> bm_marked bm \<Longrightarrow> 0 \<le> i \<and> i < numBits bm"
  by (simp add: bm_marked_def)

section \<open>The loops\<close>

lemma clear_loop_ok:
  "bm_wf bm \<Longrightarrow> 0 \<le> i \<Longrightarrow> n = numBits bm \<Longrightarrow>
   \<exists>bm'. clear_loop n bm i = Inr bm' \<and> bm_wf bm' \<and> numBits bm' = n \<and>
     bm_marked bm' = bm_marked bm - {i..}"
proof (induction n bm i rule: clear_loop.induct)
  case (1 n bm i)
  show ?case
  proof (cases "i < n")
    case True
    then obtain bm1 where b: "BitMap_Clear bm i = Inr bm1" "bm_wf bm1" "numBits bm1 = n"
      "bm_marked bm1 = bm_marked bm - {i}"
      using BitMap_Clear_ok [of bm i] "1.prems" by auto
    with "1.IH" [OF True b(1)] "1.prems" obtain bm' where "clear_loop n bm1 (i + 1) = Inr bm'"
      "bm_wf bm'" "numBits bm' = n" "bm_marked bm' = bm_marked bm1 - {i + 1..}"
      by auto
    moreover have "{i..} = insert i {i + 1..}" by auto
    ultimately show ?thesis using True b by (auto simp: clear_loop.simps [of n bm i])
  next
    case False
    then have "bm_marked bm - {i..} = bm_marked bm" using "1.prems" by (auto simp: bm_marked_def)
    with False "1.prems" show ?thesis by (auto simp: clear_loop.simps [of _ bm i])
  qed
qed

lemma BitMap_new_ok:
  assumes "0 \<le> n" and "nat (divRoundUp n 32) \<le> length mem"
  shows "\<exists>bm. BitMap_new mem n = Inr bm \<and> bm_wf bm \<and> numBits bm = n \<and> bm_marked bm = {}"
proof -
  let ?bm = "\<lparr>numBits = n, numWords = divRoundUp n BitsInWord, bmap = take (nat (divRoundUp n BitsInWord)) mem\<rparr>"
  have "bm_wf ?bm" using assms by (simp add: bm_wf_def BitsInWord_def)
  from clear_loop_ok [OF this, of 0] show ?thesis
    by (auto simp: BitMap_new_def Let_def bm_marked_def)
qed

lemma find_loop_ok:
  assumes "bm_wf bm" "0 \<le> i" "{0..<i} \<subseteq> bm_marked bm"
  shows "(bm_marked bm = {0..<numBits bm} \<and> find_loop bm i = Inr (bm, -1)) \<or>
    (\<exists>bm' k. find_loop bm i = Inr (bm', k) \<and> 0 \<le> k \<and> k < numBits bm \<and> k \<notin> bm_marked bm \<and>
      {0..<k} \<subseteq> bm_marked bm \<and> bm_wf bm' \<and> numBits bm' = numBits bm \<and>
      bm_marked bm' = insert k (bm_marked bm))"
  using assms
proof (induction bm i rule: find_loop.induct)
  case (1 bm i)
  show ?case
  proof (cases "i < numBits bm")
    case True
    then have t: "BitMap_Test bm i = Inr (i \<in> bm_marked bm)"
      using "1.prems" by (simp add: BitMap_Test_ok)
    show ?thesis
    proof (cases "i \<in> bm_marked bm")
      case False
      obtain bm' where "BitMap_Mark bm i = Inr bm'" "bm_wf bm'" "numBits bm' = numBits bm"
        "bm_marked bm' = insert i (bm_marked bm)"
        using BitMap_Mark_ok True "1.prems" by blast
      with False True t "1.prems" have "find_loop bm i = Inr (bm', i)"
        by (simp add: find_loop.simps [of bm i])
      with False True "1.prems" \<open>bm_wf bm'\<close> \<open>numBits bm' = numBits bm\<close>
        \<open>bm_marked bm' = insert i (bm_marked bm)\<close> show ?thesis by blast
    next
      case marked: True
      have "{0..<i + 1} = insert i {0..<i}" using "1.prems"(2) by auto
      then have "{0..<i + 1} \<subseteq> bm_marked bm" using marked "1.prems"(3) by simp
      moreover have "find_loop bm i = find_loop bm (i + 1)"
        using True t marked by (simp add: find_loop.simps [of bm i])
      ultimately show ?thesis
        using "1.IH" [OF True t] marked "1.prems" by simp
    qed
  next
    case False
    then have "{0..<numBits bm} \<subseteq> {0..<i}" by auto
    with "1.prems"(3) have "bm_marked bm = {0..<numBits bm}"
      using bm_marked_bounds by fastforce
    with False show ?thesis by (simp add: find_loop.simps [of bm i])
  qed
qed

lemma BitMap_Find_full:
  "bm_wf bm \<Longrightarrow> bm_marked bm = {0..<numBits bm} \<Longrightarrow> BitMap_Find bm = Inr (bm, -1)"
  using find_loop_ok [of bm 0] by (auto simp: BitMap_Find_def)

lemma BitMap_Find_free:
  assumes "bm_wf bm" "bm_marked bm \<noteq> {0..<numBits bm}"
  obtains bm' k where "BitMap_Find bm = Inr (bm', k)" "0 \<le> k" "k < numBits bm" "k \<notin> bm_marked bm"
    "{0..<k} \<subseteq> bm_marked bm" "bm_wf bm'" "numBits bm' = numBits bm"
    "bm_marked bm' = insert k (bm_marked bm)"
  using find_loop_ok [of bm 0] assms by (auto simp: BitMap_Find_def)

lemma num_clear_loop_ok:
  "bm_wf bm \<Longrightarrow> 0 \<le> i \<Longrightarrow>
   num_clear_loop bm i c = Inr (c + int (card ({i..<numBits bm} - bm_marked bm)))"
proof (induction bm i c rule: num_clear_loop.induct)
  case (1 bm i c)
  show ?case
  proof (cases "i < numBits bm")
    case True
    then have t: "BitMap_Test bm i = Inr (i \<in> bm_marked bm)"
      using "1.prems" by (simp add: BitMap_Test_ok)
    have split: "{i..<numBits bm} = insert i {i + 1..<numBits bm}" using True by auto
    have "card ({i..<numBits bm} - bm_marked bm) =
        (if i \<in> bm_marked bm then 0 else 1) + card ({i + 1..<numBits bm} - bm_marked bm)"
      unfolding split by (simp add: insert_Diff_if)
    with True t "1.IH" [OF True t] "1.prems" show ?thesis
      by (simp add: num_clear_loop.simps [of bm i c])
  next
    case False
    then show ?thesis by (simp add: num_clear_loop.simps [of bm i c])
  qed
qed

lemma BitMap_NumClear_ok:
  "bm_wf bm \<Longrightarrow> BitMap_NumClear bm = Inr (int (card ({0..<numBits bm} - bm_marked bm)))"
  by (simp add: BitMap_NumClear_def num_clear_loop_ok)

lemma print_loop_ok:
  "bm_wf bm \<Longrightarrow> 0 \<le> i \<Longrightarrow> print_loop bm i = Inr (filter (\<lambda>k. k \<in> bm_marked bm) [i..numBits bm - 1])"
proof (induction bm i rule: print_loop.induct)
  case (1 bm i)
  show ?case
  proof (cases "i < numBits bm")
    case True
    then have t: "BitMap_Test bm i = Inr (i \<in> bm_marked bm)"
      using "1.prems" by (simp add: BitMap_Test_ok)
    with True "1.IH" [OF True t] "1.prems" show ?thesis
      by (simp add: print_loop.simps [of bm i] upto_rec1)
  next
    case False
    then show ?thesis by (simp add: print_loop.simps [of bm i])
  qed
qed


lemma my_test_loop_ok:
  "bm_wf bm \<Longrightarrow> 0 \<le> i \<Longrightarrow> 0 \<le> j \<Longrightarrow> i + sz \<le> numBits bm \<Longrightarrow>
   my_test_loop bm i sz j flag = Inr (flag \<and> {i + j..<i + sz} \<inter> bm_marked bm = {})"
proof (induction bm i sz j flag rule: my_test_loop.induct)
  case (1 bm i sz j flag)
  show ?case
  proof (cases "j < sz")
    case True
    then have t: "BitMap_Test bm (i + j) = Inr (i + j \<in> bm_marked bm)"
      using "1.prems" by (simp add: BitMap_Test_ok)
    have split: "{i + j..<i + sz} = insert (i + j) {i + (j + 1)..<i + sz}" using True by auto
    show ?thesis
      using True t "1.IH" [OF True t] "1.prems"
      by (simp add: my_test_loop.simps [of bm i sz j flag] split)
  next
    case False
    then show ?thesis by (simp add: my_test_loop.simps [of bm i sz j flag])
  qed
qed

lemma my_test_loop_out:
  "bm_wf bm \<Longrightarrow> 0 \<le> i \<Longrightarrow> 0 \<le> j \<Longrightarrow> j < sz \<Longrightarrow> numBits bm < i + sz \<Longrightarrow>
   my_test_loop bm i sz j flag = Inl AssertFailed"
proof (induction bm i sz j flag rule: my_test_loop.induct)
  case (1 bm i sz j flag)
  show ?case
  proof (cases "i + j < numBits bm")
    case True
    then have t: "BitMap_Test bm (i + j) = Inr (i + j \<in> bm_marked bm)"
      using "1.prems" by (simp add: BitMap_Test_ok)
    show ?thesis
      using True t "1.IH" [OF "1.prems"(4) t] "1.prems"
      by (simp add: my_test_loop.simps [of bm i sz j flag])
  next
    case False
    with "1.prems" show ?thesis
      by (simp add: my_test_loop.simps [of bm i sz j flag] BitMap_Test_out)
  qed
qed

lemma my_mark_loop_ok:
  "bm_wf bm \<Longrightarrow> 0 \<le> i \<Longrightarrow> 0 \<le> j \<Longrightarrow> i + sz \<le> numBits bm \<Longrightarrow>
   \<exists>bm'. my_mark_loop bm i sz j = Inr bm' \<and> bm_wf bm' \<and> numBits bm' = numBits bm \<and>
     bm_marked bm' = bm_marked bm \<union> {i + j..<i + sz}"
proof (induction bm i sz j rule: my_mark_loop.induct)
  case (1 bm i sz j)
  show ?case
  proof (cases "j < sz")
    case True
    then obtain bm1 where m: "BitMap_Mark bm (i + j) = Inr bm1" "bm_wf bm1" "numBits bm1 = numBits bm"
      "bm_marked bm1 = insert (i + j) (bm_marked bm)"
      using BitMap_Mark_ok [of bm "i + j"] "1.prems" by auto
    have split: "{i + j..<i + sz} = insert (i + j) {i + (j + 1)..<i + sz}" using True by auto
    show ?thesis
      using True m "1.IH" [OF True m(1)] "1.prems"
      by (auto simp: my_mark_loop.simps [of bm i sz j] split)
  next
    case False
    with "1.prems" show ?thesis by (simp add: my_mark_loop.simps [of bm i sz j])
  qed
qed

lemma my_find_loop_ok:
  assumes "bm_wf bm" "0 \<le> i" "i \<le> k" "0 < sz" "k + sz \<le> numBits bm"
    and "{k..<k + sz} \<inter> bm_marked bm = {}"
    and "\<And>m. i \<le> m \<Longrightarrow> m < k \<Longrightarrow> {m..<m + sz} \<inter> bm_marked bm \<noteq> {}"
  shows "\<exists>bm'. my_find_loop bm sz i = Inr (bm', k) \<and> bm_wf bm' \<and> numBits bm' = numBits bm \<and>
    bm_marked bm' = bm_marked bm \<union> {k..<k + sz}"
  using assms
proof (induction bm sz i rule: my_find_loop.induct)
  case (1 bm sz i)
  have lt: "i < numBits bm" using "1.prems" by simp
  have t: "my_test_loop bm i sz 0 True = Inr ({i..<i + sz} \<inter> bm_marked bm = {})"
    using my_test_loop_ok [of bm i 0 sz True] "1.prems" by simp
  show ?case
  proof (cases "i = k")
    case True
    with "1.prems" lt t my_mark_loop_ok [of bm i 0 sz] show ?thesis
      by (subst my_find_loop.simps) auto
  next
    case False
    then have ne: "{i..<i + sz} \<inter> bm_marked bm \<noteq> {}" using "1.prems" by auto
    have "my_find_loop bm sz i = my_find_loop bm sz (i + 1)"
      using lt t ne by (simp add: my_find_loop.simps [of bm sz i])
    moreover have "\<exists>bm'. my_find_loop bm sz (i + 1) = Inr (bm', k) \<and> bm_wf bm' \<and>
        numBits bm' = numBits bm \<and> bm_marked bm' = bm_marked bm \<union> {k..<k + sz}"
      using "1.prems" False ne by (intro "1.IH" [OF lt t]) auto
    ultimately show ?thesis by simp
  qed
qed

lemma my_find_loop_abort:
  assumes "bm_wf bm" "0 \<le> i" "i < numBits bm" "2 \<le> sz"
    and "\<And>m. i \<le> m \<Longrightarrow> m + sz \<le> numBits bm \<Longrightarrow> {m..<m + sz} \<inter> bm_marked bm \<noteq> {}"
  shows "my_find_loop bm sz i = Inl AssertFailed"
  using assms
proof (induction bm sz i rule: my_find_loop.induct)
  case (1 bm sz i)
  show ?case
  proof (cases "i + sz \<le> numBits bm")
    case True
    have t: "my_test_loop bm i sz 0 True = Inr False"
      using my_test_loop_ok [of bm i 0 sz True] "1.prems" True by simp
    moreover have "my_find_loop bm sz (i + 1) = Inl AssertFailed"
      using "1.prems" True by (intro "1.IH" [OF "1.prems"(3) t]) auto
    ultimately show ?thesis using "1.prems" by (simp add: my_find_loop.simps [of bm sz i])
  next
    case False
    with my_test_loop_out [of bm i 0 sz True] "1.prems" show ?thesis
      by (simp add: my_find_loop.simps [of bm sz i])
  qed
qed

lemma myFind_run_ok:
  assumes "bm_wf bm" "1 \<le> sz" "\<exists>k. 0 \<le> k \<and> k + sz \<le> numBits bm \<and> {k..<k + sz} \<inter> bm_marked bm = {}"
  shows "\<exists>bm' k. BitMap_myFind bm sz = Inr (bm', k) \<and> 0 \<le> k \<and> k + sz \<le> numBits bm \<and>
      {k..<k + sz} \<inter> bm_marked bm = {} \<and> bm_wf bm' \<and> numBits bm' = numBits bm \<and>
      bm_marked bm' = bm_marked bm \<union> {k..<k + sz} \<and>
      (\<forall>m. 0 \<le> m \<and> m < k \<longrightarrow> {m..<m + sz} \<inter> bm_marked bm \<noteq> {})"
proof -
  define P where "P n \<longleftrightarrow> int n + sz \<le> numBits bm \<and> {int n..<int n + sz} \<inter> bm_marked bm = {}" for n
  from assms(3) obtain k0 where "0 \<le> k0" "k0 + sz \<le> numBits bm" "{k0..<k0 + sz} \<inter> bm_marked bm = {}"
    by blast
  then have "P (nat k0)" by (simp add: P_def)
  define n where "n = (LEAST n. P n)"
  have "P n" unfolding n_def by (rule LeastI) (rule \<open>P (nat k0)\<close>)
  have least: "{m..<m + sz} \<inter> bm_marked bm \<noteq> {}" if "0 \<le> m" "m < int n" for m
  proof -
    have "\<not> P (nat m)" using that not_less_Least [of "nat m" P] by (auto simp: n_def nat_less_iff)
    with that \<open>P n\<close> show ?thesis by (simp add: P_def)
  qed
  have "\<exists>bm'. my_find_loop bm sz 0 = Inr (bm', int n) \<and> bm_wf bm' \<and> numBits bm' = numBits bm \<and>
      bm_marked bm' = bm_marked bm \<union> {int n..<int n + sz}"
    using assms \<open>P n\<close> least by (intro my_find_loop_ok) (auto simp: P_def)
  with \<open>P n\<close> least show ?thesis by (auto simp: BitMap_myFind_def P_def)
qed

lemma myFind_no_run:
  assumes "bm_wf bm" "2 \<le> sz" "0 < numBits bm"
    and "\<not> (\<exists>k. 0 \<le> k \<and> k + sz \<le> numBits bm \<and> {k..<k + sz} \<inter> bm_marked bm = {})"
  shows "BitMap_myFind bm sz = Inl AssertFailed"
  unfolding BitMap_myFind_def using assms by (intro my_find_loop_abort) auto

lemma words_of_bytes_bytes [simp]: "words_of_bytes (concat (map le32 ws)) = ws"
proof (induction ws)
  case Nil
  then show ?case by simp
next
  case (Cons w ws)
  have "words_of_bytes (le32 w @ bs) = w # words_of_bytes bs" for bs
    using un_le32_le32 [of w] by (simp add: le32_def)
  with Cons show ?case by simp
qed

lemma length_bm_bytes: "length (concat (map le32 ws)) = 4 * length ws"
  by (induction ws) auto

section \<open>What repeated allocation gives\<close>

text \<open>
  An allocator of units \<open>0..<total s\<close>: while a unit is free, \<open>fnd\<close> returns a free one and takes
  it; \<open>used\<close> is the set of units taken.
\<close>

locale unit_allocator =
  fixes inv :: "'s \<Rightarrow> bool" and used :: "'s \<Rightarrow> int set" and total :: "'s \<Rightarrow> int"
    and fnd :: "'s \<Rightarrow> ('s \<times> int) result"
  assumes used_bounded: "inv s \<Longrightarrow> used s \<subseteq> {0..<total s}"
    and fnd_free: "inv s \<Longrightarrow> used s \<noteq> {0..<total s} \<Longrightarrow>
      \<exists>s' k. fnd s = Inr (s', k) \<and> 0 \<le> k \<and> k < total s \<and> k \<notin> used s \<and>
        inv s' \<and> total s' = total s \<and> used s' = insert k (used s)"
    and fnd_full: "inv s \<Longrightarrow> used s = {0..<total s} \<Longrightarrow> \<exists>s'. fnd s = Inr (s', -1)"
begin

definition free_count :: "'s \<Rightarrow> nat" where
  "free_count s = card ({0..<total s} - used s)"

lemma fnd_some_free:
  assumes "inv s" "0 < free_count s"
  shows "\<exists>s' k. fnd s = Inr (s', k) \<and> 0 \<le> k \<and> k < total s \<and> k \<notin> used s \<and>
        inv s' \<and> total s' = total s \<and> used s' = insert k (used s) \<and>
        free_count s' = free_count s - 1"
proof -
  from assms(2) have "{0..<total s} - used s \<noteq> {}" by (auto simp: free_count_def card_gt_0_iff)
  then have "used s \<noteq> {0..<total s}" by auto
  then obtain s' k where r: "fnd s = Inr (s', k)" "0 \<le> k" "k < total s" "k \<notin> used s"
    "inv s'" "total s' = total s" "used s' = insert k (used s)"
    using fnd_free [OF assms(1)] by blast
  have "{0..<total s'} - used s' = ({0..<total s} - used s) - {k}" using r by auto
  moreover have "k \<in> {0..<total s} - used s" using r by auto
  ultimately have "free_count s' = free_count s - 1"
    by (simp add: free_count_def card_Diff_singleton)
  with r show ?thesis by blast
qed

lemma alloc_n_ok:
  "inv s \<Longrightarrow> n \<le> free_count s \<Longrightarrow>
   \<exists>s' ks. alloc_n fnd n s = Inr (s', ks) \<and> length ks = n \<and> distinct ks \<and>
     set ks \<subseteq> {0..<total s} - used s \<and> inv s' \<and> total s' = total s \<and>
     used s' = used s \<union> set ks"
proof (induction n arbitrary: s)
  case 0
  then show ?case by simp
next
  case (Suc n)
  then obtain s1 k where k: "fnd s = Inr (s1, k)" "0 \<le> k" "k < total s" "k \<notin> used s" "inv s1"
    "total s1 = total s" "used s1 = insert k (used s)" "free_count s1 = free_count s - 1"
    using fnd_some_free [of s] by auto
  then obtain s' ks where "alloc_n fnd n s1 = Inr (s', ks)" "length ks = n" "distinct ks"
    "set ks \<subseteq> {0..<total s1} - used s1" "inv s'" "total s' = total s1" "used s' = used s1 \<union> set ks"
    using Suc.IH [of s1] Suc.prems by fastforce
  with k show ?case
    by (intro exI [of _ s'] exI [of _ "k # ks"]) auto
qed

end

interpretation bma: unit_allocator bm_wf bm_marked numBits BitMap_Find
proof unfold_locales
  fix s assume wf: "bm_wf s"
  show "bm_marked s \<subseteq> {0..<numBits s}" by (auto simp: bm_marked_def)
  show "\<exists>s' k. BitMap_Find s = Inr (s', k) \<and> 0 \<le> k \<and> k < numBits s \<and> k \<notin> bm_marked s \<and>
      bm_wf s' \<and> numBits s' = numBits s \<and> bm_marked s' = insert k (bm_marked s)"
    if "bm_marked s \<noteq> {0..<numBits s}"
    using BitMap_Find_free [OF wf that] by metis
  show "\<exists>s'. BitMap_Find s = Inr (s', - 1)" if "bm_marked s = {0..<numBits s}"
    using BitMap_Find_full [OF wf that] by blast
qed

section \<open>Properties\<close>

text \<open>
  \<^verbatim>\<open>Find\<close> on a well-formed bitmap returns the lowest clear bit and marks exactly that bit, and returns -1 without a change
  when every bit is marked.
\<close>

lemma BitMap_Find_lowest:
  assumes "bm_wf bm"
  shows "(\<exists>bm' k. BitMap_Find bm = Inr (bm', k) \<and> bm_wf bm' \<and> bm_marked bm' = insert k (bm_marked bm) \<and>
            k \<notin> bm_marked bm \<and> 0 \<le> k \<and> k < numBits bm \<and> {0..<k} \<subseteq> bm_marked bm) \<or>
         (bm_marked bm = {0..<numBits bm} \<and> BitMap_Find bm = Inr (bm, -1))"
proof (cases "bm_marked bm = {0..<numBits bm}")
  case True
  with BitMap_Find_full [OF assms] show ?thesis by blast
next
  case False
  with assms show ?thesis by (rule BitMap_Find_free) blast
qed

text \<open>
  (C28) \<^verbatim>\<open>NumClear\<close> counts the clear bits, and if it reports at least \<open>n\<close> of them, then \<open>n\<close> calls of
  \<^verbatim>\<open>Find\<close> in a row return \<open>n\<close> different bits that were clear and mark exactly these.
\<close>

theorem BitMap_Find_repeated:
  assumes "bm_wf bm" and "BitMap_NumClear bm = Inr c" and "int n \<le> c"
  shows "c = int (card ({0..<numBits bm} - bm_marked bm)) \<and>
    (\<exists>bm' ks. alloc_n BitMap_Find n bm = Inr (bm', ks) \<and> length ks = n \<and> distinct ks \<and>
     set ks \<subseteq> {0..<numBits bm} - bm_marked bm \<and> bm_wf bm' \<and>
     bm_marked bm' = bm_marked bm \<union> set ks)"
proof -
  have c: "c = int (card ({0..<numBits bm} - bm_marked bm))"
    using assms(1,2) by (simp add: BitMap_NumClear_ok)
  then have "n \<le> bma.free_count bm" using assms(3) by (simp add: bma.free_count_def)
  from bma.alloc_n_ok [OF assms(1) this] c show ?thesis by blast
qed

theorem BitMap_Find_repeated_witness:
  "\<exists>bm' ks. alloc_n BitMap_Find 2 \<lparr>numBits = 3, numWords = 1, bmap = [0]\<rparr> = Inr (bm', ks) \<and>
     length ks = 2 \<and> distinct ks"
proof -
  let ?bm = "\<lparr>numBits = 3, numWords = 1, bmap = [0]\<rparr>"
  have wf: "bm_wf ?bm" by (simp add: bm_wf_def divRoundUp_nonneg BitsInWord_def)
  have "bm_marked ?bm = {}" by (auto simp: bm_marked_def bm_bit_def)
  then have "BitMap_NumClear ?bm = Inr 3" using BitMap_NumClear_ok [OF wf] by simp
  from BitMap_Find_repeated [OF wf this, of 2] show ?thesis by auto
qed

text \<open>
  (C29) \<^verbatim>\<open>myFind\<close> returns the start of the first run of \<^verbatim>\<open>size\<close> clear bits and marks the run; but when
  no such run exists and \<^verbatim>\<open>size\<close> is at least 2, it does not return -1: it tests a bit past the end
  and aborts on the assertion of \<^verbatim>\<open>Test\<close>.
\<close>

theorem BitMap_myFind_run_or_abort:
  assumes "bm_wf bm" and "2 \<le> sz" and "0 < numBits bm"
  shows "if \<exists>k. 0 \<le> k \<and> k + sz \<le> numBits bm \<and> {k..<k + sz} \<inter> bm_marked bm = {}
    then \<exists>bm' k. BitMap_myFind bm sz = Inr (bm', k) \<and> 0 \<le> k \<and> k + sz \<le> numBits bm \<and>
      {k..<k + sz} \<inter> bm_marked bm = {} \<and> bm_wf bm' \<and>
      bm_marked bm' = bm_marked bm \<union> {k..<k + sz} \<and>
      (\<forall>m. 0 \<le> m \<and> m < k \<longrightarrow> {m..<m + sz} \<inter> bm_marked bm \<noteq> {})
    else BitMap_myFind bm sz = Inl AssertFailed"
proof (cases "\<exists>k. 0 \<le> k \<and> k + sz \<le> numBits bm \<and> {k..<k + sz} \<inter> bm_marked bm = {}")
  case True
  with assms myFind_run_ok [of bm sz] show ?thesis by auto
next
  case False
  from myFind_no_run [OF assms False] False show ?thesis by (simp only: if_False)
qed

theorem BitMap_myFind_run_or_abort_witness:
  "BitMap_myFind \<lparr>numBits = 3, numWords = 1, bmap = [2]\<rparr> 2 = Inl AssertFailed"
proof -
  let ?bm = "\<lparr>numBits = 3, numWords = 1, bmap = [2]\<rparr>"
  have wf: "bm_wf ?bm" by (simp add: bm_wf_def divRoundUp_nonneg BitsInWord_def)
  have one: "1 \<in> bm_marked ?bm" by (simp add: bm_marked_def bm_bit_def)
  have "\<not> (\<exists>k. 0 \<le> k \<and> k + 2 \<le> numBits ?bm \<and> {k..<k + 2} \<inter> bm_marked ?bm = {})"
  proof (intro notI, elim exE conjE)
    fix k :: int assume k: "0 \<le> k" "k + 2 \<le> numBits ?bm" "{k..<k + 2} \<inter> bm_marked ?bm = {}"
    then have "1 \<in> {k..<k + 2}" by auto
    with one k(3) show False by blast
  qed
  with BitMap_myFind_run_or_abort [OF wf, of 2] show ?thesis by simp
qed

end
