(* ===== verification/Nachos_Machine.thy ===== *)
theory Nachos_Machine
  imports Nachos_BitMap
begin

text \<open>
  The simulated workstation as user programs see it (\<^verbatim>\<open>machine/machine.h\<close>, \<^verbatim>\<open>machine.cc\<close>,
  \<^verbatim>\<open>machine/translate.h\<close>, \<^verbatim>\<open>translate.cc\<close>): registers, physical memory, the page table and the
  TLB, the physical page bitmap, delayed loads and address translation. The routines that trap
  to the kernel (\<^verbatim>\<open>ReadMem\<close>, \<^verbatim>\<open>WriteMem\<close>, \<^verbatim>\<open>RaiseException\<close>) are in \<open>Nachos_Mips\<close>.
\<close>

section \<open>Constants and data\<close>

definition SectorSize :: int where "SectorSize = 128"
definition PageSize :: int where "PageSize = SectorSize"
definition NumPhysPages :: int where "NumPhysPages = 64"
definition MemorySize :: int where "MemorySize = NumPhysPages * PageSize"
definition TLBSize :: int where "TLBSize = 4"

lemmas machine_consts = SectorSize_def PageSize_def NumPhysPages_def MemorySize_def TLBSize_def

datatype ExceptionType = NoException | SyscallException | PageFaultException | ReadOnlyException
  | BusErrorException | AddressErrorException | OverflowException | IllegalInstrException
  | NumExceptionTypes

abbreviation (input) StackReg :: nat where "StackReg \<equiv> 29"
abbreviation (input) RetAddrReg :: nat where "RetAddrReg \<equiv> 31"
abbreviation (input) HiReg :: nat where "HiReg \<equiv> 32"
abbreviation (input) LoReg :: nat where "LoReg \<equiv> 33"
abbreviation (input) PCReg :: nat where "PCReg \<equiv> 34"
abbreviation (input) NextPCReg :: nat where "NextPCReg \<equiv> 35"
abbreviation (input) PrevPCReg :: nat where "PrevPCReg \<equiv> 36"
abbreviation (input) LoadReg :: nat where "LoadReg \<equiv> 37"
abbreviation (input) LoadValueReg :: nat where "LoadValueReg \<equiv> 38"
abbreviation (input) BadVAddrReg :: nat where "BadVAddrReg \<equiv> 39"
abbreviation (input) NumTotalRegs :: nat where "NumTotalRegs \<equiv> 40"

text \<open>
  Page numbers are compared as unsigned values in the source, so they are 32-bit words here;
  the unused entries of a page table have virtual page -1, that is \<open>2 ^ 32 - 1\<close>. The age \<^verbatim>\<open>cnt\<close> of an entry and the
  counters of hits and misses are C ints: 32-bit words that wrap around, read with \<open>sint\<close>. Their starting values are arbitrary.
\<close>

record TranslationEntry =
  virtualPage :: u32
  physicalPage :: u32
  valid :: bool
  readOnly :: bool
  use :: bool
  dirty :: bool
  cnt :: u32

text \<open>
  The machine. \<open>registers\<close> is read and written below \<open>NumTotalRegs\<close> only, \<open>mainMemory\<close> below
  \<open>MemorySize\<close> only. A page table is an array owned by an address space, and several of them
  exist: \<open>tables\<close> holds them by address, \<open>pageTable\<close> is the pointer the machine uses.
\<close>

record machine =
  registers :: "nat \<Rightarrow> u32"
  mainMemory :: "nat \<Rightarrow> byte"
  tlb :: "TranslationEntry list option"
  tables :: "nat \<Rightarrow> TranslationEntry list option"
  pageTable :: "nat option"
  pageTableSize :: u32
  TLBhit :: u32
  TLBmiss :: u32
  frames :: "int list"
  singleStep :: bool
  runUntilTime :: int

section \<open>Registers\<close>

definition ReadRegister :: "machine \<Rightarrow> int \<Rightarrow> u32 result" where
  "ReadRegister m num =
     bindr (ASSERT (num \<ge> 0 \<and> num < int NumTotalRegs)) (\<lambda>_. Inr (registers m (nat num)))"

definition WriteRegister :: "machine \<Rightarrow> int \<Rightarrow> u32 \<Rightarrow> machine result" where
  "WriteRegister m num v =
     bindr (ASSERT (num \<ge> 0 \<and> num < int NumTotalRegs)) (\<lambda>_.
       Inr (m\<lparr>registers := (registers m)(nat num := v)\<rparr>))"

definition PCAdvance :: "machine \<Rightarrow> machine result" where
  "PCAdvance m =
     bindr (WriteRegister m (int PrevPCReg) (registers m PCReg)) (\<lambda>m1.
     bindr (WriteRegister m1 (int PCReg) (registers m1 PCReg + 4)) (\<lambda>m2.
       WriteRegister m2 (int NextPCReg) (registers m2 NextPCReg + 4)))"

text \<open>
  A delayed load completes: the register named by \<^verbatim>\<open>LoadReg\<close> gets its value, the next delayed
  load is recorded, and register 0 is forced back to zero.
\<close>

definition DelayedLoad :: "u32 \<Rightarrow> u32 \<Rightarrow> machine \<Rightarrow> machine result" where
  "DelayedLoad nextReg nextValue m =
     (let r = sint (registers m LoadReg) in
      if r < 0 \<or> int NumTotalRegs \<le> r then Inl OutOfBounds
      else let rs1 = (registers m)(nat r := registers m LoadValueReg);
               rs2 = rs1(LoadReg := nextReg);
               rs3 = rs2(LoadValueReg := nextValue)
           in Inr (m\<lparr>registers := rs3(0 := 0)\<rparr>))"

section \<open>The physical page bitmap\<close>

definition Bitmap_new :: "int list" where
  "Bitmap_new = replicate (nat NumPhysPages) 0"

function bitmap_find_loop :: "int list \<Rightarrow> int \<Rightarrow> int result" where
  "bitmap_find_loop mp i =
     (if i < NumPhysPages then
        bindr (arr_get mp i) (\<lambda>v. if v = 0 then Inr i else bitmap_find_loop mp (i + 1))
      else Inr (-1))"
  by pat_completeness auto
termination
  by (relation "measure (\<lambda>(mp, i). nat (NumPhysPages - i))") auto

declare bitmap_find_loop.simps [simp del]

definition Bitmap_find :: "int list \<Rightarrow> (int list \<times> int) result" where
  "Bitmap_find mp =
     bindr (bitmap_find_loop mp 0) (\<lambda>out.
       if out = -1 then Inr (mp, out)
       else bindr (arr_set mp out 1) (\<lambda>mp'. Inr (mp', out)))"

definition Bitmap_clear :: "int list \<Rightarrow> int \<Rightarrow> int list result" where
  "Bitmap_clear mp idx =
     bindr (arr_get mp idx) (\<lambda>v. bindr (ASSERT (v = 1)) (\<lambda>_. arr_set mp idx 0))"

section \<open>Start-up\<close>

text \<open>\<^verbatim>\<open>CheckEndian\<close> stores the bytes 1, 2, 3, 4 in a union and compares the word they form.\<close>

definition CheckEndian :: "unit result" where
  "CheckEndian = ASSERT (un_le32 [1, 2, 3, 4] = 0x04030201)"

text \<open>
  The constructor. The configuration of the repository defines \<^verbatim>\<open>USE_TLB0\<close>, not \<^verbatim>\<open>USE_TLB\<close>, so
  there is no TLB; \<open>use_tlb\<close> keeps both builds. \<open>mem\<close> is what uninitialised memory holds: the
  counters of the TLB entries and \<^verbatim>\<open>runUntilTime\<close> are not set by the source.
\<close>

definition Machine_new :: "bool \<Rightarrow> TranslationEntry list \<Rightarrow> machine \<Rightarrow> bool \<Rightarrow> machine result" where
  "Machine_new use_tlb mem m debug =
     bindr CheckEndian (\<lambda>_. Inr (m\<lparr>
       registers := (\<lambda>_. 0), mainMemory := (\<lambda>_. 0),
       tlb := (if use_tlb then Some (map (\<lambda>e. e\<lparr>valid := False\<rparr>) (take (nat TLBSize) mem)) else None),
       pageTable := None,
       TLBhit := (if use_tlb then 0 else TLBhit m), TLBmiss := (if use_tlb then 0 else TLBmiss m),
       frames := Bitmap_new, singleStep := debug\<rparr>))"

section \<open>Address translation\<close>

text \<open>The outcome of \<^verbatim>\<open>Translate\<close>: an exception code, or the physical address it stores.\<close>

datatype translation = Trap ExceptionType | Phys u32

text \<open>
  The linear page table is searched for the virtual page; the last matching entry wins, and the
  \<open>valid\<close> bit is not looked at.
\<close>

function pt_scan :: "TranslationEntry list \<Rightarrow> u32 \<Rightarrow> int \<Rightarrow> int \<Rightarrow> int result" where
  "pt_scan pt vpn i pos =
     (if i < NumPhysPages then
        bindr (arr_get pt i) (\<lambda>e. pt_scan pt vpn (i + 1) (if virtualPage e = vpn then i else pos))
      else Inr pos)"
  by pat_completeness auto
termination
  by (relation "measure (\<lambda>(pt, vpn, i, pos). nat (NumPhysPages - i))") auto

function tlb_scan :: "TranslationEntry list \<Rightarrow> u32 \<Rightarrow> int \<Rightarrow> int result" where
  "tlb_scan t vpn i =
     (if i < TLBSize then
        bindr (arr_get t i) (\<lambda>e.
          if valid e \<and> virtualPage e = vpn then Inr i else tlb_scan t vpn (i + 1))
      else Inr (-1))"
  by pat_completeness auto
termination
  by (relation "measure (\<lambda>(t, vpn, i). nat (TLBSize - i))") auto

function tlb_age :: "TranslationEntry list \<Rightarrow> int \<Rightarrow> int \<Rightarrow> TranslationEntry list result" where
  "tlb_age t found i =
     (if i < TLBSize then
        if i = found then tlb_age t found (i + 1)
        else bindr (arr_get t i) (\<lambda>e.
             bindr (arr_set t i (e\<lparr>cnt := cnt e + 1\<rparr>)) (\<lambda>t'. tlb_age t' found (i + 1)))
      else Inr t)"
  by pat_completeness auto
termination
  by (relation "measure (\<lambda>(t, found, i). nat (TLBSize - i))") auto

declare pt_scan.simps [simp del] tlb_scan.simps [simp del] tlb_age.simps [simp del]

text \<open>The checks both kinds of table share, from the chosen entry on.\<close>

definition translate_entry ::
  "TranslationEntry \<Rightarrow> u32 \<Rightarrow> int \<Rightarrow> bool \<Rightarrow> (TranslationEntry \<times> translation) result" where
  "translate_entry entry offset sz writing =
     (if readOnly entry \<and> writing then Inr (entry, Trap ReadOnlyException)
      else if uint (physicalPage entry) \<ge> NumPhysPages then Inr (entry, Trap BusErrorException)
      else let entry' = (if writing then entry\<lparr>use := True, dirty := True\<rparr> else entry\<lparr>use := True\<rparr>);
               physAddr = physicalPage entry * word_of_int PageSize + offset
           in bindr (ASSERT (sint physAddr \<ge> 0 \<and> sint physAddr + sz \<le> MemorySize)) (\<lambda>_.
                Inr (entry', Phys physAddr)))"

definition Translate :: "u32 \<Rightarrow> int \<Rightarrow> bool \<Rightarrow> machine \<Rightarrow> (machine \<times> translation) result" where
  "Translate virtAddr sz writing m =
     (if (sz = 4 \<and> virtAddr AND 3 \<noteq> 0) \<or> (sz = 2 \<and> virtAddr AND 1 \<noteq> 0)
      then Inr (m, Trap AddressErrorException)
      else
        let vpn = virtAddr div word_of_int PageSize;
            offset = virtAddr mod word_of_int PageSize
        in case tlb m of
          None \<Rightarrow>
            if vpn \<ge> pageTableSize m then Inr (m, Trap AddressErrorException)
            else (case pageTable m of None \<Rightarrow> Inl BadPointer | Some p \<Rightarrow>
              (case tables m p of None \<Rightarrow> Inl BadPointer | Some pt \<Rightarrow>
                bindr (pt_scan pt vpn 0 (-1)) (\<lambda>pos.
                  if pos = -1 then Inr (m, Trap PageFaultException)
                  else bindr (arr_get pt pos) (\<lambda>entry.
                       bindr (translate_entry entry offset sz writing) (\<lambda>(entry', r).
                       bindr (arr_set pt pos entry') (\<lambda>pt'.
                         Inr (m\<lparr>tables := (tables m)(p \<mapsto> pt')\<rparr>, r)))))))
        | Some t \<Rightarrow>
            bindr (tlb_scan t vpn 0) (\<lambda>found.
              if found = -1 then Inr (m\<lparr>TLBmiss := TLBmiss m + 1\<rparr>, Trap PageFaultException)
              else bindr (arr_get t found) (\<lambda>e.
                   bindr (arr_set t found (e\<lparr>cnt := 0\<rparr>)) (\<lambda>t1.
                   bindr (tlb_age t1 found 0) (\<lambda>t2.
                   bindr (arr_get t2 found) (\<lambda>entry.
                   bindr (translate_entry entry offset sz writing) (\<lambda>(entry', r).
                   bindr (arr_set t2 found entry') (\<lambda>t3.
                     Inr (m\<lparr>tlb := Some t3, TLBhit := TLBhit m + 1\<rparr>, r)))))))))"

text \<open>
  The byte-order conversions of \<^verbatim>\<open>translate.cc\<close>. On the i386 host they are the identity; the
  big-endian branch reverses the bytes.
\<close>

definition WordToHost :: "bool \<Rightarrow> u32 \<Rightarrow> u32" where
  "WordToHost big w =
     (if big then (drop_bit 24 w AND 0x000000ff) OR (drop_bit 8 w AND 0x0000ff00) OR
                  (push_bit 8 w AND 0x00ff0000) OR (push_bit 24 w AND 0xff000000)
      else w)"

definition ShortToHost :: "bool \<Rightarrow> u16 \<Rightarrow> u16" where
  "ShortToHost big w = (if big then (push_bit 8 w AND 0xff00) OR (drop_bit 8 w AND 0x00ff) else w)"

definition WordToMachine :: "bool \<Rightarrow> u32 \<Rightarrow> u32" where
  "WordToMachine big w = WordToHost big w"

definition ShortToMachine :: "bool \<Rightarrow> u16 \<Rightarrow> u16" where
  "ShortToMachine big w = ShortToHost big w"


section \<open>Well-formed machines\<close>

definition table_ok :: "machine \<Rightarrow> bool" where
  "table_ok m \<longleftrightarrow> (case tlb m of
       Some t \<Rightarrow> length t = nat TLBSize
     | None \<Rightarrow> (\<exists>p pt. pageTable m = Some p \<and> tables m p = Some pt \<and> length pt = nat NumPhysPages))"

definition regs_ok :: "machine \<Rightarrow> bool" where
  "regs_ok m \<longleftrightarrow> registers m 0 = 0 \<and> uint (registers m LoadReg) < 32"

definition aligned :: "u32 \<Rightarrow> int \<Rightarrow> bool" where
  "aligned a sz \<longleftrightarrow> uint a mod sz = 0"

definition current_table :: "machine \<Rightarrow> TranslationEntry list" where
  "current_table m = (case tlb m of Some t \<Rightarrow> t
     | None \<Rightarrow> (case pageTable m of None \<Rightarrow> [] | Some p \<Rightarrow> (case tables m p of None \<Rightarrow> [] | Some pt \<Rightarrow> pt)))"

section \<open>Registers and delayed loads\<close>

lemma ReadRegister_ok [simp]: "n < NumTotalRegs \<Longrightarrow> ReadRegister m (int n) = Inr (registers m n)"
  by (simp add: ReadRegister_def)

lemma WriteRegister_ok [simp]:
  "n < NumTotalRegs \<Longrightarrow> WriteRegister m (int n) v = Inr (m\<lparr>registers := (registers m)(n := v)\<rparr>)"
  by (simp add: WriteRegister_def)

lemma sint_eq_uint_small: "uint (w :: u32) < 2 ^ 31 \<Longrightarrow> sint w = uint w"
proof -
  assume "uint w < 2 ^ 31"
  moreover have "0 \<le> uint w" by simp
  ultimately have "signed_take_bit 31 (uint w) = uint w"
    by (intro signed_take_bit_int_eq_self) linarith+
  then show ?thesis by (simp add: sint_uint)
qed

lemma DelayedLoad_ok:
  assumes "regs_ok m"
  shows "DelayedLoad nr nv m = Inr (m\<lparr>registers :=
     ((registers m)(unat (registers m LoadReg) := registers m LoadValueReg,
        LoadReg := nr, LoadValueReg := nv, 0 := 0))\<rparr>)"
proof -
  have u: "uint (registers m LoadReg) < 32" using assms by (simp add: regs_ok_def)
  then have s: "sint (registers m LoadReg) = uint (registers m LoadReg)"
    by (intro sint_eq_uint_small) simp
  have "\<not> (uint (registers m LoadReg) < 0 \<or> int NumTotalRegs \<le> uint (registers m LoadReg))"
    using u by simp
  then show ?thesis unfolding DelayedLoad_def Let_def s unat_eq_nat_uint by (simp only: if_False)
qed

lemma DelayedLoad_regs_ok:
  assumes "DelayedLoad nr nv m = Inr m'" and "uint nr < 32"
  shows "regs_ok m'"
  using assms by (auto simp: DelayedLoad_def regs_ok_def Let_def split: if_splits)

section \<open>The physical page bitmap is an allocator\<close>

definition frames_ok :: "int list \<Rightarrow> bool" where
  "frames_ok mp \<longleftrightarrow> length mp = nat NumPhysPages"

definition frames_used :: "int list \<Rightarrow> int set" where
  "frames_used mp = {i. 0 \<le> i \<and> i < NumPhysPages \<and> mp ! nat i \<noteq> 0}"

lemma bitmap_find_loop_ok:
  assumes "frames_ok mp" "0 \<le> i" "{0..<i} \<subseteq> frames_used mp"
  shows "(frames_used mp = {0..<NumPhysPages} \<and> bitmap_find_loop mp i = Inr (-1)) \<or>
    (\<exists>k. bitmap_find_loop mp i = Inr k \<and> 0 \<le> k \<and> k < NumPhysPages \<and> k \<notin> frames_used mp)"
  using assms
proof (induction mp i rule: bitmap_find_loop.induct)
  case (1 mp i)
  show ?case
  proof (cases "i < NumPhysPages")
    case True
    with "1.prems" have g: "arr_get mp i = Inr (mp ! nat i)"
      by (simp add: frames_ok_def NumPhysPages_def)
    show ?thesis
    proof (cases "mp ! nat i = 0")
      case free: True
      with True g "1.prems" show ?thesis
        by (auto simp: bitmap_find_loop.simps [of mp i] frames_used_def)
    next
      case False
      with True "1.prems" have "i \<in> frames_used mp" by (simp add: frames_used_def)
      moreover have "{0..<i + 1} = insert i {0..<i}" using "1.prems"(2) by auto
      ultimately have "{0..<i + 1} \<subseteq> frames_used mp" using "1.prems"(3) by simp
      moreover have "bitmap_find_loop mp i = bitmap_find_loop mp (i + 1)"
        using True g False by (simp add: bitmap_find_loop.simps [of mp i])
      ultimately show ?thesis using "1.IH" [OF True g] False "1.prems" by simp
    qed
  next
    case False
    then have "{0..<NumPhysPages} \<subseteq> {0..<i}" by auto
    with "1.prems"(3) have "{0..<NumPhysPages} \<subseteq> frames_used mp" by blast
    moreover have "frames_used mp \<subseteq> {0..<NumPhysPages}" by (auto simp: frames_used_def)
    ultimately have "frames_used mp = {0..<NumPhysPages}" by (rule antisym [rotated])
    with False show ?thesis by (simp add: bitmap_find_loop.simps [of mp i])
  qed
qed

interpretation fra: unit_allocator frames_ok frames_used "\<lambda>_. NumPhysPages" Bitmap_find
proof unfold_locales
  fix s :: "int list" assume ok: "frames_ok s"
  have loop: "(frames_used s = {0..<NumPhysPages} \<and> bitmap_find_loop s 0 = Inr (-1)) \<or>
    (\<exists>k. bitmap_find_loop s 0 = Inr k \<and> 0 \<le> k \<and> k < NumPhysPages \<and> k \<notin> frames_used s)"
    using bitmap_find_loop_ok [OF ok, of 0] by simp
  show "frames_used s \<subseteq> {0..<NumPhysPages}" by (auto simp: frames_used_def)
  show "\<exists>s'. Bitmap_find s = Inr (s', - 1)" if "frames_used s = {0..<NumPhysPages}"
    using loop that by (auto simp: Bitmap_find_def)
  show "\<exists>s' k. Bitmap_find s = Inr (s', k) \<and> 0 \<le> k \<and> k < NumPhysPages \<and> k \<notin> frames_used s \<and>
      frames_ok s' \<and> NumPhysPages = NumPhysPages \<and> frames_used s' = insert k (frames_used s)"
    if ne: "frames_used s \<noteq> {0..<NumPhysPages}"
  proof -
    from loop ne obtain k where k: "bitmap_find_loop s 0 = Inr k" "0 \<le> k" "k < NumPhysPages"
      "k \<notin> frames_used s" by blast
    then have "Bitmap_find s = Inr (s[nat k := 1], k)"
      using ok by (simp add: Bitmap_find_def frames_ok_def NumPhysPages_def)
    moreover have "frames_used (s[nat k := 1]) = insert k (frames_used s)"
      using k ok by (auto simp: frames_used_def frames_ok_def NumPhysPages_def nth_list_update)
    ultimately show ?thesis using k ok by (auto simp: frames_ok_def)
  qed
qed

section \<open>Address translation\<close>

lemma pt_scan_ok:
  assumes "length pt = nat NumPhysPages" "0 \<le> i"
  shows "\<exists>r. pt_scan pt vpn i pos = Inr r \<and>
    ((r = pos \<and> (\<forall>k. i \<le> k \<and> k < NumPhysPages \<longrightarrow> virtualPage (pt ! nat k) \<noteq> vpn)) \<or>
     (i \<le> r \<and> r < NumPhysPages \<and> virtualPage (pt ! nat r) = vpn \<and>
      (\<forall>k. r < k \<and> k < NumPhysPages \<longrightarrow> virtualPage (pt ! nat k) \<noteq> vpn)))"
  using assms
proof (induction pt vpn i pos rule: pt_scan.induct)
  case (1 pt vpn i pos)
  show ?case
  proof (cases "i < NumPhysPages")
    case True
    with "1.prems" have g: "arr_get pt i = Inr (pt ! nat i)" by (simp add: NumPhysPages_def)
    define pos' where "pos' = (if virtualPage (pt ! nat i) = vpn then i else pos)"
    obtain r where r: "pt_scan pt vpn (i + 1) pos' = Inr r"
      "(r = pos' \<and> (\<forall>k. i + 1 \<le> k \<and> k < NumPhysPages \<longrightarrow> virtualPage (pt ! nat k) \<noteq> vpn)) \<or>
       (i + 1 \<le> r \<and> r < NumPhysPages \<and> virtualPage (pt ! nat r) = vpn \<and>
        (\<forall>k. r < k \<and> k < NumPhysPages \<longrightarrow> virtualPage (pt ! nat k) \<noteq> vpn))"
      using "1.IH" [OF True g] "1.prems" unfolding pos'_def by auto
    have "pt_scan pt vpn i pos = Inr r"
      using True g r(1) by (simp add: pt_scan.simps [of pt vpn i pos] pos'_def)
    moreover have "k = i \<or> i + 1 \<le> k" if "i \<le> k" for k using that by linarith
    ultimately show ?thesis using r(2) True unfolding pos'_def by (auto split: if_splits)
  next
    case False
    then have "pt_scan pt vpn i pos = Inr pos" by (simp add: pt_scan.simps [of pt vpn i pos])
    moreover have "\<not> (i \<le> k \<and> k < NumPhysPages)" for k using False by linarith
    ultimately show ?thesis by blast
  qed
qed

lemma tlb_scan_ok:
  assumes "length t = nat TLBSize" "0 \<le> i"
  shows "\<exists>r. tlb_scan t vpn i = Inr r \<and>
    ((r = -1 \<and> (\<forall>k. i \<le> k \<and> k < TLBSize \<longrightarrow> \<not> (valid (t ! nat k) \<and> virtualPage (t ! nat k) = vpn))) \<or>
     (i \<le> r \<and> r < TLBSize \<and> valid (t ! nat r) \<and> virtualPage (t ! nat r) = vpn))"
  using assms
proof (induction t vpn i rule: tlb_scan.induct)
  case (1 t vpn i)
  show ?case
  proof (cases "i < TLBSize")
    case True
    with "1.prems" have g: "arr_get t i = Inr (t ! nat i)" by (simp add: TLBSize_def)
    have split: "k = i \<or> i + 1 \<le> k" if "i \<le> k" for k using that by linarith
    show ?thesis
    proof (cases "valid (t ! nat i) \<and> virtualPage (t ! nat i) = vpn")
      case hit: True
      with True g show ?thesis by (simp add: tlb_scan.simps [of t vpn i])
    next
      case False
      then have "tlb_scan t vpn i = tlb_scan t vpn (i + 1)"
        using True g by (auto simp: tlb_scan.simps [of t vpn i])
      with "1.IH" [OF True g False] "1.prems" False split show ?thesis by fastforce
    qed
  next
    case False
    then have "tlb_scan t vpn i = Inr (-1)" by (simp add: tlb_scan.simps [of t vpn i])
    moreover have "\<not> (i \<le> k \<and> k < TLBSize)" for k using False by linarith
    ultimately show ?thesis by blast
  qed
qed

lemma tlb_age_ok:
  "length t = nat TLBSize \<Longrightarrow> 0 \<le> i \<Longrightarrow>
   \<exists>t'. tlb_age t found i = Inr t' \<and> length t' = length t \<and>
     (\<forall>k < length t. t' ! k = (if i \<le> int k \<and> int k \<noteq> found then (t ! k)\<lparr>cnt := cnt (t ! k) + 1\<rparr> else t ! k))"
proof (induction t found i rule: tlb_age.induct)
  case (1 t found i)
  show ?case
  proof (cases "i < TLBSize")
    case True
    show ?thesis
    proof (cases "i = found")
      case skip: True
      from "1.IH"(1) [OF True skip] "1.prems" obtain t' where t': "tlb_age t found (i + 1) = Inr t'"
        "length t' = length t" "\<forall>k < length t. t' ! k = (if i + 1 \<le> int k \<and> int k \<noteq> found
           then (t ! k)\<lparr>cnt := cnt (t ! k) + 1\<rparr> else t ! k)" by auto
      moreover have "tlb_age t found i = Inr t'"
        using True skip t'(1) by (subst tlb_age.simps) simp
      moreover have "i \<le> int k \<and> int k \<noteq> found \<longleftrightarrow> i + 1 \<le> int k \<and> int k \<noteq> found" for k
        using skip by linarith
      ultimately show ?thesis by simp
    next
      case False
      with True "1.prems" have g: "arr_get t i = Inr (t ! nat i)" by (simp add: TLBSize_def)
      define t1 where "t1 = t[nat i := (t ! nat i)\<lparr>cnt := cnt (t ! nat i) + 1\<rparr>]"
      have s: "arr_set t i ((t ! nat i)\<lparr>cnt := cnt (t ! nat i) + 1\<rparr>) = Inr t1"
        using True "1.prems" by (simp add: TLBSize_def t1_def)
      from "1.IH"(2) [OF True False g s] "1.prems" obtain t' where t': "tlb_age t1 found (i + 1) = Inr t'"
        "length t' = length t1" "\<forall>k < length t1. t' ! k = (if i + 1 \<le> int k \<and> int k \<noteq> found
           then (t1 ! k)\<lparr>cnt := cnt (t1 ! k) + 1\<rparr> else t1 ! k)" by (auto simp: t1_def)
      have "tlb_age t found i = Inr t'"
        using True False g s t'(1) by (simp add: tlb_age.simps [of t found i])
      moreover have "t' ! k = (if i \<le> int k \<and> int k \<noteq> found then (t ! k)\<lparr>cnt := cnt (t ! k) + 1\<rparr> else t ! k)"
        if "k < length t" for k
        using t'(2,3) that False "1.prems"(2) by (auto simp: t1_def nth_list_update)
      ultimately show ?thesis using t'(2) by (auto simp: t1_def)
    qed
  next
    case False
    with "1.prems" show ?thesis
      by (auto simp: tlb_age.simps [of t found i])
  qed
qed

text \<open>Offsets within a page, and the physical address formed from them.\<close>

lemma uint_word_of_PageSize [simp]: "uint (word_of_int PageSize :: u32) = 128"
  by (simp add: machine_consts)

lemma and_low_bits:
  "(w :: u32) AND 3 = 0 \<longleftrightarrow> uint w mod 4 = 0" "w AND 1 = 0 \<longleftrightarrow> uint w mod 2 = 0"
proof -
  have "uint (w AND 3) = uint w AND 3" by (simp add: unsigned_and_eq)
  also have "\<dots> = take_bit 2 (uint w)" by (simp add: take_bit_eq_mask mask_eq_exp_minus_1)
  finally have "uint (w AND 3) = uint w mod 4" by (simp add: take_bit_eq_mod)
  then show "w AND 3 = 0 \<longleftrightarrow> uint w mod 4 = 0" by (metis uint_0_iff)
  have "uint (w AND 1) = uint w AND 1" by (simp add: unsigned_and_eq)
  then have "uint (w AND 1) = uint w mod 2" by (simp add: and_one_eq)
  then show "w AND 1 = 0 \<longleftrightarrow> uint w mod 2 = 0" by (metis uint_0_iff)
qed

definition access_size :: "int \<Rightarrow> bool" where
  "access_size sz \<longleftrightarrow> sz = 1 \<or> sz = 2 \<or> sz = 4"

lemma page_offset_fits:
  assumes "aligned va sz" "access_size sz"
  shows "0 \<le> uint (va :: u32) mod 128 \<and> uint va mod 128 + sz \<le> 128"
proof -
  define q r where "q = uint va div 128" and "r = uint va mod 128"
  have "uint va = 128 * q + r" "0 \<le> r" "r < 128" by (simp_all add: q_def r_def)
  moreover have "(128 * q + r) mod sz = 0 \<Longrightarrow> 0 \<le> r \<Longrightarrow> r < 128 \<Longrightarrow> r + sz \<le> 128"
    if "sz = 1 \<or> sz = 2 \<or> sz = 4" using that by (elim disjE; simp) presburger+
  ultimately show ?thesis
    using assms unfolding aligned_def access_size_def r_def [symmetric] by metis
qed

lemma phys_addr_val:
  assumes "uint pp < NumPhysPages"
  shows "uint (pp * word_of_int PageSize + va mod word_of_int PageSize :: u32)
       = uint pp * 128 + uint va mod 128"
proof -
  have "0 \<le> uint pp" "0 \<le> uint va mod 128" "uint va mod 128 < 128" by simp_all
  then have "0 \<le> uint pp * 128 + uint va mod 128" "uint pp * 128 + uint va mod 128 < 2 ^ 32"
    using assms by (simp_all add: NumPhysPages_def)
  then show ?thesis by (simp add: uint_word_ariths uint_mod mod_add_left_eq)
qed

text \<open>What the checks on a chosen entry decide, for an aligned access of a supported size.\<close>

lemma translate_entry_ok:
  assumes al: "aligned va sz" and sz: "access_size sz"
  shows "translate_entry e (va mod word_of_int PageSize) sz w =
     (if readOnly e \<and> w then Inr (e, Trap ReadOnlyException)
      else if uint (physicalPage e) \<ge> NumPhysPages then Inr (e, Trap BusErrorException)
      else Inr (e\<lparr>use := True, dirty := w \<or> dirty e\<rparr>,
                Phys (physicalPage e * word_of_int PageSize + va mod word_of_int PageSize)))"
proof (cases "uint (physicalPage e) < NumPhysPages")
  case True
  let ?pa = "physicalPage e * word_of_int PageSize + va mod word_of_int PageSize"
  note v = phys_addr_val [OF True, of va]
  have fits: "0 \<le> uint va mod 128" "uint va mod 128 + sz \<le> 128"
    using page_offset_fits [OF al sz] by auto
  moreover have "0 < sz" using sz by (auto simp: access_size_def)
  ultimately have b: "uint ?pa + sz \<le> MemorySize"
    unfolding v using True by (simp add: machine_consts)
  then have "sint ?pa = uint ?pa"
    using \<open>0 < sz\<close> by (intro sint_eq_uint_small) (simp add: machine_consts)
  with b have "sint ?pa \<ge> 0 \<and> sint ?pa + sz \<le> MemorySize" by simp
  then have "ASSERT (sint ?pa \<ge> 0 \<and> sint ?pa + sz \<le> MemorySize) = Inr ()" by simp
  with True show ?thesis
    by (auto simp: translate_entry_def Let_def)
next
  case False
  then show ?thesis by (simp add: translate_entry_def)
qed

definition translate_outcome ::
  "TranslationEntry \<Rightarrow> u32 \<Rightarrow> bool \<Rightarrow> translation" where
  "translate_outcome e va w =
     (if readOnly e \<and> w then Trap ReadOnlyException
      else if uint (physicalPage e) \<ge> NumPhysPages then Trap BusErrorException
      else Phys (word_of_int (uint (physicalPage e) * 128 + uint va mod 128)))"

definition touched :: "TranslationEntry \<Rightarrow> bool \<Rightarrow> TranslationEntry" where
  "touched e w = (if (readOnly e \<and> w) \<or> uint (physicalPage e) \<ge> NumPhysPages then e
                  else e\<lparr>use := True, dirty := w \<or> dirty e\<rparr>)"

lemma translate_entry_outcome:
  assumes "aligned va sz" and "access_size sz"
  shows "translate_entry e (va mod word_of_int PageSize) sz w = Inr (touched e w, translate_outcome e va w)"
proof -
  have "uint (physicalPage e) < NumPhysPages \<Longrightarrow>
    physicalPage e * word_of_int PageSize + va mod word_of_int PageSize =
    word_of_int (uint (physicalPage e) * 128 + uint va mod 128)"
    using phys_addr_val [of "physicalPage e" va] by (metis word_of_int_uint)
  then show ?thesis
    by (simp add: translate_entry_ok [OF assms] touched_def translate_outcome_def)
qed

definition lookup_last :: "TranslationEntry list \<Rightarrow> u32 \<Rightarrow> nat option" where
  "lookup_last pt vpn = find (\<lambda>k. virtualPage (pt ! k) = vpn) (rev [0..<length pt])"

lemma lookup_last_None:
  "lookup_last pt vpn = None \<longleftrightarrow> (\<forall>k < length pt. virtualPage (pt ! k) \<noteq> vpn)"
  by (auto simp: lookup_last_def find_None_iff)

lemma lookup_last_Some:
  assumes "r < length pt" "virtualPage (pt ! r) = vpn"
    and "\<forall>k. r < k \<and> k < length pt \<longrightarrow> virtualPage (pt ! k) \<noteq> vpn"
  shows "lookup_last pt vpn = Some r"
proof -
  have "[0..<length pt] = [0..<r] @ [r..<length pt]" using assms(1) by (metis le_add_diff_inverse
      less_imp_le_nat upt_add_eq_append zero_le)
  then have "rev [0..<length pt] = rev [Suc r..<length pt] @ r # rev [0..<r]"
    using assms(1) by (simp add: upt_conv_Cons)
  moreover have "find (\<lambda>k. virtualPage (pt ! k) = vpn) (rev [Suc r..<length pt] @ r # rev [0..<r]) = Some r"
  proof -
    have "find (\<lambda>k. virtualPage (pt ! k) = vpn) (rev [Suc r..<length pt]) = None"
      using assms(3) by (auto simp: find_None_iff)
    then show ?thesis using assms(2) by (simp add: find_append)
  qed
  ultimately show ?thesis by (simp add: lookup_last_def)
qed

lemma pt_scan_lookup:
  assumes "length pt = nat NumPhysPages"
  shows "pt_scan pt vpn 0 (-1) = Inr (case lookup_last pt vpn of None \<Rightarrow> -1 | Some r \<Rightarrow> int r)"
proof -
  obtain r where r: "pt_scan pt vpn 0 (-1) = Inr r"
    "(r = -1 \<and> (\<forall>k. 0 \<le> k \<and> k < NumPhysPages \<longrightarrow> virtualPage (pt ! nat k) \<noteq> vpn)) \<or>
     (0 \<le> r \<and> r < NumPhysPages \<and> virtualPage (pt ! nat r) = vpn \<and>
      (\<forall>k. r < k \<and> k < NumPhysPages \<longrightarrow> virtualPage (pt ! nat k) \<noteq> vpn))"
    using pt_scan_ok [OF assms, of 0 vpn "-1"] by auto
  have len: "int (length pt) = NumPhysPages" using assms by (simp add: NumPhysPages_def)
  from r(2) show ?thesis
  proof (elim disjE conjE)
    assume m: "r = -1" "\<forall>k. 0 \<le> k \<and> k < NumPhysPages \<longrightarrow> virtualPage (pt ! nat k) \<noteq> vpn"
    have "virtualPage (pt ! k) \<noteq> vpn" if "k < length pt" for k
      using m(2)[rule_format, of "int k"] that len by simp
    then have "lookup_last pt vpn = None" by (simp add: lookup_last_None)
    with r m show ?thesis by simp
  next
    assume h: "0 \<le> r" "r < NumPhysPages" "virtualPage (pt ! nat r) = vpn"
      "\<forall>k. r < k \<and> k < NumPhysPages \<longrightarrow> virtualPage (pt ! nat k) \<noteq> vpn"
    have "virtualPage (pt ! k) \<noteq> vpn" if "nat r < k" "k < length pt" for k
      using h(4)[rule_format, of "int k"] that len h(1) by simp
    with h len have "lookup_last pt vpn = Some (nat r)" by (intro lookup_last_Some) auto
    with r h show ?thesis by simp
  qed
qed

lemma Translate_pt:
  assumes "tlb m = None" "pageTable m = Some p" "tables m p = Some pt"
    and "length pt = nat NumPhysPages" and "access_size sz"
  shows "Translate va sz w m = Inr (
     if \<not> aligned va sz \<or> va div 128 \<ge> pageTableSize m then (m, Trap AddressErrorException)
     else case lookup_last pt (va div 128) of
         None \<Rightarrow> (m, Trap PageFaultException)
       | Some i \<Rightarrow> (m\<lparr>tables := (tables m)(p \<mapsto> pt[i := touched (pt ! i) w])\<rparr>,
                    translate_outcome (pt ! i) va w))"
proof -
  have al: "(sz = 4 \<and> va AND 3 \<noteq> 0) \<or> (sz = 2 \<and> va AND 1 \<noteq> 0) \<longleftrightarrow> \<not> aligned va sz"
    using assms(5) by (auto simp: access_size_def aligned_def and_low_bits)
  have P: "(word_of_int PageSize :: u32) = 128" by (simp add: machine_consts)
  show ?thesis
  proof (cases "\<not> aligned va sz \<or> va div 128 \<ge> pageTableSize m")
    case True
    then show ?thesis using assms(1) unfolding Translate_def al Let_def P by auto
  next
    case False
    note te = translate_entry_outcome [OF _ assms(5), unfolded P]
    have "i < length pt" if "lookup_last pt (va div 128) = Some i" for i
      using that by (auto simp: lookup_last_def dest!: find_Some_mem)
    with False show ?thesis
      using assms(1-3) te unfolding Translate_def al Let_def P
      by (auto simp: pt_scan_lookup [OF assms(4)] split: option.splits)
  qed
qed

text \<open>
  (C23) Page-table translation, completely: on a machine without TLB whose page table has
  \<open>NumPhysPages\<close> entries, an access of 1, 2 or 4 bytes never aborts. It traps with an address error
  when it is misaligned or beyond the table size, with a page fault when no entry names the virtual
  page, and otherwise is decided by the last such entry: read-only and bus-error traps leave the
  machine as it was, a successful one yields the frame's base plus the page offset, sets the use
  bit (and the dirty bit on a write) of that entry only.
\<close>

theorem Translate_page_table:
  assumes "tlb m = None" "pageTable m = Some p" "tables m p = Some pt"
    and "length pt = nat NumPhysPages" and "access_size sz"
  shows "Translate va sz w m = Inr (
     if \<not> aligned va sz \<or> va div 128 \<ge> pageTableSize m then (m, Trap AddressErrorException)
     else case lookup_last pt (va div 128) of
         None \<Rightarrow> (m, Trap PageFaultException)
       | Some i \<Rightarrow> (m\<lparr>tables := (tables m)(p \<mapsto> pt[i := touched (pt ! i) w])\<rparr>,
                    translate_outcome (pt ! i) va w))"
  using assms by (rule Translate_pt)

theorem Translate_page_table_witness:
  "\<exists>m p pt. Translate 300 4 True m =
     Inr (m\<lparr>tables := (tables m)(p \<mapsto> pt[1 := (pt ! 1)\<lparr>use := True, dirty := True\<rparr>])\<rparr>, Phys 684)"
proof -
  let ?e = "\<lparr>virtualPage = 2, physicalPage = 5, valid = True, readOnly = False, use = False, dirty = False, cnt = 0\<rparr>"
  let ?u = "?e\<lparr>virtualPage := -1\<rparr>"
  define pt where "pt = ?u # ?e # replicate 62 ?u"
  define m where "m = \<lparr>registers = (\<lambda>_. 0), mainMemory = (\<lambda>_. 0), tlb = None,
    tables = [0 \<mapsto> pt], pageTable = Some 0, pageTableSize = 3, TLBhit = 0, TLBmiss = 0, frames = Bitmap_new,
    singleStep = False, runUntilTime = 0\<rparr>"
  have "lookup_last pt 2 = Some 1"
    by (rule lookup_last_Some) (auto simp: pt_def nth_Cons')
  then have "Translate 300 4 True m =
     Inr (m\<lparr>tables := (tables m)(0 \<mapsto> pt[1 := (pt ! 1)\<lparr>use := True, dirty := True\<rparr>])\<rparr>, Phys 684)"
    using Translate_page_table [of m 0 pt 4 300 True]
    by (simp add: m_def aligned_def access_size_def NumPhysPages_def touched_def translate_outcome_def)
       (simp add: pt_def NumPhysPages_def)
  then show ?thesis by blast
qed

text \<open>The TLB build of the same routine.\<close>

definition tlb_lookup :: "TranslationEntry list \<Rightarrow> u32 \<Rightarrow> nat option" where
  "tlb_lookup t vpn = find (\<lambda>k. valid (t ! k) \<and> virtualPage (t ! k) = vpn) [0..<length t]"

definition aged :: "TranslationEntry list \<Rightarrow> nat \<Rightarrow> TranslationEntry list" where
  "aged t hit = map (\<lambda>k. (t ! k)\<lparr>cnt := (if k = hit then 0 else cnt (t ! k) + 1)\<rparr>) [0..<length t]"

lemma tlb_scan_find:
  assumes "length t = nat TLBSize" "i \<le> length t"
  shows "tlb_scan t vpn (int i) = Inr (case find (\<lambda>k. valid (t ! k) \<and> virtualPage (t ! k) = vpn) [i..<length t]
     of None \<Rightarrow> -1 | Some k \<Rightarrow> int k)"
  using assms(2)
proof (induction i rule: inc_induct)
  case base
  then show ?case using assms(1) by (subst tlb_scan.simps) (simp add: TLBSize_def)
next
  case (step i)
  have L: "int i < TLBSize" "int i < int (length t)" using step assms(1) by (auto simp: TLBSize_def)
  have s: "tlb_scan t vpn (int i) = (if valid (t ! i) \<and> virtualPage (t ! i) = vpn then Inr (int i)
      else tlb_scan t vpn (int (Suc i)))"
    using L by (subst tlb_scan.simps) (simp add: add.commute)
  show ?case using step unfolding s by (simp add: upt_conv_Cons)
qed

lemma tlb_age_aged:
  assumes "length t = nat TLBSize" "h < length t"
  shows "tlb_age (t[h := (t ! h)\<lparr>cnt := 0\<rparr>]) (int h) 0 = Inr (aged t h)"
proof -
  let ?t = "t[h := (t ! h)\<lparr>cnt := 0\<rparr>]"
  obtain t' where t': "tlb_age ?t (int h) 0 = Inr t'" "length t' = length t"
    "\<forall>k < length t. t' ! k = (if 0 \<le> int k \<and> int k \<noteq> int h then (?t ! k)\<lparr>cnt := cnt (?t ! k) + 1\<rparr> else ?t ! k)"
    using tlb_age_ok [of ?t 0 "int h"] assms by auto
  have "t' = aged t h"
    using t'(2,3) assms(2) by (intro nth_equalityI) (auto simp: aged_def)
  with t'(1) show ?thesis by simp
qed

lemma Translate_tlb_lookup:
  assumes "tlb m = Some t" "length t = nat TLBSize" and "access_size sz"
  shows "Translate va sz w m = Inr (
     if \<not> aligned va sz then (m, Trap AddressErrorException)
     else case tlb_lookup t (va div 128) of
         None \<Rightarrow> (m\<lparr>TLBmiss := TLBmiss m + 1\<rparr>, Trap PageFaultException)
       | Some h \<Rightarrow> (m\<lparr>tlb := Some ((aged t h)[h := touched (aged t h ! h) w]), TLBhit := TLBhit m + 1\<rparr>,
                    translate_outcome (t ! h) va w))"
proof -
  have al: "(sz = 4 \<and> va AND 3 \<noteq> 0) \<or> (sz = 2 \<and> va AND 1 \<noteq> 0) \<longleftrightarrow> \<not> aligned va sz"
    using assms(3) by (auto simp: access_size_def aligned_def and_low_bits)
  have P: "(word_of_int PageSize :: u32) = 128" by (simp add: machine_consts)
  show ?thesis
  proof (cases "aligned va sz")
    case True
    note te = translate_entry_outcome [OF True assms(3), unfolded P]
    have scan: "tlb_scan t vpn 0 = Inr (case tlb_lookup t vpn of None \<Rightarrow> -1 | Some k \<Rightarrow> int k)" for vpn
      using tlb_scan_find [OF assms(2), of 0 vpn] by (simp add: tlb_lookup_def)
    have h: "h < length t" if "tlb_lookup t (va div 128) = Some h" for h
      using that by (auto simp: tlb_lookup_def dest!: find_Some_mem)
    have out: "translate_outcome (aged t h ! h) va w = translate_outcome (t ! h) va w"
      "length (aged t h) = length t" if "h < length t" for h
      using that by (simp_all add: aged_def translate_outcome_def)
    show ?thesis
      using True assms(1) te h out unfolding Translate_def al Let_def P
      by (auto simp: scan tlb_age_aged [OF assms(2)] split: option.splits)
  next
    case False
    then show ?thesis unfolding Translate_def al by simp
  qed
qed

text \<open>
  (C24) TLB translation, completely: with a TLB of \<open>TLBSize\<close> entries an access of a supported size
  never aborts. A misaligned access traps without touching the TLB; if no valid entry names the page,
  the miss counter goes up and the access traps with a page fault; on a hit the counter of hits goes
  up, the age of the entry found is reset and that of every other entry, valid or not, incremented, and the outcome
  is decided by the first matching valid entry. Counters and ages are 32-bit words: they wrap around at \<open>2 ^ 32\<close>, as
  the C ints do on the host.
\<close>

theorem Translate_tlb:
  assumes "tlb m = Some t" "length t = nat TLBSize" and "access_size sz"
  shows "Translate va sz w m = Inr (
     if \<not> aligned va sz then (m, Trap AddressErrorException)
     else case tlb_lookup t (va div 128) of
         None \<Rightarrow> (m\<lparr>TLBmiss := TLBmiss m + 1\<rparr>, Trap PageFaultException)
       | Some h \<Rightarrow> (m\<lparr>tlb := Some ((aged t h)[h := touched (aged t h ! h) w]), TLBhit := TLBhit m + 1\<rparr>,
                    translate_outcome (t ! h) va w))"
  using assms by (rule Translate_tlb_lookup)

theorem Translate_tlb_witness:
  "\<exists>m m'. Translate 260 4 False m = Inr (m', Phys 900) \<and> TLBhit m' = TLBhit m + 1"
proof -
  let ?e = "\<lparr>virtualPage = 2, physicalPage = 7, valid = True, readOnly = True, use = False, dirty = False, cnt = 0\<rparr>"
  define t where "t = [?e\<lparr>valid := False\<rparr>, ?e, ?e\<lparr>virtualPage := 9\<rparr>, ?e]"
  define m where "m = \<lparr>registers = (\<lambda>_. 0), mainMemory = (\<lambda>_. 0), tlb = Some t,
    tables = Map.empty, pageTable = None, pageTableSize = 0, TLBhit = 0, TLBmiss = 0, frames = Bitmap_new,
    singleStep = False, runUntilTime = 0\<rparr>"
  have "tlb_lookup t 2 = Some 1" by (simp add: t_def tlb_lookup_def upt_rec)
  then have "\<exists>m'. Translate 260 4 False m = Inr (m', Phys 900) \<and> TLBhit m' = TLBhit m + 1"
    using Translate_tlb [of m t 4 260 False]
    by (simp add: m_def aligned_def access_size_def TLBSize_def translate_outcome_def NumPhysPages_def)
       (simp add: t_def)
  then show ?thesis by blast
qed

end
