(* ===== verification/Nachos_Interrupt.thy ===== *)
theory Nachos_Interrupt
  imports Nachos_List Nachos_Machine
begin

text \<open>
  Simulated time and hardware interrupts (\<^verbatim>\<open>machine/stats.h\<close>, \<^verbatim>\<open>stats.cc\<close>, \<^verbatim>\<open>machine/interrupt.h\<close>,
  \<^verbatim>\<open>interrupt.cc\<close>, \<^verbatim>\<open>machine/timer.cc\<close>). The record \<open>sim\<close> is the part of the global state these
  files touch; the kernel theories extend it. The pending list is the abstract keyed list that
  \<open>Nachos_List\<close> proves the linked list to implement. The interrupt handlers of the devices and
  \<^verbatim>\<open>Thread::Yield\<close> belong to other components: they are parameters here, with the contract
  \<open>interrupt_handlers\<close> that the kernel theories discharge for the real handlers.
\<close>

section \<open>Statistics\<close>

record statistics =
  totalTicks :: int
  idleTicks :: int
  systemTicks :: int
  userTicks :: int
  numDiskReads :: int
  numDiskWrites :: int
  numConsoleCharsRead :: int
  numConsoleCharsWritten :: int
  numPageFaults :: int
  numPacketsSent :: int
  numPacketsRecvd :: int

definition Statistics_new :: statistics where
  "Statistics_new = \<lparr>totalTicks = 0, idleTicks = 0, systemTicks = 0, userTicks = 0,
     numDiskReads = 0, numDiskWrites = 0, numConsoleCharsRead = 0, numConsoleCharsWritten = 0,
     numPageFaults = 0, numPacketsSent = 0, numPacketsRecvd = 0\<rparr>"

definition UserTick :: int where "UserTick = 1"
definition SystemTick :: int where "SystemTick = 10"
definition RotationTime :: int where "RotationTime = 500"
definition SeekTime :: int where "SeekTime = 500"
definition ConsoleTime :: int where "ConsoleTime = 100"
definition NetworkTime :: int where "NetworkTime = 100"
definition TimerTicks :: int where "TimerTicks = 100"

lemmas tick_consts = UserTick_def SystemTick_def RotationTime_def SeekTime_def ConsoleTime_def
  NetworkTime_def TimerTicks_def

section \<open>The interrupt controller\<close>

datatype IntStatus = IntOff | IntOn

datatype MachineStatus = IdleMode | SystemMode | UserMode

datatype IntType = TimerInt | DiskInt | ConsoleWriteInt | ConsoleReadInt | NetworkSendInt | NetworkRecvInt

text \<open>The handler functions the device simulators register, by name.\<close>

datatype handler_fn = TimerHandler | DiskDone | ConsoleReadPoll | ConsoleWriteDone
  | NetworkReadPoll | NetworkSendDone

record PendingInterrupt =
  handler :: handler_fn
  arg :: int
  when_due :: int
  int_type :: IntType

record interrupt_state =
  level :: IntStatus
  pending :: "(int \<times> PendingInterrupt) list"
  inHandler :: bool
  yieldOnReturn :: bool
  status :: MachineStatus

record sim =
  stats :: statistics
  intr :: interrupt_state
  machine_on :: bool
  mach :: machine

definition Interrupt_new :: interrupt_state where
  "Interrupt_new = \<lparr>level = IntOff, pending = [], inHandler = False, yieldOnReturn = False, status = SystemMode\<rparr>"

definition PendingInterrupt_new :: "handler_fn \<Rightarrow> int \<Rightarrow> int \<Rightarrow> IntType \<Rightarrow> PendingInterrupt" where
  "PendingInterrupt_new func param time kind = \<lparr>handler = func, arg = param, when_due = time, int_type = kind\<rparr>"

definition ChangeLevel :: "IntStatus \<Rightarrow> 'a sim_scheme \<Rightarrow> 'a sim_scheme" where
  "ChangeLevel now s = s\<lparr>intr := (intr s)\<lparr>level := now\<rparr>\<rparr>"

definition setStatus :: "MachineStatus \<Rightarrow> 'a sim_scheme \<Rightarrow> 'a sim_scheme" where
  "setStatus st s = s\<lparr>intr := (intr s)\<lparr>status := st\<rparr>\<rparr>"

definition YieldOnReturn :: "'a sim_scheme \<Rightarrow> 'a sim_scheme result" where
  "YieldOnReturn s = bindr (ASSERT (inHandler (intr s) = True)) (\<lambda>_.
     Inr (s\<lparr>intr := (intr s)\<lparr>yieldOnReturn := True\<rparr>\<rparr>))"

definition Schedule :: "handler_fn \<Rightarrow> int \<Rightarrow> int \<Rightarrow> IntType \<Rightarrow> 'a sim_scheme \<Rightarrow> 'a sim_scheme result" where
  "Schedule h a fromNow kind s =
     (let w = totalTicks (stats s) + fromNow;
          toOccur = PendingInterrupt_new h a w kind
      in bindr (ASSERT (fromNow > 0)) (\<lambda>_.
           Inr (s\<lparr>intr := (intr s)\<lparr>pending := kl_sorted_insert toOccur w (pending (intr s))\<rparr>\<rparr>)))"

text \<open>
  \<^verbatim>\<open>CheckIfDue\<close> takes the first pending interrupt off the list. It goes back when it is not due, or
  when the machine is idle and only the time-slice timer is left; otherwise the delayed load of the
  interrupted user program is completed and the handler runs in system mode.
\<close>

definition complete_load :: "'a sim_scheme \<Rightarrow> 'a sim_scheme result" where
  "complete_load s = (if machine_on s then bindr (DelayedLoad 0 0 (mach s)) (\<lambda>m. Inr (s\<lparr>mach := m\<rparr>)) else Inr s)"

definition fire ::
  "(handler_fn \<Rightarrow> int \<Rightarrow> 'a sim_scheme \<Rightarrow> 'a sim_scheme result) \<Rightarrow> PendingInterrupt \<Rightarrow> 'a sim_scheme \<Rightarrow> 'a sim_scheme result" where
  "fire H t s =
     bindr (complete_load s) (\<lambda>s1.
     bindr (H (handler t) (arg t) (s1\<lparr>intr := (intr s1)\<lparr>inHandler := True, status := SystemMode\<rparr>\<rparr>)) (\<lambda>s2.
       Inr (s2\<lparr>intr := (intr s2)\<lparr>status := status (intr s), inHandler := False\<rparr>\<rparr>)))"

definition CheckIfDue ::
  "(handler_fn \<Rightarrow> int \<Rightarrow> 'a sim_scheme \<Rightarrow> 'a sim_scheme result) \<Rightarrow> bool \<Rightarrow> 'a sim_scheme
     \<Rightarrow> ('a sim_scheme \<times> bool) result" where
  "CheckIfDue H advanceClock s =
     bindr (ASSERT (level (intr s) = IntOff)) (\<lambda>_.
       case kl_sorted_remove (pending (intr s)) of
         (None, _) \<Rightarrow> Inr (s, False)
       | (Some (w, toOccur), rest) \<Rightarrow>
           let now = totalTicks (stats s);
               s1 = s\<lparr>intr := (intr s)\<lparr>pending := rest\<rparr>\<rparr>;
               s2 = (if advanceClock \<and> w > now
                     then s1\<lparr>stats := (stats s1)\<lparr>idleTicks := idleTicks (stats s1) + (w - now), totalTicks := w\<rparr>\<rparr>
                     else s1);
               putback = (\<lambda>t. t\<lparr>intr := (intr t)\<lparr>pending := kl_sorted_insert toOccur w (pending (intr t))\<rparr>\<rparr>)
           in if \<not> advanceClock \<and> w > now then Inr (putback s1, False)
              else if status (intr s) = IdleMode \<and> int_type toOccur = TimerInt \<and> rest = []
              then Inr (putback s2, False)
              else bindr (fire H toOccur s2) (\<lambda>s3. Inr (s3, True)))"

text \<open>
  \<^verbatim>\<open>while (CheckIfDue(FALSE));\<close> with fuel: one more call than there are pending interrupts. The
  contract below makes this enough, because handlers only schedule for later.
\<close>

fun due_loop ::
  "(handler_fn \<Rightarrow> int \<Rightarrow> 'a sim_scheme \<Rightarrow> 'a sim_scheme result) \<Rightarrow> nat \<Rightarrow> 'a sim_scheme \<Rightarrow> 'a sim_scheme result" where
  "due_loop H 0 s = Inl Diverges"
| "due_loop H (Suc n) s = bindr (CheckIfDue H False s) (\<lambda>(s', b). if b then due_loop H n s' else Inr s')"

definition fire_due ::
  "(handler_fn \<Rightarrow> int \<Rightarrow> 'a sim_scheme \<Rightarrow> 'a sim_scheme result) \<Rightarrow> 'a sim_scheme \<Rightarrow> 'a sim_scheme result" where
  "fire_due H s = due_loop H (Suc (length (pending (intr s)))) s"

definition advance_time :: "'a sim_scheme \<Rightarrow> 'a sim_scheme" where
  "advance_time s =
     (if status (intr s) = SystemMode
      then s\<lparr>stats := (stats s)\<lparr>totalTicks := totalTicks (stats s) + SystemTick,
                               systemTicks := systemTicks (stats s) + SystemTick\<rparr>\<rparr>
      else s\<lparr>stats := (stats s)\<lparr>totalTicks := totalTicks (stats s) + UserTick,
                               userTicks := userTicks (stats s) + UserTick\<rparr>\<rparr>)"

definition tick_and_fire ::
  "(handler_fn \<Rightarrow> int \<Rightarrow> 'a sim_scheme \<Rightarrow> 'a sim_scheme result) \<Rightarrow> 'a sim_scheme \<Rightarrow> 'a sim_scheme result" where
  "tick_and_fire H s =
     bindr (fire_due H (ChangeLevel IntOff (advance_time s))) (\<lambda>s1. Inr (ChangeLevel IntOn s1))"

definition OneTick ::
  "(handler_fn \<Rightarrow> int \<Rightarrow> 'a sim_scheme \<Rightarrow> 'a sim_scheme result) \<Rightarrow> ('a sim_scheme \<Rightarrow> 'a sim_scheme result)
     \<Rightarrow> 'a sim_scheme \<Rightarrow> 'a sim_scheme result" where
  "OneTick H yield s =
     bindr (tick_and_fire H s) (\<lambda>s2.
       if yieldOnReturn (intr s2)
       then bindr (yield (s2\<lparr>intr := (intr s2)\<lparr>yieldOnReturn := False, status := SystemMode\<rparr>\<rparr>)) (\<lambda>s3.
              Inr (setStatus (status (intr s)) s3))
       else Inr s2)"

definition SetLevel ::
  "(handler_fn \<Rightarrow> int \<Rightarrow> 'a sim_scheme \<Rightarrow> 'a sim_scheme result) \<Rightarrow> ('a sim_scheme \<Rightarrow> 'a sim_scheme result)
     \<Rightarrow> IntStatus \<Rightarrow> 'a sim_scheme \<Rightarrow> ('a sim_scheme \<times> IntStatus) result" where
  "SetLevel H yield now s =
     (let old = level (intr s) in
      bindr (ASSERT (now = IntOff \<or> inHandler (intr s) = False)) (\<lambda>_.
      bindr (if now = IntOn \<and> old = IntOff then OneTick H yield (ChangeLevel now s)
             else Inr (ChangeLevel now s)) (\<lambda>s1. Inr (s1, old))))"

definition Enable ::
  "(handler_fn \<Rightarrow> int \<Rightarrow> 'a sim_scheme \<Rightarrow> 'a sim_scheme result) \<Rightarrow> ('a sim_scheme \<Rightarrow> 'a sim_scheme result)
     \<Rightarrow> 'a sim_scheme \<Rightarrow> 'a sim_scheme result" where
  "Enable H yield s = bindr (SetLevel H yield IntOn s) (\<lambda>(s1, _). Inr s1)"

text \<open>\<^verbatim>\<open>Halt\<close> prints the statistics and calls \<^verbatim>\<open>Cleanup\<close>, which exits: control does not come back.\<close>

definition Halt :: "'a sim_scheme \<Rightarrow> 'a sim_scheme result" where
  "Halt s = Inl Halted"

definition Idle ::
  "(handler_fn \<Rightarrow> int \<Rightarrow> 'a sim_scheme \<Rightarrow> 'a sim_scheme result) \<Rightarrow> 'a sim_scheme \<Rightarrow> 'a sim_scheme result" where
  "Idle H s =
     bindr (CheckIfDue H True (setStatus IdleMode s)) (\<lambda>(s1, fired).
       if fired then bindr (fire_due H s1) (\<lambda>s2.
         Inr (s2\<lparr>intr := (intr s2)\<lparr>yieldOnReturn := False, status := SystemMode\<rparr>\<rparr>))
       else Halt s1)"

section \<open>The timer device\<close>

record Timer =
  randomize :: bool
  timer_handler_arg :: int

text \<open>\<^verbatim>\<open>TimeOfNextInterrupt\<close> returns before it looks at \<^verbatim>\<open>randomize\<close>.\<close>

definition TimeOfNextInterrupt :: "Timer \<Rightarrow> int" where
  "TimeOfNextInterrupt t = TimerTicks"

definition Timer_new :: "int \<Rightarrow> bool \<Rightarrow> int \<Rightarrow> 'a sim_scheme \<Rightarrow> ('a sim_scheme \<times> Timer) result" where
  "Timer_new callArg doRandom this s =
     (let t = \<lparr>randomize = doRandom, timer_handler_arg = callArg\<rparr>
      in bindr (Schedule TimerHandler this (TimeOfNextInterrupt t) TimerInt s) (\<lambda>s'. Inr (s', t)))"

definition TimerInterruptHandler :: "int \<Rightarrow> 'a sim_scheme \<Rightarrow> 'a sim_scheme result" where
  "TimerInterruptHandler dummy s = (if status (intr s) \<noteq> IdleMode then YieldOnReturn s else Inr s)"

definition TimerExpired :: "Timer \<Rightarrow> int \<Rightarrow> 'a sim_scheme \<Rightarrow> 'a sim_scheme result" where
  "TimerExpired t this s =
     bindr (Schedule TimerHandler this (TimeOfNextInterrupt t) TimerInt s) (\<lambda>s1.
       TimerInterruptHandler (timer_handler_arg t) s1)"

section \<open>What the simulation relies on and keeps\<close>

definition due_now :: "'a sim_scheme \<Rightarrow> (int \<times> PendingInterrupt) list" where
  "due_now s = filter (\<lambda>(k, _). k \<le> totalTicks (stats s)) (pending (intr s))"

definition mach_ok :: "'a sim_scheme \<Rightarrow> bool" where
  "mach_ok s \<longleftrightarrow> (machine_on s \<longrightarrow> regs_ok (mach s))"

definition clock_ok :: "'a sim_scheme \<Rightarrow> bool" where
  "clock_ok s \<longleftrightarrow> totalTicks (stats s) = idleTicks (stats s) + systemTicks (stats s) + userTicks (stats s)"

text \<open>The state in which the controller looks for due interrupts.\<close>

definition intr_ok :: "'a sim_scheme \<Rightarrow> bool" where
  "intr_ok s \<longleftrightarrow> kl_sorted (pending (intr s)) \<and> mach_ok s \<and> clock_ok s"

text \<open>What a handler may change: it leaves the clock, the machine and the interrupt level alone, and
  schedules only for later.\<close>

definition same_clock :: "'a sim_scheme \<Rightarrow> 'a sim_scheme \<Rightarrow> bool" where
  "same_clock s s' \<longleftrightarrow> totalTicks (stats s') = totalTicks (stats s) \<and> idleTicks (stats s') = idleTicks (stats s) \<and>
     systemTicks (stats s') = systemTicks (stats s) \<and> userTicks (stats s') = userTicks (stats s)"

definition handler_effect :: "'a sim_scheme \<Rightarrow> 'a sim_scheme \<Rightarrow> bool" where
  "handler_effect s s' \<longleftrightarrow> same_clock s s' \<and> mach s' = mach s \<and> machine_on s' = machine_on s \<and>
     level (intr s') = level (intr s) \<and> inHandler (intr s') = inHandler (intr s) \<and>
     due_now s' = due_now s \<and> (kl_sorted (pending (intr s)) \<longrightarrow> kl_sorted (pending (intr s')))"

lemma same_clock_ok: "same_clock s s' \<Longrightarrow> clock_ok s' = clock_ok s"
  by (auto simp: same_clock_def clock_ok_def)

lemma sim_frames [simp]:
  "mach_ok (s\<lparr>intr := i\<rparr>) = mach_ok s" "clock_ok (s\<lparr>intr := i\<rparr>) = clock_ok s"
  "clock_ok (s\<lparr>mach := m\<rparr>) = clock_ok s" "same_clock s (s'\<lparr>intr := i\<rparr>) = same_clock s s'"
  "same_clock (s\<lparr>intr := i\<rparr>) s' = same_clock s s'" "same_clock (s\<lparr>mach := m\<rparr>) s' = same_clock s s'"
  "same_clock s s"
  by (simp_all add: mach_ok_def clock_ok_def same_clock_def)

lemma same_clock_total: "same_clock s s' \<Longrightarrow> totalTicks (stats s') = totalTicks (stats s)"
  by (simp add: same_clock_def)

lemma handler_effect_refl [simp]: "handler_effect s s"
  by (simp add: handler_effect_def same_clock_def)

lemma handler_effect_trans: "handler_effect s t \<Longrightarrow> handler_effect t u \<Longrightarrow> handler_effect s u"
  by (auto simp: handler_effect_def same_clock_def)

lemma filter_sorted_insert_later:
  "now < k \<Longrightarrow> filter (\<lambda>(k, _). k \<le> now) (kl_sorted_insert x k xs) = filter (\<lambda>(k, _). k \<le> now) xs"
  by (induction x k xs rule: kl_sorted_insert.induct) auto

lemma Schedule_effect:
  assumes "0 < n"
  shows "\<exists>s'. Schedule h a n k s = Inr s' \<and> handler_effect s s' \<and> sim.more s' = sim.more s \<and>
    status (intr s') = status (intr s) \<and> yieldOnReturn (intr s') = yieldOnReturn (intr s) \<and>
    length (pending (intr s')) = Suc (length (pending (intr s))) \<and> stats s' = stats s"
  using assms
  by (auto simp: Schedule_def Let_def handler_effect_def same_clock_def due_now_def filter_sorted_insert_later
      intro: kl_sorted_insert_sorted)

lemma YieldOnReturn_effect:
  "inHandler (intr s) \<Longrightarrow> \<exists>s'. YieldOnReturn s = Inr s' \<and> handler_effect s s' \<and> sim.more s' = sim.more s"
  by (simp add: YieldOnReturn_def handler_effect_def same_clock_def due_now_def)

lemma TimerExpired_effect:
  assumes "inHandler (intr s)"
  shows "\<exists>s'. TimerExpired t this s = Inr s' \<and> handler_effect s s' \<and> sim.more s' = sim.more s"
proof -
  obtain s1 where s1: "Schedule TimerHandler this (TimeOfNextInterrupt t) TimerInt s = Inr s1"
    "handler_effect s s1" "sim.more s1 = sim.more s"
    using Schedule_effect [of "TimeOfNextInterrupt t" TimerHandler this TimerInt s]
    by (auto simp: TimeOfNextInterrupt_def TimerTicks_def)
  then have "inHandler (intr s1)" using assms by (simp add: handler_effect_def)
  then show ?thesis using s1 YieldOnReturn_effect [of s1]
    by (auto simp: TimerExpired_def TimerInterruptHandler_def intro: handler_effect_trans)
qed

lemma TimerExpired_intr: "TimerExpired t a s = Inr s' \<Longrightarrow> \<exists>i. s' = s\<lparr>intr := i\<rparr>"
  unfolding TimerExpired_def TimerInterruptHandler_def Schedule_def YieldOnReturn_def TimeOfNextInterrupt_def TimerTicks_def Let_def
  by (auto simp: ASSERT_def split: if_splits)

text \<open>
  The contract between the interrupt controller and the handlers of the devices: in a state
  satisfying the kernel's invariant, with interrupts off, the handler of an installed device returns,
  re-establishes the invariant, schedules only handlers of installed devices, and has no other
  effect on the controller than \<open>handler_effect\<close> allows.
\<close>

definition only_pending :: "(handler_fn \<Rightarrow> bool) \<Rightarrow> 'a sim_scheme \<Rightarrow> bool" where
  "only_pending R s \<longleftrightarrow> (\<forall>(k, t) \<in> set (pending (intr s)). R (handler t))"

locale interrupt_handlers =
  fixes H :: "handler_fn \<Rightarrow> int \<Rightarrow> 'a sim_scheme \<Rightarrow> 'a sim_scheme result"
    and R :: "handler_fn \<Rightarrow> bool"
    and I :: "'a sim_scheme \<Rightarrow> bool"
  assumes I_frame: "I (s\<lparr>intr := i\<rparr>) = I s" "I (s\<lparr>mach := m\<rparr>) = I s" "I (s\<lparr>stats := x\<rparr>) = I s"
    and handler_returns:
    "R h \<Longrightarrow> I s \<Longrightarrow> level (intr s) = IntOff \<Longrightarrow> inHandler (intr s) \<Longrightarrow> only_pending R s \<Longrightarrow>
     \<exists>s'. H h a s = Inr s' \<and> I s' \<and> only_pending R s' \<and> handler_effect s s'"
begin

lemma fire_ok:
  assumes "I s" "intr_ok s" "level (intr s) = IntOff" "only_pending R s" "R (handler t)"
  shows "\<exists>s'. fire H t s = Inr s' \<and> I s' \<and> only_pending R s' \<and> intr_ok s' \<and> level (intr s') = IntOff \<and>
     same_clock s s' \<and> due_now s' = due_now s \<and> status (intr s') = status (intr s) \<and>
     \<not> inHandler (intr s') \<and> machine_on s' = machine_on s"
  supply I_frame [simp]
proof -
  have "\<exists>m. complete_load s = Inr (s\<lparr>mach := m\<rparr>) \<and> (machine_on s \<longrightarrow> regs_ok m)"
  proof (cases "machine_on s")
    case True
    then have "regs_ok (mach s)" using assms(2) by (simp add: intr_ok_def mach_ok_def)
    from DelayedLoad_ok [OF this, of 0 0] obtain m where m: "DelayedLoad 0 0 (mach s) = Inr m" by blast
    then have "regs_ok m" using DelayedLoad_regs_ok by fastforce
    with m True show ?thesis by (auto simp: complete_load_def)
  next
    case False
    then show ?thesis by (intro exI [of _ "mach s"]) (simp add: complete_load_def)
  qed
  then obtain m where m: "complete_load s = Inr (s\<lparr>mach := m\<rparr>)" "machine_on s \<longrightarrow> regs_ok m" by blast
  let ?s1 = "s\<lparr>mach := m, intr := (intr s)\<lparr>inHandler := True, status := SystemMode\<rparr>\<rparr>"
  obtain s2 where s2: "H (handler t) (arg t) ?s1 = Inr s2" "I s2" "handler_effect ?s1 s2" "only_pending R s2"
    using handler_returns [of "handler t" ?s1 "arg t"] assms by (auto simp: only_pending_def)
  from m(1) s2(1) have f: "fire H t s = Inr (s2\<lparr>intr := (intr s2)\<lparr>status := status (intr s), inHandler := False\<rparr>\<rparr>)"
    by (simp add: fire_def)
  have clk: "same_clock s s2" using s2(3) by (simp add: handler_effect_def)
  have "clock_ok s2" "mach_ok s2" "kl_sorted (pending (intr s2))"
    using same_clock_ok [OF clk] s2(3) assms(2) m(2)
    by (simp_all add: handler_effect_def intr_ok_def mach_ok_def)
  then show ?thesis unfolding f using s2(2,3,4) assms(3) clk
    by (simp add: handler_effect_def intr_ok_def due_now_def only_pending_def)
qed

text \<open>
  Outside idle mode the loop fires the due interrupts one after the other and then stops: it needs
  no more than one call per due interrupt, plus one.
\<close>

lemma due_loop_ok:
  assumes "I s" "intr_ok s" "level (intr s) = IntOff" "only_pending R s" "length (due_now s) < n"
  shows "\<exists>s'. due_loop H n s = Inr s' \<and> I s' \<and> only_pending R s' \<and> intr_ok s' \<and> level (intr s') = IntOff \<and>
     same_clock s s' \<and> status (intr s') = status (intr s) \<and> machine_on s' = machine_on s \<and>
     (status (intr s) \<noteq> IdleMode \<longrightarrow> due_now s' = [])"
  supply I_frame [simp]
  using assms
proof (induction n arbitrary: s)
  case (Suc n)
  show ?case
  proof (cases "pending (intr s)")
    case Nil
    then have "CheckIfDue H False s = Inr (s, False)" using Suc.prems by (simp add: CheckIfDue_def)
    then show ?thesis using Suc.prems Nil by (simp add: same_clock_def due_now_def)
  next
    case (Cons kx rest)
    obtain w t where kx: "kx = (w, t)" by (cases kx)
    have srt: "\<forall>(k, x) \<in> set rest. w \<le> k" "kl_sorted rest"
      using Suc.prems(2) Cons kx by (auto simp: intr_ok_def kl_sorted_def)
    let ?s1 = "s\<lparr>intr := (intr s)\<lparr>pending := rest\<rparr>\<rparr>"
    show ?thesis
    proof (cases "w > totalTicks (stats s)")
      case True
      let ?p = "s\<lparr>intr := (intr s)\<lparr>pending := kl_sorted_insert t w rest\<rparr>\<rparr>"
      have "CheckIfDue H False s = Inr (?p, False)"
        using Suc.prems Cons kx True by (simp add: CheckIfDue_def Let_def)
      moreover have "due_now ?p = []"
        using True srt(1) by (auto simp: due_now_def filter_empty_conv)
      ultimately show ?thesis using Suc.prems srt True
        by (auto simp: intr_ok_def only_pending_def kx Cons intro: kl_sorted_insert_sorted)
    next
      case due: False
      show ?thesis
      proof (cases "status (intr s) = IdleMode \<and> int_type t = TimerInt \<and> rest = []")
        case True
        let ?p = "s\<lparr>intr := (intr s)\<lparr>pending := [(w, t)]\<rparr>\<rparr>"
        from True have "CheckIfDue H False s = Inr (?p, False)"
          using Suc.prems Cons kx due by (simp add: CheckIfDue_def Let_def)
        then show ?thesis using Suc.prems True by (simp add: intr_ok_def kl_sorted_def only_pending_def kx Cons)
      next
        case False
        have "I ?s1" "intr_ok ?s1" "level (intr ?s1) = IntOff" "only_pending R ?s1" "R (handler t)"
          using Suc.prems srt by (simp_all add: intr_ok_def only_pending_def kx Cons)
        from fire_ok [OF this] obtain s2 where s2: "fire H t ?s1 = Inr s2" "I s2"
          "intr_ok s2" "level (intr s2) = IntOff" "only_pending R s2" "same_clock ?s1 s2" "due_now s2 = due_now ?s1"
          "status (intr s2) = status (intr ?s1)" "machine_on s2 = machine_on ?s1" by blast
        have c: "CheckIfDue H False s = Inr (s2, True)"
          using Suc.prems Cons kx due False s2(1) by (auto simp: CheckIfDue_def Let_def)
        have "length (due_now s2) < n"
          using Suc.prems(5) s2(7) Cons kx due by (simp add: due_now_def)
        from Suc.IH [OF s2(2-5) this] c s2(6,8,9) show ?thesis
          by (auto simp: same_clock_def)
      qed
    qed
  qed
qed simp

lemma fire_due_ok:
  assumes "I s" "intr_ok s" "level (intr s) = IntOff" "only_pending R s"
  shows "\<exists>s'. fire_due H s = Inr s' \<and> I s' \<and> only_pending R s' \<and> intr_ok s' \<and> level (intr s') = IntOff \<and>
     same_clock s s' \<and> status (intr s') = status (intr s) \<and> machine_on s' = machine_on s \<and>
     (status (intr s) \<noteq> IdleMode \<longrightarrow> due_now s' = [])"
  supply I_frame [simp]
proof -
  have "length (due_now s) < Suc (length (pending (intr s)))"
    by (simp add: due_now_def less_Suc_eq_le)
  from due_loop_ok [OF assms this] show ?thesis by (simp add: fire_due_def)
qed

lemma advance_time_facts:
  "I (advance_time s) = I s" "intr (advance_time s) = intr s"
  "intr_ok (advance_time s) = intr_ok s" "totalTicks (stats s) < totalTicks (stats (advance_time s))"
  "machine_on (advance_time s) = machine_on s"
  by (auto simp: I_frame advance_time_def intr_ok_def mach_ok_def clock_ok_def tick_consts)

lemma tick_and_fire_ok:
  assumes "I s" "intr_ok s" "status (intr s) \<noteq> IdleMode" "only_pending R s"
  shows "\<exists>s'. tick_and_fire H s = Inr s' \<and> I s' \<and> only_pending R s' \<and> intr_ok s' \<and> level (intr s') = IntOn \<and>
     totalTicks (stats s') = totalTicks (stats s) + (if status (intr s) = SystemMode then SystemTick else UserTick) \<and>
     status (intr s') = status (intr s) \<and> due_now s' = []"
  supply I_frame [simp]
proof -
  let ?s1 = "ChangeLevel IntOff (advance_time s)"
  have i1: "status (intr ?s1) = status (intr s)" "totalTicks (stats ?s1) =
      totalTicks (stats s) + (if status (intr s) = SystemMode then SystemTick else UserTick)"
    by (simp_all add: ChangeLevel_def advance_time_def)
  have "I ?s1" "intr_ok ?s1" "level (intr ?s1) = IntOff" "only_pending R ?s1"
    using assms advance_time_facts [of s] by (simp_all add: ChangeLevel_def intr_ok_def only_pending_def)
  from fire_due_ok [OF this] i1(1) assms(3) obtain s2 where s2: "fire_due H ?s1 = Inr s2" "I s2"
    "intr_ok s2" "same_clock ?s1 s2" "status (intr s2) = status (intr s)" "due_now s2 = []" "only_pending R s2"
    by (auto simp: i1)
  then have "tick_and_fire H s = Inr (ChangeLevel IntOn s2)" by (simp add: tick_and_fire_def)
  then show ?thesis using s2 i1 same_clock_total [OF s2(4)]
    by (simp add: ChangeLevel_def intr_ok_def due_now_def only_pending_def)
qed


text \<open>
  \<^verbatim>\<open>Idle\<close>: the simulation stops exactly when nothing, or only the time-slice timer, is pending;
  otherwise the clock moves to the earliest pending interrupt and the kernel runs again.
\<close>

lemma Idle_halts:
  assumes "level (intr s) = IntOff"
    and "pending (intr s) = [] \<or> (\<exists>w t. pending (intr s) = [(w, t)] \<and> int_type t = TimerInt)"
  shows "Idle H s = Inl Halted"
  using assms by (auto simp: Idle_def CheckIfDue_def setStatus_def Let_def Halt_def)

lemma Idle_resumes:
  assumes "I s" "intr_ok s" "level (intr s) = IntOff" "only_pending R s"
    and p: "pending (intr s) = (w, t) # rest" "\<not> (int_type t = TimerInt \<and> rest = [])"
  shows "\<exists>s'. Idle H s = Inr s' \<and> I s' \<and> only_pending R s' \<and> intr_ok s' \<and> level (intr s') = IntOff \<and>
     status (intr s') = SystemMode \<and> \<not> yieldOnReturn (intr s') \<and>
     totalTicks (stats s') = max w (totalTicks (stats s)) \<and>
     idleTicks (stats s') - idleTicks (stats s) = totalTicks (stats s') - totalTicks (stats s)"
  supply I_frame [simp]
proof -
  define s1 where "s1 = (setStatus IdleMode s)\<lparr>intr := (intr (setStatus IdleMode s))\<lparr>pending := rest\<rparr>\<rparr>"
  define s2 where "s2 = (if w > totalTicks (stats s) then s1\<lparr>stats := (stats s1)\<lparr>
      idleTicks := idleTicks (stats s1) + (w - totalTicks (stats s)), totalTicks := w\<rparr>\<rparr> else s1)"
  have t2: "totalTicks (stats s2) = max w (totalTicks (stats s))"
    "idleTicks (stats s2) - idleTicks (stats s) = totalTicks (stats s2) - totalTicks (stats s)"
    by (auto simp: s2_def s1_def setStatus_def max_def)
  have "I s2" "intr_ok s2" "level (intr s2) = IntOff" "only_pending R s2" "R (handler t)"
    using assms(1-4) p(1)
    by (auto simp: s2_def s1_def setStatus_def intr_ok_def kl_sorted_def clock_ok_def mach_ok_def only_pending_def)
  from fire_ok [OF this] obtain s3 where s3: "fire H t s2 = Inr s3" "I s3" "intr_ok s3"
    "level (intr s3) = IntOff" "only_pending R s3" "same_clock s2 s3" by blast
  from fire_due_ok [OF s3(2-5)] obtain s4 where s4: "fire_due H s3 = Inr s4" "I s4" "intr_ok s4"
    "level (intr s4) = IntOff" "same_clock s3 s4" "only_pending R s4" by blast
  have "CheckIfDue H True (setStatus IdleMode s) = bindr (fire H t s2) (\<lambda>s3. Inr (s3, True))"
    using p assms(3) unfolding CheckIfDue_def by (auto simp: setStatus_def Let_def s2_def s1_def)
  then have "Idle H s = Inr (s4\<lparr>intr := (intr s4)\<lparr>yieldOnReturn := False, status := SystemMode\<rparr>\<rparr>)"
    using s3(1) s4(1) by (simp add: Idle_def)
  moreover have "same_clock s2 s4" using s3(6) s4(5) by (simp add: same_clock_def)
  ultimately show ?thesis using s4 t2 by (simp add: intr_ok_def same_clock_def only_pending_def)
qed

end

text \<open>
  A property that the handlers keep and that does not depend on the controller, the clock or the
  user-level machine is kept by a tick and by idling, whatever their outcome.
\<close>

locale handlers_keep =
  fixes H :: "handler_fn \<Rightarrow> int \<Rightarrow> 'a sim_scheme \<Rightarrow> 'a sim_scheme result"
    and Q :: "'a sim_scheme \<Rightarrow> bool"
  assumes Q_frame: "Q (s\<lparr>intr := i\<rparr>) = Q s" "Q (s\<lparr>mach := m\<rparr>) = Q s" "Q (s\<lparr>stats := x\<rparr>) = Q s"
    and handler_keeps: "H h a s = Inr s' \<Longrightarrow> Q s \<Longrightarrow> Q s'"
begin

lemma fire_keeps:
  assumes "fire H t s = Inr s'" "Q s"
  shows "Q s'"
proof -
  obtain s1 s2 where s1: "complete_load s = Inr s1"
    and s2: "H (handler t) (arg t) (s1\<lparr>intr := (intr s1)\<lparr>inHandler := True, status := SystemMode\<rparr>\<rparr>) = Inr s2"
    and s': "s' = s2\<lparr>intr := (intr s2)\<lparr>status := status (intr s), inHandler := False\<rparr>\<rparr>"
    using assms(1) unfolding fire_def bindr_eq_Inr by blast
  have "Q s1"
    using s1 assms(2)
    by (cases "machine_on s"; cases "DelayedLoad 0 0 (mach s)"; drule_tac sym; simp add: complete_load_def Q_frame)
  then have "Q (s1\<lparr>intr := (intr s1)\<lparr>inHandler := True, status := SystemMode\<rparr>\<rparr>)" by (simp add: Q_frame)
  from handler_keeps [OF s2 this] show ?thesis by (simp add: s' Q_frame)
qed

lemma CheckIfDue_keeps:
  assumes "CheckIfDue H adv s = Inr (s', b)" "Q s"
  shows "Q s'"
proof (cases "kl_sorted_remove (pending (intr s))")
  case (Pair r rest)
  show ?thesis
  proof (cases r)
    case None
    then show ?thesis using assms Pair by (auto simp: CheckIfDue_def ASSERT_def split: if_splits)
  next
    case (Some wt)
    then obtain w t where wt: "r = Some (w, t)" by (cases wt) auto
    show ?thesis using assms Pair wt
      by (auto simp: CheckIfDue_def ASSERT_def Let_def Q_frame bindr_eq_Inr split: if_splits elim!: fire_keeps)
  qed
qed

lemma due_loop_keeps: "due_loop H n s = Inr s' \<Longrightarrow> Q s \<Longrightarrow> Q s'"
proof (induction n arbitrary: s)
  case (Suc n)
  then obtain s1 b where c: "CheckIfDue H False s = Inr (s1, b)" "(if b then due_loop H n s1 else Inr s1) = Inr s'"
    unfolding due_loop.simps bindr_eq_Inr by auto
  then show ?case using Suc.IH [of s1] CheckIfDue_keeps [OF c(1) Suc.prems(2)] by (cases b) auto
qed simp

lemma tick_and_fire_keeps:
  assumes "tick_and_fire H s = Inr s'" "Q s"
  shows "Q s'"
proof -
  obtain s1 where s1: "fire_due H (ChangeLevel IntOff (advance_time s)) = Inr s1" "s' = ChangeLevel IntOn s1"
    using assms(1) unfolding tick_and_fire_def bindr_eq_Inr by blast
  have "Q (ChangeLevel IntOff (advance_time s))" using assms(2) by (simp add: ChangeLevel_def advance_time_def Q_frame)
  from due_loop_keeps [OF s1(1) [unfolded fire_due_def] this] show ?thesis by (simp add: s1(2) ChangeLevel_def Q_frame)
qed

lemma Idle_keeps:
  assumes "Idle H s = Inr s'" "Q s"
  shows "Q s'"
proof -
  obtain s1 b where c: "CheckIfDue H True (setStatus IdleMode s) = Inr (s1, b)"
    and r: "(if b then bindr (fire_due H s1) (\<lambda>s2. Inr (s2\<lparr>intr := (intr s2)\<lparr>yieldOnReturn := False, status := SystemMode\<rparr>\<rparr>)) else Halt s1) = Inr s'"
    using assms(1) unfolding Idle_def bindr_eq_Inr by auto
  have q1: "Q s1" using CheckIfDue_keeps [OF c] assms(2) by (simp add: setStatus_def Q_frame)
  have b using r by (cases b) (auto simp: Halt_def)
  then obtain s2 where s2: "fire_due H s1 = Inr s2" "s' = s2\<lparr>intr := (intr s2)\<lparr>yieldOnReturn := False, status := SystemMode\<rparr>\<rparr>"
    using r unfolding if_P [OF \<open>b\<close>] bindr_eq_Inr by blast
  then show ?thesis using due_loop_keeps [OF s2(1) [unfolded fire_due_def] q1] by (simp add: Q_frame)
qed

end

section \<open>The timer\<close>

text \<open>The handlers of a machine whose only device is the timer.\<close>

definition timer_handlers :: "Timer \<Rightarrow> handler_fn \<Rightarrow> int \<Rightarrow> 'a sim_scheme \<Rightarrow> 'a sim_scheme result" where
  "timer_handlers t h a s = (case h of TimerHandler \<Rightarrow> TimerExpired t a s | _ \<Rightarrow> Inl BadPointer)"

lemma TimerExpired_runs:
  assumes "inHandler (intr s)" "status (intr s) = SystemMode"
  shows "TimerExpired t a s = Inr (s\<lparr>intr := (intr s)\<lparr>yieldOnReturn := True,
    pending := kl_sorted_insert (PendingInterrupt_new TimerHandler a (totalTicks (stats s) + TimerTicks) TimerInt)
      (totalTicks (stats s) + TimerTicks) (pending (intr s))\<rparr>\<rparr>)"
  using assms by (simp add: TimerExpired_def Schedule_def TimeOfNextInterrupt_def TimerTicks_def TimerInterruptHandler_def YieldOnReturn_def Let_def)

interpretation tmr: interrupt_handlers "timer_handlers t" "\<lambda>h. h = TimerHandler" "\<lambda>_. True" for t
proof (unfold_locales, goal_cases)
  case (4 h s a)
  obtain s' where s': "TimerExpired t a s = Inr s'" "handler_effect s s'" using TimerExpired_effect [OF 4(4)] by blast
  have "set (pending (intr s')) \<subseteq> insert (totalTicks (stats s) + TimerTicks, PendingInterrupt_new TimerHandler a (totalTicks (stats s) + TimerTicks) TimerInt) (set (pending (intr s)))"
    using s'(1) by (auto simp: TimerExpired_def Schedule_def TimeOfNextInterrupt_def TimerTicks_def TimerInterruptHandler_def YieldOnReturn_def
        Let_def split: if_splits)
  then have "only_pending (\<lambda>h. h = TimerHandler) s'" using 4(5) by (auto simp: only_pending_def PendingInterrupt_new_def)
  then show ?case using s' 4(1) by (simp add: timer_handlers_def)
qed simp_all

lemma complete_load_intr: "complete_load s = Inr s1 \<Longrightarrow> intr s1 = intr s"
  by (cases "machine_on s"; cases "DelayedLoad 0 0 (mach s)"; drule sym; simp add: complete_load_def)

lemma fire_timer:
  assumes "intr_ok s" "level (intr s) = IntOff" "only_pending (\<lambda>h. h = TimerHandler) s" "handler p = TimerHandler"
  shows "\<exists>s'. fire (timer_handlers t) p s = Inr s' \<and> only_pending (\<lambda>h. h = TimerHandler) s' \<and> intr_ok s' \<and> level (intr s') = IntOff \<and>
    same_clock s s' \<and> due_now s' = due_now s \<and> status (intr s') = status (intr s) \<and>
    yieldOnReturn (intr s') \<and> length (pending (intr s')) = Suc (length (pending (intr s)))"
proof -
  obtain s' where s': "fire (timer_handlers t) p s = Inr s'" "only_pending (\<lambda>h. h = TimerHandler) s'" "intr_ok s'" "level (intr s') = IntOff"
    "same_clock s s'" "due_now s' = due_now s" "status (intr s') = status (intr s)"
    using tmr.fire_ok [OF TrueI assms] by blast
  obtain s1 where s1: "complete_load s = Inr s1" using s'(1) unfolding fire_def bindr_eq_Inr by blast
  have "intr s1 = intr s" using complete_load_intr [OF s1] .
  then have "yieldOnReturn (intr s') \<and> length (pending (intr s')) = Suc (length (pending (intr s)))"
    using s'(1) [symmetric] assms(4) s1 by (simp add: fire_def timer_handlers_def TimerExpired_runs)
  then show ?thesis using s' by blast
qed

lemma due_loop_timer:
  assumes "intr_ok s" "level (intr s) = IntOff" "only_pending (\<lambda>h. h = TimerHandler) s" "status (intr s) \<noteq> IdleMode"
    and "due_loop (timer_handlers t) n s = Inr s'"
  shows "yieldOnReturn (intr s') = (yieldOnReturn (intr s) \<or> due_now s \<noteq> []) \<and> length (pending (intr s')) = length (pending (intr s))"
  using assms
proof (induction n arbitrary: s)
  case (Suc n)
  show ?case
  proof (cases "pending (intr s)")
    case Nil
    then show ?thesis using Suc.prems(5) [symmetric] Suc.prems(2) by (simp add: CheckIfDue_def due_now_def)
  next
    case (Cons kx rest)
    obtain w p where kx: "kx = (w, p)" by (cases kx)
    have srt: "\<forall>(k, x) \<in> set rest. w \<le> k" "kl_sorted rest"
      using Suc.prems(1) Cons kx by (auto simp: intr_ok_def kl_sorted_def)
    show ?thesis
    proof (cases "w > totalTicks (stats s)")
      case True
      then have "due_now s = []" using srt(1) by (auto simp: due_now_def filter_empty_conv Cons kx)
      moreover have "CheckIfDue (timer_handlers t) False s = Inr (s\<lparr>intr := (intr s)\<lparr>pending := kl_sorted_insert p w rest\<rparr>\<rparr>, False)"
        using Suc.prems Cons kx True by (simp add: CheckIfDue_def Let_def)
      ultimately show ?thesis using Suc.prems(5) [symmetric] by (simp add: Cons)
    next
      case False
      let ?s1 = "s\<lparr>intr := (intr s)\<lparr>pending := rest\<rparr>\<rparr>"
      have "intr_ok ?s1" "level (intr ?s1) = IntOff" "only_pending (\<lambda>h. h = TimerHandler) ?s1" "handler p = TimerHandler"
        using Suc.prems srt by (simp_all add: intr_ok_def only_pending_def kx Cons)
      from fire_timer [OF this] obtain s2 where s2: "fire (timer_handlers t) p ?s1 = Inr s2"
        "only_pending (\<lambda>h. h = TimerHandler) s2" "intr_ok s2" "level (intr s2) = IntOff" "status (intr s2) = status (intr s)"
        "yieldOnReturn (intr s2)" "length (pending (intr s2)) = length (pending (intr s))"
        by (auto simp: Cons)
      have "CheckIfDue (timer_handlers t) False s = Inr (s2, True)"
        using Suc.prems Cons kx False s2(1) by (simp add: CheckIfDue_def Let_def)
      then have "due_loop (timer_handlers t) n s2 = Inr s'" using Suc.prems(5) by simp
      moreover have "due_now s \<noteq> []" using False by (simp add: due_now_def Cons kx)
      ultimately show ?thesis using Suc.IH [of s2] s2 Suc.prems(4) by simp
    qed
  qed
qed simp

text \<open>
  (C25) Time slices. On a machine whose only device is the timer, one tick outside idle mode advances the
  clock by the length of the tick, fires every interrupt that has become due, re-arms each timer that
  fired (none is lost), keeps the bookkeeping of the clock, and preempts the running thread (calls
  \<^verbatim>\<open>Yield\<close> in system mode and restores the mode) exactly when a timer was due.
\<close>

theorem OneTick_time_slice:
  assumes "intr_ok s" "status (intr s) \<noteq> IdleMode" "only_pending (\<lambda>h. h = TimerHandler) s" "\<not> yieldOnReturn (intr s)"
  shows "\<exists>s'. tick_and_fire (timer_handlers t) s = Inr s' \<and> intr_ok s' \<and> level (intr s') = IntOn \<and> due_now s' = [] \<and>
    totalTicks (stats s') = totalTicks (stats s) + (if status (intr s) = SystemMode then SystemTick else UserTick) \<and>
    length (pending (intr s')) = length (pending (intr s)) \<and>
    OneTick (timer_handlers t) yield s =
      (if due_now (advance_time s) = [] then Inr s'
       else bindr (yield (s'\<lparr>intr := (intr s')\<lparr>yieldOnReturn := False, status := SystemMode\<rparr>\<rparr>))
              (\<lambda>s3. Inr (setStatus (status (intr s)) s3)))"
proof -
  obtain s' where s': "tick_and_fire (timer_handlers t) s = Inr s'" "intr_ok s'" "level (intr s') = IntOn" "due_now s' = []"
    "totalTicks (stats s') = totalTicks (stats s) + (if status (intr s) = SystemMode then SystemTick else UserTick)"
    using tmr.tick_and_fire_ok [OF TrueI assms(1-3)] by blast
  let ?s1 = "ChangeLevel IntOff (advance_time s)"
  have pre: "intr_ok ?s1" "level (intr ?s1) = IntOff" "only_pending (\<lambda>h. h = TimerHandler) ?s1" "status (intr ?s1) \<noteq> IdleMode"
    using assms tmr.advance_time_facts(2-5) [of s] by (simp_all add: ChangeLevel_def intr_ok_def only_pending_def)
  obtain s2 where s2: "fire_due (timer_handlers t) ?s1 = Inr s2" "s' = ChangeLevel IntOn s2"
    using s'(1) unfolding tick_and_fire_def bindr_eq_Inr by blast
  have "yieldOnReturn (intr s2) = (due_now ?s1 \<noteq> []) \<and> length (pending (intr s2)) = length (pending (intr s))"
    using due_loop_timer [OF pre s2(1) [unfolded fire_due_def]] assms(4) tmr.advance_time_facts(2) [of s] by (simp add: ChangeLevel_def)
  then have "yieldOnReturn (intr s') = (due_now (advance_time s) \<noteq> [])" "length (pending (intr s')) = length (pending (intr s))"
    unfolding s2(2) by (simp_all add: ChangeLevel_def due_now_def)
  then show ?thesis using s' by (intro exI [of _ s']) (simp add: OneTick_def)
qed

text \<open>A machine in system mode, without user program, whose timer expires at tick 10.\<close>

definition timer_sim :: sim where
  "timer_sim = \<lparr>stats = Statistics_new,
     intr = Interrupt_new\<lparr>pending := [(10, PendingInterrupt_new TimerHandler 0 10 TimerInt)]\<rparr>,
     machine_on = False, mach = undefined\<rparr>"

theorem OneTick_time_slice_witness:
  "\<exists>s'. OneTick (timer_handlers \<lparr>randomize = False, timer_handler_arg = 0\<rparr>) Inr timer_sim =
      Inr (setStatus SystemMode (s'\<lparr>intr := (intr s')\<lparr>yieldOnReturn := False, status := SystemMode\<rparr>\<rparr>)) \<and>
    totalTicks (stats s') = 10 \<and> length (pending (intr s')) = 1"
proof -
  have "intr_ok timer_sim" "status (intr timer_sim) \<noteq> IdleMode" "only_pending (\<lambda>h. h = TimerHandler) timer_sim" "\<not> yieldOnReturn (intr timer_sim)"
    by (simp_all add: timer_sim_def intr_ok_def kl_sorted_def mach_ok_def clock_ok_def Statistics_new_def Interrupt_new_def only_pending_def
        PendingInterrupt_new_def)
  note OneTick_time_slice [OF this, of "\<lparr>randomize = False, timer_handler_arg = 0\<rparr>" Inr]
  moreover have "due_now (advance_time timer_sim) \<noteq> []" "length (pending (intr timer_sim)) = 1" "status (intr timer_sim) = SystemMode"
    "totalTicks (stats timer_sim) = 0"
    by (simp_all add: timer_sim_def due_now_def advance_time_def Interrupt_new_def Statistics_new_def SystemTick_def)
  ultimately show ?thesis by (auto simp: SystemTick_def)
qed

end
