(* ===== verification/Nachos_Mips.thy ===== *)
theory Nachos_Mips
  imports Nachos_Interrupt
begin

text \<open>
  The MIPS simulator (\<^verbatim>\<open>machine/mipssim.h\<close>, \<^verbatim>\<open>mipssim.cc\<close>) with the memory accesses of
  \<^verbatim>\<open>translate.cc\<close> and the trap to the kernel of \<^verbatim>\<open>machine.cc\<close>. Registers are 32-bit words; C++
  \<^verbatim>\<open>int\<close> arithmetic on them wraps, as the simulator relies on, and \<open>sint\<close> reads a register where the
  source compares, divides or shifts it as a signed number. The kernel's \<^verbatim>\<open>ExceptionHandler\<close> is the
  parameter \<open>K\<close>: it belongs to \<open>userprog/exception.cc\<close>.
\<close>

section \<open>Instructions\<close>

datatype opcode = OP_ADD | OP_ADDI | OP_ADDIU | OP_ADDU | OP_AND | OP_ANDI | OP_BEQ | OP_BGEZ | OP_BGEZAL
  | OP_BGTZ | OP_BLEZ | OP_BLTZ | OP_BLTZAL | OP_BNE | OP_DIV | OP_DIVU | OP_J | OP_JAL | OP_JALR | OP_JR
  | OP_LB | OP_LBU | OP_LH | OP_LHU | OP_LUI | OP_LW | OP_LWL | OP_LWR | OP_MFHI | OP_MFLO | OP_MTHI
  | OP_MTLO | OP_MULT | OP_MULTU | OP_NOR | OP_OR | OP_ORI | OP_RFE | OP_SB | OP_SH | OP_SLL | OP_SLLV
  | OP_SLT | OP_SLTI | OP_SLTIU | OP_SLTU | OP_SRA | OP_SRAV | OP_SRL | OP_SRLV | OP_SUB | OP_SUBU | OP_SW
  | OP_SWL | OP_SWR | OP_XOR | OP_XORI | OP_SYSCALL | OP_UNIMP | OP_RES | SPECIAL | BCOND

datatype op_format = IFMT | JFMT | RFMT

record Instruction =
  ivalue :: u32
  opCode :: opcode
  rs :: nat
  rt :: nat
  rd :: nat
  extra :: u32

definition opTable :: "(opcode \<times> op_format) list" where
  "opTable = [
    (SPECIAL, RFMT), (BCOND, IFMT), (OP_J, JFMT), (OP_JAL, JFMT),
    (OP_BEQ, IFMT), (OP_BNE, IFMT), (OP_BLEZ, IFMT), (OP_BGTZ, IFMT),
    (OP_ADDI, IFMT), (OP_ADDIU, IFMT), (OP_SLTI, IFMT), (OP_SLTIU, IFMT),
    (OP_ANDI, IFMT), (OP_ORI, IFMT), (OP_XORI, IFMT), (OP_LUI, IFMT),
    (OP_UNIMP, IFMT), (OP_UNIMP, IFMT), (OP_UNIMP, IFMT), (OP_UNIMP, IFMT),
    (OP_RES, IFMT), (OP_RES, IFMT), (OP_RES, IFMT), (OP_RES, IFMT),
    (OP_RES, IFMT), (OP_RES, IFMT), (OP_RES, IFMT), (OP_RES, IFMT),
    (OP_RES, IFMT), (OP_RES, IFMT), (OP_RES, IFMT), (OP_RES, IFMT),
    (OP_LB, IFMT), (OP_LH, IFMT), (OP_LWL, IFMT), (OP_LW, IFMT),
    (OP_LBU, IFMT), (OP_LHU, IFMT), (OP_LWR, IFMT), (OP_RES, IFMT),
    (OP_SB, IFMT), (OP_SH, IFMT), (OP_SWL, IFMT), (OP_SW, IFMT),
    (OP_RES, IFMT), (OP_RES, IFMT), (OP_SWR, IFMT), (OP_RES, IFMT),
    (OP_UNIMP, IFMT), (OP_UNIMP, IFMT), (OP_UNIMP, IFMT), (OP_UNIMP, IFMT),
    (OP_RES, IFMT), (OP_RES, IFMT), (OP_RES, IFMT), (OP_RES, IFMT),
    (OP_UNIMP, IFMT), (OP_UNIMP, IFMT), (OP_UNIMP, IFMT), (OP_UNIMP, IFMT),
    (OP_RES, IFMT), (OP_RES, IFMT), (OP_RES, IFMT), (OP_RES, IFMT)]"

definition specialTable :: "opcode list" where
  "specialTable = [
    OP_SLL, OP_RES, OP_SRL, OP_SRA, OP_SLLV, OP_RES, OP_SRLV, OP_SRAV,
    OP_JR, OP_JALR, OP_RES, OP_RES, OP_SYSCALL, OP_UNIMP, OP_RES, OP_RES,
    OP_MFHI, OP_MTHI, OP_MFLO, OP_MTLO, OP_RES, OP_RES, OP_RES, OP_RES,
    OP_MULT, OP_MULTU, OP_DIV, OP_DIVU, OP_RES, OP_RES, OP_RES, OP_RES,
    OP_ADD, OP_ADDU, OP_SUB, OP_SUBU, OP_AND, OP_OR, OP_XOR, OP_NOR,
    OP_RES, OP_RES, OP_SLT, OP_SLTU, OP_RES, OP_RES, OP_RES, OP_RES,
    OP_RES, OP_RES, OP_RES, OP_RES, OP_RES, OP_RES, OP_RES, OP_RES,
    OP_RES, OP_RES, OP_RES, OP_RES, OP_RES, OP_RES, OP_RES, OP_RES]"

definition field5 :: "u32 \<Rightarrow> nat \<Rightarrow> nat" where
  "field5 v k = unat (drop_bit k v AND 0x1f)"

definition decode_extra :: "op_format \<Rightarrow> u32 \<Rightarrow> u32" where
  "decode_extra f v = (case f of
       IFMT \<Rightarrow> (let e = v AND 0xffff in if e AND 0x8000 \<noteq> 0 then e OR 0xffff0000 else e)
     | RFMT \<Rightarrow> drop_bit 6 v AND 0x1f
     | JFMT \<Rightarrow> v AND 0x3ffffff)"

definition decode_bcond :: "u32 \<Rightarrow> opcode" where
  "decode_bcond v = (let i = v AND 0x1f0000 in
     if i = 0 then OP_BLTZ else if i = 0x10000 then OP_BGEZ else if i = 0x100000 then OP_BLTZAL
     else if i = 0x110000 then OP_BGEZAL else OP_UNIMP)"

definition Decode :: "u32 \<Rightarrow> Instruction result" where
  "Decode v =
     bindr (arr_get opTable (uint (drop_bit 26 v AND 0x3f))) (\<lambda>(op, fmt).
     bindr (if op = SPECIAL then arr_get specialTable (uint (v AND 0x3f))
            else if op = BCOND then Inr (decode_bcond v) else Inr op) (\<lambda>op'.
       Inr \<lparr>ivalue = v, opCode = op', rs = field5 v 21, rt = field5 v 16, rd = field5 v 11,
            extra = decode_extra fmt v\<rparr>))"

section \<open>Multiplication\<close>

text \<open>
  The shift-and-add loop on the state \<open>(a, bLo, bHi, lo, hi)\<close>: at most 32 rounds, with the early
  exit once the remaining bits of \<open>a\<close> are zero. \<^verbatim>\<open>a >>= 1\<close> shifts a signed \<^verbatim>\<open>int\<close>.
\<close>

function mult_loop :: "int \<Rightarrow> u32 \<Rightarrow> u32 \<Rightarrow> u32 \<Rightarrow> u32 \<Rightarrow> u32 \<Rightarrow> u32 \<times> u32" where
  "mult_loop i a bLo bHi lo hi =
     (if i < 32 then
        let lo' = (if a AND 1 \<noteq> 0 then lo + bLo else lo);
            hi' = (if a AND 1 \<noteq> 0 then (if lo' < bLo then hi + 1 else hi) + bHi else hi)
        in if a AND 1 \<noteq> 0 \<and> a AND 0xfffffffe = 0 then (hi', lo')
           else mult_loop (i + 1) (signed_drop_bit 1 a) (push_bit 1 bLo)
                  (if bLo AND 0x80000000 \<noteq> 0 then push_bit 1 bHi OR 1 else push_bit 1 bHi) lo' hi'
      else (hi, lo))"
  by pat_completeness auto
termination
  by (relation "measure (\<lambda>(i, _). nat (32 - i))") auto

declare mult_loop.simps [simp del]

definition Mult :: "u32 \<Rightarrow> u32 \<Rightarrow> bool \<Rightarrow> u32 \<times> u32" where
  "Mult a b signedArith =
     (if a = 0 \<or> b = 0 then (0, 0)
      else let na = signedArith \<and> sint a < 0;
               nb = signedArith \<and> sint b < 0;
               a' = (if na then - a else a);
               b' = (if nb then - b else b);
               (hi, lo) = mult_loop 0 a' b' 0 0 0
           in if na \<noteq> nb
              then let hi1 = NOT hi; lo1 = NOT lo + 1 in (if lo1 = 0 then hi1 + 1 else hi1, lo1)
              else (hi, lo))"

section \<open>Traps and memory accesses\<close>

definition RaiseException ::
  "(ExceptionType \<Rightarrow> 'a sim_scheme \<Rightarrow> 'a sim_scheme result) \<Rightarrow> ExceptionType \<Rightarrow> u32 \<Rightarrow> 'a sim_scheme
     \<Rightarrow> 'a sim_scheme result" where
  "RaiseException K which badVAddr s =
     bindr (DelayedLoad 0 0 ((mach s)\<lparr>registers := (registers (mach s))(BadVAddrReg := badVAddr)\<rparr>)) (\<lambda>m.
     bindr (K which (setStatus SystemMode (s\<lparr>mach := m\<rparr>))) (\<lambda>s'.
       Inr (setStatus UserMode s')))"

definition mem_byte :: "machine \<Rightarrow> u32 \<Rightarrow> nat \<Rightarrow> byte" where
  "mem_byte m pa k = mainMemory m (unat pa + k)"

definition load_phys :: "machine \<Rightarrow> u32 \<Rightarrow> int \<Rightarrow> u32 result" where
  "load_phys m pa sz =
     (if sz = 1 then Inr (scast (mem_byte m pa 0))
      else if sz = 2 then
        Inr (ucast (ShortToHost False (ucast (mem_byte m pa 0) OR push_bit 8 (ucast (mem_byte m pa 1)))))
      else if sz = 4 then
        Inr (WordToHost False (un_le32 [mem_byte m pa 0, mem_byte m pa 1, mem_byte m pa 2, mem_byte m pa 3]))
      else Inl AssertFailed)"

definition store_bytes :: "machine \<Rightarrow> u32 \<Rightarrow> byte list \<Rightarrow> machine" where
  "store_bytes m pa bs = m\<lparr>mainMemory := (\<lambda>i. if unat pa \<le> i \<and> i < unat pa + length bs
     then bs ! (i - unat pa) else mainMemory m i)\<rparr>"

definition store_phys :: "machine \<Rightarrow> u32 \<Rightarrow> int \<Rightarrow> u32 \<Rightarrow> machine result" where
  "store_phys m pa sz v =
     (if sz = 1 then Inr (store_bytes m pa [ucast (v AND 0xff)])
      else if sz = 2 then
        (let h = ShortToMachine False (ucast (v AND 0xffff)) in
         Inr (store_bytes m pa [ucast h, ucast (drop_bit 8 h)]))
      else if sz = 4 then Inr (store_bytes m pa (le32 (WordToMachine False v)))
      else Inl AssertFailed)"

text \<open>\<^verbatim>\<open>ReadMem\<close> returns the value, or nothing after the kernel has handled the trap.\<close>

definition ReadMem ::
  "(ExceptionType \<Rightarrow> 'a sim_scheme \<Rightarrow> 'a sim_scheme result) \<Rightarrow> u32 \<Rightarrow> int \<Rightarrow> 'a sim_scheme
     \<Rightarrow> ('a sim_scheme \<times> u32 option) result" where
  "ReadMem K addr sz s =
     bindr (Translate addr sz False (mach s)) (\<lambda>(m, r). case r of
         Trap e \<Rightarrow> bindr (RaiseException K e addr (s\<lparr>mach := m\<rparr>)) (\<lambda>s'. Inr (s', None))
       | Phys pa \<Rightarrow> bindr (load_phys m pa sz) (\<lambda>v. Inr (s\<lparr>mach := m\<rparr>, Some v)))"

definition WriteMem ::
  "(ExceptionType \<Rightarrow> 'a sim_scheme \<Rightarrow> 'a sim_scheme result) \<Rightarrow> u32 \<Rightarrow> int \<Rightarrow> u32 \<Rightarrow> 'a sim_scheme
     \<Rightarrow> ('a sim_scheme \<times> bool) result" where
  "WriteMem K addr sz v s =
     bindr (Translate addr sz True (mach s)) (\<lambda>(m, r). case r of
         Trap e \<Rightarrow> bindr (RaiseException K e addr (s\<lparr>mach := m\<rparr>)) (\<lambda>s'. Inr (s', False))
       | Phys pa \<Rightarrow> bindr (store_phys m pa sz v) (\<lambda>m'. Inr (s\<lparr>mach := m'\<rparr>, True)))"

section \<open>Executing one instruction\<close>

text \<open>
  The big switch of \<^verbatim>\<open>OneInstruction\<close>, in the order of its cases. An arm that only works on the
  registers is a function of the machine; it yields the new machine with \<^verbatim>\<open>pcAfter\<close>, or the
  exception it raises.
\<close>

datatype alu = Done machine u32 | Raise ExceptionType

abbreviation (input) reg :: "machine \<Rightarrow> nat \<Rightarrow> u32" where "reg m r \<equiv> registers m r"

definition setr :: "machine \<Rightarrow> nat \<Rightarrow> u32 \<Rightarrow> machine" where
  "setr m r v = m\<lparr>registers := (registers m)(r := v)\<rparr>"

definition IndexToAddr :: "u32 \<Rightarrow> u32" where
  "IndexToAddr x = push_bit 2 x"

definition sign_bit :: "u32 \<Rightarrow> bool" where
  "sign_bit w \<longleftrightarrow> w AND 0x80000000 \<noteq> 0"

definition exec_add_and :: "Instruction \<Rightarrow> u32 \<Rightarrow> machine \<Rightarrow> alu result" where
  "exec_add_and i pcAfter m = (case opCode i of
       OP_ADD \<Rightarrow> (let sum = reg m (rs i) + reg m (rt i) in
         if \<not> sign_bit (reg m (rs i) XOR reg m (rt i)) \<and> sign_bit (reg m (rs i) XOR sum)
         then Inr (Raise OverflowException) else Inr (Done (setr m (rd i) sum) pcAfter))
     | OP_ADDI \<Rightarrow> (let sum = reg m (rs i) + extra i in
         if \<not> sign_bit (reg m (rs i) XOR extra i) \<and> sign_bit (extra i XOR sum)
         then Inr (Raise OverflowException) else Inr (Done (setr m (rt i) sum) pcAfter))
     | OP_ADDIU \<Rightarrow> Inr (Done (setr m (rt i) (reg m (rs i) + extra i)) pcAfter)
     | OP_ADDU \<Rightarrow> Inr (Done (setr m (rd i) (reg m (rs i) + reg m (rt i))) pcAfter)
     | OP_AND \<Rightarrow> Inr (Done (setr m (rd i) (reg m (rs i) AND reg m (rt i))) pcAfter)
     | OP_ANDI \<Rightarrow> Inr (Done (setr m (rt i) (reg m (rs i) AND (extra i AND 0xffff))) pcAfter)
     | _ \<Rightarrow> Inl AssertFailed)"

definition branch_if :: "bool \<Rightarrow> Instruction \<Rightarrow> u32 \<Rightarrow> machine \<Rightarrow> alu result" where
  "branch_if c i pcAfter m =
     Inr (Done m (if c then reg m NextPCReg + IndexToAddr (extra i) else pcAfter))"

definition exec_branch :: "Instruction \<Rightarrow> u32 \<Rightarrow> machine \<Rightarrow> alu result" where
  "exec_branch i pcAfter m =
     (let linked = setr m RetAddrReg (reg m NextPCReg + 4) in case opCode i of
       OP_BEQ \<Rightarrow> branch_if (reg m (rs i) = reg m (rt i)) i pcAfter m
     | OP_BGEZAL \<Rightarrow> branch_if (\<not> sign_bit (reg linked (rs i))) i pcAfter linked
     | OP_BGEZ \<Rightarrow> branch_if (\<not> sign_bit (reg m (rs i))) i pcAfter m
     | OP_BGTZ \<Rightarrow> branch_if (sint (reg m (rs i)) > 0) i pcAfter m
     | OP_BLEZ \<Rightarrow> branch_if (sint (reg m (rs i)) \<le> 0) i pcAfter m
     | OP_BLTZAL \<Rightarrow> branch_if (sign_bit (reg linked (rs i))) i pcAfter linked
     | OP_BLTZ \<Rightarrow> branch_if (sign_bit (reg m (rs i))) i pcAfter m
     | OP_BNE \<Rightarrow> branch_if (reg m (rs i) \<noteq> reg m (rt i)) i pcAfter m
     | _ \<Rightarrow> Inl AssertFailed)"

text \<open>The host traps on \<^verbatim>\<open>INT_MIN / -1\<close>, which the source does not guard.\<close>

definition exec_div_jump :: "Instruction \<Rightarrow> u32 \<Rightarrow> machine \<Rightarrow> alu result" where
  "exec_div_jump i pcAfter m = (case opCode i of
       OP_DIV \<Rightarrow>
         if reg m (rt i) = 0 then Inr (Done (setr (setr m LoReg 0) HiReg 0) pcAfter)
         else if reg m (rs i) = 0x80000000 \<and> reg m (rt i) = -1 then Inl UndefinedOp
         else (let m1 = setr m LoReg (word_of_int (sint (reg m (rs i)) sdiv sint (reg m (rt i))))
               in Inr (Done (setr m1 HiReg (word_of_int (sint (reg m1 (rs i)) smod sint (reg m1 (rt i))))) pcAfter))
     | OP_DIVU \<Rightarrow>
         if reg m (rt i) = 0 then Inr (Done (setr (setr m LoReg 0) HiReg 0) pcAfter)
         else Inr (Done (setr (setr m LoReg (reg m (rs i) div reg m (rt i))) HiReg (reg m (rs i) mod reg m (rt i))) pcAfter)
     | OP_JAL \<Rightarrow> Inr (Done (setr m RetAddrReg (reg m NextPCReg + 4)) ((pcAfter AND 0xf0000000) OR IndexToAddr (extra i)))
     | OP_J \<Rightarrow> Inr (Done m ((pcAfter AND 0xf0000000) OR IndexToAddr (extra i)))
     | OP_JALR \<Rightarrow> (let m1 = setr m (rd i) (reg m NextPCReg + 4) in Inr (Done m1 (reg m1 (rs i))))
     | OP_JR \<Rightarrow> Inr (Done m (reg m (rs i)))
     | _ \<Rightarrow> Inl AssertFailed)"

definition exec_hilo_logic :: "Instruction \<Rightarrow> u32 \<Rightarrow> machine \<Rightarrow> alu result" where
  "exec_hilo_logic i pcAfter m = (case opCode i of
       OP_MFHI \<Rightarrow> Inr (Done (setr m (rd i) (reg m HiReg)) pcAfter)
     | OP_MFLO \<Rightarrow> Inr (Done (setr m (rd i) (reg m LoReg)) pcAfter)
     | OP_MTHI \<Rightarrow> Inr (Done (setr m HiReg (reg m (rs i))) pcAfter)
     | OP_MTLO \<Rightarrow> Inr (Done (setr m LoReg (reg m (rs i))) pcAfter)
     | OP_MULT \<Rightarrow> (case Mult (reg m (rs i)) (reg m (rt i)) True of (hi, lo) \<Rightarrow>
         Inr (Done (setr (setr m HiReg hi) LoReg lo) pcAfter))
     | OP_MULTU \<Rightarrow> (case Mult (reg m (rs i)) (reg m (rt i)) False of (hi, lo) \<Rightarrow>
         Inr (Done (setr (setr m HiReg hi) LoReg lo) pcAfter))
     | OP_NOR \<Rightarrow> Inr (Done (setr m (rd i) (NOT (reg m (rs i) OR reg m (rt i)))) pcAfter)
     | OP_OR \<Rightarrow> Inr (Done (setr m (rd i) (reg m (rs i) OR reg m (rs i))) pcAfter)
     | OP_ORI \<Rightarrow> Inr (Done (setr m (rt i) (reg m (rs i) OR (extra i AND 0xffff))) pcAfter)
     | _ \<Rightarrow> Inl AssertFailed)"

definition exec_lui :: "Instruction \<Rightarrow> u32 \<Rightarrow> machine \<Rightarrow> alu result" where
  "exec_lui i pcAfter m = Inr (Done (setr m (rt i) (push_bit 16 (extra i))) pcAfter)"

definition exec_xor :: "Instruction \<Rightarrow> u32 \<Rightarrow> machine \<Rightarrow> alu result" where
  "exec_xor i pcAfter m = (case opCode i of
       OP_XOR \<Rightarrow> Inr (Done (setr m (rd i) (reg m (rs i) XOR reg m (rt i))) pcAfter)
     | OP_XORI \<Rightarrow> Inr (Done (setr m (rt i) (reg m (rs i) XOR (extra i AND 0xffff))) pcAfter)
     | _ \<Rightarrow> Inl AssertFailed)"

definition bool_word :: "bool \<Rightarrow> u32" where
  "bool_word b = (if b then 1 else 0)"

definition exec_shift_set :: "Instruction \<Rightarrow> u32 \<Rightarrow> machine \<Rightarrow> alu result" where
  "exec_shift_set i pcAfter m =
     (let shamt = unat (extra i); shv = unat (reg m (rs i) AND 0x1f) in case opCode i of
       OP_SLL \<Rightarrow> Inr (Done (setr m (rd i) (push_bit shamt (reg m (rt i)))) pcAfter)
     | OP_SLLV \<Rightarrow> Inr (Done (setr m (rd i) (push_bit shv (reg m (rt i)))) pcAfter)
     | OP_SLT \<Rightarrow> Inr (Done (setr m (rd i) (bool_word (sint (reg m (rs i)) < sint (reg m (rt i))))) pcAfter)
     | OP_SLTI \<Rightarrow> Inr (Done (setr m (rt i) (bool_word (sint (reg m (rs i)) < sint (extra i)))) pcAfter)
     | OP_SLTIU \<Rightarrow> Inr (Done (setr m (rt i) (bool_word (reg m (rs i) < extra i))) pcAfter)
     | OP_SLTU \<Rightarrow> Inr (Done (setr m (rd i) (bool_word (reg m (rs i) < reg m (rt i)))) pcAfter)
     | OP_SRA \<Rightarrow> Inr (Done (setr m (rd i) (signed_drop_bit shamt (reg m (rt i)))) pcAfter)
     | OP_SRAV \<Rightarrow> Inr (Done (setr m (rd i) (signed_drop_bit shv (reg m (rt i)))) pcAfter)
     | OP_SRL \<Rightarrow> Inr (Done (setr m (rd i) (signed_drop_bit shamt (reg m (rt i)))) pcAfter)
     | OP_SRLV \<Rightarrow> Inr (Done (setr m (rd i) (signed_drop_bit shv (reg m (rt i)))) pcAfter)
     | OP_SUB \<Rightarrow> (let diff = reg m (rs i) - reg m (rt i) in
         if sign_bit (reg m (rs i) XOR reg m (rt i)) \<and> sign_bit (reg m (rs i) XOR diff)
         then Inr (Raise OverflowException) else Inr (Done (setr m (rd i) diff) pcAfter))
     | OP_SUBU \<Rightarrow> Inr (Done (setr m (rd i) (reg m (rs i) - reg m (rt i))) pcAfter)
     | _ \<Rightarrow> Inl AssertFailed)"

text \<open>
  The arms that touch memory or trap work on the whole state. \<open>Next\<close> carries \<^verbatim>\<open>pcAfter\<close> and the
  delayed load to record; \<open>Return\<close> is a return from \<^verbatim>\<open>OneInstruction\<close> after the kernel handled a trap.
\<close>

datatype 'w exec = Next 'w u32 u32 u32 | Return 'w

definition exec_alu ::
  "(ExceptionType \<Rightarrow> 'a sim_scheme \<Rightarrow> 'a sim_scheme result) \<Rightarrow> (machine \<Rightarrow> alu result) \<Rightarrow> 'a sim_scheme
     \<Rightarrow> 'a sim_scheme exec result" where
  "exec_alu K f s = bindr (f (mach s)) (\<lambda>r. case r of
       Done m pc \<Rightarrow> Inr (Next (s\<lparr>mach := m\<rparr>) pc 0 0)
     | Raise e \<Rightarrow> bindr (RaiseException K e 0 s) (\<lambda>s'. Inr (Return s')))"

definition load_then ::
  "(ExceptionType \<Rightarrow> 'a sim_scheme \<Rightarrow> 'a sim_scheme result) \<Rightarrow> u32 \<Rightarrow> int \<Rightarrow> 'a sim_scheme
     \<Rightarrow> ('a sim_scheme \<Rightarrow> u32 \<Rightarrow> 'a sim_scheme exec result) \<Rightarrow> 'a sim_scheme exec result" where
  "load_then K addr sz s f = bindr (ReadMem K addr sz s) (\<lambda>(s', r). case r of
       None \<Rightarrow> Inr (Return s') | Some v \<Rightarrow> f s' v)"

definition store_then ::
  "(ExceptionType \<Rightarrow> 'a sim_scheme \<Rightarrow> 'a sim_scheme result) \<Rightarrow> u32 \<Rightarrow> int \<Rightarrow> u32 \<Rightarrow> u32 \<Rightarrow> 'a sim_scheme
     \<Rightarrow> 'a sim_scheme exec result" where
  "store_then K addr sz v pcAfter s = bindr (WriteMem K addr sz v s) (\<lambda>(s', ok).
       if ok then Inr (Next s' pcAfter 0 0) else Inr (Return s'))"

text \<open>\<^verbatim>\<open>LWL\<close> and \<^verbatim>\<open>LWR\<close> merge with the value a pending load is about to put in the register.\<close>

definition merge_base :: "Instruction \<Rightarrow> machine \<Rightarrow> u32" where
  "merge_base i m = (if registers m LoadReg = of_nat (rt i) then registers m LoadValueReg else reg m (rt i))"

definition lwl_merge :: "u32 \<Rightarrow> u32 \<Rightarrow> u32 \<Rightarrow> u32" where
  "lwl_merge tmp old v = (let k = tmp AND 3 in
     if k = 0 then v
     else if k = 1 then (old AND 0xff) OR push_bit 8 v
     else if k = 2 then (old AND 0xffff) OR push_bit 16 v
     else (old AND 0xffffff) OR push_bit 24 v)"

definition lwr_merge :: "u32 \<Rightarrow> u32 \<Rightarrow> u32 \<Rightarrow> u32" where
  "lwr_merge tmp old v = (let k = tmp AND 3 in
     if k = 0 then (old AND 0xffffff00) OR (signed_drop_bit 24 v AND 0xff)
     else if k = 1 then (old AND 0xffff0000) OR (signed_drop_bit 16 v AND 0xffff)
     else if k = 2 then (old AND 0xff000000) OR (signed_drop_bit 8 v AND 0xffffff)
     else v)"

definition exec_load ::
  "(ExceptionType \<Rightarrow> 'a sim_scheme \<Rightarrow> 'a sim_scheme result) \<Rightarrow> Instruction \<Rightarrow> u32 \<Rightarrow> 'a sim_scheme
     \<Rightarrow> 'a sim_scheme exec result" where
  "exec_load K i pcAfter s =
     (let tmp = reg (mach s) (rs i) + extra i; r = (of_nat (rt i) :: u32);
          byte = (\<lambda>sext. load_then K tmp 1 s (\<lambda>s' v. Inr (Next s' pcAfter r
             (if v AND 0x80 \<noteq> 0 \<and> sext then v OR 0xffffff00 else v AND 0xff))));
          half = (\<lambda>sext. if tmp AND 1 \<noteq> 0
             then bindr (RaiseException K AddressErrorException tmp s) (\<lambda>s'. Inr (Return s'))
             else load_then K tmp 2 s (\<lambda>s' v. Inr (Next s' pcAfter r
               (if v AND 0x8000 \<noteq> 0 \<and> sext then v OR 0xffff0000 else v AND 0xffff))))
      in case opCode i of
       OP_LB \<Rightarrow> byte True
     | OP_LBU \<Rightarrow> byte False
     | OP_LH \<Rightarrow> half True
     | OP_LHU \<Rightarrow> half False
     | OP_LW \<Rightarrow>
         if tmp AND 3 \<noteq> 0 then bindr (RaiseException K AddressErrorException tmp s) (\<lambda>s'. Inr (Return s'))
         else load_then K tmp 4 s (\<lambda>s' v. Inr (Next s' pcAfter r v))
     | OP_LWL \<Rightarrow> bindr (ASSERT (tmp AND 3 = 0)) (\<lambda>_.
         load_then K tmp 4 s (\<lambda>s' v. Inr (Next s' pcAfter r (lwl_merge tmp (merge_base i (mach s')) v))))
     | OP_LWR \<Rightarrow> bindr (ASSERT (tmp AND 3 = 0)) (\<lambda>_.
         load_then K tmp 4 s (\<lambda>s' v. Inr (Next s' pcAfter r (lwr_merge tmp (merge_base i (mach s')) v))))
     | _ \<Rightarrow> Inl AssertFailed)"

definition swl_merge :: "u32 \<Rightarrow> u32 \<Rightarrow> u32 \<Rightarrow> u32" where
  "swl_merge tmp v r = (let k = tmp AND 3 in
     if k = 0 then r
     else if k = 1 then (v AND 0xff000000) OR (signed_drop_bit 8 r AND 0xffffff)
     else if k = 2 then (v AND 0xffff0000) OR (signed_drop_bit 16 r AND 0xffff)
     else (v AND 0xffffff00) OR (signed_drop_bit 24 r AND 0xff))"

definition swr_merge :: "u32 \<Rightarrow> u32 \<Rightarrow> u32 \<Rightarrow> u32" where
  "swr_merge tmp v r = (let k = tmp AND 3 in
     if k = 0 then (v AND 0xffffff) OR push_bit 24 r
     else if k = 1 then (v AND 0xffff) OR push_bit 16 r
     else if k = 2 then (v AND 0xff) OR push_bit 8 r
     else r)"

definition exec_store ::
  "(ExceptionType \<Rightarrow> 'a sim_scheme \<Rightarrow> 'a sim_scheme result) \<Rightarrow> Instruction \<Rightarrow> u32 \<Rightarrow> 'a sim_scheme
     \<Rightarrow> 'a sim_scheme exec result" where
  "exec_store K i pcAfter s =
     (let tmp = reg (mach s) (rs i) + extra i; v = reg (mach s) (rt i);
          base = tmp AND NOT 3
      in case opCode i of
       OP_SB \<Rightarrow> store_then K tmp 1 v pcAfter s
     | OP_SH \<Rightarrow> store_then K tmp 2 v pcAfter s
     | OP_SW \<Rightarrow> store_then K tmp 4 v pcAfter s
     | OP_SWL \<Rightarrow> bindr (ASSERT (tmp AND 3 = 0)) (\<lambda>_. load_then K base 4 s (\<lambda>s' w.
         store_then K base 4 (swl_merge tmp w (reg (mach s') (rt i))) pcAfter s'))
     | OP_SWR \<Rightarrow> bindr (ASSERT (tmp AND 3 = 0)) (\<lambda>_. load_then K base 4 s (\<lambda>s' w.
         store_then K base 4 (swr_merge tmp w (reg (mach s') (rt i))) pcAfter s'))
     | _ \<Rightarrow> Inl AssertFailed)"

definition execute ::
  "(ExceptionType \<Rightarrow> 'a sim_scheme \<Rightarrow> 'a sim_scheme result) \<Rightarrow> Instruction \<Rightarrow> u32 \<Rightarrow> 'a sim_scheme
     \<Rightarrow> 'a sim_scheme exec result" where
  "execute K i pcAfter s =
     (let c = opCode i in
      if c \<in> {OP_ADD, OP_ADDI, OP_ADDIU, OP_ADDU, OP_AND, OP_ANDI} then exec_alu K (exec_add_and i pcAfter) s
      else if c \<in> {OP_BEQ, OP_BGEZAL, OP_BGEZ, OP_BGTZ, OP_BLEZ, OP_BLTZAL, OP_BLTZ, OP_BNE}
      then exec_alu K (exec_branch i pcAfter) s
      else if c \<in> {OP_DIV, OP_DIVU, OP_JAL, OP_J, OP_JALR, OP_JR} then exec_alu K (exec_div_jump i pcAfter) s
      else if c \<in> {OP_LB, OP_LBU, OP_LH, OP_LHU, OP_LW, OP_LWL, OP_LWR} then exec_load K i pcAfter s
      else if c = OP_LUI then exec_alu K (exec_lui i pcAfter) s
      else if c \<in> {OP_MFHI, OP_MFLO, OP_MTHI, OP_MTLO, OP_MULT, OP_MULTU, OP_NOR, OP_OR, OP_ORI}
      then exec_alu K (exec_hilo_logic i pcAfter) s
      else if c \<in> {OP_SB, OP_SH, OP_SW, OP_SWL, OP_SWR} then exec_store K i pcAfter s
      else if c \<in> {OP_SLL, OP_SLLV, OP_SLT, OP_SLTI, OP_SLTIU, OP_SLTU, OP_SRA, OP_SRAV, OP_SRL, OP_SRLV,
                   OP_SUB, OP_SUBU} then exec_alu K (exec_shift_set i pcAfter) s
      else if c = OP_SYSCALL then bindr (RaiseException K SyscallException 0 s) (\<lambda>s'. Inr (Return s'))
      else if c \<in> {OP_XOR, OP_XORI} then exec_alu K (exec_xor i pcAfter) s
      else if c \<in> {OP_RES, OP_UNIMP} then bindr (RaiseException K IllegalInstrException 0 s) (\<lambda>s'. Inr (Return s'))
      else Inl AssertFailed)"

definition finish_instruction :: "u32 \<Rightarrow> u32 \<Rightarrow> u32 \<Rightarrow> machine \<Rightarrow> machine result" where
  "finish_instruction pcAfter nextLoadReg nextLoadValue m =
     bindr (DelayedLoad nextLoadReg nextLoadValue m) (\<lambda>m1.
       let m2 = setr m1 PrevPCReg (reg m1 PCReg);
           m3 = setr m2 PCReg (reg m2 NextPCReg)
       in Inr (setr m3 NextPCReg pcAfter))"

definition OneInstruction ::
  "(ExceptionType \<Rightarrow> 'a sim_scheme \<Rightarrow> 'a sim_scheme result) \<Rightarrow> 'a sim_scheme \<Rightarrow> 'a sim_scheme result" where
  "OneInstruction K s =
     bindr (ReadMem K (reg (mach s) PCReg) 4 s) (\<lambda>(s1, raw). case raw of
         None \<Rightarrow> Inr s1
       | Some v \<Rightarrow>
           bindr (Decode v) (\<lambda>i.
           bindr (execute K i (reg (mach s1) NextPCReg + 4) s1) (\<lambda>r. case r of
               Return s2 \<Rightarrow> Inr s2
             | Next s2 pcAfter nr nv \<Rightarrow> bindr (finish_instruction pcAfter nr nv (mach s2)) (\<lambda>m.
                 Inr (s2\<lparr>mach := m\<rparr>)))))"

text \<open>
  \<^verbatim>\<open>Run\<close> enters user mode and executes instructions for ever; \<open>run_rounds n\<close> is its first \<open>n\<close>
  rounds. \<open>dbg\<close> is the interactive debugger.
\<close>

fun run_rounds ::
  "(ExceptionType \<Rightarrow> 'a sim_scheme \<Rightarrow> 'a sim_scheme result) \<Rightarrow> ('a sim_scheme \<Rightarrow> 'a sim_scheme result)
     \<Rightarrow> ('a sim_scheme \<Rightarrow> 'a sim_scheme result) \<Rightarrow> nat \<Rightarrow> 'a sim_scheme \<Rightarrow> 'a sim_scheme result" where
  "run_rounds K tick dbg 0 s = Inr s"
| "run_rounds K tick dbg (Suc n) s =
     bindr (OneInstruction K s) (\<lambda>s1.
     bindr (tick s1) (\<lambda>s2.
     bindr (if singleStep (mach s2) \<and> runUntilTime (mach s2) \<le> totalTicks (stats s2) then dbg s2 else Inr s2)
       (run_rounds K tick dbg n)))"

definition Run ::
  "(ExceptionType \<Rightarrow> 'a sim_scheme \<Rightarrow> 'a sim_scheme result) \<Rightarrow> ('a sim_scheme \<Rightarrow> 'a sim_scheme result)
     \<Rightarrow> ('a sim_scheme \<Rightarrow> 'a sim_scheme result) \<Rightarrow> nat \<Rightarrow> 'a sim_scheme \<Rightarrow> 'a sim_scheme result" where
  "Run K tick dbg n s = run_rounds K tick dbg n (setStatus UserMode s)"

end
