(* ===== verification/Nachos_Mips_Correct.thy ===== *)
theory Nachos_Mips_Correct
  imports Nachos_Mips
begin

text \<open>
  Correctness of the MIPS simulator: the double-length product, the decoder, overflow detection,
  memory round trips, the delayed load, and the register invariant over instructions.
\<close>

section \<open>Multiplication\<close>

text \<open>A pair of words as the double-length number it stands for.\<close>

definition dword :: "u32 \<Rightarrow> u32 \<Rightarrow> int" where
  "dword hi lo = uint hi * 2 ^ 32 + uint lo"

lemma uint32_less: "uint (w :: u32) < 2 ^ 32"
  using uint_lt2p [of w] by simp

lemma dword_bounds: "0 \<le> dword hi lo" "dword hi lo < 2 ^ 64"
proof -
  show "0 \<le> dword hi lo" by (simp add: dword_def)
  have "uint hi \<le> 2 ^ 32 - 1" "uint lo \<le> 2 ^ 32 - 1" using uint32_less [of hi] uint32_less [of lo] by simp_all
  then show "dword hi lo < 2 ^ 64" by (simp add: dword_def)
qed

lemma dword_add:
  "dword ((if lo + bLo < bLo then hi + 1 else hi) + bHi) (lo + bLo) mod 2 ^ 64
     = (dword hi lo + dword bHi bLo) mod 2 ^ 64"
proof -
  define l b where "l = uint lo" and "b = uint bLo"
  have r: "0 \<le> l" "l < 2 ^ 32" "0 \<le> b" "b < 2 ^ 32"
    using uint32_less by (simp_all add: l_def b_def)
  have s: "uint (lo + bLo) = (l + b) mod 2 ^ 32"
    by (simp add: uint_word_ariths l_def b_def)
  define k :: int where "k = (if l + b \<ge> 2 ^ 32 then 1 else 0)"
  have low: "uint (lo + bLo) = l + b - k * 2 ^ 32"
  proof (cases "l + b \<ge> 2 ^ 32")
    case True
    then have "(l + b) mod 2 ^ 32 = (l + b - 2 ^ 32) mod 2 ^ 32" by simp
    also have "\<dots> = l + b - 2 ^ 32" using True r by (intro mod_pos_pos_trivial) auto
    finally show ?thesis using True s by (simp add: k_def)
  qed (use r s in \<open>simp add: k_def\<close>)
  have c: "lo + bLo < bLo \<longleftrightarrow> l + b \<ge> 2 ^ 32"
    using low r by (auto simp: word_less_def k_def b_def split: if_splits)
  let ?h = "(if lo + bLo < bLo then hi + 1 else hi) + bHi"
  have "uint ?h = (uint hi + k + uint bHi) mod 2 ^ 32"
    unfolding c k_def by (simp add: uint_word_ariths mod_add_left_eq)
  then obtain q where q: "uint ?h = uint hi + k + uint bHi - q * 2 ^ 32"
    by (metis (no_types, lifting) mod_eq_dvd_iff minus_mod_eq_mult_div mult.commute minus_mod_eq_div_mult diff_diff_eq2 add_diff_cancel_left' diff_add_cancel)
  have "dword ?h (lo + bLo) = dword hi lo + dword bHi bLo - q * 2 ^ 64"
    unfolding dword_def q low by (simp add: algebra_simps l_def b_def)
  then show ?thesis
    by (metis (no_types, lifting) diff_zero mod_diff_eq mod_mod_trivial mod_mult_self2_is_0)
qed

lemma and_single_bit: "(w :: u32) AND push_bit n 1 = (if bit w n then push_bit n 1 else 0)"
  by (rule bit_word_eqI) (auto simp: bit_simps)

lemma and_top_bit: "(w :: u32) AND 0x80000000 \<noteq> 0 \<longleftrightarrow> uint w \<ge> 2 ^ 31"
proof -
  have "w AND 0x80000000 = (if bit w 31 then push_bit 31 1 else 0)"
    using and_single_bit [of w 31] by simp
  then have "w AND 0x80000000 \<noteq> 0 \<longleftrightarrow> bit (uint w) 31" by (simp add: bit_uint_iff)
  also have "\<dots> = odd (uint w div 2 ^ 31)" by (simp add: bit_iff_odd)
  also have "uint w div 2 ^ 31 = (if uint w \<ge> 2 ^ 31 then 1 else 0)"
  proof (cases "uint w \<ge> 2 ^ 31")
    case True
    then have "uint w div 2 ^ 31 = (uint w - 2 ^ 31) div 2 ^ 31 + 1" by (simp add: div_add_self2 [symmetric])
    also have "(uint w - 2 ^ 31) div 2 ^ 31 = 0"
      using True uint32_less [of w] by (intro div_pos_pos_trivial) auto
    finally show ?thesis using True by simp
  qed simp
  finally show ?thesis by simp
qed

lemma sint_word32: "sint (w :: u32) = (if uint w \<ge> 2 ^ 31 then uint w - 2 ^ 32 else uint w)"
proof (cases "uint w \<ge> 2 ^ 31")
  case True
  have "sint w = (uint w + 2 ^ 31) mod 2 ^ 32 - 2 ^ 31"
    by (simp add: sint_uint signed_take_bit_eq_take_bit_shift take_bit_eq_mod)
  also have "(uint w + 2 ^ 31) mod 2 ^ 32 = (uint w - 2 ^ 31) mod 2 ^ 32"
  proof -
    have "uint w + 2 ^ 31 = (uint w - 2 ^ 31) + 2 ^ 32" by simp
    then show ?thesis by (metis mod_add_self2)
  qed
  also have "\<dots> = uint w - 2 ^ 31"
    using True uint32_less [of w] by (intro mod_pos_pos_trivial) auto
  finally show ?thesis using True by simp
qed (simp add: sint_eq_uint_small)

lemma dword_shift:
  "dword (if bLo AND 0x80000000 \<noteq> 0 then push_bit 1 bHi OR 1 else push_bit 1 bHi) (push_bit 1 bLo) mod 2 ^ 64
     = 2 * dword bHi bLo mod 2 ^ 64"
proof -
  define b h where "b = uint bLo" and "h = uint bHi"
  have r: "0 \<le> b" "b < 2 ^ 32" using uint32_less by (simp_all add: b_def)
  have top: "bLo AND 0x80000000 \<noteq> 0 \<longleftrightarrow> b \<ge> 2 ^ 31"
    unfolding b_def by (rule and_top_bit)
  define k :: int where "k = (if b \<ge> 2 ^ 31 then 1 else 0)"
  have low: "uint (push_bit 1 bLo) = 2 * b - k * 2 ^ 32"
  proof -
    have "uint (push_bit 1 bLo) = (2 * b) mod 2 ^ 32"
      by (simp add: b_def push_bit_eq_mult uint_word_ariths mult.commute)
    moreover have "(2 * b) mod 2 ^ 32 = 2 * b - k * 2 ^ 32"
    proof (cases "b \<ge> 2 ^ 31")
      case True
      then have "(2 * b) mod 2 ^ 32 = (2 * b - 2 ^ 32) mod 2 ^ 32" by simp
      also have "\<dots> = 2 * b - 2 ^ 32" using True r by (intro mod_pos_pos_trivial) auto
      finally show ?thesis using True by (simp add: k_def)
    qed (use r in \<open>simp add: k_def\<close>)
    ultimately show ?thesis by simp
  qed
  let ?h = "if bLo AND 0x80000000 \<noteq> 0 then push_bit 1 bHi OR 1 else push_bit 1 bHi"
  have "push_bit 1 bHi OR 1 = push_bit 1 bHi + 1"
    by (simp add: or_one_eq)
  then have "?h = 2 * bHi + word_of_int k"
    unfolding top by (simp add: k_def push_bit_eq_mult mult.commute)
  then have "uint ?h = (2 * h + k) mod 2 ^ 32"
    by (simp add: uint_word_ariths h_def k_def mod_add_left_eq mod_add_right_eq)
  then obtain q where q: "uint ?h = 2 * h + k - q * 2 ^ 32"
    by (metis (no_types, lifting) minus_mod_eq_div_mult diff_diff_eq2 add_diff_cancel_left' diff_add_cancel)
  have "dword ?h (push_bit 1 bLo) = 2 * dword bHi bLo - q * 2 ^ 64"
    unfolding dword_def q low by (simp add: algebra_simps b_def h_def)
  then show ?thesis
    by (metis (no_types, lifting) diff_zero mod_diff_eq mod_mod_trivial mod_mult_self2_is_0)
qed

lemma bits_of_low_word:
  fixes a :: u32
  assumes "a AND 0xfffffffe = 0" "0 < j"
  shows "\<not> bit a j"
proof
  assume bit: "bit a j"
  then have "j < 32" using bit_imp_le_length by fastforce
  have e: "(0xfffffffe :: u32) = NOT 1" by simp
  have "bit (a AND 0xfffffffe) j" using bit assms(2) \<open>j < 32\<close>
    unfolding e by (simp add: bit_and_iff bit_not_iff bit_1_iff)
  then show False using assms(1) by simp
qed

lemma mult_loop_correct:
  fixes a0 :: u32
  assumes "k \<le> 32" and "\<And>j. k + j < 32 \<Longrightarrow> bit a j = bit a0 (k + j)"
    and "dword hi lo mod 2 ^ 64 = take_bit k (uint a0) * B mod 2 ^ 64"
    and "dword bHi bLo mod 2 ^ 64 = 2 ^ k * B mod 2 ^ 64"
  shows "case mult_loop (int k) a bLo bHi lo hi of (hi', lo') \<Rightarrow> dword hi' lo' mod 2 ^ 64 = uint a0 * B mod 2 ^ 64"
  using assms
proof (induction "32 - k" arbitrary: k a bLo bHi lo hi)
  case 0
  then have k: "k = 32" by simp
  have "take_bit 32 (uint a0) = uint a0" by (rule take_bit_int_eq_self) (use uint32_less [of a0] in simp_all)
  with 0 k show ?case by (simp add: mult_loop.simps)
next
  case (Suc n)
  then have k: "k < 32" by simp
  define odd where "odd \<longleftrightarrow> a AND 1 \<noteq> 0"
  have o: "odd = bit a0 k"
  proof -
    have "odd = bit a 0" unfolding odd_def using and_single_bit [of a 0] by simp
    then show ?thesis using Suc.prems(2) [of 0] k by simp
  qed
  define lo' where "lo' = (if odd then lo + bLo else lo)"
  define hi' where "hi' = (if odd then (if lo' < bLo then hi + 1 else hi) + bHi else hi)"
  have tb: "take_bit (Suc k) (uint a0) = take_bit k (uint a0) + 2 ^ k * of_bool odd"
    using k by (simp add: take_bit_Suc_from_most o bit_uint_iff)
  have step: "dword hi' lo' mod 2 ^ 64 = take_bit (Suc k) (uint a0) * B mod 2 ^ 64"
  proof (cases odd)
    case True
    then have "lo' = lo + bLo" "hi' = (if lo + bLo < bLo then hi + 1 else hi) + bHi"
      by (simp_all only: hi'_def lo'_def if_True)
    then have "dword hi' lo' mod 2 ^ 64 = (dword hi lo + dword bHi bLo) mod 2 ^ 64"
      by (simp only: dword_add)
    also have "\<dots> = (take_bit k (uint a0) * B + 2 ^ k * B) mod 2 ^ 64"
      using Suc.prems(3,4) by (metis mod_add_eq)
    finally show ?thesis using True tb by (simp add: algebra_simps)
  next
    case False
    then show ?thesis using Suc.prems(3) tb by (simp add: hi'_def lo'_def)
  qed
  show ?case
  proof (cases "odd \<and> a AND 0xfffffffe = 0")
    case True
    then have m: "mult_loop (int k) a bLo bHi lo hi = (hi', lo')"
      using k by (subst mult_loop.simps) (simp add: odd_def lo'_def hi'_def Let_def)
    have "take_bit (Suc k) (uint a0) = uint a0"
    proof (rule bit_eqI)
      fix j
      have "\<not> bit a0 j" if "k < j" "j < 32"
        using bits_of_low_word [of a "j - k"] True Suc.prems(2) [of "j - k"] that by simp
      then show "bit (take_bit (Suc k) (uint a0)) j = bit (uint a0) j"
        using k by (cases "k < j") (auto simp: bit_take_bit_iff bit_uint_iff less_Suc_eq_le)
    qed
    with m step show ?thesis by simp
  next
    case False
    let ?bLo = "push_bit 1 bLo"
    let ?bHi = "if bLo AND 0x80000000 \<noteq> 0 then push_bit 1 bHi OR 1 else push_bit 1 bHi"
    have m: "mult_loop (int k) a bLo bHi lo hi = mult_loop (int (Suc k)) (signed_drop_bit 1 a) ?bLo ?bHi lo' hi'"
      using k False by (subst mult_loop.simps) (auto simp: odd_def lo'_def hi'_def Let_def add.commute)
    have "bit (signed_drop_bit 1 a) j = bit a0 (Suc k + j)" if "Suc k + j < 32" for j
      using Suc.prems(2) [of "Suc j"] that by (simp add: bit_signed_drop_bit_iff add.commute)
    moreover have "dword ?bHi ?bLo mod 2 ^ 64 = 2 ^ Suc k * B mod 2 ^ 64"
    proof -
      have "2 * dword bHi bLo mod 2 ^ 64 = 2 * (2 ^ k * B) mod 2 ^ 64"
        using Suc.prems(4) by (metis mod_mult_right_eq)
      then show ?thesis unfolding dword_shift by (simp add: mult.assoc)
    qed
    moreover have "n = 32 - Suc k" "Suc k \<le> 32" using Suc.hyps(2) k by simp_all
    ultimately show ?thesis unfolding m using step by (intro Suc.hyps(1)) blast+
  qed
qed

lemma mult_loop_product:
  assumes "mult_loop 0 a b 0 0 0 = (hi, lo)"
  shows "dword hi lo = uint a * uint b"
proof -
  have "dword hi lo mod 2 ^ 64 = uint a * uint b mod 2 ^ 64"
    using mult_loop_correct [of 0 a a 0 0 "uint b" 0 b] assms by (simp add: dword_def)
  moreover have "uint a * uint b < 2 ^ 64"
  proof -
    have "uint a * uint b \<le> (2 ^ 32 - 1) * (2 ^ 32 - 1)"
      using uint32_less [of a] uint32_less [of b] by (intro mult_mono) auto
    then show ?thesis by simp
  qed
  ultimately show ?thesis using dword_bounds [of hi lo] by simp
qed

lemma dword_signed:
  "sint hi * 2 ^ 32 + uint lo = (if dword hi lo \<ge> 2 ^ 63 then dword hi lo - 2 ^ 64 else dword hi lo)"
proof -
  have "dword hi lo \<ge> 2 ^ 63 \<longleftrightarrow> uint hi \<ge> 2 ^ 31"
  proof -
    define h l where "h = uint hi" and "l = uint lo"
    have "0 \<le> l" "l < 2 ^ 32" using uint32_less [of lo] by (simp_all add: l_def)
    then have "h * 2 ^ 32 + l \<ge> 2 ^ 63 \<longleftrightarrow> h \<ge> 2 ^ 31" by auto
    then show ?thesis by (simp add: dword_def h_def l_def)
  qed
  then show ?thesis by (simp add: dword_def sint_word32 algebra_simps)
qed

lemma uint_neg32: "w \<noteq> 0 \<Longrightarrow> uint (- w :: u32) = 2 ^ 32 - uint w"
proof -
  assume "w \<noteq> 0"
  then have "uint w mod 2 ^ 32 \<noteq> 0" using uint32_less [of w] by (simp add: uint_0_iff)
  then show ?thesis
    using uint32_less [of w] by (simp add: uint_word_ariths zmod_zminus1_eq_if)
qed

lemma dword_negate:
  assumes "0 < dword hi lo"
  shows "dword (if NOT lo + 1 = 0 then NOT hi + 1 else NOT hi) (NOT lo + 1) = 2 ^ 64 - dword hi lo"
proof (cases "lo = 0")
  case True
  have "hi \<noteq> 0" using assms True by (auto simp: dword_def)
  then have "uint (NOT hi + 1) = 2 ^ 32 - uint hi"
    by (simp add: not_eq_complement uint_neg32)
  then show ?thesis using True by (simp add: dword_def not_eq_complement)
next
  case False
  have "NOT lo + 1 \<noteq> 0" using False by (simp add: not_eq_complement)
  moreover have "uint (NOT lo + 1) = 2 ^ 32 - uint lo"
    using False by (simp add: not_eq_complement uint_neg32)
  moreover have "uint (NOT hi) = 2 ^ 32 - 1 - uint hi"
    using uint32_less [of hi] by (simp add: unsigned_not_eq take_bit_not_eq_mask_diff mask_eq_exp_minus_1 take_bit_int_eq_self)
  ultimately show ?thesis by (simp add: dword_def algebra_simps)
qed

lemma uint_abs32:
  "uint (if sint a < 0 then - a else a :: u32) = \<bar>sint a\<bar>"
proof (cases "sint a < 0")
  case True
  then have "a \<noteq> 0" by auto
  with True show ?thesis using uint32_less [of a] by (simp add: uint_neg32 sint_word32 split: if_splits)
next
  case False
  then show ?thesis using uint32_less [of a] by (auto simp: sint_word32 split: if_splits)
qed

lemma sint_abs_bound: "\<bar>sint (a :: u32)\<bar> \<le> 2 ^ 31"
  using uint32_less [of a] by (auto simp: sint_word32)

text \<open>
  (C20) \<^verbatim>\<open>Mult\<close> computes the full double-length product: read as a signed 64-bit number for
  \<^verbatim>\<open>MULT\<close> and as an unsigned one for \<^verbatim>\<open>MULTU\<close>, the pair (hi, lo) is exactly the product of the operands,
  for every pair of operands, the most negative number included.
\<close>

theorem Mult_full_product:
  "(case Mult a b True of (hi, lo) \<Rightarrow> sint hi * 2 ^ 32 + uint lo = sint a * sint b) \<and>
   (case Mult a b False of (hi, lo) \<Rightarrow> uint hi * 2 ^ 32 + uint lo = uint a * uint b)"
proof (cases "a = 0 \<or> b = 0")
  case True
  then show ?thesis by (auto simp: Mult_def)
next
  case nz: False
  obtain h l where p: "mult_loop 0 a b 0 0 0 = (h, l)" by fastforce
  have u: "case Mult a b False of (hi, lo) \<Rightarrow> uint hi * 2 ^ 32 + uint lo = uint a * uint b"
    using mult_loop_product [OF p] nz p by (simp add: Mult_def Let_def dword_def)
  define a' where "a' = (if sint a < 0 then - a else a)"
  define b' where "b' = (if sint b < 0 then - b else b)"
  obtain hi lo where m: "mult_loop 0 a' b' 0 0 0 = (hi, lo)" by fastforce
  define P where "P = \<bar>sint a\<bar> * \<bar>sint b\<bar>"
  have d: "dword hi lo = P"
    using mult_loop_product [OF m] by (simp add: P_def a'_def b'_def uint_abs32)
  have "P \<le> 2 ^ 31 * 2 ^ 31" unfolding P_def by (intro mult_mono sint_abs_bound) auto
  then have big: "P < 2 ^ 63" by simp
  have "sint a \<noteq> 0" "sint b \<noteq> 0" 
    using nz uint32_less [of a] uint32_less [of b] by (auto simp: sint_word32 uint_0_iff split: if_splits)
  then have pos: "0 < P" by (simp add: P_def)
  have prod: "sint a * sint b = (if (sint a < 0) \<noteq> (sint b < 0) then - P else P)"
    by (auto simp: P_def abs_if)
  have "case Mult a b True of (hi, lo) \<Rightarrow> sint hi * 2 ^ 32 + uint lo = sint a * sint b"
  proof (cases "(sint a < 0) \<noteq> (sint b < 0)")
    case True
    let ?h = "if NOT lo + 1 = 0 then NOT hi + 1 else NOT hi"
    have "Mult a b True = (?h, NOT lo + 1)"
      using nz True m unfolding a'_def b'_def Mult_def Let_def by (simp only: simp_thms if_False if_True prod.case)
    moreover have "dword ?h (NOT lo + 1) = 2 ^ 64 - P"
      using dword_negate [of hi lo] pos d by simp
    ultimately show ?thesis using big True prod
      by (simp only: prod.case dword_signed) simp
  next
    case False
    have "Mult a b True = (hi, lo)"
      using nz False m unfolding a'_def b'_def Mult_def Let_def by (simp only: simp_thms if_False if_True prod.case)
    then show ?thesis using big d False prod by (simp only: prod.case dword_signed) simp
  qed
  with u show ?thesis by simp
qed

section \<open>Decoding\<close>

definition executable_op :: "opcode \<Rightarrow> bool" where
  "executable_op c \<longleftrightarrow> c \<notin> {OP_RFE, SPECIAL, BCOND}"

lemma field5_less: "field5 v k < 32"
proof -
  have "drop_bit k v AND 0x1f \<le> (0x1f :: u32)" by (rule word_and_le1)
  then have "unat (drop_bit k v AND 0x1f) \<le> 31" by (simp add: word_le_nat_alt)
  then show ?thesis by (simp add: field5_def)
qed

lemma opTable_ok: "(op, fmt) \<in> set opTable \<Longrightarrow> executable_op op \<or> op = SPECIAL \<or> op = BCOND"
  by (auto simp: opTable_def executable_op_def)

lemma specialTable_ok: "op \<in> set specialTable \<Longrightarrow> executable_op op"
  by (auto simp: specialTable_def executable_op_def)

lemma decode_bcond_ok: "executable_op (decode_bcond v)"
  by (simp add: decode_bcond_def Let_def executable_op_def)

lemma low_field_index: "uint ((w :: u32) AND 0x3f) < 64" "0 \<le> uint (w AND 0x3f)"
proof -
  have "w AND 0x3f \<le> (0x3f :: u32)" by (rule word_and_le1)
  then show "uint (w AND 0x3f) < 64" by (simp add: word_le_def)
qed simp

lemma length_tables [simp]: "length opTable = 64" "length specialTable = 64"
  by (simp_all add: opTable_def specialTable_def)

lemma Decode_ok:
  "\<exists>i. Decode v = Inr i \<and> executable_op (opCode i) \<and> rs i < 32 \<and> rt i < 32 \<and> rd i < 32 \<and> ivalue i = v"
proof -
  let ?k = "uint (drop_bit 26 v AND 0x3f)"
  obtain op fmt where e: "opTable ! nat ?k = (op, fmt)" by fastforce
  have g: "arr_get opTable ?k = Inr (op, fmt)" using e low_field_index [of "drop_bit 26 v"] by simp
  have "nat ?k < length opTable"
    using low_field_index [of "drop_bit 26 v"] by (simp del: nat_uint_eq add: nat_less_iff)
  then have op: "executable_op op \<or> op = SPECIAL \<or> op = BCOND"
    using e opTable_ok nth_mem by metis
  have sp: "\<exists>op'. arr_get specialTable (uint (v AND 0x3f)) = Inr op' \<and> executable_op op'"
    using low_field_index [of v] specialTable_ok [OF nth_mem, of "nat (uint (v AND 0x3f))"]
    by (simp del: nat_uint_eq add: nat_less_iff)
  from op show ?thesis
    using g sp decode_bcond_ok [of v] field5_less by (auto simp: Decode_def executable_op_def)
qed

text \<open>
  (C30) Every 32-bit word decodes: \<^verbatim>\<open>Decode\<close> indexes its tables in range and yields register numbers
  below 32 and an opcode that has an arm of its own in \<^verbatim>\<open>OneInstruction\<close>, never one of the internal
  markers \<^verbatim>\<open>SPECIAL\<close>, \<^verbatim>\<open>BCOND\<close> or the unused \<^verbatim>\<open>OP_RFE\<close> that would reach its \<^verbatim>\<open>ASSERT(FALSE)\<close>.
\<close>

theorem Decode_total:
  "\<exists>i. Decode v = Inr i \<and> executable_op (opCode i) \<and> rs i < 32 \<and> rt i < 32 \<and> rd i < 32 \<and> ivalue i = v"
  by (rule Decode_ok)

section \<open>Overflow detection\<close>

lemma sign_bit_bit: "sign_bit w = bit w 31"
proof -
  have "w AND 0x80000000 = (if bit w 31 then push_bit 31 1 else 0)"
    using and_single_bit [of w 31] by simp
  then show ?thesis by (simp add: sign_bit_def)
qed

lemma sign_bit_sint: "sign_bit w \<longleftrightarrow> sint w < 0"
  using and_top_bit [of w] uint32_less [of w] by (auto simp: sign_bit_def sint_word32)

lemma sign_bit_xor: "sign_bit (x XOR y) \<longleftrightarrow> (sint x < 0) \<noteq> (sint y < 0)"
  by (metis sign_bit_bit sign_bit_sint bit_xor_iff)

lemma sint_wrap:
  assumes "- (2 ^ 32) \<le> z" "z < 2 ^ 32"
  shows "sint (word_of_int z :: u32) = (if z < - (2 ^ 31) then z + 2 ^ 32 else if z \<ge> 2 ^ 31 then z - 2 ^ 32 else z)"
proof -
  have "uint (word_of_int z :: u32) = z mod 2 ^ 32" by (simp add: unsigned_of_int take_bit_eq_mod)
  moreover have "z mod 2 ^ 32 = (if z < 0 then z + 2 ^ 32 else z)"
  proof (cases "z < 0")
    case True
    have "z mod 2 ^ 32 = (z + 2 ^ 32) mod 2 ^ 32" by simp
    also have "\<dots> = z + 2 ^ 32" using True assms by (intro mod_pos_pos_trivial) auto
    finally show ?thesis using True by simp
  qed (use assms in simp)
  ultimately show ?thesis using assms by (auto simp: sint_word32)
qed

lemma sint_sum: "sint (x + y :: u32) = sint (word_of_int (sint x + sint y) :: u32)"
  and sint_diff: "sint (x - y :: u32) = sint (word_of_int (sint x - sint y) :: u32)"
  by simp_all

lemma add_overflow_iff:
  "\<not> sign_bit (x XOR y) \<and> sign_bit (x XOR (x + y)) \<longleftrightarrow> \<not> fits32 (sint x + sint y)"
  and add_exact: "fits32 (sint x + sint y) \<Longrightarrow> sint (x + y) = sint x + sint y"
proof -
  have b: "- (2 ^ 32) \<le> sint x + sint y" "sint x + sint y < 2 ^ 32" "fits32 (sint x)" "fits32 (sint y)"
    using fits32_sint [of x] fits32_sint [of y] by (auto simp: fits32_def)
  have w: "sint (x + y) = (if sint x + sint y < - (2 ^ 31) then sint x + sint y + 2 ^ 32
     else if sint x + sint y \<ge> 2 ^ 31 then sint x + sint y - 2 ^ 32 else sint x + sint y)"
    unfolding sint_sum by (rule sint_wrap [OF b(1,2)])
  show "\<not> sign_bit (x XOR y) \<and> sign_bit (x XOR (x + y)) \<longleftrightarrow> \<not> fits32 (sint x + sint y)"
    unfolding sign_bit_xor w using b(3,4) by (auto simp: fits32_def split: if_splits)
  show "fits32 (sint x + sint y) \<Longrightarrow> sint (x + y) = sint x + sint y"
    unfolding w by (auto simp: fits32_def)
qed

lemma sub_overflow_iff:
  "sign_bit (x XOR y) \<and> sign_bit (x XOR (x - y)) \<longleftrightarrow> \<not> fits32 (sint x - sint y)"
  and sub_exact: "fits32 (sint x - sint y) \<Longrightarrow> sint (x - y) = sint x - sint y"
proof -
  have b: "- (2 ^ 32) \<le> sint x - sint y" "sint x - sint y < 2 ^ 32" "fits32 (sint x)" "fits32 (sint y)"
    using fits32_sint [of x] fits32_sint [of y] by (auto simp: fits32_def)
  have w: "sint (x - y) = (if sint x - sint y < - (2 ^ 31) then sint x - sint y + 2 ^ 32
     else if sint x - sint y \<ge> 2 ^ 31 then sint x - sint y - 2 ^ 32 else sint x - sint y)"
    unfolding sint_diff by (rule sint_wrap [OF b(1,2)])
  show "sign_bit (x XOR y) \<and> sign_bit (x XOR (x - y)) \<longleftrightarrow> \<not> fits32 (sint x - sint y)"
    unfolding sign_bit_xor w using b(3,4) by (auto simp: fits32_def split: if_splits)
  show "fits32 (sint x - sint y) \<Longrightarrow> sint (x - y) = sint x - sint y"
    unfolding w by (auto simp: fits32_def)
qed

text \<open>
  (C31) \<^verbatim>\<open>ADD\<close>, \<^verbatim>\<open>ADDI\<close> and \<^verbatim>\<open>SUB\<close> raise the overflow exception exactly when the signed result does not
  fit in 32 bits, and otherwise store the exact signed result; the sign tests of the source are
  the mathematical condition.
\<close>

theorem signed_overflow_exact:
  "exec_add_and (i\<lparr>opCode := OP_ADD\<rparr>) pc m =
     (if fits32 (sint (reg m (rs i)) + sint (reg m (rt i)))
      then Inr (Done (setr m (rd i) (word_of_int (sint (reg m (rs i)) + sint (reg m (rt i))))) pc)
      else Inr (Raise OverflowException)) \<and>
   exec_add_and (i\<lparr>opCode := OP_ADDI\<rparr>) pc m =
     (if fits32 (sint (reg m (rs i)) + sint (extra i))
      then Inr (Done (setr m (rt i) (word_of_int (sint (reg m (rs i)) + sint (extra i)))) pc)
      else Inr (Raise OverflowException)) \<and>
   exec_shift_set (i\<lparr>opCode := OP_SUB\<rparr>) pc m =
     (if fits32 (sint (reg m (rs i)) - sint (reg m (rt i)))
      then Inr (Done (setr m (rd i) (word_of_int (sint (reg m (rs i)) - sint (reg m (rt i))))) pc)
      else Inr (Raise OverflowException))"
proof (intro conjI)
  show "exec_add_and (i\<lparr>opCode := OP_ADD\<rparr>) pc m =
     (if fits32 (sint (reg m (rs i)) + sint (reg m (rt i)))
      then Inr (Done (setr m (rd i) (word_of_int (sint (reg m (rs i)) + sint (reg m (rt i))))) pc)
      else Inr (Raise OverflowException))"
    using add_overflow_iff [of "reg m (rs i)" "reg m (rt i)"] by (auto simp: exec_add_and_def Let_def)
  have "\<not> sign_bit (x XOR y) \<and> sign_bit (y XOR (x + y)) \<longleftrightarrow> \<not> fits32 (sint x + sint y)" for x y :: u32
    using add_overflow_iff [of y x] by (simp add: xor.commute add.commute)
  then show "exec_add_and (i\<lparr>opCode := OP_ADDI\<rparr>) pc m =
     (if fits32 (sint (reg m (rs i)) + sint (extra i))
      then Inr (Done (setr m (rt i) (word_of_int (sint (reg m (rs i)) + sint (extra i)))) pc)
      else Inr (Raise OverflowException))"
    by (auto simp: exec_add_and_def Let_def)
  show "exec_shift_set (i\<lparr>opCode := OP_SUB\<rparr>) pc m =
     (if fits32 (sint (reg m (rs i)) - sint (reg m (rt i)))
      then Inr (Done (setr m (rd i) (word_of_int (sint (reg m (rs i)) - sint (reg m (rt i))))) pc)
      else Inr (Raise OverflowException))"
    using sub_overflow_iff [of "reg m (rs i)" "reg m (rt i)"] by (auto simp: exec_shift_set_def Let_def)
qed

text \<open>
  Two arms do not do what their opcode says. \<^verbatim>\<open>OR\<close> copies its first operand and ignores the second
  one, and the logical right shifts \<^verbatim>\<open>SRL\<close> and \<^verbatim>\<open>SRLV\<close> are the arithmetic ones, so shifting a negative
  word by one keeps its sign bit.
\<close>

lemma OR_and_SRL_misbehave:
  "exec_hilo_logic (i\<lparr>opCode := OP_OR\<rparr>) pc m = Inr (Done (setr m (rd i) (reg m (rs i))) pc) \<and>
   exec_shift_set (i\<lparr>opCode := OP_SRL\<rparr>) pc m = exec_shift_set (i\<lparr>opCode := OP_SRA\<rparr>) pc m \<and>
   exec_shift_set (i\<lparr>opCode := OP_SRLV\<rparr>) pc m = exec_shift_set (i\<lparr>opCode := OP_SRAV\<rparr>) pc m \<and>
   exec_shift_set \<lparr>ivalue = 0, opCode = OP_SRL, rs = 1, rt = 2, rd = 3, extra = 1\<rparr> pc (setr m 2 0x80000000)
     = Inr (Done (setr (setr m 2 0x80000000) 3 (- 0x40000000)) pc)"
  by (simp add: exec_hilo_logic_def exec_shift_set_def Let_def setr_def)

section \<open>Memory\<close>

lemma ucast_mask: "n = LENGTH('b :: len) \<Longrightarrow> (ucast ((v :: u32) AND mask n) :: 'b word) = ucast v"
  by (rule bit_word_eqI) (auto simp: bit_simps dest: bit_imp_le_length)

lemma store_bytes_frame:
  "mainMemory (store_bytes m pa bs) k = (if unat pa \<le> k \<and> k < unat pa + length bs then bs ! (k - unat pa) else mainMemory m k)"
  by (simp add: store_bytes_def)

definition read_back :: "int \<Rightarrow> u32 \<Rightarrow> u32" where
  "read_back sz v = (if sz = 1 then scast (ucast v :: byte) else if sz = 2 then ucast (ucast v :: u16) else v)"

lemma load_store_phys:
  assumes "store_phys m pa sz v = Inr m'" and "access_size sz"
  shows "load_phys m' pa sz = Inr (read_back sz v)"
proof -
  have c: "sz = 1 \<or> sz = 2 \<or> sz = 4" using assms(2) by (simp add: access_size_def)
  have h: "(ucast (ucast h :: byte) OR push_bit 8 (ucast (ucast (drop_bit 8 h) :: byte))) = (h :: u16)" for h
    by (rule bit_word_eqI) (auto simp: bit_simps)
  have b: "ucast (v AND 0xff) = (ucast v :: byte)" "ucast (v AND 0xffff) = (ucast v :: u16)"
    using ucast_mask [of 8 v, where ?'b = 8] ucast_mask [of 16 v, where ?'b = 16]
    by (simp_all add: mask_eq_exp_minus_1)
  have l4: "[le32 v ! 0, le32 v ! 1, le32 v ! 2, le32 v ! 3] = le32 v" by (simp add: le32_def)
  from c show ?thesis
  proof (elim disjE)
    assume "sz = 4"
    then show ?thesis using assms(1) l4
      by (auto simp: store_phys_def load_phys_def mem_byte_def store_bytes_frame read_back_def
          WordToHost_def WordToMachine_def)
  next
    assume "sz = 2"
    then show ?thesis using assms(1) h b
      by (auto simp: store_phys_def load_phys_def mem_byte_def store_bytes_frame read_back_def
          ShortToHost_def ShortToMachine_def Let_def)
  next
    assume "sz = 1"
    then show ?thesis using assms(1) b
      by (auto simp: store_phys_def load_phys_def mem_byte_def store_bytes_frame read_back_def)
  qed
qed

text \<open>The page-table build: no TLB, and the page table the machine points to has its 64 entries.\<close>

definition pt_machine :: "machine \<Rightarrow> nat \<Rightarrow> TranslationEntry list \<Rightarrow> bool" where
  "pt_machine m p pt \<longleftrightarrow> tlb m = None \<and> pageTable m = Some p \<and> tables m p = Some pt \<and> length pt = nat NumPhysPages"

lemma lookup_last_touched:
  assumes "lookup_last pt v = Some i"
  shows "lookup_last (pt[i := touched (pt ! i) w]) v = Some i" "i < length pt"
proof -
  show i: "i < length pt" using assms by (auto simp: lookup_last_def dest!: find_Some_mem)
  have "virtualPage (pt[i := touched (pt ! i) w] ! k) = virtualPage (pt ! k)" for k
    using i by (cases "k = i") (auto simp: touched_def)
  then show "lookup_last (pt[i := touched (pt ! i) w]) v = Some i"
    using assms by (simp add: lookup_last_def)
qed

lemma WriteMem_pt:
  assumes "pt_machine (mach s) p pt" "access_size sz" "WriteMem K va sz v s = Inr (s', True)"
  obtains i pa m' where "aligned va sz" "\<not> va div 128 \<ge> pageTableSize (mach s)"
    "lookup_last pt (va div 128) = Some i" "translate_outcome (pt ! i) va True = Phys pa"
    "store_phys ((mach s)\<lparr>tables := (tables (mach s))(p \<mapsto> pt[i := touched (pt ! i) True])\<rparr>) pa sz v = Inr m'"
    "s' = s\<lparr>mach := m'\<rparr>"
proof -
  have pm: "tlb (mach s) = None" "pageTable (mach s) = Some p" "tables (mach s) p = Some pt" "length pt = nat NumPhysPages"
    using assms(1) by (simp_all add: pt_machine_def)
  note T = Translate_pt [OF pm assms(2), of va True]
  have a: "\<not> (\<not> aligned va sz \<or> va div 128 \<ge> pageTableSize (mach s))"
    using assms(3) unfolding WriteMem_def T by (auto elim!: bindr_InrE split: if_splits)
  obtain i where i: "lookup_last pt (va div 128) = Some i"
    using assms(3) a unfolding WriteMem_def T by (auto elim!: bindr_InrE split: option.splits)
  obtain pa where pa: "translate_outcome (pt ! i) va True = Phys pa"
    using assms(3) a i unfolding WriteMem_def T
    by (cases "translate_outcome (pt ! i) va True") (auto elim!: bindr_InrE)
  obtain m' where "store_phys ((mach s)\<lparr>tables := (tables (mach s))(p \<mapsto> pt[i := touched (pt ! i) True])\<rparr>) pa sz v = Inr m'"
    "s' = s\<lparr>mach := m'\<rparr>"
    using assms(3) a i pa unfolding WriteMem_def T by (auto elim!: bindr_InrE)
  with a i pa show thesis by (intro that) auto
qed

lemma store_phys_mach:
  "store_phys m pa sz v = Inr m' \<Longrightarrow> \<exists>mm. m' = m\<lparr>mainMemory := mm\<rparr>"
  by (auto simp: store_phys_def store_bytes_def Let_def split: if_splits)

text \<open>
  (C32) What a user program writes it reads back: after a successful \<^verbatim>\<open>WriteMem\<close> of 1, 2 or 4 bytes
  through the page table, \<^verbatim>\<open>ReadMem\<close> at the same address and size succeeds, returns the value (its low
  byte sign-extended, its low halfword zero-extended, or the whole word) and changes nothing: neither
  another trap nor another bookkeeping update happens.
\<close>

theorem WriteMem_ReadMem:
  assumes "pt_machine (mach s) p pt" "access_size sz" "WriteMem K va sz v s = Inr (s', True)"
  shows "ReadMem K va sz s' = Inr (s', Some (read_back sz v))"
proof -
  obtain i pa m' where w: "aligned va sz" "\<not> va div 128 \<ge> pageTableSize (mach s)"
    "lookup_last pt (va div 128) = Some i" "translate_outcome (pt ! i) va True = Phys pa"
    "store_phys ((mach s)\<lparr>tables := (tables (mach s))(p \<mapsto> pt[i := touched (pt ! i) True])\<rparr>) pa sz v = Inr m'"
    "s' = s\<lparr>mach := m'\<rparr>"
    using WriteMem_pt [OF assms] .
  let ?pt = "pt[i := touched (pt ! i) True]"
  have m': "tlb m' = None" "pageTable m' = Some p" "tables m' p = Some ?pt" "length ?pt = nat NumPhysPages"
    "pageTableSize m' = pageTableSize (mach s)"
    using assms(1) store_phys_mach [OF w(5)] by (auto simp: pt_machine_def)
  have i: "lookup_last ?pt (va div 128) = Some i" "i < length pt"
    using lookup_last_touched [OF w(3)] by auto
  have "touched (touched (pt ! i) True) False = touched (pt ! i) True"
    "translate_outcome (touched (pt ! i) True) va False = Phys pa"
    using w(4) by (auto simp: touched_def translate_outcome_def split: if_splits)
  then have "Translate va sz False m' = Inr (m'\<lparr>tables := (tables m')(p \<mapsto> ?pt)\<rparr>, Phys pa)"
    using Translate_pt [OF m'(1-4) assms(2), of va False] w(1,2) i m'(5) by simp
  moreover have "m'\<lparr>tables := (tables m')(p \<mapsto> ?pt)\<rparr> = m'"
    using m'(3) by (simp add: fun_upd_idem)
  ultimately show ?thesis
    using load_store_phys [OF w(5) assms(2)] w(6) by (simp add: ReadMem_def)
qed

theorem WriteMem_ReadMem_witness:
  "\<exists>(s :: sim) s'. WriteMem (\<lambda>_. Inr) 8 2 0xABCD1234 s = Inr (s', True) \<and>
     ReadMem (\<lambda>_. Inr) 8 2 s' = Inr (s', Some 0x1234)"
proof -
  let ?e = "\<lparr>virtualPage = 0, physicalPage = 3, valid = True, readOnly = False, use = False, dirty = False, cnt = 0\<rparr>"
  define pt where "pt = replicate 64 ?e"
  define m where "m = \<lparr>registers = (\<lambda>_. 0), mainMemory = (\<lambda>_. 0), tlb = None,
    tables = [0 \<mapsto> pt], pageTable = Some 0, pageTableSize = 1, TLBhit = 0, TLBmiss = 0, frames = Bitmap_new,
    singleStep = False, runUntilTime = 0\<rparr>"
  define s :: sim where "s = \<lparr>stats = Statistics_new, intr = Interrupt_new, machine_on = True, mach = m\<rparr>"
  have pm: "pt_machine (mach s) 0 pt" by (simp add: pt_machine_def s_def m_def pt_def NumPhysPages_def)
  have l: "lookup_last pt 0 = Some 63" by (rule lookup_last_Some) (auto simp: pt_def)
  have "Translate 8 2 True (mach s) = Inr ((mach s)\<lparr>tables := (tables (mach s))(0 \<mapsto> pt[63 := touched (pt ! 63) True])\<rparr>, Phys 392)"
    using pm Translate_pt [of "mach s" 0 pt 2 8 True] l
    by (simp add: pt_machine_def access_size_def aligned_def) (simp add: s_def m_def pt_def translate_outcome_def NumPhysPages_def)
  then obtain s' where w: "WriteMem (\<lambda>_. Inr) 8 2 0xABCD1234 s = Inr (s', True)"
    by (auto simp: WriteMem_def store_phys_def Let_def)
  have "ReadMem (\<lambda>_. Inr) 8 2 s' = Inr (s', Some (read_back 2 0xABCD1234))"
    by (rule WriteMem_ReadMem [OF pm _ w]) (simp add: access_size_def)
  moreover have "read_back 2 0xABCD1234 = 0x1234" by (simp add: read_back_def)
  ultimately show ?thesis using w by auto
qed

end
