(* ===== verification/Nachos_Mips_Safety.thy ===== *)
theory Nachos_Mips_Safety
  imports Nachos_Mips_Correct
begin

text \<open>
  Safety of \<^verbatim>\<open>OneInstruction\<close>: on a machine whose registers and translation table are well formed,
  executing any instruction either keeps the machine well formed or stops for one of the reasons
  the source has: the kernel's handler stopped, an unaligned \<^verbatim>\<open>LWL\<close>, \<^verbatim>\<open>LWR\<close>, \<^verbatim>\<open>SWL\<close> or \<^verbatim>\<open>SWR\<close> met its
  \<^verbatim>\<open>ASSERT\<close>, or the host trapped on the quotient of the most negative number by -1.
\<close>

section \<open>Translation keeps the machine well formed\<close>

definition user_ok :: "'a sim_scheme \<Rightarrow> bool" where
  "user_ok s \<longleftrightarrow> regs_ok (mach s) \<and> table_ok (mach s)"

lemma Translate_safe:
  assumes "table_ok m" "access_size sz"
  shows "\<exists>m' r. Translate va sz w m = Inr (m', r) \<and> table_ok m' \<and> registers m' = registers m"
proof (cases "tlb m")
  case None
  with assms(1) obtain p pt where pt: "pageTable m = Some p" "tables m p = Some pt" "length pt = nat NumPhysPages"
    by (auto simp: table_ok_def)
  show ?thesis
    using Translate_pt [OF None pt assms(2), of va w] None pt
    by (auto simp: table_ok_def split: option.splits)
next
  case (Some t)
  with assms(1) have t: "length t = nat TLBSize" by (simp add: table_ok_def)
  show ?thesis
    using Translate_tlb_lookup [OF Some t assms(2), of va w] Some t
    by (auto simp: table_ok_def aged_def split: option.splits)
qed

lemma access_sizes [simp]: "access_size 1" "access_size 2" "access_size 4"
  by (simp_all add: access_size_def)

definition load_ok :: "machine \<Rightarrow> bool" where
  "load_ok m \<longleftrightarrow> uint (registers m LoadReg) < 32"

lemma DelayedLoad_load_ok:
  assumes "load_ok m"
  shows "\<exists>rf. DelayedLoad nr nv m = Inr (m\<lparr>registers := rf\<rparr>) \<and> rf 0 = 0 \<and> rf LoadReg = nr \<and> rf LoadValueReg = nv"
proof -
  have "sint (registers m LoadReg) = uint (registers m LoadReg)"
    using assms by (intro sint_eq_uint_small) (simp add: load_ok_def)
  moreover have "\<not> (uint (registers m LoadReg) < 0 \<or> int NumTotalRegs \<le> uint (registers m LoadReg))"
    using assms by (simp add: load_ok_def)
  ultimately show ?thesis unfolding DelayedLoad_def Let_def by (simp only: if_False) auto
qed

lemma table_ok_regs [simp]: "table_ok (m\<lparr>registers := rf\<rparr>) = table_ok m"
  "table_ok (m\<lparr>mainMemory := mm\<rparr>) = table_ok m"
  by (simp_all add: table_ok_def split: option.splits)

lemma store_phys_safe:
  "access_size sz \<Longrightarrow> \<exists>mm. store_phys m pa sz v = Inr (m\<lparr>mainMemory := mm\<rparr>)"
  by (auto simp: access_size_def store_phys_def store_bytes_def Let_def)

lemma load_phys_safe: "access_size sz \<Longrightarrow> \<exists>v. load_phys m pa sz = Inr v"
  by (auto simp: access_size_def load_phys_def)

section \<open>The register arms\<close>

definition fields_ok :: "Instruction \<Rightarrow> bool" where
  "fields_ok i \<longleftrightarrow> rs i < 32 \<and> rt i < 32 \<and> rd i < 32"

text \<open>An arm of the switch that only works on registers leaves the pending load and memory alone.\<close>

definition alu_safe :: "machine \<Rightarrow> alu result \<Rightarrow> bool" where
  "alu_safe m r = (case r of
       Inl f \<Rightarrow> f = UndefinedOp
     | Inr (Raise e) \<Rightarrow> True
     | Inr (Done m' pc) \<Rightarrow> (\<exists>rf. m' = m\<lparr>registers := rf\<rparr> \<and> rf LoadReg = registers m LoadReg))"

lemma alu_safe_simps [simp]:
  "alu_safe m (Inr (Raise e))"
  "alu_safe m (Inr (Done m pc))"
  "r \<noteq> LoadReg \<Longrightarrow> alu_safe m (Inr (Done (setr m r v) pc))"
  "r \<noteq> LoadReg \<Longrightarrow> q \<noteq> LoadReg \<Longrightarrow> alu_safe m (Inr (Done (setr (setr m r v) q w) pc))"
  "alu_safe m (Inl UndefinedOp)"
proof -
  show "alu_safe m (Inr (Raise e))" "alu_safe m (Inl UndefinedOp)" by (simp_all add: alu_safe_def)
  show "alu_safe m (Inr (Done m pc))" by (auto simp: alu_safe_def intro!: exI [of _ "registers m"])
  show "r \<noteq> LoadReg \<Longrightarrow> alu_safe m (Inr (Done (setr m r v) pc))"
    by (auto simp: alu_safe_def setr_def intro!: exI [of _ "(registers m)(r := v)"])
  show "r \<noteq> LoadReg \<Longrightarrow> q \<noteq> LoadReg \<Longrightarrow> alu_safe m (Inr (Done (setr (setr m r v) q w) pc))"
    by (auto simp: alu_safe_def setr_def intro!: exI [of _ "(registers m)(r := v, q := w)"])
qed

lemma fields_ok_LoadReg:
  assumes "fields_ok i"
  shows "rs i \<noteq> LoadReg" "rt i \<noteq> LoadReg" "rd i \<noteq> LoadReg"
  using assms by (auto simp: fields_ok_def)

lemma exec_add_and_safe:
  "fields_ok i \<Longrightarrow> opCode i \<in> {OP_ADD, OP_ADDI, OP_ADDIU, OP_ADDU, OP_AND, OP_ANDI} \<Longrightarrow>
   alu_safe m (exec_add_and i pc m)"
  by (auto simp: exec_add_and_def Let_def fields_ok_LoadReg)

lemma exec_branch_safe:
  "opCode i \<in> {OP_BEQ, OP_BGEZAL, OP_BGEZ, OP_BGTZ, OP_BLEZ, OP_BLTZAL, OP_BLTZ, OP_BNE} \<Longrightarrow>
   alu_safe m (exec_branch i pc m)"
  by (auto simp: exec_branch_def branch_if_def Let_def)

lemma exec_div_jump_safe:
  "fields_ok i \<Longrightarrow> opCode i \<in> {OP_DIV, OP_DIVU, OP_JAL, OP_J, OP_JALR, OP_JR} \<Longrightarrow>
   alu_safe m (exec_div_jump i pc m)"
  by (auto simp: exec_div_jump_def Let_def fields_ok_LoadReg)

lemma exec_hilo_logic_safe:
  "fields_ok i \<Longrightarrow> opCode i \<in> {OP_MFHI, OP_MFLO, OP_MTHI, OP_MTLO, OP_MULT, OP_MULTU, OP_NOR, OP_OR, OP_ORI} \<Longrightarrow>
   alu_safe m (exec_hilo_logic i pc m)"
  by (auto simp: exec_hilo_logic_def fields_ok_LoadReg split: prod.splits)

lemma exec_shift_set_safe:
  "fields_ok i \<Longrightarrow> opCode i \<in> {OP_SLL, OP_SLLV, OP_SLT, OP_SLTI, OP_SLTIU, OP_SLTU, OP_SRA, OP_SRAV, OP_SRL,
     OP_SRLV, OP_SUB, OP_SUBU} \<Longrightarrow> alu_safe m (exec_shift_set i pc m)"
  by (auto simp: exec_shift_set_def Let_def fields_ok_LoadReg)

lemma exec_xor_safe:
  "fields_ok i \<Longrightarrow> opCode i \<in> {OP_XOR, OP_XORI} \<Longrightarrow> alu_safe m (exec_xor i pc m)"
  by (auto simp: exec_xor_def fields_ok_LoadReg)

lemma exec_lui_safe: "fields_ok i \<Longrightarrow> alu_safe m (exec_lui i pc m)"
  by (simp add: exec_lui_def fields_ok_LoadReg)

text \<open>The partial-word accesses assert that their address is aligned after all.\<close>

definition partial_word :: "Instruction \<Rightarrow> bool" where
  "partial_word i \<longleftrightarrow> opCode i \<in> {OP_LWL, OP_LWR, OP_SWL, OP_SWR}"

definition unaligned_partial :: "Instruction \<Rightarrow> machine \<Rightarrow> bool" where
  "unaligned_partial i m \<longleftrightarrow> partial_word i \<and> (registers m (rs i) + extra i) AND 3 \<noteq> 0"

text \<open>The host cannot represent the quotient of the most negative number by -1.\<close>

definition div_overflow :: "Instruction \<Rightarrow> machine \<Rightarrow> bool" where
  "div_overflow i m \<longleftrightarrow> opCode i = OP_DIV \<and> sint (registers m (rs i)) = - (2 ^ 31) \<and> sint (registers m (rt i)) = -1"

lemma exec_div_jump_fails:
  assumes "exec_div_jump i pc m = Inl e" "opCode i \<in> {OP_DIV, OP_DIVU, OP_JAL, OP_J, OP_JALR, OP_JR}"
  shows "div_overflow i m"
  using assms by (auto simp: exec_div_jump_def Let_def div_overflow_def split: if_splits)

section \<open>An instruction calls the handler at most once\<close>

text \<open>
  A computation that is given the kernel's handler either does not depend on it, or calls it once, with an exception and a
  state that do not depend on it, and then only returns. \<open>P\<close> holds of what it returns then.
\<close>

definition one_call ::
  "('b \<Rightarrow> bool) \<Rightarrow> ((ExceptionType \<Rightarrow> 'a sim_scheme \<Rightarrow> 'a sim_scheme result) \<Rightarrow> 'b result) \<Rightarrow> bool" where
  "one_call P X \<longleftrightarrow> (\<exists>r. \<forall>K. X K = r) \<or> (\<exists>e t c. (\<forall>s. P (c s)) \<and> (\<forall>K. X K = bindr (K e t) (\<lambda>s. Inr (c s))))"

lemma one_call_const [simp]: "one_call P (\<lambda>K. r)"
  by (auto simp: one_call_def)

lemma one_call_bind:
  assumes "one_call P X" "\<And>x. P x \<Longrightarrow> \<exists>y. g x = Inr y \<and> Q y"
  shows "one_call Q (\<lambda>K. bindr (X K) g)"
proof -
  consider r where "\<And>K. X K = r" | e t c where "\<And>s. P (c s)" "\<And>K. X K = bindr (K e t) (\<lambda>s. Inr (c s))"
    using assms(1) unfolding one_call_def by blast
  then show ?thesis
  proof cases
    case 1
    then show ?thesis by simp
  next
    case 2
    have "\<forall>s. \<exists>y. g (c s) = Inr y \<and> Q y" using assms(2) 2(1) by blast
    then obtain d where d: "\<forall>s. g (c s) = Inr (d s) \<and> Q (d s)" by (rule choice [THEN exE])
    then have "\<forall>K. bindr (X K) g = bindr (K e t) (\<lambda>s. Inr (d s))" by (simp add: 2(2) bindr_assoc)
    then show ?thesis unfolding one_call_def using d by blast
  qed
qed

lemma one_call_if: "one_call P X \<Longrightarrow> one_call P Y \<Longrightarrow> one_call P (\<lambda>K. if b then X K else Y K)"
  by (cases b) simp_all

lemma one_call_first: "(\<And>x. one_call P (\<lambda>K. g K x)) \<Longrightarrow> one_call P (\<lambda>K. bindr r (g K))"
  by (cases r) simp_all

lemma one_call_Raise: "one_call (\<lambda>_. True) (\<lambda>K. RaiseException K e a s)"
proof (cases "DelayedLoad 0 0 ((mach s)\<lparr>registers := (registers (mach s))(BadVAddrReg := a)\<rparr>)")
  case (Inr m)
  then show ?thesis by (auto simp: RaiseException_def one_call_def)
qed (simp add: RaiseException_def)

lemma one_call_ReadMem: "one_call (\<lambda>p. snd p = None) (\<lambda>K. ReadMem K a sz s)"
  unfolding ReadMem_def
proof (rule one_call_first)
  fix x :: "machine \<times> translation"
  obtain m r where x: "x = (m, r)" by (cases x)
  show "one_call (\<lambda>p. snd p = None) (\<lambda>K. case x of (m, Trap e) \<Rightarrow> bindr (RaiseException K e a (s\<lparr>mach := m\<rparr>)) (\<lambda>s'. Inr (s', None))
       | (m, Phys pa) \<Rightarrow> bindr (load_phys m pa sz) (\<lambda>v. Inr (s\<lparr>mach := m\<rparr>, Some v)))"
    unfolding x by (cases r) (simp_all add: one_call_bind [OF one_call_Raise])
qed

lemma one_call_WriteMem: "one_call (\<lambda>p. \<not> snd p) (\<lambda>K. WriteMem K a sz v s)"
  unfolding WriteMem_def
proof (rule one_call_first)
  fix x :: "machine \<times> translation"
  obtain m r where x: "x = (m, r)" by (cases x)
  show "one_call (\<lambda>p. \<not> snd p) (\<lambda>K. case x of (m, Trap e) \<Rightarrow> bindr (RaiseException K e a (s\<lparr>mach := m\<rparr>)) (\<lambda>s'. Inr (s', False))
       | (m, Phys pa) \<Rightarrow> bindr (store_phys m pa sz v) (\<lambda>m'. Inr (s\<lparr>mach := m'\<rparr>, True)))"
    unfolding x by (cases r) (simp_all add: one_call_bind [OF one_call_Raise])
qed

text \<open>A read that succeeds did so without the handler.\<close>

lemma ReadMem_Some:
  assumes "ReadMem K a sz s = Inr (s1, Some v)"
  shows "ReadMem K' a sz s = Inr (s1, Some v)"
  using assms by (auto simp: ReadMem_def bindr_eq_Inr split: translation.splits)

lemma one_call_read_then:
  assumes "\<And>s'. \<exists>y. f s' = Inr y \<and> P y" "\<And>s' v. one_call P (\<lambda>K. g K s' v)"
  shows "one_call P (\<lambda>K. bindr (ReadMem K a sz s) (\<lambda>(s', r). case r of None \<Rightarrow> f s' | Some v \<Rightarrow> g K s' v))"
proof (cases "\<exists>K s' v. ReadMem K a sz s = Inr (s', Some v)")
  case True
  then obtain s' v where "\<And>K. ReadMem K a sz s = Inr (s', Some v)" using ReadMem_Some by blast
  then show ?thesis using assms(2) by simp
next
  case False
  then have none: "ReadMem K a sz s \<noteq> Inr (s', Some v)" for K s' v by blast
  have "bindr (ReadMem K a sz s) (\<lambda>(s', r). case r of None \<Rightarrow> f s' | Some v \<Rightarrow> g K s' v) = bindr (ReadMem K a sz s) (\<lambda>p. f (fst p))" for K
    using none [of K] by (cases "ReadMem K a sz s") (auto split: option.splits)
  moreover have "one_call P (\<lambda>K. bindr (ReadMem K a sz s) (\<lambda>p. f (fst p)))" by (rule one_call_bind [OF one_call_ReadMem]) (rule assms(1))
  ultimately show ?thesis by simp
qed

abbreviation (input) returned :: "'w exec \<Rightarrow> bool" where "returned r \<equiv> \<exists>s. r = Return s"

lemma one_call_trap: "one_call returned (\<lambda>K. bindr (RaiseException K e a s) (\<lambda>s'. Inr (Return s')))"
  by (rule one_call_bind [OF one_call_Raise]) simp

lemma one_call_load: "(\<And>s' v. one_call returned (\<lambda>K. g K s' v)) \<Longrightarrow> one_call returned (\<lambda>K. load_then K a sz s (g K))"
  unfolding load_then_def by (rule one_call_read_then) simp_all

lemma one_call_store: "one_call returned (\<lambda>K. store_then K a sz v pc s)"
  unfolding store_then_def by (rule one_call_bind [OF one_call_WriteMem]) auto

lemma one_call_alu: "one_call returned (\<lambda>K. exec_alu K f s)"
  unfolding exec_alu_def
proof (rule one_call_first)
  show "one_call returned (\<lambda>K. case x of Done m pc \<Rightarrow> Inr (Next (s\<lparr>mach := m\<rparr>) pc 0 0) | Raise e \<Rightarrow> bindr (RaiseException K e 0 s) (\<lambda>s'. Inr (Return s')))" for x
    by (cases x) (simp_all add: one_call_trap)
qed

lemmas one_calls = one_call_if one_call_first one_call_trap one_call_load one_call_store one_call_alu one_call_const

lemma one_call_execute: "one_call returned (\<lambda>K. execute K i pc s)"
proof -
  have "one_call returned (\<lambda>K. exec_load K i pc s)" unfolding exec_load_def Let_def by (cases "opCode i"; simp only: opcode.case; intro one_calls)
  moreover have "one_call returned (\<lambda>K. exec_store K i pc s)" unfolding exec_store_def Let_def by (cases "opCode i"; simp only: opcode.case; intro one_calls)
  ultimately show ?thesis unfolding execute_def Let_def by (intro one_calls)
qed

lemma one_call_OneInstruction: "one_call (\<lambda>_. True) (\<lambda>K. OneInstruction K s)"
  unfolding OneInstruction_def
proof (rule one_call_read_then)
  show "one_call (\<lambda>_. True) (\<lambda>K. bindr (Decode v) (\<lambda>i. bindr (execute K i (reg (mach s1) NextPCReg + 4) s1) (\<lambda>r. case r of
               Return s2 \<Rightarrow> Inr s2
             | Next s2 pcAfter nr nv \<Rightarrow> bindr (finish_instruction pcAfter nr nv (mach s2)) (\<lambda>m. Inr (s2\<lparr>mach := m\<rparr>)))))" for s1 v
    by (rule one_call_first, rule one_call_bind [OF one_call_execute]) auto
qed simp

text \<open>
  The instruction in state \<open>s\<close> calls the kernel's handler with exception \<open>e\<close> in state \<open>t\<close>: whichever handler
  stops there stops the instruction.
\<close>

definition traps :: "'a sim_scheme \<Rightarrow> ExceptionType \<Rightarrow> 'a sim_scheme \<Rightarrow> bool" where
  "traps s e t \<longleftrightarrow> (\<forall>K f. K e t = Inl f \<longrightarrow> OneInstruction K s = Inl f)"

lemma instruction_stops:
  assumes "OneInstruction K s = Inl f"
  shows "(\<exists>e t. traps s e t \<and> K e t = Inl f) \<or> (\<forall>K'. OneInstruction K' s = Inl f)"
proof -
  consider r where "\<And>K. OneInstruction K s = r" | e t c where "\<And>K. OneInstruction K s = bindr (K e t) (\<lambda>s. Inr (c s))"
    using one_call_OneInstruction [of s] unfolding one_call_def by blast
  then show ?thesis
  proof cases
    case 1
    then show ?thesis using assms by simp
  next
    case 2
    then have "K e t = Inl f" using assms by (cases "K e t") simp_all
    moreover have "traps s e t" unfolding traps_def by (simp add: 2)
    ultimately show ?thesis by blast
  qed
qed

section \<open>The contract of the trap handler\<close>

locale trap_handler =
  fixes K :: "ExceptionType \<Rightarrow> 'a sim_scheme \<Rightarrow> 'a sim_scheme result"
  assumes handler_keeps: "user_ok s \<Longrightarrow> K e s = Inr s' \<Longrightarrow> user_ok s'"
begin

text \<open>A result is acceptable when it is a state that satisfies \<open>P\<close>, or a stop of the handler itself.\<close>

definition stops :: "fault \<Rightarrow> bool" where
  "stops f \<longleftrightarrow> (\<exists>e t. user_ok t \<and> K e t = Inl f)"

lemma RaiseException_safe:
  assumes "load_ok (mach s)" "table_ok (mach s)"
  shows "case RaiseException K e a s of Inl f \<Rightarrow> stops f | Inr s' \<Rightarrow> user_ok s'"
proof -
  let ?m = "(mach s)\<lparr>registers := (registers (mach s))(BadVAddrReg := a)\<rparr>"
  obtain rf where rf: "DelayedLoad 0 0 ?m = Inr (?m\<lparr>registers := rf\<rparr>)" "rf 0 = 0" "rf LoadReg = 0"
    using DelayedLoad_load_ok [of ?m 0 0] assms(1) by (auto simp: load_ok_def)
  let ?s = "setStatus SystemMode (s\<lparr>mach := ?m\<lparr>registers := rf\<rparr>\<rparr>)"
  have ok: "user_ok ?s" using rf assms(2) by (simp add: user_ok_def regs_ok_def setStatus_def)
  show ?thesis
  proof (cases "K e ?s")
    case (Inl f)
    then have "stops f" using ok by (auto simp: stops_def)
    with Inl rf(1) show ?thesis by (simp add: RaiseException_def)
  next
    case (Inr s')
    then have "user_ok s'" using handler_keeps [OF ok] by simp
    with Inr rf(1) show ?thesis by (simp add: RaiseException_def setStatus_def user_ok_def)
  qed
qed

lemma ReadMem_safe:
  assumes "load_ok (mach s)" "table_ok (mach s)" "access_size sz"
  shows "case ReadMem K va sz s of Inl f \<Rightarrow> stops f
    | Inr (s', None) \<Rightarrow> user_ok s'
    | Inr (s', Some v) \<Rightarrow> registers (mach s') = registers (mach s) \<and> table_ok (mach s')"
proof -
  obtain m r where m: "Translate va sz False (mach s) = Inr (m, r)" "table_ok m" "registers m = registers (mach s)"
    using Translate_safe [OF assms(2,3)] by blast
  show ?thesis
  proof (cases r)
    case (Trap e)
    then show ?thesis
      using m assms RaiseException_safe [of "s\<lparr>mach := m\<rparr>" e va]
      by (cases "RaiseException K e va (s\<lparr>mach := m\<rparr>)") (auto simp: ReadMem_def load_ok_def)
  next
    case (Phys pa)
    then show ?thesis using m load_phys_safe [OF assms(3), of m pa] by (auto simp: ReadMem_def)
  qed
qed

lemma WriteMem_safe:
  assumes "load_ok (mach s)" "table_ok (mach s)" "access_size sz"
  shows "case WriteMem K va sz v s of Inl f \<Rightarrow> stops f
    | Inr (s', False) \<Rightarrow> user_ok s'
    | Inr (s', True) \<Rightarrow> registers (mach s') = registers (mach s) \<and> table_ok (mach s')"
proof -
  obtain m r where m: "Translate va sz True (mach s) = Inr (m, r)" "table_ok m" "registers m = registers (mach s)"
    using Translate_safe [OF assms(2,3)] by blast
  show ?thesis
  proof (cases r)
    case (Trap e)
    then show ?thesis
      using m assms RaiseException_safe [of "s\<lparr>mach := m\<rparr>" e va]
      by (cases "RaiseException K e va (s\<lparr>mach := m\<rparr>)") (auto simp: WriteMem_def load_ok_def)
  next
    case (Phys pa)
    then show ?thesis using m store_phys_safe [OF assms(3), of m pa v] by (auto simp: WriteMem_def)
  qed
qed

text \<open>What \<open>execute\<close> may return: a state ready for the end of the instruction, or a handled trap.\<close>

definition exec_safe :: "Instruction \<Rightarrow> 'a sim_scheme \<Rightarrow> 'a sim_scheme exec result \<Rightarrow> bool" where
  "exec_safe i s r = (case r of
       Inl f \<Rightarrow> stops f \<or> f = UndefinedOp \<and> div_overflow i (mach s) \<or> f = AssertFailed \<and> unaligned_partial i (mach s)
     | Inr (Return s') \<Rightarrow> user_ok s'
     | Inr (Next s' pc nr nv) \<Rightarrow> load_ok (mach s') \<and> table_ok (mach s') \<and> uint nr < 32)"

lemma exec_alu_safe:
  assumes "load_ok (mach s)" "table_ok (mach s)" "alu_safe (mach s) (f (mach s))"
    and "\<And>e. f (mach s) = Inl e \<Longrightarrow> div_overflow i (mach s)"
  shows "exec_safe i s (exec_alu K f s)"
proof (cases "f (mach s)")
  case (Inl e)
  then show ?thesis using assms(3,4) by (simp add: exec_alu_def exec_safe_def alu_safe_def)
next
  case (Inr r)
  show ?thesis
  proof (cases r)
    case (Done m' pc)
    then show ?thesis using Inr assms(1-3) by (auto simp: exec_alu_def exec_safe_def alu_safe_def load_ok_def)
  next
    case (Raise e)
    then show ?thesis using Inr RaiseException_safe [OF assms(1,2), of e 0]
      by (cases "RaiseException K e 0 s") (auto simp: exec_alu_def exec_safe_def)
  qed
qed

lemma load_then_safe:
  assumes "load_ok (mach s)" "table_ok (mach s)" "access_size sz"
    and "\<And>s' v. registers (mach s') = registers (mach s) \<Longrightarrow> table_ok (mach s') \<Longrightarrow> exec_safe i s (g s' v)"
  shows "exec_safe i s (load_then K va sz s g)"
  using ReadMem_safe [OF assms(1-3), of va] assms(4)
  by (cases "ReadMem K va sz s") (auto simp: load_then_def exec_safe_def split: option.splits)

lemma store_then_safe:
  assumes "registers (mach s') = registers (mach s)" "load_ok (mach s)" "table_ok (mach s')" "access_size sz"
  shows "exec_safe i s (store_then K va sz v pc s')"
proof -
  have "load_ok (mach s')" using assms(1,2) by (simp add: load_ok_def)
  from WriteMem_safe [OF this assms(3,4), of va v] this show ?thesis
    by (cases "WriteMem K va sz v s'") (auto simp: store_then_def exec_safe_def load_ok_def split: if_splits bool.splits)
qed

lemma raise_safe:
  assumes "load_ok (mach s)" "table_ok (mach s)"
  shows "exec_safe i s (bindr (RaiseException K e a s) (\<lambda>s'. Inr (Return s')))"
  using RaiseException_safe [OF assms, of e a]
  by (cases "RaiseException K e a s") (auto simp: exec_safe_def)

lemma next_safe:
  assumes "registers (mach s') = registers (mach s)" "load_ok (mach s)" "table_ok (mach s')" "r < 32"
  shows "exec_safe i s (Inr (Next s' pc (of_nat r) v))"
proof -
  have "uint (of_nat r :: u32) = int r" using assms(4) by (simp add: unsigned_of_nat take_bit_nat_eq_self_iff)
  then show ?thesis using assms by (simp add: exec_safe_def load_ok_def)
qed

lemma assert_safe:
  assumes "partial_word i" "exec_safe i s r"
  shows "exec_safe i s (bindr (ASSERT ((registers (mach s) (rs i) + extra i) AND 3 = 0)) (\<lambda>_. r))"
  using assms
  by (cases "(registers (mach s) (rs i) + extra i) AND 3 = 0") (auto simp: exec_safe_def unaligned_partial_def)

lemma assert_fail_safe:
  "partial_word i \<Longrightarrow> (registers (mach s) (rs i) + extra i) AND 3 \<noteq> 0 \<Longrightarrow> exec_safe i s (Inl AssertFailed)"
  by (simp add: exec_safe_def unaligned_partial_def)

lemma exec_load_safe:
  assumes "load_ok (mach s)" "table_ok (mach s)" "fields_ok i"
    and c: "opCode i \<in> {OP_LB, OP_LBU, OP_LH, OP_LHU, OP_LW, OP_LWL, OP_LWR}"
  shows "exec_safe i s (exec_load K i pc s)"
proof -
  have rt: "rt i < 32" using assms(3) by (simp add: fields_ok_def)
  note nxt = next_safe [OF _ assms(1) _ rt]
  note load = load_then_safe [OF assms(1,2)]
  note raise = raise_safe [OF assms(1,2)]
  have p: "opCode i = OP_LWL \<or> opCode i = OP_LWR \<Longrightarrow> partial_word i" by (auto simp: partial_word_def)
  from c show ?thesis
    unfolding exec_load_def Let_def
    by (auto intro!: nxt load raise assert_safe assert_fail_safe p)
qed

lemma exec_store_safe:
  assumes "load_ok (mach s)" "table_ok (mach s)"
    and c: "opCode i \<in> {OP_SB, OP_SH, OP_SW, OP_SWL, OP_SWR}"
  shows "exec_safe i s (exec_store K i pc s)"
proof -
  note load = load_then_safe [OF assms(1,2)]
  note store = store_then_safe [OF _ assms(1)]
  have p: "opCode i = OP_SWL \<or> opCode i = OP_SWR \<Longrightarrow> partial_word i" by (auto simp: partial_word_def)
  from c assms(2) show ?thesis
    unfolding exec_store_def Let_def
    by (auto intro!: load store assert_safe assert_fail_safe p)
qed

lemma execute_safe:
  assumes "load_ok (mach s)" "table_ok (mach s)" "fields_ok i" "executable_op (opCode i)"
  shows "exec_safe i s (execute K i pc s)"
proof -
  note alu = exec_alu_safe [OF assms(1,2)]
  note raise = raise_safe [OF assms(1,2)]
  consider "opCode i \<in> {OP_ADD, OP_ADDI, OP_ADDIU, OP_ADDU, OP_AND, OP_ANDI}"
    | "opCode i \<in> {OP_BEQ, OP_BGEZAL, OP_BGEZ, OP_BGTZ, OP_BLEZ, OP_BLTZAL, OP_BLTZ, OP_BNE}"
    | "opCode i \<in> {OP_DIV, OP_DIVU, OP_JAL, OP_J, OP_JALR, OP_JR}"
    | "opCode i \<in> {OP_LB, OP_LBU, OP_LH, OP_LHU, OP_LW, OP_LWL, OP_LWR}"
    | "opCode i = OP_LUI"
    | "opCode i \<in> {OP_MFHI, OP_MFLO, OP_MTHI, OP_MTLO, OP_MULT, OP_MULTU, OP_NOR, OP_OR, OP_ORI}"
    | "opCode i \<in> {OP_SB, OP_SH, OP_SW, OP_SWL, OP_SWR}"
    | "opCode i \<in> {OP_SLL, OP_SLLV, OP_SLT, OP_SLTI, OP_SLTIU, OP_SLTU, OP_SRA, OP_SRAV, OP_SRL, OP_SRLV, OP_SUB, OP_SUBU}"
    | "opCode i = OP_SYSCALL" | "opCode i \<in> {OP_XOR, OP_XORI}" | "opCode i \<in> {OP_RES, OP_UNIMP}"
    using assms(4) by (cases "opCode i") (auto simp: executable_op_def)
  then show ?thesis
  proof cases
    case 1
    then have "execute K i pc s = exec_alu K (exec_add_and i pc) s" by (auto simp: execute_def)
    moreover have "\<And>e. exec_add_and i pc (mach s) \<noteq> Inl e"
      using 1 by (auto simp: exec_add_and_def Let_def split: if_splits)
    ultimately show ?thesis by (auto intro!: alu exec_add_and_safe [OF assms(3) 1])
  next
    case 2
    then have "execute K i pc s = exec_alu K (exec_branch i pc) s" by (auto simp: execute_def)
    moreover have "\<And>e. exec_branch i pc (mach s) \<noteq> Inl e"
      using 2 by (auto simp: exec_branch_def branch_if_def Let_def)
    ultimately show ?thesis by (auto intro!: alu exec_branch_safe [OF 2])
  next
    case 3
    then have "execute K i pc s = exec_alu K (exec_div_jump i pc) s" by (auto simp: execute_def)
    then show ?thesis by (auto intro!: alu exec_div_jump_safe [OF assms(3) 3] dest: exec_div_jump_fails [OF _ 3])
  next
    case 4
    then have "execute K i pc s = exec_load K i pc s" by (auto simp: execute_def)
    then show ?thesis using exec_load_safe [OF assms(1-3) 4] by simp
  next
    case 5
    then have "execute K i pc s = exec_alu K (exec_lui i pc) s" by (simp add: execute_def)
    then show ?thesis by (auto intro!: alu exec_lui_safe [OF assms(3)] simp: exec_lui_def)
  next
    case 6
    then have "execute K i pc s = exec_alu K (exec_hilo_logic i pc) s" by (auto simp: execute_def)
    moreover have "\<And>e. exec_hilo_logic i pc (mach s) \<noteq> Inl e"
      using 6 by (auto simp: exec_hilo_logic_def split: prod.splits)
    ultimately show ?thesis by (auto intro!: alu exec_hilo_logic_safe [OF assms(3) 6])
  next
    case 7
    then have "execute K i pc s = exec_store K i pc s" by (auto simp: execute_def)
    then show ?thesis using exec_store_safe [OF assms(1,2) 7] by simp
  next
    case 8
    then have "execute K i pc s = exec_alu K (exec_shift_set i pc) s" by (auto simp: execute_def)
    moreover have "\<And>e. exec_shift_set i pc (mach s) \<noteq> Inl e"
      using 8 by (auto simp: exec_shift_set_def Let_def split: if_splits)
    ultimately show ?thesis by (auto intro!: alu exec_shift_set_safe [OF assms(3) 8])
  next
    case 9
    then show ?thesis using raise by (simp add: execute_def)
  next
    case 10
    then have "execute K i pc s = exec_alu K (exec_xor i pc) s" by (auto simp: execute_def)
    moreover have "\<And>e. exec_xor i pc (mach s) \<noteq> Inl e" using 10 by (auto simp: exec_xor_def)
    ultimately show ?thesis by (auto intro!: alu exec_xor_safe [OF assms(3) 10])
  next
    case 11
    then show ?thesis using raise by (auto simp: execute_def)
  qed
qed

lemma OneInstruction_safe_locale:
  assumes "user_ok s"
  shows "case OneInstruction K s of
      Inr s' \<Rightarrow> user_ok s'
    | Inl f \<Rightarrow> stops f \<or> (\<exists>s1 v i. ReadMem K (registers (mach s) PCReg) 4 s = Inr (s1, Some v) \<and> Decode v = Inr i \<and>
        (f = UndefinedOp \<and> div_overflow i (mach s1) \<or> f = AssertFailed \<and> unaligned_partial i (mach s1)))"
proof -
  have ok: "load_ok (mach s)" "table_ok (mach s)"
    using assms by (simp_all add: user_ok_def regs_ok_def load_ok_def)
  note rd = ReadMem_safe [OF this, of 4 "registers (mach s) PCReg", simplified]
  show ?thesis
  proof (cases "ReadMem K (registers (mach s) PCReg) 4 s")
    case (Inl f)
    then show ?thesis using rd by (simp add: OneInstruction_def)
  next
    case (Inr p)
    obtain s1 raw where p: "p = (s1, raw)" by (cases p)
    show ?thesis
    proof (cases raw)
      case None
      then show ?thesis using rd Inr p by (simp add: OneInstruction_def)
    next
      case (Some v)
      then have s1: "load_ok (mach s1)" "table_ok (mach s1)" using rd Inr p ok by (simp_all add: load_ok_def)
      obtain i where i: "Decode v = Inr i" "executable_op (opCode i)" "fields_ok i"
        using Decode_ok [of v] by (auto simp: fields_ok_def)
      let ?r = "execute K i (registers (mach s1) NextPCReg + 4) s1"
      note ex = execute_safe [OF s1 i(3,2), of "registers (mach s1) NextPCReg + 4"]
      show ?thesis
      proof (cases ?r)
        case (Inl f)
        then show ?thesis using ex Inr p Some i(1) by (auto simp: OneInstruction_def exec_safe_def)
      next
        case r: (Inr x)
        show ?thesis
        proof (cases x)
          case (Return s2)
          then show ?thesis using r ex Inr p Some i(1) by (simp add: OneInstruction_def exec_safe_def)
        next
          case (Next s2 pc nr nv)
          then have s2: "load_ok (mach s2)" "table_ok (mach s2)" "uint nr < 32"
            using ex r by (simp_all add: exec_safe_def)
          obtain rf where "DelayedLoad nr nv (mach s2) = Inr ((mach s2)\<lparr>registers := rf\<rparr>)" "rf 0 = 0" "rf LoadReg = nr"
            using DelayedLoad_load_ok [OF s2(1)] by blast
          then show ?thesis using r Inr p Some i(1) Next s2
            by (simp add: OneInstruction_def finish_instruction_def Let_def setr_def user_ok_def regs_ok_def)
        qed
      qed
    qed
  qed
qed

end

text \<open>A concrete well-formed machine: page 0 mapped to frame 0, everything else zero.\<close>

definition blank_entry :: TranslationEntry where
  "blank_entry = \<lparr>virtualPage = 0, physicalPage = 0, valid = True, readOnly = False, use = False, dirty = False, cnt = 0\<rparr>"

definition blank_machine :: machine where
  "blank_machine = \<lparr>registers = (\<lambda>_. 0), mainMemory = (\<lambda>_. 0), tlb = None,
     tables = [0 \<mapsto> replicate 64 blank_entry], pageTable = Some 0, pageTableSize = 1, TLBhit = 0, TLBmiss = 0,
     frames = Bitmap_new, singleStep = False, runUntilTime = 0\<rparr>"

definition blank_sim :: sim where
  "blank_sim = \<lparr>stats = Statistics_new, intr = Interrupt_new, machine_on = True, mach = blank_machine\<rparr>"

lemma blank_user_ok: "user_ok blank_sim"
  by (simp add: user_ok_def blank_sim_def blank_machine_def regs_ok_def table_ok_def NumPhysPages_def)

text \<open>
  Every stop of an instruction has one of three causes in that instruction: the handler it called stopped, its division overflowed, or its
  partial-word access was unaligned.
\<close>

definition instruction_fault :: "(ExceptionType \<Rightarrow> 'a sim_scheme \<Rightarrow> 'a sim_scheme result) \<Rightarrow> fault \<Rightarrow> 'a sim_scheme \<Rightarrow> bool" where
  "instruction_fault K f s \<longleftrightarrow> (\<exists>e t. traps s e t \<and> K e t = Inl f) \<or>
     (\<exists>s1 v i. ReadMem K (registers (mach s) PCReg) 4 s = Inr (s1, Some v) \<and> Decode v = Inr i \<and>
        (f = UndefinedOp \<and> div_overflow i (mach s1) \<or> f = AssertFailed \<and> unaligned_partial i (mach s1)))"

lemma instruction_safe:
  assumes "\<And>e t t'. user_ok t \<Longrightarrow> K e t = Inr t' \<Longrightarrow> user_ok t'" and "user_ok s"
  shows "case OneInstruction K s of Inr s' \<Rightarrow> user_ok s' | Inl f \<Rightarrow> instruction_fault K f s"
proof (cases "OneInstruction K s")
  case (Inr s')
  have "trap_handler K" using assms(1) by unfold_locales blast
  from trap_handler.OneInstruction_safe_locale [OF this assms(2)] Inr show ?thesis by simp
next
  case (Inl f)
  let ?K = "\<lambda>(e :: ExceptionType) t :: 'a sim_scheme. (Inr t :: 'a sim_scheme result)"
  have th: "trap_handler ?K" by unfold_locales simp
  have "instruction_fault K f s"
  proof (cases "\<exists>e t. traps s e t \<and> K e t = Inl f")
    case False
    then have "OneInstruction ?K s = Inl f" using instruction_stops [OF Inl] by blast
    then obtain s1 v i where "ReadMem ?K (registers (mach s) PCReg) 4 s = Inr (s1, Some v)" "Decode v = Inr i"
      "f = UndefinedOp \<and> div_overflow i (mach s1) \<or> f = AssertFailed \<and> unaligned_partial i (mach s1)"
      using trap_handler.OneInstruction_safe_locale [OF th assms(2)] unfolding trap_handler.stops_def [OF th] by auto
    then show ?thesis unfolding instruction_fault_def using ReadMem_Some by blast
  qed (simp add: instruction_fault_def)
  then show ?thesis using Inl by simp
qed

text \<open>
  (C19) One instruction of a user program cannot break the simulator. If the registers and the
  translation table are well formed and the kernel's trap handler keeps them so, then executing
  whatever word the program counter points at, with any register contents, ends in a state where
  they are well formed again (register 0 is zero, the pending load names a general register, the
  table has its size), or stops for one of three reasons: the instruction called the kernel's handler and that call
  stopped (with the exception and the state of the call; another handler that stops there stops the instruction as well); the word is
  an unaligned partial-word access; or it is a \<^verbatim>\<open>DIV\<close> of the most negative number by -1, whose quotient the host cannot represent.
\<close>

theorem OneInstruction_safe:
  assumes "\<And>e t t'. user_ok t \<Longrightarrow> K e t = Inr t' \<Longrightarrow> user_ok t'" and "user_ok s"
  shows "case OneInstruction K s of
      Inr s' \<Rightarrow> user_ok s'
    | Inl f \<Rightarrow> (\<exists>e t. traps s e t \<and> K e t = Inl f) \<or>
        (\<exists>s1 v i. ReadMem K (registers (mach s) PCReg) 4 s = Inr (s1, Some v) \<and> Decode v = Inr i \<and>
          (f = UndefinedOp \<and> div_overflow i (mach s1) \<or> f = AssertFailed \<and> unaligned_partial i (mach s1)))"
  using instruction_safe [of K s, OF assms] unfolding instruction_fault_def .

theorem OneInstruction_safe_witness:
  "case OneInstruction (\<lambda>_. Inr) blank_sim of
      Inr s' \<Rightarrow> user_ok s'
    | Inl f \<Rightarrow> (\<exists>s1 v i. ReadMem (\<lambda>_. Inr) 0 4 blank_sim = Inr (s1, Some v) \<and> Decode v = Inr i \<and>
          (f = UndefinedOp \<and> div_overflow i (mach s1) \<or> f = AssertFailed \<and> unaligned_partial i (mach s1)))"
proof -
  have "registers (mach blank_sim) PCReg = 0" by (simp add: blank_sim_def blank_machine_def)
  moreover have "user_ok t'" if "user_ok t" "(\<lambda>_ :: ExceptionType. Inr) e t = (Inr t' :: sim result)" for e t and t' :: sim
    using that by simp
  note h = OneInstruction_safe [of "\<lambda>_ :: ExceptionType. Inr", OF this blank_user_ok]
  ultimately show ?thesis using h by (auto split: sum.splits)
qed

end
