(* ===== verification/Nachos_Thread.thy ===== *)
theory Nachos_Thread
  imports Nachos_Interrupt
begin

text \<open>
  Kernel threads and the scheduler (\<^verbatim>\<open>threads/thread.h\<close>, \<^verbatim>\<open>thread.cc\<close>, \<^verbatim>\<open>scheduler.h\<close>, \<^verbatim>\<open>scheduler.cc\<close>).
  A thread that is not running is a stack that \<^verbatim>\<open>SWITCH\<close> returns into. The model keeps that stack as a
  list of frames, the innermost first: each frame is the rest of one kernel routine together with its
  local variables (the saved interrupt level, the lock of a \<^verbatim>\<open>Wait\<close>). One step of the machine runs the
  top frame of the running thread up to the next call that may switch threads, so that everything
  between two context switches that the code makes atomic by disabling interrupts is one step, and
  nothing more is.

  Objects are named by their addresses: a thread, a semaphore, a lock or a condition is a number, and
  the state maps it to its fields. The queues are the abstract lists of \<open>Nachos_List\<close>.
\<close>

section \<open>Frames\<close>

text \<open>
  The calls of the kernel interface and the points at which their execution may be suspended:
  \<open>FEnable\<close> and \<open>FFinish\<close> are the first and last part of \<^verbatim>\<open>ThreadRoot\<close>; \<open>FRunTail\<close> is the code of
  \<^verbatim>\<open>Scheduler::Run\<close> behind \<^verbatim>\<open>SWITCH\<close>; \<open>FSleepLoop\<close> the loop of \<^verbatim>\<open>Sleep\<close>; \<open>FSetLevel\<close> restores an interrupt
  level; \<open>FSetStatus\<close> is the end of \<^verbatim>\<open>OneTick\<close>; \<open>FPLoop\<close> the loop of \<^verbatim>\<open>P\<close>; \<open>FOwner\<close> the end of \<^verbatim>\<open>Acquire\<close>;
  \<open>FWaitTail\<close> the part of \<^verbatim>\<open>Wait\<close> behind \<^verbatim>\<open>Sleep\<close>; \<open>FBarrierBody\<close> the part of \<^verbatim>\<open>Barrier\<close> behind \<^verbatim>\<open>Acquire\<close>;
  \<open>FAppendBody\<close> and \<open>FRemoveLoop\<close> those of the synchronized list.
\<close>

datatype frame =
    FEnable
  | FFinish
  | FYield
  | FSpawn string "frame list"
  | FRunTail
  | FSleepLoop
  | FSetLevel IntStatus
  | FSetStatus MachineStatus
  | FP nat
  | FPLoop nat IntStatus
  | FV nat
  | FAcquire nat
  | FOwner nat IntStatus
  | FRelease nat
  | FWait nat nat
  | FWaitTail nat nat IntStatus
  | FSignal nat
  | FBroadcast nat
  | FBarrier int
  | FBarrierBody int
  | FAppend nat int
  | FAppendBody nat int
  | FRemove nat
  | FRemoveLoop nat

section \<open>State\<close>

datatype ThreadStatus = JUST_CREATED | RUNNING | READY | BLOCKED

record AddrSpace =
  space_table :: nat
  numPages :: u32

text \<open>\<open>stack\<close> is the word at the bottom of the allocated stack, \<open>None\<close> for the main thread.\<close>

record Thread =
  thread_name :: string
  tid :: int
  uid :: int
  priority :: int
  child :: "nat option list"
  father :: nat
  stack :: "u32 option"
  thread_status :: ThreadStatus
  kstack :: "frame list"
  userRegisters :: "nat \<Rightarrow> u32"
  space :: "nat option"

record Semaphore =
  sem_value :: int
  sem_queue :: "nat list"

record Lock =
  lock_sem :: nat
  lock_owner :: "nat option"

record SynchList =
  sl_list :: "int list"
  sl_lock :: nat
  sl_empty :: nat

text \<open>
  The global variables of \<^verbatim>\<open>system.cc\<close> and \<^verbatim>\<open>synch.cc\<close> and the static members of \<^verbatim>\<open>Thread\<close>. \<open>io_sem\<close> names the
  semaphore that the completion routine of a device signals; \<open>fresh_regs\<close> is what the memory of a new
  control block holds in its uninitialised registers. \<open>taken\<close> records the results that
  \<^verbatim>\<open>SynchList::Remove\<close> has returned, the latest first.
\<close>

record kernel = sim +
  ktimer :: Timer
  io_sem :: "handler_fn \<Rightarrow> nat"
  threads :: "nat \<Rightarrow> Thread option"
  next_thread :: nat
  fresh_regs :: "nat \<Rightarrow> u32"
  thread_cnt :: int
  valid_id :: "int list"
  thread_pointer :: "nat option list"
  readyList :: "nat list"
  currentThread :: nat
  threadToBeDestroyed :: "nat option"
  semaphores :: "nat \<Rightarrow> Semaphore option"
  locks :: "nat \<Rightarrow> Lock option"
  conditions :: "nat \<Rightarrow> nat list option"
  barrierCnt :: int
  barrierCond :: nat
  barrierLock :: nat
  synchlists :: "nat \<Rightarrow> SynchList option"
  taken :: "int list"
  spaces :: "nat \<Rightarrow> AddrSpace option"

definition the_obj :: "'o option \<Rightarrow> 'o result" where
  "the_obj x = (case x of None \<Rightarrow> Inl BadPointer | Some v \<Rightarrow> Inr v)"

definition upd_thread :: "nat \<Rightarrow> (Thread \<Rightarrow> Thread) \<Rightarrow> kernel \<Rightarrow> kernel result" where
  "upd_thread t f k = bindr (the_obj (threads k t)) (\<lambda>th. Inr (k\<lparr>threads := (threads k)(t \<mapsto> f th)\<rparr>))"

text \<open>Suspending the running thread inside a routine: the frames to be resumed go on its stack.\<close>

definition push :: "frame list \<Rightarrow> kernel \<Rightarrow> kernel result" where
  "push fs k = upd_thread (currentThread k) (\<lambda>th. th\<lparr>kstack := fs @ kstack th\<rparr>) k"

section \<open>Creating threads\<close>

definition max_thread :: int where "max_thread = 128"
definition STACK_FENCEPOST :: u32 where "STACK_FENCEPOST = 0xdeadbeef"

text \<open>Falling off the end of \<^verbatim>\<open>getNewId\<close> has no defined result.\<close>

fun find_free :: "int list \<Rightarrow> nat \<Rightarrow> nat option" where
  "find_free [] i = None"
| "find_free (v # vs) i = (if v = 0 then Some i else find_free vs (Suc i))"

definition getNewId :: "kernel \<Rightarrow> (kernel \<times> int) result" where
  "getNewId k = (case find_free (take (nat max_thread) (valid_id k)) 0 of
       None \<Rightarrow> Inl OutOfBounds
     | Some i \<Rightarrow> Inr (k\<lparr>valid_id := (valid_id k)[i := 1]\<rparr>, int i))"

definition Thread_init :: "kernel \<Rightarrow> kernel" where
  "Thread_init k = k\<lparr>valid_id := replicate (nat max_thread) 0\<rparr>"

definition Thread_new :: "string \<Rightarrow> kernel \<Rightarrow> (kernel \<times> nat) result" where
  "Thread_new threadName k =
     (let this = next_thread k in
      bindr (getNewId (k\<lparr>next_thread := Suc this, thread_cnt := thread_cnt k + 1\<rparr>)) (\<lambda>(k1, i).
      bindr (arr_set (thread_pointer k1) i (Some this)) (\<lambda>tp.
        Inr (k1\<lparr>thread_pointer := tp, threads := (threads k1)(this \<mapsto>
          \<lparr>thread_name = threadName, tid = i, uid = 0, priority = 0, child = replicate 10 None, father = this,
           stack = None, thread_status = JUST_CREATED, kstack = [], userRegisters = fresh_regs k, space = None\<rparr>)\<rparr>, this))))"

definition createThread :: "string \<Rightarrow> kernel \<Rightarrow> (kernel \<times> nat option) result" where
  "createThread debugName k =
     (if thread_cnt k \<ge> max_thread then Inr (k, None)
      else bindr (Thread_new debugName k) (\<lambda>(k1, t). Inr (k1, Some t)))"

definition Thread_delete :: "nat \<Rightarrow> kernel \<Rightarrow> kernel result" where
  "Thread_delete t k =
     bindr (ASSERT (t \<noteq> currentThread k)) (\<lambda>_.
     bindr (the_obj (threads k t)) (\<lambda>_. Inr (k\<lparr>threads := (threads k)(t := None)\<rparr>)))"

text \<open>\<^verbatim>\<open>StackAllocate\<close>: the new stack starts in \<^verbatim>\<open>ThreadRoot\<close>, which enables interrupts, runs the procedure
  and then calls \<^verbatim>\<open>ThreadFinish\<close>. A procedure is given by the kernel calls it makes.\<close>

definition StackAllocate :: "nat \<Rightarrow> frame list \<Rightarrow> kernel \<Rightarrow> kernel result" where
  "StackAllocate t func k =
     upd_thread t (\<lambda>th. th\<lparr>stack := Some STACK_FENCEPOST, kstack := FEnable # func @ [FFinish]\<rparr>) k"

definition CheckOverflow :: "nat \<Rightarrow> kernel \<Rightarrow> unit result" where
  "CheckOverflow t k = bindr (the_obj (threads k t)) (\<lambda>th.
     case stack th of None \<Rightarrow> Inr () | Some w \<Rightarrow> ASSERT (w = STACK_FENCEPOST))"

definition SaveUserState :: "nat \<Rightarrow> kernel \<Rightarrow> kernel result" where
  "SaveUserState t k = upd_thread t (\<lambda>th. th\<lparr>userRegisters :=
     (\<lambda>i. if i < NumTotalRegs then registers (mach k) i else userRegisters th i)\<rparr>) k"

definition RestoreUserState :: "nat \<Rightarrow> kernel \<Rightarrow> kernel result" where
  "RestoreUserState t k = bindr (the_obj (threads k t)) (\<lambda>th.
     Inr (k\<lparr>mach := (mach k)\<lparr>registers := (\<lambda>i. if i < NumTotalRegs then userRegisters th i else registers (mach k) i)\<rparr>\<rparr>))"

definition RestoreState :: "AddrSpace \<Rightarrow> machine \<Rightarrow> machine" where
  "RestoreState sp m = m\<lparr>pageTable := Some (space_table sp), pageTableSize := numPages sp\<rparr>"

definition AddrSpace_RestoreState :: "nat \<Rightarrow> kernel \<Rightarrow> kernel result" where
  "AddrSpace_RestoreState a k = bindr (the_obj (spaces k a)) (\<lambda>sp.
     Inr (k\<lparr>mach := RestoreState sp (mach k)\<rparr>))"

section \<open>The scheduler\<close>

definition ReadyToRun :: "nat \<Rightarrow> kernel \<Rightarrow> kernel result" where
  "ReadyToRun t k =
     bindr (upd_thread t (\<lambda>th. th\<lparr>thread_status := READY\<rparr>) k) (\<lambda>k1. Inr (k1\<lparr>readyList := readyList k1 @ [t]\<rparr>))"

definition FindNextToRun :: "kernel \<Rightarrow> kernel \<times> nat option" where
  "FindNextToRun k = (case readyList k of [] \<Rightarrow> (k, None) | t # ts \<Rightarrow> (k\<lparr>readyList := ts\<rparr>, Some t))"

text \<open>\<^verbatim>\<open>Run\<close> up to \<^verbatim>\<open>SWITCH\<close>, which resumes the stack of the next thread; the rest runs when the old thread
  is switched to again.\<close>

definition Scheduler_Run :: "nat \<Rightarrow> kernel \<Rightarrow> kernel result" where
  "Scheduler_Run nextThread k =
     (let oldThread = currentThread k in
      bindr (the_obj (threads k oldThread)) (\<lambda>old.
      bindr (if space old \<noteq> None then SaveUserState oldThread k else Inr k) (\<lambda>k1.
      bindr (CheckOverflow oldThread k1) (\<lambda>_.
      bindr (push [FRunTail] k1) (\<lambda>k2.
        upd_thread nextThread (\<lambda>th. th\<lparr>thread_status := RUNNING\<rparr>) (k2\<lparr>currentThread := nextThread\<rparr>))))))"

definition Scheduler_Run_tail :: "kernel \<Rightarrow> kernel result" where
  "Scheduler_Run_tail k =
     bindr (case threadToBeDestroyed k of None \<Rightarrow> Inr k
            | Some d \<Rightarrow> bindr (Thread_delete d k) (\<lambda>k1. Inr (k1\<lparr>threadToBeDestroyed := None\<rparr>))) (\<lambda>k1.
     bindr (the_obj (threads k1 (currentThread k1))) (\<lambda>th.
       case space th of None \<Rightarrow> Inr k1
       | Some a \<Rightarrow> bindr (RestoreUserState (currentThread k1) k1) (AddrSpace_RestoreState a)))"

section \<open>Thread operations\<close>

text \<open>Turning interrupts off never makes time pass.\<close>

definition level_off :: "kernel \<Rightarrow> kernel \<times> IntStatus" where
  "level_off k = (ChangeLevel IntOff k, level (intr k))"

definition Fork :: "nat \<Rightarrow> frame list \<Rightarrow> kernel \<Rightarrow> kernel result" where
  "Fork t func k =
     bindr (StackAllocate t func k) (\<lambda>k1.
       case level_off k1 of (k2, oldLevel) \<Rightarrow>
       bindr (ReadyToRun t k2) (push [FSetLevel oldLevel]))"

definition Sleep :: "kernel \<Rightarrow> kernel result" where
  "Sleep k =
     bindr (ASSERT (level (intr k) = IntOff)) (\<lambda>_.
     bindr (upd_thread (currentThread k) (\<lambda>th. th\<lparr>thread_status := BLOCKED\<rparr>) k) (push [FSleepLoop]))"

definition Finish :: "kernel \<Rightarrow> kernel result" where
  "Finish k =
     (case level_off k of (k1, _) \<Rightarrow>
      bindr (the_obj (threads k1 (currentThread k1))) (\<lambda>th.
      bindr (arr_set (valid_id k1) (tid th) 0) (\<lambda>ids.
      bindr (arr_set (thread_pointer k1) (tid th) None) (\<lambda>tp.
        Sleep (k1\<lparr>thread_cnt := thread_cnt k1 - 1, valid_id := ids, thread_pointer := tp,
                  threadToBeDestroyed := Some (currentThread k1)\<rparr>)))))"

definition Yield :: "kernel \<Rightarrow> kernel result" where
  "Yield k =
     (case level_off k of (k1, oldLevel) \<Rightarrow>
      bindr (push [FSetLevel oldLevel] k1) (\<lambda>k2.
      bindr (upd_thread (currentThread k2) (\<lambda>th. if priority th < 4 then th\<lparr>priority := priority th + 1\<rparr> else th) k2) (\<lambda>k3.
      bindr (ReadyToRun (currentThread k3) k3) (\<lambda>k4.
        case FindNextToRun k4 of
          (k5, None) \<Rightarrow> Inr k5
        | (k5, Some nextThread) \<Rightarrow> Scheduler_Run nextThread k5))))"

end
