(* ===== verification/Nachos_Synch.thy ===== *)
theory Nachos_Synch
  imports Nachos_Thread
begin

text \<open>
  Synchronization (\<^verbatim>\<open>threads/synch.h\<close>, \<^verbatim>\<open>synch.cc\<close>, \<^verbatim>\<open>synchlist.h\<close>, \<^verbatim>\<open>synchlist.cc\<close>): semaphores, locks,
  condition variables, the barrier and the synchronized list, the interrupt handlers that signal
  semaphores, and the step function of the kernel, which runs the top frame of the running thread.
\<close>

section \<open>Semaphores\<close>

definition Semaphore_new :: "int \<Rightarrow> Semaphore" where
  "Semaphore_new initialValue = \<lparr>sem_value = initialValue, sem_queue = []\<rparr>"

definition upd_sem :: "nat \<Rightarrow> Semaphore \<Rightarrow> kernel \<Rightarrow> kernel" where
  "upd_sem s x k = k\<lparr>semaphores := (semaphores k)(s \<mapsto> x)\<rparr>"

text \<open>\<^verbatim>\<open>P\<close> turns interrupts off and enters its loop; \<open>P_loop\<close> is one evaluation of the loop's condition.\<close>

definition Semaphore_P :: "nat \<Rightarrow> kernel \<Rightarrow> kernel result" where
  "Semaphore_P s k = (case level_off k of (k1, oldLevel) \<Rightarrow> push [FPLoop s oldLevel] k1)"

definition P_loop :: "nat \<Rightarrow> IntStatus \<Rightarrow> kernel \<Rightarrow> kernel result" where
  "P_loop s oldLevel k =
     bindr (the_obj (semaphores k s)) (\<lambda>x.
       if sem_value x = 0
       then bindr (push [FPLoop s oldLevel] (upd_sem s (x\<lparr>sem_queue := sem_queue x @ [currentThread k]\<rparr>) k)) Sleep
       else push [FSetLevel oldLevel] (upd_sem s (x\<lparr>sem_value := sem_value x - 1\<rparr>) k))"

text \<open>\<^verbatim>\<open>V\<close> with interrupts off.\<close>

definition V_body :: "nat \<Rightarrow> kernel \<Rightarrow> kernel result" where
  "V_body s k =
     bindr (the_obj (semaphores k s)) (\<lambda>x.
       case sem_queue x of
         [] \<Rightarrow> Inr (upd_sem s (x\<lparr>sem_value := sem_value x + 1\<rparr>) k)
       | t # ts \<Rightarrow> ReadyToRun t (upd_sem s (x\<lparr>sem_queue := ts, sem_value := sem_value x + 1\<rparr>) k))"

definition Semaphore_V :: "nat \<Rightarrow> kernel \<Rightarrow> kernel result" where
  "Semaphore_V s k = (case level_off k of (k1, oldLevel) \<Rightarrow> bindr (V_body s k1) (push [FSetLevel oldLevel]))"

section \<open>Locks and condition variables\<close>

definition Acquire :: "nat \<Rightarrow> kernel \<Rightarrow> kernel result" where
  "Acquire l k =
     (case level_off k of (k1, oldLevel) \<Rightarrow>
      bindr (the_obj (locks k1 l)) (\<lambda>x. push [FP (lock_sem x), FOwner l oldLevel] k1))"

definition set_owner :: "nat \<Rightarrow> nat option \<Rightarrow> kernel \<Rightarrow> kernel result" where
  "set_owner l w k = bindr (the_obj (locks k l)) (\<lambda>x. Inr (k\<lparr>locks := (locks k)(l \<mapsto> x\<lparr>lock_owner := w\<rparr>)\<rparr>))"

definition Acquire_tail :: "nat \<Rightarrow> IntStatus \<Rightarrow> kernel \<Rightarrow> kernel result" where
  "Acquire_tail l oldLevel k = bindr (set_owner l (Some (currentThread k)) k) (push [FSetLevel oldLevel])"

definition Release_body :: "nat \<Rightarrow> kernel \<Rightarrow> kernel result" where
  "Release_body l k =
     bindr (the_obj (locks k l)) (\<lambda>x. bindr (V_body (lock_sem x) k) (set_owner l None))"

definition Release :: "nat \<Rightarrow> kernel \<Rightarrow> kernel result" where
  "Release l k = (case level_off k of (k1, oldLevel) \<Rightarrow> bindr (Release_body l k1) (push [FSetLevel oldLevel]))"

definition Wait :: "nat \<Rightarrow> nat \<Rightarrow> kernel \<Rightarrow> kernel result" where
  "Wait c l k =
     (case level_off k of (k1, oldLevel) \<Rightarrow>
      bindr (Release_body l k1) (\<lambda>k2.
      bindr (the_obj (conditions k2 c)) (\<lambda>q.
      bindr (push [FWaitTail c l oldLevel] (k2\<lparr>conditions := (conditions k2)(c \<mapsto> q @ [currentThread k2])\<rparr>)) Sleep)))"

definition Signal_body :: "nat \<Rightarrow> kernel \<Rightarrow> kernel result" where
  "Signal_body c k =
     bindr (the_obj (conditions k c)) (\<lambda>q.
       case q of [] \<Rightarrow> Inr k | t # ts \<Rightarrow> ReadyToRun t (k\<lparr>conditions := (conditions k)(c \<mapsto> ts)\<rparr>))"

definition Signal :: "nat \<Rightarrow> kernel \<Rightarrow> kernel result" where
  "Signal c k = (case level_off k of (k1, oldLevel) \<Rightarrow> bindr (Signal_body c k1) (push [FSetLevel oldLevel]))"

text \<open>\<^verbatim>\<open>while (!queue->IsEmpty()) Signal(...)\<close>: each call takes one thread off the queue.\<close>

primrec Signal_times :: "nat \<Rightarrow> nat \<Rightarrow> kernel \<Rightarrow> kernel result" where
  "Signal_times c 0 k = Inr k"
| "Signal_times c (Suc n) k = bindr (Signal_body c k) (Signal_times c n)"

definition Broadcast :: "nat \<Rightarrow> kernel \<Rightarrow> kernel result" where
  "Broadcast c k =
     (case level_off k of (k1, oldLevel) \<Rightarrow>
      bindr (the_obj (conditions k1 c)) (\<lambda>q.
      bindr (Signal_times c (length q) k1) (push [FSetLevel oldLevel])))"

section \<open>The barrier and the synchronized list\<close>

definition Barrier_body :: "int \<Rightarrow> kernel \<Rightarrow> kernel result" where
  "Barrier_body max_num k =
     (let k1 = k\<lparr>barrierCnt := barrierCnt k + 1\<rparr> in
      if barrierCnt k1 = max_num then push [FBroadcast (barrierCond k1), FRelease (barrierLock k1)] k1
      else push [FWait (barrierCond k1) (barrierLock k1), FRelease (barrierLock k1)] k1)"

definition Barrier :: "int \<Rightarrow> kernel \<Rightarrow> kernel result" where
  "Barrier max_num k = push [FAcquire (barrierLock k), FBarrierBody max_num] k"

definition SynchList_Append :: "nat \<Rightarrow> int \<Rightarrow> kernel \<Rightarrow> kernel result" where
  "SynchList_Append i item k = bindr (the_obj (synchlists k i)) (\<lambda>sl. push [FAcquire (sl_lock sl), FAppendBody i item] k)"

definition Append_body :: "nat \<Rightarrow> int \<Rightarrow> kernel \<Rightarrow> kernel result" where
  "Append_body i item k = bindr (the_obj (synchlists k i)) (\<lambda>sl.
     push [FSignal (sl_empty sl), FRelease (sl_lock sl)]
       (k\<lparr>synchlists := (synchlists k)(i \<mapsto> sl\<lparr>sl_list := sl_list sl @ [item]\<rparr>)\<rparr>))"

definition SynchList_Remove :: "nat \<Rightarrow> kernel \<Rightarrow> kernel result" where
  "SynchList_Remove i k = bindr (the_obj (synchlists k i)) (\<lambda>sl. push [FAcquire (sl_lock sl), FRemoveLoop i] k)"

text \<open>Items are pointers: a null item makes \<^verbatim>\<open>Remove\<close> fail its assertion.\<close>

definition Remove_loop :: "nat \<Rightarrow> kernel \<Rightarrow> kernel result" where
  "Remove_loop i k = bindr (the_obj (synchlists k i)) (\<lambda>sl.
     case sl_list sl of
       [] \<Rightarrow> push [FWait (sl_empty sl) (sl_lock sl), FRemoveLoop i] k
     | item # rest \<Rightarrow> bindr (ASSERT (item \<noteq> 0)) (\<lambda>_.
         push [FRelease (sl_lock sl)]
           (k\<lparr>synchlists := (synchlists k)(i \<mapsto> sl\<lparr>sl_list := rest\<rparr>), taken := item # taken k\<rparr>)))"

section \<open>Interrupts\<close>

text \<open>
  The handlers: the timer asks for a yield, the completion routines of the disk and of the console
  output signal the semaphore a thread waits on. They run with interrupts off, so the calls of
  \<^verbatim>\<open>SetLevel\<close> inside \<^verbatim>\<open>V\<close> leave them off.
\<close>

definition kernel_handlers :: "handler_fn \<Rightarrow> int \<Rightarrow> kernel \<Rightarrow> kernel result" where
  "kernel_handlers h a k =
     (case h of TimerHandler \<Rightarrow> TimerExpired (ktimer k) a k
      | DiskDone \<Rightarrow> V_body (io_sem k DiskDone) k
      | ConsoleWriteDone \<Rightarrow> V_body (io_sem k ConsoleWriteDone) k
      | _ \<Rightarrow> Inl BadPointer)"

definition kernel_OneTick :: "kernel \<Rightarrow> kernel result" where
  "kernel_OneTick k =
     bindr (tick_and_fire kernel_handlers k) (\<lambda>k1.
       if yieldOnReturn (intr k1)
       then push [FYield, FSetStatus (status (intr k))] (k1\<lparr>intr := (intr k1)\<lparr>yieldOnReturn := False, status := SystemMode\<rparr>\<rparr>)
       else Inr k1)"

definition kernel_SetLevel :: "IntStatus \<Rightarrow> kernel \<Rightarrow> kernel result" where
  "kernel_SetLevel now k =
     bindr (ASSERT (now = IntOff \<or> inHandler (intr k) = False)) (\<lambda>_.
       if now = IntOn \<and> level (intr k) = IntOff then kernel_OneTick (ChangeLevel now k) else Inr (ChangeLevel now k))"

definition Sleep_loop :: "kernel \<Rightarrow> kernel result" where
  "Sleep_loop k =
     (case FindNextToRun k of
        (k1, Some nextThread) \<Rightarrow> Scheduler_Run nextThread k1
      | (k1, None) \<Rightarrow> bindr (Idle kernel_handlers k1) (push [FSleepLoop]))"

section \<open>The kernel as a machine\<close>

text \<open>\<open>FSpawn\<close> is \<^verbatim>\<open>Thread::createThread(name)->Fork(func, arg)\<close>.\<close>

fun exec :: "frame \<Rightarrow> kernel \<Rightarrow> kernel result" where
  "exec FEnable k = kernel_SetLevel IntOn k"
| "exec FFinish k = Finish k"
| "exec FYield k = Yield k"
| "exec (FSpawn nm func) k = bindr (createThread nm k) (\<lambda>(k1, t). bindr (the_obj t) (\<lambda>t. Fork t func k1))"
| "exec FRunTail k = Scheduler_Run_tail k"
| "exec FSleepLoop k = Sleep_loop k"
| "exec (FSetLevel now) k = kernel_SetLevel now k"
| "exec (FSetStatus st) k = Inr (setStatus st k)"
| "exec (FP s) k = Semaphore_P s k"
| "exec (FPLoop s oldLevel) k = P_loop s oldLevel k"
| "exec (FV s) k = Semaphore_V s k"
| "exec (FAcquire l) k = Acquire l k"
| "exec (FOwner l oldLevel) k = Acquire_tail l oldLevel k"
| "exec (FRelease l) k = Release l k"
| "exec (FWait c l) k = Wait c l k"
| "exec (FWaitTail c l oldLevel) k = push [FAcquire l, FSetLevel oldLevel] k"
| "exec (FSignal c) k = Signal c k"
| "exec (FBroadcast c) k = Broadcast c k"
| "exec (FBarrier n) k = Barrier n k"
| "exec (FBarrierBody n) k = Barrier_body n k"
| "exec (FAppend i x) k = SynchList_Append i x k"
| "exec (FAppendBody i x) k = Append_body i x k"
| "exec (FRemove i) k = SynchList_Remove i k"
| "exec (FRemoveLoop i) k = Remove_loop i k"

definition kstep :: "kernel \<Rightarrow> kernel result" where
  "kstep k =
     bindr (the_obj (threads k (currentThread k))) (\<lambda>th.
       case kstack th of
         [] \<Rightarrow> Inl BadPointer
       | f # fs \<Rightarrow> exec f (k\<lparr>threads := (threads k)(currentThread k \<mapsto> th\<lparr>kstack := fs\<rparr>)\<rparr>))"

inductive reaches :: "kernel \<Rightarrow> kernel \<Rightarrow> bool" where
  refl: "reaches k k"
| step: "reaches k k' \<Longrightarrow> kstep k' = Inr k'' \<Longrightarrow> reaches k k''"

end
