(* ===== verification/Nachos_Synch_Safety.thy ===== *)
theory Nachos_Synch_Safety
  imports Nachos_Synch
begin

text \<open>
  Mutual exclusion of locks in the kernel machine of \<open>Nachos_Synch\<close>, for well-bracketed programs. The proofs
  look at a state through its observable parts: the stacks of the threads and the semaphore values.
\<close>

section \<open>Observations\<close>

definition stk :: "kernel \<Rightarrow> nat \<Rightarrow> frame list" where
  "stk k t = (case threads k t of None \<Rightarrow> [] | Some th \<Rightarrow> kstack th)"

definition val :: "kernel \<Rightarrow> nat \<Rightarrow> int" where
  "val k s = (case semaphores k s of None \<Rightarrow> 0 | Some x \<Rightarrow> sem_value x)"

definition lsem :: "kernel \<Rightarrow> nat \<Rightarrow> nat option" where
  "lsem k l = map_option lock_sem (locks k l)"

definition slock :: "kernel \<Rightarrow> nat \<Rightarrow> nat option" where
  "slock k i = map_option sl_lock (synchlists k i)"

text \<open>The part of the state that never changes: which objects there are and how they hang together.\<close>

definition cfg :: "kernel \<Rightarrow> (nat \<Rightarrow> nat option) \<times> (nat \<Rightarrow> nat option) \<times> nat \<times> (handler_fn \<Rightarrow> nat)" where
  "cfg k = (lsem k, slock k, barrierLock k, io_sem k)"

definition io_sems :: "kernel \<Rightarrow> nat set" where
  "io_sems k = io_sem k ` {DiskDone, ConsoleWriteDone}"

lemma obs_frame [simp]:
  "stk (k\<lparr>intr := i\<rparr>) = stk k" "stk (k\<lparr>mach := m\<rparr>) = stk k" "stk (k\<lparr>stats := x\<rparr>) = stk k"
  "val (k\<lparr>intr := i\<rparr>) = val k" "val (k\<lparr>mach := m\<rparr>) = val k" "val (k\<lparr>stats := x\<rparr>) = val k"
  "cfg (k\<lparr>intr := i\<rparr>) = cfg k" "cfg (k\<lparr>mach := m\<rparr>) = cfg k" "cfg (k\<lparr>stats := x\<rparr>) = cfg k"
  "stk (k\<lparr>readyList := r\<rparr>) = stk k" "val (k\<lparr>readyList := r\<rparr>) = val k" "cfg (k\<lparr>readyList := r\<rparr>) = cfg k"
  "stk (k\<lparr>currentThread := c\<rparr>) = stk k" "val (k\<lparr>currentThread := c\<rparr>) = val k" "cfg (k\<lparr>currentThread := c\<rparr>) = cfg k"
  "stk (k\<lparr>threadToBeDestroyed := d\<rparr>) = stk k" "val (k\<lparr>threadToBeDestroyed := d\<rparr>) = val k" "cfg (k\<lparr>threadToBeDestroyed := d\<rparr>) = cfg k"
  "stk (k\<lparr>thread_cnt := n\<rparr>) = stk k" "val (k\<lparr>thread_cnt := n\<rparr>) = val k" "cfg (k\<lparr>thread_cnt := n\<rparr>) = cfg k"
  "stk (k\<lparr>next_thread := q\<rparr>) = stk k" "val (k\<lparr>next_thread := q\<rparr>) = val k" "cfg (k\<lparr>next_thread := q\<rparr>) = cfg k"
  "stk (k\<lparr>valid_id := v\<rparr>) = stk k" "val (k\<lparr>valid_id := v\<rparr>) = val k" "cfg (k\<lparr>valid_id := v\<rparr>) = cfg k"
  "stk (k\<lparr>thread_pointer := p\<rparr>) = stk k" "val (k\<lparr>thread_pointer := p\<rparr>) = val k" "cfg (k\<lparr>thread_pointer := p\<rparr>) = cfg k"
  "stk (k\<lparr>conditions := cs\<rparr>) = stk k" "val (k\<lparr>conditions := cs\<rparr>) = val k" "cfg (k\<lparr>conditions := cs\<rparr>) = cfg k"
  "stk (k\<lparr>barrierCnt := b\<rparr>) = stk k" "val (k\<lparr>barrierCnt := b\<rparr>) = val k" "cfg (k\<lparr>barrierCnt := b\<rparr>) = cfg k"
  "stk (k\<lparr>taken := z\<rparr>) = stk k" "val (k\<lparr>taken := z\<rparr>) = val k" "cfg (k\<lparr>taken := z\<rparr>) = cfg k"
  "val (k\<lparr>threads := ts\<rparr>) = val k" "cfg (k\<lparr>threads := ts\<rparr>) = cfg k"
  "stk (k\<lparr>semaphores := ss\<rparr>) = stk k" "cfg (k\<lparr>semaphores := ss\<rparr>) = cfg k"
  "stk (k\<lparr>locks := ls\<rparr>) = stk k" "val (k\<lparr>locks := ls\<rparr>) = val k"
  "stk (k\<lparr>synchlists := sls\<rparr>) = stk k" "val (k\<lparr>synchlists := sls\<rparr>) = val k"
  by (simp_all add: stk_def val_def cfg_def lsem_def slock_def fun_eq_iff)

lemma stk_threads: "stk (k\<lparr>threads := ts\<rparr>) t = (case ts t of None \<Rightarrow> [] | Some th \<Rightarrow> kstack th)"
  by (simp add: stk_def)

lemma val_upd_sem [simp]:
  "val (upd_sem s x k) = (val k)(s := sem_value x)" "stk (upd_sem s x k) = stk k" "cfg (upd_sem s x k) = cfg k"
  "currentThread (upd_sem s x k) = currentThread k" "threads (upd_sem s x k) = threads k"
  "next_thread (upd_sem s x k) = next_thread k" "threadToBeDestroyed (upd_sem s x k) = threadToBeDestroyed k"
  by (simp_all add: upd_sem_def val_def stk_def fun_eq_iff)

lemma the_obj_Inr [simp]: "the_obj x = Inr v \<longleftrightarrow> x = Some v"
  by (cases x) (auto simp: the_obj_def)

lemma the_obj_Some [simp]: "the_obj (Some v) = Inr v"
  by (simp add: the_obj_def)

section \<open>Effects of the operations\<close>

text \<open>From \<open>k\<close> to \<open>k'\<close> the stacks become \<open>S\<close> and the values \<open>W\<close>; the rest of what we observe stays.\<close>

definition obs_to :: "kernel \<Rightarrow> kernel \<Rightarrow> (nat \<Rightarrow> frame list) \<Rightarrow> (nat \<Rightarrow> int) \<Rightarrow> bool" where
  "obs_to k k' S W \<longleftrightarrow> stk k' = S \<and> val k' = W \<and> cfg k' = cfg k \<and> currentThread k' = currentThread k \<and>
     next_thread k' = next_thread k \<and> dom (threads k') = dom (threads k) \<and> threadToBeDestroyed k' = threadToBeDestroyed k"

lemma obs_to_trans:
  "obs_to k k1 S W \<Longrightarrow> obs_to k1 k2 S' W' \<Longrightarrow> obs_to k k2 S' W'"
  by (simp add: obs_to_def)

lemma obs_toD:
  assumes "obs_to k k' S W"
  shows "stk k' = S" "val k' = W" "cfg k' = cfg k" "currentThread k' = currentThread k" "next_thread k' = next_thread k"
    "dom (threads k') = dom (threads k)" "threadToBeDestroyed k' = threadToBeDestroyed k"
  using assms by (simp_all add: obs_to_def)

lemma upd_thread_obs:
  assumes "upd_thread t f k = Inr k'" "\<And>th. kstack (f th) = kstack th"
  shows "obs_to k k' (stk k) (val k)"
proof -
  obtain th where th: "threads k t = Some th" "k' = k\<lparr>threads := (threads k)(t \<mapsto> f th)\<rparr>"
    using assms(1) by (auto simp: upd_thread_def bindr_eq_Inr)
  have "stk k' = stk k" by (auto simp: th(2) stk_threads fun_eq_iff stk_def th(1) assms(2))
  then show ?thesis using th by (auto simp: obs_to_def)
qed

lemma push_obs:
  assumes "push fs k = Inr k'"
  shows "obs_to k k' ((stk k)(currentThread k := fs @ stk k (currentThread k))) (val k)"
proof -
  obtain th where th: "threads k (currentThread k) = Some th"
    "k' = k\<lparr>threads := (threads k)(currentThread k \<mapsto> th\<lparr>kstack := fs @ kstack th\<rparr>)\<rparr>"
    using assms(1) by (auto simp: push_def upd_thread_def bindr_eq_Inr)
  have "stk k' = (stk k)(currentThread k := fs @ stk k (currentThread k))"
    by (auto simp: th(2) stk_threads fun_eq_iff stk_def th(1))
  then show ?thesis using th by (auto simp: obs_to_def)
qed

lemma ReadyToRun_obs: "ReadyToRun t k = Inr k' \<Longrightarrow> obs_to k k' (stk k) (val k)"
proof -
  assume "ReadyToRun t k = Inr k'"
  then obtain k1 where k1: "upd_thread t (\<lambda>th. th\<lparr>thread_status := READY\<rparr>) k = Inr k1" "k' = k1\<lparr>readyList := readyList k1 @ [t]\<rparr>"
    unfolding ReadyToRun_def bindr_eq_Inr by blast
  have "obs_to k k1 (stk k) (val k)" by (rule upd_thread_obs [OF k1(1)]) simp
  then show ?thesis by (simp add: k1(2) obs_to_def)
qed

lemma level_off_obs: "level_off k = (k', old) \<Longrightarrow> obs_to k k' (stk k) (val k)"
  by (auto simp: level_off_def ChangeLevel_def obs_to_def)

lemma V_body_obs:
  assumes "V_body s k = Inr k'"
  shows "obs_to k k' (stk k) ((val k)(s := val k s + 1))"
proof -
  obtain x where x: "semaphores k s = Some x" using assms unfolding V_body_def bindr_eq_Inr by auto
  then have v: "val k s = sem_value x" by (simp add: val_def)
  show ?thesis
  proof (cases "sem_queue x")
    case Nil
    then show ?thesis using assms x by (auto simp: V_body_def obs_to_def v)
  next
    case (Cons t ts)
    then have "ReadyToRun t (upd_sem s (x\<lparr>sem_queue := ts, sem_value := sem_value x + 1\<rparr>) k) = Inr k'"
      using assms x by (simp add: V_body_def)
    from ReadyToRun_obs [OF this] show ?thesis by (simp add: obs_to_def v)
  qed
qed

lemma set_owner_obs:
  assumes "set_owner l w k = Inr k'"
  shows "obs_to k k' (stk k) (val k)"
proof -
  obtain x where x: "locks k l = Some x" "k' = k\<lparr>locks := (locks k)(l \<mapsto> x\<lparr>lock_owner := w\<rparr>)\<rparr>"
    using assms by (auto simp: set_owner_def bindr_eq_Inr)
  then have "lsem k' = lsem k" "slock k' = slock k" by (auto simp: lsem_def slock_def fun_eq_iff)
  then show ?thesis by (simp add: x(2) obs_to_def cfg_def)
qed

lemma Release_body_obs:
  assumes "Release_body l k = Inr k'"
  shows "\<exists>s. lsem k l = Some s \<and> obs_to k k' (stk k) ((val k)(s := val k s + 1))"
proof -
  obtain x k1 where x: "locks k l = Some x" "V_body (lock_sem x) k = Inr k1" "set_owner l None k1 = Inr k'"
    using assms by (auto simp: Release_body_def bindr_eq_Inr)
  show ?thesis using V_body_obs [OF x(2)] set_owner_obs [OF x(3)] x(1) by (auto simp: obs_to_def lsem_def)
qed

lemma Sleep_obs:
  assumes "Sleep k = Inr k'"
  shows "obs_to k k' ((stk k)(currentThread k := FSleepLoop # stk k (currentThread k))) (val k)"
proof -
  obtain k1 where k1: "upd_thread (currentThread k) (\<lambda>th. th\<lparr>thread_status := BLOCKED\<rparr>) k = Inr k1" "push [FSleepLoop] k1 = Inr k'"
    using assms by (auto simp: Sleep_def bindr_eq_Inr)
  have "obs_to k k1 (stk k) (val k)" by (rule upd_thread_obs [OF k1(1)]) simp
  then show ?thesis using push_obs [OF k1(2)] by (simp add: obs_to_def)
qed

lemma Signal_body_obs:
  assumes "Signal_body c k = Inr k'"
  shows "obs_to k k' (stk k) (val k)"
proof -
  obtain q where q: "conditions k c = Some q" using assms unfolding Signal_body_def bindr_eq_Inr by auto
  show ?thesis
  proof (cases q)
    case Nil
    then show ?thesis using assms q by (simp add: Signal_body_def obs_to_def)
  next
    case (Cons t ts)
    then have "ReadyToRun t (k\<lparr>conditions := (conditions k)(c \<mapsto> ts)\<rparr>) = Inr k'" using assms q by (simp add: Signal_body_def)
    from ReadyToRun_obs [OF this] show ?thesis by (simp add: obs_to_def)
  qed
qed

lemma Signal_times_obs: "Signal_times c n k = Inr k' \<Longrightarrow> obs_to k k' (stk k) (val k)"
proof (induction n arbitrary: k)
  case 0
  then show ?case by (simp add: obs_to_def)
next
  case (Suc n)
  then obtain k1 where k1: "Signal_body c k = Inr k1" "Signal_times c n k1 = Inr k'" by (auto simp: bindr_eq_Inr)
  show ?case using Signal_body_obs [OF k1(1)] Suc.IH [OF k1(2)] by (simp add: obs_to_def)
qed

text \<open>Interrupts leave the stacks alone and only add to the semaphores of the devices.\<close>

definition grown :: "kernel \<Rightarrow> kernel \<Rightarrow> bool" where
  "grown k0 k \<longleftrightarrow> obs_to k0 k (stk k0) (val k) \<and> (\<forall>s. s \<notin> io_sems k0 \<longrightarrow> val k s = val k0 s) \<and> (\<forall>s. val k0 s \<le> val k s)"

lemma grown_frame:
  "grown k0 (k\<lparr>intr := i\<rparr>) = grown k0 k" "grown k0 (k\<lparr>mach := m\<rparr>) = grown k0 k" "grown k0 (k\<lparr>stats := x\<rparr>) = grown k0 k"
  by (simp_all add: grown_def obs_to_def)

lemma grown_V:
  assumes "V_body s k = Inr k'" "s \<in> io_sems k0" "grown k0 k"
  shows "grown k0 k'"
proof -
  have v: "val k' = (val k)(s := val k s + 1)" using V_body_obs [OF assms(1)] by (simp add: obs_to_def)
  have "val k0 s \<le> val k s + 1" using assms(3) by (simp add: grown_def add_increasing2)
  then show ?thesis using V_body_obs [OF assms(1)] assms(2,3) by (simp add: grown_def obs_to_def v)
qed

interpretation kk: handlers_keep kernel_handlers "grown k0" for k0
proof (unfold_locales, goal_cases)
  case (4 h a s s')
  have io: "io_sem s = io_sem k0" using 4(2) by (simp add: grown_def obs_to_def cfg_def)
  show ?case
  proof (cases h)
    case TimerHandler
    then have "TimerExpired (ktimer s) a s = Inr s'" using 4(1) by (simp add: kernel_handlers_def)
    then have "\<exists>i. s' = s\<lparr>intr := i\<rparr>" by (rule TimerExpired_intr)
    then show ?thesis using 4(2) by (auto simp: grown_frame)
  qed (use 4 io in \<open>auto simp: kernel_handlers_def io_sems_def intro: grown_V\<close>)
qed (simp_all add: grown_frame)

text \<open>The running thread gets new frames on its stack, the semaphore values become \<open>W\<close>.\<close>

definition pushes :: "kernel \<Rightarrow> kernel \<Rightarrow> frame list \<Rightarrow> (nat \<Rightarrow> int) \<Rightarrow> bool" where
  "pushes k k' new W \<longleftrightarrow> obs_to k k' ((stk k)(currentThread k := new @ stk k (currentThread k))) W"

lemma pushes_after:
  "obs_to k k1 (stk k) W \<Longrightarrow> push new k1 = Inr k' \<Longrightarrow> pushes k k' new W"
  using push_obs [of new k1 k'] by (auto simp: pushes_def obs_to_def)

lemma pushes_push: "push new k = Inr k' \<Longrightarrow> pushes k k' new (val k)"
  using push_obs [of new k k'] by (auto simp: pushes_def)

lemma pushes_Sleep:
  "pushes k k1 new W \<Longrightarrow> Sleep k1 = Inr k' \<Longrightarrow> pushes k k' (FSleepLoop # new) W"
  using Sleep_obs [of k1 k'] by (auto simp: pushes_def obs_to_def)

lemma pushes_nil: "obs_to k k' (stk k) W \<Longrightarrow> pushes k k' [] W"
  by (simp add: pushes_def)

lemma Semaphore_P_pushes: "Semaphore_P s k = Inr k' \<Longrightarrow> pushes k k' [FPLoop s (level (intr k))] (val k)"
  by (auto simp: Semaphore_P_def level_off_def ChangeLevel_def intro!: pushes_after [rotated] simp: obs_to_def)

lemma P_loop_pushes:
  assumes "P_loop s old k = Inr k'"
  shows "pushes k k' [FSleepLoop, FPLoop s old] (val k) \<or>
    val k s \<noteq> 0 \<and> pushes k k' [FSetLevel old] ((val k)(s := val k s - 1))"
proof -
  obtain x where x: "semaphores k s = Some x" using assms unfolding P_loop_def bindr_eq_Inr by auto
  then have v: "val k s = sem_value x" by (simp add: val_def)
  show ?thesis
  proof (cases "sem_value x = 0")
    case True
    let ?k = "upd_sem s (x\<lparr>sem_queue := sem_queue x @ [currentThread k]\<rparr>) k"
    obtain k1 where k1: "push [FPLoop s old] ?k = Inr k1" "Sleep k1 = Inr k'"
      using assms x True by (auto simp: P_loop_def bindr_eq_Inr)
    have "obs_to k ?k (stk k) (val k)" using v by (simp add: obs_to_def fun_upd_idem)
    from pushes_Sleep [OF pushes_after [OF this k1(1)] k1(2)] show ?thesis by simp
  next
    case False
    let ?k = "upd_sem s (x\<lparr>sem_value := sem_value x - 1\<rparr>) k"
    have "push [FSetLevel old] ?k = Inr k'" using assms x False by (simp add: P_loop_def)
    moreover have "obs_to k ?k (stk k) ((val k)(s := val k s - 1))" using v by (simp add: obs_to_def)
    ultimately show ?thesis using pushes_after False v by auto
  qed
qed

lemma quiet_off: "obs_to k (ChangeLevel IntOff k) (stk k) (val k)"
  by (simp add: obs_to_def ChangeLevel_def)

lemma ChangeLevel_obs [simp]:
  "stk (ChangeLevel l k) = stk k" "val (ChangeLevel l k) = val k" "cfg (ChangeLevel l k) = cfg k" "lsem (ChangeLevel l k) = lsem k"
  "currentThread (ChangeLevel l k) = currentThread k" "status (intr (ChangeLevel l k)) = status (intr k)"
  by (simp_all add: ChangeLevel_def lsem_def fun_eq_iff)

lemma off_push:
  assumes "bindr (g (ChangeLevel IntOff k)) (push new) = Inr k'"
    and "\<And>k1. g (ChangeLevel IntOff k) = Inr k1 \<Longrightarrow> obs_to (ChangeLevel IntOff k) k1 (stk k) W"
  shows "pushes k k' new W"
proof -
  obtain k1 where k1: "g (ChangeLevel IntOff k) = Inr k1" "push new k1 = Inr k'" using assms(1) unfolding bindr_eq_Inr by blast
  from obs_to_trans [OF quiet_off assms(2) [OF k1(1)]] k1(2) show ?thesis by (rule pushes_after)
qed

lemma Semaphore_V_pushes: "Semaphore_V s k = Inr k' \<Longrightarrow> pushes k k' [FSetLevel (level (intr k))] ((val k)(s := val k s + 1))"
  using V_body_obs [of s "ChangeLevel IntOff k"] by (auto simp: Semaphore_V_def level_off_def elim!: off_push)

lemma Acquire_pushes:
  assumes "Acquire l k = Inr k'"
  shows "\<exists>s. lsem k l = Some s \<and> pushes k k' [FP s, FOwner l (level (intr k))] (val k)"
proof -
  obtain x where x: "locks k l = Some x" "push [FP (lock_sem x), FOwner l (level (intr k))] (ChangeLevel IntOff k) = Inr k'"
    using assms by (auto simp: Acquire_def level_off_def bindr_eq_Inr ChangeLevel_def)
  from pushes_after [OF quiet_off x(2)] x(1) show ?thesis by (simp add: lsem_def)
qed

lemma Acquire_tail_pushes: "Acquire_tail l old k = Inr k' \<Longrightarrow> pushes k k' [FSetLevel old] (val k)"
  by (auto simp: Acquire_tail_def bindr_eq_Inr intro: pushes_after set_owner_obs)

lemma Release_pushes:
  assumes "Release l k = Inr k'"
  shows "\<exists>s. lsem k l = Some s \<and> pushes k k' [FSetLevel (level (intr k))] ((val k)(s := val k s + 1))"
proof -
  obtain k1 where k1: "Release_body l (ChangeLevel IntOff k) = Inr k1" "push [FSetLevel (level (intr k))] k1 = Inr k'"
    using assms by (auto simp: Release_def level_off_def bindr_eq_Inr)
  obtain s where s: "lsem k l = Some s" "obs_to (ChangeLevel IntOff k) k1 (stk k) ((val k)(s := val k s + 1))"
    using Release_body_obs [OF k1(1)] by auto
  from pushes_after [OF obs_to_trans [OF quiet_off s(2)] k1(2)] s(1) show ?thesis by blast
qed

lemma Wait_pushes:
  assumes "Wait c l k = Inr k'"
  shows "\<exists>s. lsem k l = Some s \<and> pushes k k' [FSleepLoop, FWaitTail c l (level (intr k))] ((val k)(s := val k s + 1))"
proof -
  obtain k1 q k2 where k1: "Release_body l (ChangeLevel IntOff k) = Inr k1" "conditions k1 c = Some q"
    "push [FWaitTail c l (level (intr k))] (k1\<lparr>conditions := (conditions k1)(c \<mapsto> q @ [currentThread k1])\<rparr>) = Inr k2" "Sleep k2 = Inr k'"
    using assms by (auto simp: Wait_def level_off_def bindr_eq_Inr)
  obtain s where s: "lsem k l = Some s" "obs_to (ChangeLevel IntOff k) k1 (stk k) ((val k)(s := val k s + 1))"
    using Release_body_obs [OF k1(1)] by auto
  then have "obs_to k (k1\<lparr>conditions := (conditions k1)(c \<mapsto> q @ [currentThread k1])\<rparr>) (stk k) ((val k)(s := val k s + 1))"
    using obs_to_trans [OF quiet_off s(2)] by (simp add: obs_to_def)
  from pushes_Sleep [OF pushes_after [OF this k1(3)] k1(4)] s(1) show ?thesis by simp
qed

lemma Signal_pushes: "Signal c k = Inr k' \<Longrightarrow> pushes k k' [FSetLevel (level (intr k))] (val k)"
  using Signal_body_obs [of c "ChangeLevel IntOff k"] by (auto simp: Signal_def level_off_def elim!: off_push)

lemma Broadcast_pushes: "Broadcast c k = Inr k' \<Longrightarrow> pushes k k' [FSetLevel (level (intr k))] (val k)"
  using Signal_times_obs [of c _ "ChangeLevel IntOff k"]
  by (auto simp: Broadcast_def level_off_def bindr_eq_Inr intro: pushes_after obs_to_trans [OF quiet_off])

lemma Barrier_body_pushes:
  assumes "Barrier_body n k = Inr k'"
  shows "pushes k k' [FBroadcast (barrierCond k), FRelease (barrierLock k)] (val k) \<or>
    pushes k k' [FWait (barrierCond k) (barrierLock k), FRelease (barrierLock k)] (val k)"
proof -
  have "obs_to k (k\<lparr>barrierCnt := barrierCnt k + 1\<rparr>) (stk k) (val k)" by (simp add: obs_to_def)
  from pushes_after [OF this] assms show ?thesis by (auto simp: Barrier_body_def Let_def split: if_splits)
qed

lemma synchlist_obs:
  "synchlists k i = Some sl \<Longrightarrow> sl_lock sl' = sl_lock sl \<Longrightarrow>
   obs_to k (k\<lparr>synchlists := (synchlists k)(i \<mapsto> sl')\<rparr>) (stk k) (val k)"
  by (auto simp: obs_to_def cfg_def lsem_def slock_def fun_eq_iff)

lemma SynchList_pushes:
  shows "SynchList_Append i x k = Inr k' \<Longrightarrow> \<exists>l. slock k i = Some l \<and> pushes k k' [FAcquire l, FAppendBody i x] (val k)"
    and "SynchList_Remove i k = Inr k' \<Longrightarrow> \<exists>l. slock k i = Some l \<and> pushes k k' [FAcquire l, FRemoveLoop i] (val k)"
  by (auto simp: SynchList_Append_def SynchList_Remove_def slock_def bindr_eq_Inr dest: pushes_push)

lemma Append_body_pushes:
  assumes "Append_body i x k = Inr k'"
  shows "\<exists>l c. slock k i = Some l \<and> pushes k k' [FSignal c, FRelease l] (val k)"
proof -
  obtain sl where sl: "synchlists k i = Some sl"
    "push [FSignal (sl_empty sl), FRelease (sl_lock sl)] (k\<lparr>synchlists := (synchlists k)(i \<mapsto> sl\<lparr>sl_list := sl_list sl @ [x]\<rparr>)\<rparr>) = Inr k'"
    using assms by (auto simp: Append_body_def bindr_eq_Inr)
  have "obs_to k (k\<lparr>synchlists := (synchlists k)(i \<mapsto> sl\<lparr>sl_list := sl_list sl @ [x]\<rparr>)\<rparr>) (stk k) (val k)"
    by (rule synchlist_obs [OF sl(1)]) simp
  from pushes_after [OF this sl(2)] sl(1) show ?thesis by (auto simp: slock_def)
qed

lemma Remove_loop_pushes:
  assumes "Remove_loop i k = Inr k'"
  shows "\<exists>l c. slock k i = Some l \<and> (pushes k k' [FWait c l, FRemoveLoop i] (val k) \<or> pushes k k' [FRelease l] (val k))"
proof -
  obtain sl where sl: "synchlists k i = Some sl" using assms by (auto simp: Remove_loop_def bindr_eq_Inr)
  then have l: "slock k i = Some (sl_lock sl)" by (simp add: slock_def)
  show ?thesis
  proof (cases "sl_list sl")
    case Nil
    then have "push [FWait (sl_empty sl) (sl_lock sl), FRemoveLoop i] k = Inr k'" using assms sl by (simp add: Remove_loop_def)
    from pushes_push [OF this] l show ?thesis by blast
  next
    case (Cons x xs)
    let ?k = "k\<lparr>synchlists := (synchlists k)(i \<mapsto> sl\<lparr>sl_list := xs\<rparr>), taken := x # taken k\<rparr>"
    have p: "push [FRelease (sl_lock sl)] ?k = Inr k'" using assms sl Cons by (auto simp: Remove_loop_def bindr_eq_Inr)
    have "obs_to k (k\<lparr>synchlists := (synchlists k)(i \<mapsto> sl\<lparr>sl_list := xs\<rparr>)\<rparr>) (stk k) (val k)"
      by (rule synchlist_obs [OF sl]) simp
    then have "obs_to k ?k (stk k) (val k)" by (simp add: obs_to_def)
    from pushes_after [OF this p] l show ?thesis by blast
  qed
qed

lemma kernel_SetLevel_pushes:
  assumes "kernel_SetLevel now k = Inr k'"
  shows "\<exists>new W. pushes k k' new W \<and> (new = [] \<or> new = [FYield, FSetStatus (status (intr k))]) \<and>
    (\<forall>s. s \<notin> io_sems k \<longrightarrow> W s = val k s) \<and> (\<forall>s. val k s \<le> W s)"
proof (cases "now = IntOn \<and> level (intr k) = IntOff")
  case True
  then obtain k1 where k1: "tick_and_fire kernel_handlers (ChangeLevel IntOn k) = Inr k1"
    "(if yieldOnReturn (intr k1) then push [FYield, FSetStatus (status (intr (ChangeLevel IntOn k)))] (k1\<lparr>intr := (intr k1)\<lparr>yieldOnReturn := False, status := SystemMode\<rparr>\<rparr>)
      else Inr k1) = Inr k'"
    using assms by (auto simp: kernel_SetLevel_def kernel_OneTick_def bindr_eq_Inr)
  have "grown k (ChangeLevel IntOn k)" by (simp add: grown_def obs_to_def ChangeLevel_def)
  from kk.tick_and_fire_keeps [OF k1(1) this] have g: "grown k k1" .
  then have o: "obs_to k k1 (stk k) (val k1)" by (simp add: grown_def)
  show ?thesis
  proof (cases "yieldOnReturn (intr k1)")
    case True
    have "obs_to k (k1\<lparr>intr := (intr k1)\<lparr>yieldOnReturn := False, status := SystemMode\<rparr>\<rparr>) (stk k) (val k1)"
      using o by (simp add: obs_to_def)
    from pushes_after [OF this] k1(2) True have "pushes k k' [FYield, FSetStatus (status (intr k))] (val k1)" by simp
    then show ?thesis using g unfolding grown_def by blast
  next
    case False
    then have "k1 = k'" using k1(2) by simp
    then show ?thesis using pushes_nil [OF o] g unfolding grown_def by blast
  qed
next
  case False
  then have "k' = ChangeLevel now k" using assms by (auto simp: kernel_SetLevel_def ASSERT_def split: if_splits)
  then have "obs_to k k' (stk k) (val k)" by (simp add: obs_to_def ChangeLevel_def)
  then show ?thesis using pushes_nil by blast
qed

text \<open>Context switches.\<close>

lemma Scheduler_Run_obs:
  assumes "Scheduler_Run n k = Inr k'"
  shows "stk k' = (stk k)(currentThread k := FRunTail # stk k (currentThread k))" "val k' = val k" "cfg k' = cfg k"
    "currentThread k' = n" "next_thread k' = next_thread k" "dom (threads k') = dom (threads k)"
    "threadToBeDestroyed k' = threadToBeDestroyed k"
proof -
  obtain old k1 k2 where r: "threads k (currentThread k) = Some old"
    "(if space old \<noteq> None then SaveUserState (currentThread k) k else Inr k) = Inr k1" "push [FRunTail] k1 = Inr k2"
    "upd_thread n (\<lambda>th. th\<lparr>thread_status := RUNNING\<rparr>) (k2\<lparr>currentThread := n\<rparr>) = Inr k'"
    using assms unfolding Scheduler_Run_def Let_def bindr_eq_Inr by auto
  have "obs_to k k1 (stk k) (val k)"
    using r(2) upd_thread_obs [of "currentThread k" _ k k1] by (cases "space old") (auto simp: SaveUserState_def obs_to_def)
  from pushes_after [OF this r(3)] have p: "obs_to k k2 ((stk k)(currentThread k := FRunTail # stk k (currentThread k))) (val k)"
    by (simp add: pushes_def)
  have "obs_to (k2\<lparr>currentThread := n\<rparr>) k' (stk (k2\<lparr>currentThread := n\<rparr>)) (val (k2\<lparr>currentThread := n\<rparr>))"
    by (rule upd_thread_obs [OF r(4)]) simp
  then show "stk k' = (stk k)(currentThread k := FRunTail # stk k (currentThread k))" "val k' = val k" "cfg k' = cfg k"
    "currentThread k' = n" "next_thread k' = next_thread k" "dom (threads k') = dom (threads k)"
    "threadToBeDestroyed k' = threadToBeDestroyed k" using p by (simp_all add: obs_to_def)
qed

text \<open>What a switch leaves of the state that \<open>pushes\<close> describes: everything but the running thread.\<close>

definition switches :: "kernel \<Rightarrow> kernel \<Rightarrow> frame list \<Rightarrow> bool" where
  "switches k k' new \<longleftrightarrow> stk k' = (stk k)(currentThread k := new @ stk k (currentThread k)) \<and> val k' = val k \<and> cfg k' = cfg k \<and>
     next_thread k' = next_thread k \<and> dom (threads k') = dom (threads k) \<and> threadToBeDestroyed k' = threadToBeDestroyed k"

lemma Yield_switches:
  assumes "Yield k = Inr k'"
  shows "switches k k' [FRunTail, FSetLevel (level (intr k))]"
proof -
  let ?f = "\<lambda>th. if priority th < 4 then th\<lparr>priority := priority th + 1\<rparr> else th"
  obtain k1 k2 k3 where y: "push [FSetLevel (level (intr k))] (ChangeLevel IntOff k) = Inr k1"
    "upd_thread (currentThread k1) ?f k1 = Inr k2" "ReadyToRun (currentThread k2) k2 = Inr k3"
    "(case FindNextToRun k3 of (k5, None) \<Rightarrow> Inr k5 | (k5, Some n) \<Rightarrow> Scheduler_Run n k5) = Inr k'"
    using assms by (auto simp: Yield_def level_off_def bindr_eq_Inr)
  have p: "pushes k k1 [FSetLevel (level (intr k))] (val k)" by (rule pushes_after [OF quiet_off y(1)])
  have "obs_to k1 k2 (stk k1) (val k1)" by (rule upd_thread_obs [OF y(2)]) simp
  then have o: "obs_to k1 k3 (stk k1) (val k1)" using ReadyToRun_obs [OF y(3)] by (simp add: obs_to_def)
  have "readyList k3 \<noteq> []" using y(3) by (auto simp: ReadyToRun_def upd_thread_def bindr_eq_Inr)
  then obtain n ns where ns: "readyList k3 = n # ns" by (cases "readyList k3") auto
  then have "Scheduler_Run n (k3\<lparr>readyList := ns\<rparr>) = Inr k'" using y(4) by (simp add: FindNextToRun_def)
  from Scheduler_Run_obs [OF this] o p show ?thesis by (simp add: switches_def pushes_def obs_to_def)
qed

lemma Finish_pushes:
  assumes "Finish k = Inr k'"
  shows "stk k' = (stk k)(currentThread k := FSleepLoop # stk k (currentThread k))" "val k' = val k" "cfg k' = cfg k"
    "currentThread k' = currentThread k" "next_thread k' = next_thread k" "dom (threads k') = dom (threads k)"
    "threadToBeDestroyed k' = Some (currentThread k)"
proof -
  obtain ids tp where "Sleep ((ChangeLevel IntOff k)\<lparr>thread_cnt := thread_cnt k - 1, valid_id := ids, thread_pointer := tp,
      threadToBeDestroyed := Some (currentThread k)\<rparr>) = Inr k'"
    using assms by (auto simp: Finish_def level_off_def bindr_eq_Inr ChangeLevel_def)
  from Sleep_obs [OF this] show "stk k' = (stk k)(currentThread k := FSleepLoop # stk k (currentThread k))" "val k' = val k" "cfg k' = cfg k"
    "currentThread k' = currentThread k" "next_thread k' = next_thread k" "dom (threads k') = dom (threads k)"
    "threadToBeDestroyed k' = Some (currentThread k)" by (simp_all add: obs_to_def ChangeLevel_def)
qed

lemma Run_tail_obs:
  assumes "Scheduler_Run_tail k = Inr k'"
  shows "stk k' = (case threadToBeDestroyed k of None \<Rightarrow> stk k | Some d \<Rightarrow> (stk k)(d := []))" "val k' = val k" "cfg k' = cfg k"
    "next_thread k' = next_thread k" "threadToBeDestroyed k' = None" "currentThread k' = currentThread k"
    "dom (threads k') \<subseteq> dom (threads k)" "\<And>d. threadToBeDestroyed k = Some d \<Longrightarrow> d \<noteq> currentThread k"
proof -
  obtain k1 where k1: "(case threadToBeDestroyed k of None \<Rightarrow> Inr k
      | Some d \<Rightarrow> bindr (Thread_delete d k) (\<lambda>k1. Inr (k1\<lparr>threadToBeDestroyed := None\<rparr>))) = Inr k1"
    using assms unfolding Scheduler_Run_tail_def bindr_eq_Inr by blast
  have m: "\<exists>m. k' = k1\<lparr>mach := m\<rparr>"
  proof -
    obtain th :: Thread where th: "(case space th of None \<Rightarrow> Inr k1
        | Some a \<Rightarrow> bindr (RestoreUserState (currentThread k1) k1) (AddrSpace_RestoreState a)) = Inr k'"
      using assms unfolding Scheduler_Run_tail_def bindr_eq_Inr k1 by auto
    have "\<exists>m. k1 = k1\<lparr>mach := m\<rparr>" by (rule exI [of _ "mach k1"]) simp
    then show ?thesis using th
      by (cases "space th") (auto simp: RestoreUserState_def AddrSpace_RestoreState_def bindr_eq_Inr)
  qed
  have "stk k1 = (case threadToBeDestroyed k of None \<Rightarrow> stk k | Some d \<Rightarrow> (stk k)(d := []))" "val k1 = val k" "cfg k1 = cfg k"
    "next_thread k1 = next_thread k" "threadToBeDestroyed k1 = None" "currentThread k1 = currentThread k"
    "dom (threads k1) \<subseteq> dom (threads k)" "\<And>d. threadToBeDestroyed k = Some d \<Longrightarrow> d \<noteq> currentThread k"
    using k1 by (auto simp: Thread_delete_def bindr_eq_Inr stk_threads fun_eq_iff stk_def split: option.splits if_splits)
  then show "stk k' = (case threadToBeDestroyed k of None \<Rightarrow> stk k | Some d \<Rightarrow> (stk k)(d := []))" "val k' = val k" "cfg k' = cfg k"
    "next_thread k' = next_thread k" "threadToBeDestroyed k' = None" "currentThread k' = currentThread k"
    "dom (threads k') \<subseteq> dom (threads k)" "\<And>d. threadToBeDestroyed k = Some d \<Longrightarrow> d \<noteq> currentThread k"
    using m by (elim exE; simp)+
qed

lemma Sleep_loop_obs:
  assumes "Sleep_loop k = Inr k'"
  shows "switches k k' [FRunTail] \<or>
    (\<exists>W. pushes k k' [FSleepLoop] W \<and> (\<forall>s. s \<notin> io_sems k \<longrightarrow> W s = val k s) \<and> (\<forall>s. val k s \<le> W s))"
proof (cases "readyList k")
  case Nil
  then obtain k1 where k1: "Idle kernel_handlers k = Inr k1" "push [FSleepLoop] k1 = Inr k'"
    using assms by (auto simp: Sleep_loop_def FindNextToRun_def bindr_eq_Inr)
  have "grown k k" by (simp add: grown_def obs_to_def)
  from kk.Idle_keeps [OF k1(1) this] have g: "grown k k1" .
  then have "pushes k k' [FSleepLoop] (val k1)" using pushes_after [OF _ k1(2)] by (simp add: grown_def)
  then show ?thesis using g unfolding grown_def by blast
next
  case (Cons n ns)
  then have "Scheduler_Run n (k\<lparr>readyList := ns\<rparr>) = Inr k'" using assms by (simp add: Sleep_loop_def FindNextToRun_def)
  from Scheduler_Run_obs [OF this] show ?thesis by (simp add: switches_def)
qed

lemma find_free_less: "find_free vs i = Some j \<Longrightarrow> i \<le> j \<and> j < i + length vs"
  by (induction vs i rule: find_free.induct) (auto split: if_splits)

lemma Spawn_obs:
  assumes "exec (FSpawn nm p) k = Inr k'" "threads k (next_thread k) = None" "threads k (currentThread k) \<noteq> None"
  shows "stk k' = (stk k)(next_thread k := FEnable # p @ [FFinish], currentThread k := FSetLevel (level (intr k)) # stk k (currentThread k))"
    "val k' = val k" "cfg k' = cfg k" "next_thread k' = Suc (next_thread k)" "dom (threads k') = insert (next_thread k) (dom (threads k))"
    "threadToBeDestroyed k' = threadToBeDestroyed k" "currentThread k' = currentThread k"
proof -
  let ?n = "next_thread k"
  have ne: "currentThread k \<noteq> ?n" using assms(2,3) by metis
  obtain k1 t where c: "createThread nm k = Inr (k1, Some t)" "Fork t p k1 = Inr k'"
    using assms(1) by (auto simp: bindr_eq_Inr)
  then have tn: "Thread_new nm k = Inr (k1, t)" by (auto simp: createThread_def bindr_eq_Inr split: if_splits)
  obtain ids tp th where k1: "t = ?n" "k1 = k\<lparr>next_thread := Suc ?n, thread_cnt := thread_cnt k + 1, valid_id := ids, thread_pointer := tp,
      threads := (threads k)(?n \<mapsto> th)\<rparr>" "kstack th = []"
    using tn by (auto simp: Thread_new_def getNewId_def Let_def bindr_eq_Inr split: option.splits)
  have s1: "stk k1 = stk k" "val k1 = val k" "cfg k1 = cfg k" "next_thread k1 = Suc ?n" "dom (threads k1) = insert ?n (dom (threads k))"
    "threadToBeDestroyed k1 = threadToBeDestroyed k" "currentThread k1 = currentThread k"
    using k1(2,3) assms(2) by (auto simp: stk_threads fun_eq_iff stk_def)
  obtain k2 k3 where f: "StackAllocate ?n p k1 = Inr k2" "ReadyToRun ?n (ChangeLevel IntOff k2) = Inr k3" "push [FSetLevel (level (intr k2))] k3 = Inr k'"
    using c(2) unfolding k1(1) by (auto simp: Fork_def level_off_def bindr_eq_Inr)
  obtain th2 where th2: "threads k1 ?n = Some th2" "k2 = k1\<lparr>threads := (threads k1)(?n \<mapsto> th2\<lparr>stack := Some STACK_FENCEPOST, kstack := FEnable # p @ [FFinish]\<rparr>)\<rparr>"
    using f(1) by (auto simp: StackAllocate_def upd_thread_def bindr_eq_Inr)
  have "stk k2 = (stk k)(?n := FEnable # p @ [FFinish])"
    unfolding s1(1) [symmetric] by (auto simp: th2 stk_threads fun_eq_iff) (simp_all add: stk_def)
  moreover have "val k2 = val k" "cfg k2 = cfg k" "next_thread k2 = Suc ?n" "dom (threads k2) = insert ?n (dom (threads k))"
    "threadToBeDestroyed k2 = threadToBeDestroyed k" "currentThread k2 = currentThread k" "level (intr k2) = level (intr k)"
    using s1 k1(2) by (simp_all add: th2(2))
  ultimately show "stk k' = (stk k)(?n := FEnable # p @ [FFinish], currentThread k := FSetLevel (level (intr k)) # stk k (currentThread k))"
    "val k' = val k" "cfg k' = cfg k" "next_thread k' = Suc ?n" "dom (threads k') = insert ?n (dom (threads k))"
    "threadToBeDestroyed k' = threadToBeDestroyed k" "currentThread k' = currentThread k"
    using ReadyToRun_obs [OF f(2)] push_obs [OF f(3)] ne by (simp_all add: obs_to_def ChangeLevel_def)
qed

section \<open>Critical sections\<close>

text \<open>
  How a frame acts on the critical section guarded by semaphore \<open>s\<close>: it enters it, leaves it, leaves and
  re-enters it (\<^verbatim>\<open>Wait\<close>), enters and leaves it (and must be called from outside), or does not touch it.
\<close>

datatype action = Enters | Leaves | Pauses | Visits | Ignores

definition guards :: "kernel \<Rightarrow> nat \<Rightarrow> nat \<Rightarrow> bool" where
  "guards k s l \<longleftrightarrow> lsem k l = Some s"

definition list_guarded :: "kernel \<Rightarrow> nat \<Rightarrow> nat \<Rightarrow> bool" where
  "list_guarded k s i \<longleftrightarrow> (\<exists>l. slock k i = Some l \<and> guards k s l)"

fun action_of :: "kernel \<Rightarrow> nat \<Rightarrow> frame \<Rightarrow> action" where
  "action_of k s (FP s') = (if s' = s then Enters else Ignores)"
| "action_of k s (FPLoop s' _) = (if s' = s then Enters else Ignores)"
| "action_of k s (FV s') = (if s' = s then Leaves else Ignores)"
| "action_of k s (FAcquire l) = (if guards k s l then Enters else Ignores)"
| "action_of k s (FRelease l) = (if guards k s l then Leaves else Ignores)"
| "action_of k s (FWait _ l) = (if guards k s l then Pauses else Ignores)"
| "action_of k s (FWaitTail _ l _) = (if guards k s l then Enters else Ignores)"
| "action_of k s (FBarrier _) = (if guards k s (barrierLock k) then Visits else Ignores)"
| "action_of k s (FBarrierBody _) = (if guards k s (barrierLock k) then Leaves else Ignores)"
| "action_of k s (FAppend i _) = (if list_guarded k s i then Visits else Ignores)"
| "action_of k s (FAppendBody i _) = (if list_guarded k s i then Leaves else Ignores)"
| "action_of k s (FRemove i) = (if list_guarded k s i then Visits else Ignores)"
| "action_of k s (FRemoveLoop i) = (if list_guarded k s i then Leaves else Ignores)"
| "action_of k s _ = Ignores"

text \<open>
  A stack whose remaining calls respect the section: \<open>b\<close> says whether the thread is inside now. A thread
  leaves what it enters, does not enter twice, and nothing comes behind \<^verbatim>\<open>Finish\<close>; the threads it forks
  start outside.
\<close>

fun bracketed :: "kernel \<Rightarrow> nat \<Rightarrow> bool \<Rightarrow> frame list \<Rightarrow> bool" where
  "bracketed k s b [] = (\<not> b)"
| "bracketed k s b (f # fs) =
     ((case f of FFinish \<Rightarrow> fs = [] | FSpawn nm p \<Rightarrow> FFinish \<notin> set p \<and> bracketed k s False p | _ \<Rightarrow> True) \<and>
      (case action_of k s f of
         Enters \<Rightarrow> \<not> b \<and> bracketed k s True fs
       | Leaves \<Rightarrow> b \<and> bracketed k s False fs
       | Pauses \<Rightarrow> b \<and> bracketed k s True fs
       | Visits \<Rightarrow> \<not> b \<and> bracketed k s False fs
       | Ignores \<Rightarrow> bracketed k s b fs))"

lemma action_cfg: "cfg k' = cfg k \<Longrightarrow> action_of k' = action_of k"
  by (rule ext, rule ext, case_tac xa) (auto simp: guards_def list_guarded_def cfg_def)

lemma bracketed_cfg: "cfg k' = cfg k \<Longrightarrow> bracketed k' s b fs = bracketed k s b fs"
proof (induction k s b fs rule: bracketed.induct)
  case (1 k s b)
  show ?case by simp
next
  case (2 k s b f fs)
  have a: "action_of k' s f = action_of k s f" using action_cfg [OF "2.prems"] by simp
  show ?case using 2 a by (cases "action_of k s f"; cases f; simp)
qed

lemma bracketed_unique: "bracketed k s True fs \<Longrightarrow> \<not> bracketed k s False fs"
proof (induction fs)
  case (Cons f fs)
  then show ?case by (cases "action_of k s f") auto
qed simp

lemma bracketed_finish: "FFinish \<notin> set fs \<Longrightarrow> bracketed k s b fs \<Longrightarrow> bracketed k s b (fs @ [FFinish])"
proof (induction fs arbitrary: b)
  case (Cons f fs)
  then show ?case by (cases "action_of k s f"; cases f) auto
qed simp

text \<open>
  One step, as the section sees it: entering takes one from the semaphore, leaving gives it back; the
  other threads keep their stacks, except for a new one and one that is deleted.
\<close>

definition idle_frames :: "frame set" where "idle_frames = {FSleepLoop, FRunTail}"

definition section_step :: "kernel \<Rightarrow> nat \<Rightarrow> frame \<Rightarrow> bool \<Rightarrow> kernel \<Rightarrow> bool" where
  "section_step k s f b k' \<longleftrightarrow>
     cfg k' = cfg k \<and> (0 \<le> val k s \<longrightarrow> 0 \<le> val k' s) \<and>
     (\<exists>b'. bracketed k s b' (stk k' (currentThread k)) \<and> val k' s + of_bool b' = val k s + of_bool b) \<and>
     (\<forall>t. t \<noteq> currentThread k \<longrightarrow> stk k' t = stk k t \<or> t = next_thread k \<and> stk k t = [] \<and> bracketed k s False (stk k' t) \<or>
        threadToBeDestroyed k = Some t \<and> stk k' t = []) \<and>
     (\<forall>d. threadToBeDestroyed k' = Some d \<longrightarrow>
        threadToBeDestroyed k = Some d \<or> d = currentThread k \<and> set (stk k' d) \<subseteq> idle_frames) \<and>
     (f \<in> idle_frames \<longrightarrow> set (stk k' (currentThread k)) \<subseteq> idle_frames \<union> set (stk k (currentThread k))) \<and>
     next_thread k \<le> next_thread k' \<and>
     ((\<forall>t \<ge> next_thread k. threads k t = None) \<longrightarrow> (\<forall>t \<ge> next_thread k'. threads k' t = None))"

lemma dom_fresh: "dom m' = dom m \<Longrightarrow> (\<forall>t \<ge> n. m t = None) \<Longrightarrow> (\<forall>t \<ge> (n::nat). m' t = None)"
  by (metis domIff)

lemma pushes_section:
  assumes "pushes k k' new W" "f \<notin> idle_frames \<or> set new \<subseteq> idle_frames" "bracketed k s b' (new @ stk k (currentThread k))"
    and "W s + of_bool b' = val k s + of_bool b" "0 \<le> val k s \<longrightarrow> 0 \<le> W s"
  shows "section_step k s f b k'"
proof -
  note p = assms(1) [unfolded pushes_def obs_to_def]
  have fr: "(\<forall>t \<ge> next_thread k. threads k t = None) \<longrightarrow> (\<forall>t \<ge> next_thread k'. threads k' t = None)"
    using dom_fresh [of "threads k'" "threads k" "next_thread k"] p by auto
  have "\<exists>b'. bracketed k s b' (stk k' (currentThread k)) \<and> val k' s + of_bool b' = val k s + of_bool b"
    using p assms(3,4) by (intro exI [of _ b']) simp
  moreover have "f \<in> idle_frames \<longrightarrow> set (stk k' (currentThread k)) \<subseteq> idle_frames \<union> set (stk k (currentThread k))"
    using p assms(2) by auto
  ultimately show ?thesis unfolding section_step_def using p assms(5) fr by simp
qed

lemma switches_section:
  assumes "switches k k' new" "f \<notin> idle_frames \<or> set new \<subseteq> idle_frames" "bracketed k s b (new @ stk k (currentThread k))"
  shows "section_step k s f b k'"
proof -
  note p = assms(1) [unfolded switches_def]
  have fr: "(\<forall>t \<ge> next_thread k. threads k t = None) \<longrightarrow> (\<forall>t \<ge> next_thread k'. threads k' t = None)"
    using dom_fresh [of "threads k'" "threads k" "next_thread k"] p by auto
  have "\<exists>b'. bracketed k s b' (stk k' (currentThread k)) \<and> val k' s + of_bool b' = val k s + of_bool b"
    using p assms(3) by (intro exI [of _ b]) simp
  moreover have "f \<in> idle_frames \<longrightarrow> set (stk k' (currentThread k)) \<subseteq> idle_frames \<union> set (stk k (currentThread k))"
    using p assms(2) by auto
  ultimately show ?thesis unfolding section_step_def using p fr by simp
qed

lemma SetLevel_section:
  assumes "kernel_SetLevel now k = Inr k'" "s \<notin> io_sems k" "bracketed k s b (stk k (currentThread k))" "f \<notin> idle_frames"
  shows "section_step k s f b k'"
proof -
  obtain new W where p: "pushes k k' new W" "new = [] \<or> new = [FYield, FSetStatus (status (intr k))]" "W s = val k s"
    using kernel_SetLevel_pushes [OF assms(1)] assms(2) by blast
  show ?thesis by (rule pushes_section [OF p(1)]) (use p(2,3) assms(3,4) in auto)
qed

lemma RunTail_section:
  assumes "Scheduler_Run_tail k = Inr k'" "bracketed k s b (stk k (currentThread k))"
  shows "section_step k s FRunTail b k'"
proof -
  note r = Run_tail_obs [OF assms(1)]
  have "stk k' (currentThread k) = stk k (currentThread k)" using r(1,8) by (auto split: option.splits)
  moreover have "\<forall>t. stk k' t = stk k t \<or> threadToBeDestroyed k = Some t \<and> stk k' t = []" using r(1) by (auto split: option.splits)
  moreover have "(\<forall>t \<ge> next_thread k. threads k t = None) \<longrightarrow> (\<forall>t \<ge> next_thread k'. threads k' t = None)"
    using r(4,7) by (metis domIff subsetD)
  ultimately show ?thesis using r assms(2) unfolding section_step_def by auto
qed

lemma Finish_section:
  assumes "Finish k = Inr k'" "bracketed k s b (stk k (currentThread k))" "stk k (currentThread k) = []"
  shows "section_step k s FFinish b k'"
proof -
  note r = Finish_pushes [OF assms(1)]
  have "(\<forall>t \<ge> next_thread k. threads k t = None) \<longrightarrow> (\<forall>t \<ge> next_thread k'. threads k' t = None)"
    using dom_fresh [of "threads k'" "threads k" "next_thread k"] r(5,6) by auto
  then show ?thesis using r assms(2,3) unfolding section_step_def by (auto simp: idle_frames_def)
qed

lemma Spawn_section:
  assumes "exec (FSpawn nm p) k = Inr k'" "threads k (next_thread k) = None" "threads k (currentThread k) \<noteq> None"
    and "bracketed k s b (stk k (currentThread k))" "FFinish \<notin> set p" "bracketed k s False p"
  shows "section_step k s (FSpawn nm p) b k'"
proof -
  note r = Spawn_obs [OF assms(1-3)]
  have ne: "currentThread k \<noteq> next_thread k" using assms(2,3) by metis
  have "stk k (next_thread k) = []" using assms(2) by (simp add: stk_def)
  moreover have "bracketed k s False (FEnable # p @ [FFinish])" using bracketed_finish [OF assms(5,6)] by simp
  moreover have "(\<forall>t \<ge> next_thread k. threads k t = None) \<longrightarrow> (\<forall>t \<ge> next_thread k'. threads k' t = None)"
    using r(4,5) by (auto simp: set_eq_iff dom_def) (metis Suc_leD Suc_le_eq less_irrefl not_None_eq)
  ultimately show ?thesis using r assms(4) ne unfolding section_step_def by (auto simp: idle_frames_def)
qed

lemma exec_section:
  assumes ex: "exec f k = Inr k'" and c: "threads k (currentThread k) \<noteq> None" and fresh: "threads k (next_thread k) = None"
    and io: "s \<notin> io_sems k" and br: "bracketed k s b (f # stk k (currentThread k))"
  shows "section_step k s f b k'"
proof (cases f)
  case FEnable
  then show ?thesis using SetLevel_section [of IntOn k k' s b f] assms by (simp add: idle_frames_def)
next
  case FFinish
  then show ?thesis using Finish_section [of k k' s b] assms by auto
next
  case FYield
  then show ?thesis using switches_section [OF Yield_switches, of k k' f s b] assms by (simp add: idle_frames_def)
next
  case (FSpawn nm p)
  then show ?thesis using Spawn_section [of nm p k k' s b] assms by simp
next
  case FRunTail
  then show ?thesis using RunTail_section [of k k' s b] assms by simp
next
  case FSleepLoop
  then have "bracketed k s b (stk k (currentThread k))" "Sleep_loop k = Inr k'" using br ex by simp_all
  then consider "switches k k' [FRunTail]" | W where "pushes k k' [FSleepLoop] W" "W s = val k s"
    using Sleep_loop_obs [of k k'] io by blast
  then show ?thesis
  proof cases
    case 1
    then show ?thesis using switches_section [OF 1, of f s b] FSleepLoop br by (simp add: idle_frames_def)
  next
    case (2 W)
    then show ?thesis using pushes_section [OF 2(1), of f s b b] FSleepLoop br by (simp add: idle_frames_def)
  qed
next
  case (FSetLevel now)
  then show ?thesis using SetLevel_section [of now k k' s b f] assms by (simp add: idle_frames_def)
next
  case (FSetStatus st)
  then have "pushes k k' [] (val k)" using ex by (auto simp: setStatus_def pushes_def obs_to_def)
  then show ?thesis using pushes_section [of k k' "[]" "val k" f s b b] FSetStatus br by (simp add: idle_frames_def)
next
  case (FP s')
  then show ?thesis using pushes_section [OF Semaphore_P_pushes, of s' k k' f s b b] ex br by (auto simp: idle_frames_def split: if_splits)
next
  case (FPLoop s' old)
  then have "P_loop s' old k = Inr k'" using ex by simp
  from P_loop_pushes [OF this] show ?thesis
  proof (elim disjE conjE)
    assume p: "pushes k k' [FSleepLoop, FPLoop s' old] (val k)"
    show ?thesis by (rule pushes_section [OF p, of _ _ b]) (use FPLoop br in \<open>auto simp: idle_frames_def\<close>)
  next
    assume p: "pushes k k' [FSetLevel old] ((val k)(s' := val k s' - 1))" and nz: "val k s' \<noteq> 0"
    show ?thesis
      by (rule pushes_section [OF p, of _ _ "b \<or> s' = s"]) (use FPLoop br nz in \<open>auto simp: idle_frames_def split: if_splits\<close>)
  qed
next
  case (FV s')
  then show ?thesis using pushes_section [OF Semaphore_V_pushes, of s' k k' f s "b \<and> s' \<noteq> s" b] ex br
    by (auto simp: idle_frames_def split: if_splits)
next
  case (FAcquire l)
  then obtain s' where p: "lsem k l = Some s'" "pushes k k' [FP s', FOwner l (level (intr k))] (val k)" using Acquire_pushes [of l k k'] ex by auto
  show ?thesis by (rule pushes_section [OF p(2), of _ _ b]) (use FAcquire br p(1) in \<open>auto simp: idle_frames_def guards_def split: if_splits\<close>)
next
  case (FOwner l old)
  then show ?thesis using pushes_section [OF Acquire_tail_pushes, of l old k k' f s b b] ex br by (simp add: idle_frames_def)
next
  case (FRelease l)
  then obtain s' where p: "lsem k l = Some s'" "pushes k k' [FSetLevel (level (intr k))] ((val k)(s' := val k s' + 1))"
    using Release_pushes [of l k k'] ex by auto
  show ?thesis
    by (rule pushes_section [OF p(2), of _ _ "b \<and> s' \<noteq> s"]) (use FRelease br p(1) in \<open>auto simp: idle_frames_def guards_def split: if_splits\<close>)
next
  case (FWait c l)
  then obtain s' where p: "lsem k l = Some s'" "pushes k k' [FSleepLoop, FWaitTail c l (level (intr k))] ((val k)(s' := val k s' + 1))"
    using Wait_pushes [of c l k k'] ex by auto
  show ?thesis
    by (rule pushes_section [OF p(2), of _ _ "b \<and> s' \<noteq> s"]) (use FWait br p(1) in \<open>auto simp: idle_frames_def guards_def split: if_splits\<close>)
next
  case (FWaitTail c l old)
  then have p: "pushes k k' [FAcquire l, FSetLevel old] (val k)" using ex pushes_push by simp
  show ?thesis by (rule pushes_section [OF p, of _ _ b]) (use FWaitTail br in \<open>auto simp: idle_frames_def\<close>)
next
  case (FSignal c)
  then show ?thesis using pushes_section [OF Signal_pushes, of c k k' f s b b] ex br by (simp add: idle_frames_def)
next
  case (FBroadcast c)
  then show ?thesis using pushes_section [OF Broadcast_pushes, of c k k' f s b b] ex br by (simp add: idle_frames_def)
next
  case (FBarrier n)
  then have p: "pushes k k' [FAcquire (barrierLock k), FBarrierBody n] (val k)" using ex pushes_push by (simp add: Barrier_def)
  show ?thesis by (rule pushes_section [OF p, of _ _ b]) (use FBarrier br in \<open>auto simp: idle_frames_def split: if_splits\<close>)
next
  case (FBarrierBody n)
  then have "Barrier_body n k = Inr k'" using ex by simp
  from Barrier_body_pushes [OF this] show ?thesis
    by (elim disjE; elim pushes_section [where b' = b]) (use FBarrierBody br in \<open>auto simp: idle_frames_def split: if_splits\<close>)
next
  case (FAppend i x)
  then obtain l where p: "slock k i = Some l" "pushes k k' [FAcquire l, FAppendBody i x] (val k)" using SynchList_pushes(1) [of i x k k'] ex by auto
  show ?thesis by (rule pushes_section [OF p(2), of _ _ b]) (use FAppend br p(1) in \<open>auto simp: idle_frames_def list_guarded_def split: if_splits\<close>)
next
  case (FAppendBody i x)
  then obtain l c where p: "slock k i = Some l" "pushes k k' [FSignal c, FRelease l] (val k)" using Append_body_pushes [of i x k k'] ex by auto
  show ?thesis by (rule pushes_section [OF p(2), of _ _ b]) (use FAppendBody br p(1) in \<open>auto simp: idle_frames_def list_guarded_def split: if_splits\<close>)
next
  case (FRemove i)
  then obtain l where p: "slock k i = Some l" "pushes k k' [FAcquire l, FRemoveLoop i] (val k)" using SynchList_pushes(2) [of i k k'] ex by auto
  show ?thesis by (rule pushes_section [OF p(2), of _ _ b]) (use FRemove br p(1) in \<open>auto simp: idle_frames_def list_guarded_def split: if_splits\<close>)
next
  case (FRemoveLoop i)
  then obtain l c where p: "slock k i = Some l" "pushes k k' [FWait c l, FRemoveLoop i] (val k) \<or> pushes k k' [FRelease l] (val k)"
    using Remove_loop_pushes [of i k k'] ex by auto
  from p(2) show ?thesis
    by (elim disjE; elim pushes_section [where b' = b]) (use FRemoveLoop br p(1) in \<open>auto simp: idle_frames_def list_guarded_def split: if_splits\<close>)
qed

section \<open>Mutual exclusion\<close>

text \<open>The threads inside the section.\<close>

definition holders :: "kernel \<Rightarrow> nat \<Rightarrow> nat set" where
  "holders k s = {t. bracketed k s True (stk k t)}"

definition section_ok :: "kernel \<Rightarrow> nat \<Rightarrow> int \<Rightarrow> bool" where
  "section_ok k s n \<longleftrightarrow> s \<notin> io_sems k \<and> (\<forall>t. \<exists>b. bracketed k s b (stk k t)) \<and> 0 \<le> val k s \<and>
     val k s + int (card (holders k s)) = n \<and> (\<forall>d. threadToBeDestroyed k = Some d \<longrightarrow> d < next_thread k \<and> set (stk k d) \<subseteq> idle_frames) \<and>
     (\<forall>t \<ge> next_thread k. threads k t = None)"

lemma idle_bracketed: "set fs \<subseteq> idle_frames \<Longrightarrow> bracketed k s False fs"
  by (induction fs) (auto simp: idle_frames_def)

lemma bracketed_iff: "bracketed k s b fs \<Longrightarrow> bracketed k s True fs \<longleftrightarrow> b"
  using bracketed_unique by (cases b) auto

lemma finite_holders: "\<forall>t \<ge> next_thread k. threads k t = None \<Longrightarrow> finite (holders k s)"
proof (rule finite_subset [of _ "{..<next_thread k}"])
  assume "\<forall>t \<ge> next_thread k. threads k t = None"
  then show "holders k s \<subseteq> {..<next_thread k}" by (auto simp: holders_def stk_def) (metis bracketed.simps(1) not_le option.simps(4))
qed simp

lemma card_split_one: "finite A \<Longrightarrow> int (card A) = int (card (A - {c})) + of_bool (c \<in> A)"
  using card.remove [of A c] by (cases "c \<in> A") auto

lemma kstepE:
  assumes "kstep k = Inr k'"
  obtains th f fs where "threads k (currentThread k) = Some th" "kstack th = f # fs"
    "exec f (k\<lparr>threads := (threads k)(currentThread k \<mapsto> th\<lparr>kstack := fs\<rparr>)\<rparr>) = Inr k'"
proof -
  obtain th where th: "threads k (currentThread k) = Some th"
    "(case kstack th of [] \<Rightarrow> Inl BadPointer
      | f # fs \<Rightarrow> exec f (k\<lparr>threads := (threads k)(currentThread k \<mapsto> th\<lparr>kstack := fs\<rparr>)\<rparr>)) = Inr k'"
    using assms unfolding kstep_def bindr_eq_Inr by auto
  then show thesis using that by (cases "kstack th") auto
qed

text \<open>The effect of a step on section \<open>s\<close>, seen from the state before the frame is taken off the stack.\<close>

definition section_moves :: "kernel \<Rightarrow> nat \<Rightarrow> bool \<Rightarrow> bool \<Rightarrow> kernel \<Rightarrow> bool" where
  "section_moves k s b b' k' \<longleftrightarrow> (let c = currentThread k in
     c < next_thread k \<and> cfg k' = cfg k \<and> (0 \<le> val k s \<longrightarrow> 0 \<le> val k' s) \<and> val k' s + of_bool b' = val k s + of_bool b \<and>
     bracketed k s b (stk k c) \<and> bracketed k s b' (stk k' c) \<and>
     (\<forall>t. t \<noteq> c \<longrightarrow> stk k' t = stk k t \<or> t = next_thread k \<and> stk k t = [] \<and> bracketed k s False (stk k' t) \<or>
        threadToBeDestroyed k = Some t \<and> stk k' t = []) \<and>
     (\<forall>d. threadToBeDestroyed k' = Some d \<longrightarrow> threadToBeDestroyed k = Some d \<or> d = c \<and> set (stk k' d) \<subseteq> idle_frames) \<and>
     (set (stk k c) \<subseteq> idle_frames \<longrightarrow> set (stk k' c) \<subseteq> idle_frames) \<and>
     next_thread k \<le> next_thread k' \<and> (\<forall>t \<ge> next_thread k'. threads k' t = None))"

lemma kstep_section:
  assumes "kstep k = Inr k'" "s \<notin> io_sems k" "\<forall>t. \<exists>b. bracketed k s b (stk k t)" "\<forall>t \<ge> next_thread k. threads k t = None"
  shows "\<exists>b b'. section_moves k s b b' k'"
proof -
  obtain th f fs where th: "threads k (currentThread k) = Some th" "kstack th = f # fs"
    and ex: "exec f (k\<lparr>threads := (threads k)(currentThread k \<mapsto> th\<lparr>kstack := fs\<rparr>)\<rparr>) = Inr k'"
    using kstepE [OF assms(1)] .
  define c where "c = currentThread k"
  define k0 where "k0 = k\<lparr>threads := (threads k)(c \<mapsto> th\<lparr>kstack := fs\<rparr>)\<rparr>"
  have c0: "cfg k0 = cfg k" "val k0 = val k" "currentThread k0 = c" "next_thread k0 = next_thread k"
    "threadToBeDestroyed k0 = threadToBeDestroyed k" "io_sems k0 = io_sems k"
    by (simp_all add: k0_def c_def io_sems_def)
  have st: "stk k c = f # fs" "stk k0 = (stk k)(c := fs)"
    using th by (auto simp: stk_def c_def k0_def fun_eq_iff)
  have cn: "c < next_thread k" using th(1) assms(4) by (metis c_def not_le option.discI)
  obtain b where b: "bracketed k s b (f # fs)" using assms(3) st(1) by metis
  have "section_step k0 s f b k'"
  proof (rule exec_section)
    show "exec f k0 = Inr k'" using ex by (simp add: k0_def c_def)
    show "threads k0 (currentThread k0) \<noteq> None" by (simp add: c0) (simp add: k0_def)
    show "threads k0 (next_thread k0) = None" using assms(4) cn by (simp add: c0(4)) (simp add: k0_def)
    show "s \<notin> io_sems k0" using assms(2) c0(6) by simp
    show "bracketed k0 s b (f # stk k0 (currentThread k0))" using b by (simp only: bracketed_cfg [OF c0(1)] c0(3) st(2) fun_upd_same)
  qed
  note ss = this [unfolded section_step_def c0 st(2) bracketed_cfg [OF c0(1)]]
  obtain b' where b': "bracketed k s b' (stk k' c)" "val k' s + of_bool b' = val k s + of_bool b" using ss by blast
  have fr': "\<forall>t \<ge> next_thread k'. threads k' t = None" using ss assms(4) cn by (auto simp: k0_def)
  have oth: "\<forall>t. t \<noteq> c \<longrightarrow> stk k' t = stk k t \<or> t = next_thread k \<and> stk k t = [] \<and> bracketed k s False (stk k' t) \<or>
      threadToBeDestroyed k = Some t \<and> stk k' t = []"
    using ss by simp
  have "set (f # fs) \<subseteq> idle_frames \<longrightarrow> set (stk k' c) \<subseteq> idle_frames" using ss by (auto dest: subsetD)
  then have "section_moves k s b b' k'"
    unfolding section_moves_def Let_def c_def [symmetric] st(1) using ss cn b b' fr' oth by blast
  then show ?thesis by blast
qed

lemma section_preserved:
  assumes "kstep k = Inr k'" "section_ok k s n"
  shows "section_ok k' s n"
proof -
  define c where "c = currentThread k"
  note inv = assms(2) [unfolded section_ok_def]
  obtain b b' where "section_moves k s b b' k'" using kstep_section [OF assms(1)] inv by blast
  note ss = this [unfolded section_moves_def Let_def, folded c_def]
  have cfg': "cfg k' = cfg k" and nn: "c < next_thread k" "next_thread k \<le> next_thread k'" using ss by blast+
  have oth: "stk k' t = stk k t \<or> bracketed k s False (stk k t) \<and> bracketed k s False (stk k' t)" if "t \<noteq> c" for t
    using ss that inv idle_bracketed by (metis bracketed.simps(1))
  have "bracketed k s True (stk k' t) = bracketed k s True (stk k t)" if "t \<noteq> c" for t
    using oth [OF that] bracketed_unique by metis
  then have H: "holders k' s - {c} = holders k s - {c}" unfolding holders_def bracketed_cfg [OF cfg'] by blast
  have "finite (holders k s)" "finite (holders k' s)" using finite_holders inv ss by blast+
  moreover have "c \<in> holders k s \<longleftrightarrow> b" "c \<in> holders k' s \<longleftrightarrow> b'"
    unfolding holders_def mem_Collect_eq bracketed_cfg [OF cfg'] using ss bracketed_iff by blast+
  ultimately have "int (card (holders k s)) = int (card (holders k s - {c})) + of_bool b"
    "int (card (holders k' s)) = int (card (holders k s - {c})) + of_bool b'"
    using card_split_one [of "holders k s" c] card_split_one [of "holders k' s" c] H by simp_all
  then have sum: "val k' s + int (card (holders k' s)) = n" using ss inv by linarith
  have tbd: "d < next_thread k' \<and> set (stk k' d) \<subseteq> idle_frames" if d: "threadToBeDestroyed k' = Some d" for d
  proof (cases "threadToBeDestroyed k = Some d")
    case True
    then have i: "set (stk k d) \<subseteq> idle_frames" "d < next_thread k" using inv by blast+
    have "stk k' d = stk k d \<or> stk k' d = [] \<or> d = c" using ss i(2) by (metis less_irrefl)
    then have "set (stk k' d) \<subseteq> idle_frames" using i(1) ss by (metis empty_set empty_subsetI)
    then show ?thesis using i(2) nn by simp
  next
    case False
    then have "d = c \<and> set (stk k' d) \<subseteq> idle_frames" using ss d by blast
    then show ?thesis using nn by auto
  qed
  have br: "\<exists>b. bracketed k' s b (stk k' t)" for t
    using ss oth [of t] inv unfolding bracketed_cfg [OF cfg'] by (cases "t = c") metis+
  have "io_sems k' = io_sems k" using cfg' by (simp add: cfg_def io_sems_def)
  then show ?thesis unfolding section_ok_def using sum tbd br ss inv by blast
qed

lemma section_reaches: "reaches k k' \<Longrightarrow> section_ok k s n \<Longrightarrow> section_ok k' s n"
  by (induction rule: reaches.induct) (auto dest: section_preserved)

text \<open>A system about to start: nobody is inside, nobody has finished, new addresses are unused.\<close>

definition starts_outside :: "kernel \<Rightarrow> nat \<Rightarrow> bool" where
  "starts_outside k s \<longleftrightarrow> s \<notin> io_sems k \<and> (\<forall>t. bracketed k s False (stk k t)) \<and> threadToBeDestroyed k = None \<and>
     (\<forall>t \<ge> next_thread k. threads k t = None)"

lemma starts_section_ok: "starts_outside k s \<Longrightarrow> 0 \<le> val k s \<Longrightarrow> section_ok k s (val k s)"
proof -
  assume "starts_outside k s" "0 \<le> val k s"
  moreover from this(1) have "holders k s = {}" using bracketed_unique by (auto simp: starts_outside_def holders_def)
  ultimately show ?thesis by (auto simp: starts_outside_def section_ok_def)
qed

text \<open>
  (C4) Mutual exclusion. Let the semaphore inside lock \<open>l\<close> be 1 and let every thread start outside the
  section, with calls that bracket it properly (\<^verbatim>\<open>Acquire\<close> before \<^verbatim>\<open>Release\<close>, no second \<^verbatim>\<open>Acquire\<close> inside,
  \<^verbatim>\<open>Wait\<close> only inside; also through barriers and synchronized lists, and in the threads forked later).
  Then in every state the kernel reaches, through any interleaving of yields, time slices and
  interrupts, at most one thread is between \<^verbatim>\<open>Acquire\<close> and \<^verbatim>\<open>Release\<close>, and the semaphore is 0 if there is
  one and 1 if there is none.
\<close>

theorem lock_mutual_exclusion:
  assumes "lsem k l = Some s" "starts_outside k s" "val k s = 1" "reaches k k'"
  shows "(\<forall>t u. bracketed k' s True (stk k' t) \<and> bracketed k' s True (stk k' u) \<longrightarrow> t = u) \<and>
    val k' s = (if \<exists>t. bracketed k' s True (stk k' t) then 0 else 1)"
proof -
  have ok: "section_ok k' s 1" using section_reaches [OF assms(4) starts_section_ok [OF assms(2)]] assms(3) by simp
  then have fin: "finite (holders k' s)" and sum: "val k' s + int (card (holders k' s)) = 1" "0 \<le> val k' s"
    using finite_holders by (simp_all add: section_ok_def)
  have in_iff: "t \<in> holders k' s \<longleftrightarrow> bracketed k' s True (stk k' t)" for t by (simp add: holders_def)
  show ?thesis
  proof (cases "\<exists>t. bracketed k' s True (stk k' t)")
    case True
    then have "0 < card (holders k' s)" using fin in_iff by (auto simp: card_gt_0_iff)
    then have one: "card (holders k' s) = 1" "val k' s = 0" using sum by linarith+
    then have "t = u" if "t \<in> holders k' s" "u \<in> holders k' s" for t u using that by (auto simp: card_1_singleton_iff)
    then show ?thesis using True one(2) in_iff by simp
  next
    case False
    then have "holders k' s = {}" using in_iff by blast
    then show ?thesis using False sum(1) by simp
  qed
qed

text \<open>
  A kernel with two threads that each take the lock, yield and release it; the main thread runs.
\<close>

definition demo_thread :: "int \<Rightarrow> nat \<Rightarrow> u32 option \<Rightarrow> ThreadStatus \<Rightarrow> frame list \<Rightarrow> Thread" where
  "demo_thread i self fence st fs = \<lparr>thread_name = ''t'', tid = i, uid = 0, priority = 0, child = replicate 10 None, father = self,
     stack = fence, thread_status = st, kstack = fs, userRegisters = (\<lambda>_. 0), space = None\<rparr>"

definition demo_kernel :: kernel where
  "demo_kernel = \<lparr>stats = Statistics_new, intr = Interrupt_new\<lparr>level := IntOn\<rparr>, machine_on = False,
     mach = \<lparr>registers = (\<lambda>_. 0), mainMemory = (\<lambda>_. 0), tlb = None, tables = Map.empty, pageTable = None, pageTableSize = 0,
       TLBhit = 0, TLBmiss = 0, frames = [], singleStep = False, runUntilTime = 0\<rparr>,
     ktimer = \<lparr>randomize = False, timer_handler_arg = 0\<rparr>, io_sem = (\<lambda>_. 1),
     threads = [0 \<mapsto> demo_thread 0 0 None RUNNING [FAcquire 0, FYield, FRelease 0, FFinish],
                1 \<mapsto> demo_thread 1 1 (Some STACK_FENCEPOST) READY [FEnable, FAcquire 0, FYield, FRelease 0, FFinish]],
     next_thread = 2, fresh_regs = (\<lambda>_. 0), thread_cnt = 2, valid_id = [1, 1] @ replicate 126 0,
     thread_pointer = [Some 0, Some 1] @ replicate 126 None, readyList = [1], currentThread = 0, threadToBeDestroyed = None,
     semaphores = [0 \<mapsto> Semaphore_new 1, 1 \<mapsto> Semaphore_new 0], locks = [0 \<mapsto> \<lparr>lock_sem = 0, lock_owner = None\<rparr>],
     conditions = Map.empty, barrierCnt = 0, barrierCond = 0, barrierLock = 0, synchlists = Map.empty, taken = [], spaces = Map.empty\<rparr>"

lemmas step_simps = kstep_def upd_thread_def push_def level_off_def ChangeLevel_def upd_sem_def the_obj_def demo_thread_def
  Acquire_def Semaphore_P_def P_loop_def Semaphore_new_def

lemma demo_start: "lsem demo_kernel 0 = Some 0" "val demo_kernel 0 = 1" "starts_outside demo_kernel 0"
proof -
  show l: "lsem demo_kernel 0 = Some 0" and "val demo_kernel 0 = 1"
    by (simp_all add: demo_kernel_def lsem_def val_def Semaphore_new_def)
  have g: "guards demo_kernel 0 0" using l by (simp add: guards_def)
  have "stk demo_kernel t = (if t = 0 then [FAcquire 0, FYield, FRelease 0, FFinish]
      else if t = 1 then [FEnable, FAcquire 0, FYield, FRelease 0, FFinish] else [])" for t
    by (simp add: stk_def demo_kernel_def demo_thread_def)
  then have "bracketed demo_kernel 0 False (stk demo_kernel t)" for t using g by simp
  then show "starts_outside demo_kernel 0"
    by (simp add: starts_outside_def) (simp add: demo_kernel_def io_sems_def)
qed

lemma demo_inside:
  "\<exists>k'. reaches demo_kernel k' \<and> stk k' 0 = [FSetLevel IntOff, FOwner 0 IntOn, FYield, FRelease 0, FFinish] \<and> lsem k' 0 = Some 0"
proof -
  obtain k1 where k1: "kstep demo_kernel = Inr k1" "k1 = demo_kernel\<lparr>intr := Interrupt_new, threads := (threads demo_kernel)(0 \<mapsto>
      demo_thread 0 0 None RUNNING [FP 0, FOwner 0 IntOn, FYield, FRelease 0, FFinish])\<rparr>"
    by (simp add: demo_kernel_def step_simps Interrupt_new_def fun_upd_twist)
  obtain k2 where k2: "kstep k1 = Inr k2" "k2 = demo_kernel\<lparr>intr := Interrupt_new, threads := (threads demo_kernel)(0 \<mapsto>
      demo_thread 0 0 None RUNNING [FPLoop 0 IntOff, FOwner 0 IntOn, FYield, FRelease 0, FFinish])\<rparr>"
    by (simp add: k1(2) demo_kernel_def step_simps Interrupt_new_def fun_upd_twist)
  obtain k3 where k3: "kstep k2 = Inr k3" "stk k3 0 = [FSetLevel IntOff, FOwner 0 IntOn, FYield, FRelease 0, FFinish]" "lsem k3 0 = Some 0"
    by (simp add: k2(2) demo_kernel_def step_simps stk_def lsem_def)
  have "reaches demo_kernel k3" using k1(1) k2(1) k3(1) by (meson reaches.intros)
  then show ?thesis using k3(2,3) by blast
qed

theorem lock_mutual_exclusion_witness:
  "(\<exists>k'. reaches demo_kernel k' \<and> bracketed k' 0 True (stk k' 0) \<and> val k' 0 = 0) \<and>
   reaches demo_kernel demo_kernel \<and> \<not> bracketed demo_kernel 0 True (stk demo_kernel 0) \<and> \<not> bracketed demo_kernel 0 True (stk demo_kernel 1)"
proof (intro conjI)
  obtain k' where k': "reaches demo_kernel k'" "stk k' 0 = [FSetLevel IntOff, FOwner 0 IntOn, FYield, FRelease 0, FFinish]" "lsem k' 0 = Some 0"
    using demo_inside by blast
  then have b: "bracketed k' 0 True (stk k' 0)" by (simp add: guards_def)
  have "val k' 0 = (if \<exists>t. bracketed k' 0 True (stk k' t) then 0 else 1)" using lock_mutual_exclusion [OF demo_start(1,3,2) k'(1)] by blast
  then have "val k' 0 = 0" using b by metis
  then show "\<exists>k'. reaches demo_kernel k' \<and> bracketed k' 0 True (stk k' 0) \<and> val k' 0 = 0" using b k'(1) by blast
  show r: "reaches demo_kernel demo_kernel" by (rule reaches.intros)
  have "\<nexists>t. bracketed demo_kernel 0 True (stk demo_kernel t)"
    using lock_mutual_exclusion [OF demo_start(1,3,2) r] demo_start(2) by (auto split: if_splits)
  then show "\<not> bracketed demo_kernel 0 True (stk demo_kernel 0)" "\<not> bracketed demo_kernel 0 True (stk demo_kernel 1)" by blast+
qed

end
