(* ===== verification/Nachos_Synch_Live.thy ===== *)
theory Nachos_Synch_Live
  imports Nachos_Synch_Safety "HOL-Library.Sublist"
begin

text \<open>
  Progress of the kernel machine: what every step does to the queues and the ready list, and that threads
  run in the order in which they became ready.
\<close>

section \<open>Queues\<close>

definition que :: "kernel \<Rightarrow> nat \<Rightarrow> nat list" where
  "que k s = (case semaphores k s of None \<Rightarrow> [] | Some x \<Rightarrow> sem_queue x)"

text \<open>
  \<open>n\<close> calls of \<^verbatim>\<open>V\<close> on \<open>s\<close> between \<open>k\<close> and \<open>k'\<close>: the first \<open>n\<close> waiting threads have moved to the ready list, to
  which other threads may have been added; the running thread is the same.
\<close>

definition signalled :: "nat \<Rightarrow> nat \<Rightarrow> kernel \<Rightarrow> kernel \<Rightarrow> bool" where
  "signalled s n k k' \<longleftrightarrow> currentThread k' = currentThread k \<and> que k' s = drop n (que k s) \<and> val k' s = val k s + int n \<and>
     (\<exists>ys. readyList k' = readyList k @ ys \<and> set (take n (que k s)) \<subseteq> set ys)"

definition advances :: "nat \<Rightarrow> kernel \<Rightarrow> kernel \<Rightarrow> bool" where
  "advances s k k' \<longleftrightarrow> (\<exists>n. signalled s n k k')"

lemma signalled_trans:
  assumes "signalled s n k k1" "signalled s m k1 k2"
  shows "signalled s (n + m) k k2"
proof -
  obtain ys zs where y: "readyList k1 = readyList k @ ys" "set (take n (que k s)) \<subseteq> set ys"
    and z: "readyList k2 = readyList k1 @ zs" "set (take m (que k1 s)) \<subseteq> set zs"
    using assms by (auto simp: signalled_def)
  have "take (n + m) (que k s) = take n (que k s) @ take m (drop n (que k s))" by (simp add: take_add)
  then have "set (take (n + m) (que k s)) \<subseteq> set (ys @ zs)" using y z assms by (auto simp: signalled_def)
  moreover have "readyList k2 = readyList k @ (ys @ zs)" using y z by simp
  ultimately show ?thesis using assms by (auto simp: signalled_def ac_simps intro!: exI [of _ "ys @ zs"])
qed

lemma advances_trans: "advances s k k1 \<Longrightarrow> advances s k1 k2 \<Longrightarrow> advances s k k2"
  unfolding advances_def using signalled_trans by blast

lemma advances_same:
  "semaphores k' = semaphores k \<Longrightarrow> readyList k' = readyList k \<Longrightarrow> currentThread k' = currentThread k \<Longrightarrow> advances s k k'"
  unfolding advances_def by (intro exI [of _ 0]) (simp add: signalled_def que_def val_def)

lemma advances_from:
  "advances s k1 k' \<Longrightarrow> semaphores k1 = semaphores k \<Longrightarrow> readyList k1 = readyList k \<Longrightarrow> currentThread k1 = currentThread k \<Longrightarrow>
   advances s k k'"
  by (rule advances_trans [OF advances_same])

lemma advances_upd_thread: "upd_thread t f k = Inr k' \<Longrightarrow> advances s k k'"
  by (auto simp: upd_thread_def bindr_eq_Inr intro!: advances_same)

lemma advances_push: "push fs k = Inr k' \<Longrightarrow> advances s k k'"
  unfolding push_def by (rule advances_upd_thread)

lemma ReadyToRun_advances:
  assumes "ReadyToRun t k = Inr k'"
  shows "advances s k k'"
  using assms unfolding advances_def
  by (intro exI [of _ 0]) (auto simp: ReadyToRun_def upd_thread_def bindr_eq_Inr signalled_def que_def val_def)

lemma V_body_advances:
  assumes "V_body s' k = Inr k'"
  shows "advances s k k'"
proof -
  obtain x where x: "semaphores k s' = Some x" using assms unfolding V_body_def bindr_eq_Inr by auto
  show ?thesis
  proof (cases "sem_queue x")
    case Nil
    then have k': "k' = upd_sem s' (x\<lparr>sem_value := sem_value x + 1\<rparr>) k" using assms x by (simp add: V_body_def)
    have "signalled s (if s = s' then 1 else 0) k k'"
      using x Nil by (auto simp: k' signalled_def que_def val_def upd_sem_def)
    then show ?thesis unfolding advances_def by blast
  next
    case (Cons t ts)
    let ?k = "upd_sem s' (x\<lparr>sem_queue := ts, sem_value := sem_value x + 1\<rparr>) k"
    have r: "ReadyToRun t ?k = Inr k'" using assms x Cons by (simp add: V_body_def)
    then have "readyList k' = readyList k @ [t]" "semaphores k' = semaphores ?k" "currentThread k' = currentThread k"
      by (auto simp: ReadyToRun_def upd_thread_def bindr_eq_Inr upd_sem_def)
    then have "signalled s (if s = s' then 1 else 0) k k'"
      using x Cons by (auto simp: signalled_def que_def val_def upd_sem_def)
    then show ?thesis unfolding advances_def by blast
  qed
qed

lemma advances_frame:
  "advances s k0 (k\<lparr>intr := i\<rparr>) = advances s k0 k" "advances s k0 (k\<lparr>mach := m\<rparr>) = advances s k0 k" "advances s k0 (k\<lparr>stats := x\<rparr>) = advances s k0 k"
  by (simp_all add: advances_def signalled_def que_def val_def)

interpretation kq: handlers_keep kernel_handlers "advances s k0" for s k0
proof (unfold_locales, goal_cases)
  case (4 h a k k')
  show ?case
  proof (cases h)
    case TimerHandler
    then have "TimerExpired (ktimer k) a k = Inr k'" using 4(1) by (simp add: kernel_handlers_def)
    then have "\<exists>i. k' = k\<lparr>intr := i\<rparr>" by (rule TimerExpired_intr)
    then show ?thesis using 4(2) by (auto simp: advances_frame)
  qed (use 4 in \<open>auto simp: kernel_handlers_def intro: V_body_advances advances_trans\<close>)
qed (simp_all add: advances_frame)

lemma Sleep_advances: "Sleep k = Inr k' \<Longrightarrow> advances s k k'"
  by (auto simp: Sleep_def bindr_eq_Inr intro: advances_trans advances_upd_thread advances_push)

lemma off_advances: "advances s (ChangeLevel l k) k' \<Longrightarrow> advances s k k'"
  by (erule advances_from) (simp_all add: ChangeLevel_def)

lemma set_owner_advances: "set_owner l w k = Inr k' \<Longrightarrow> advances s k k'"
  by (auto simp: set_owner_def bindr_eq_Inr intro!: advances_same)

lemma Release_body_advances: "Release_body l k = Inr k' \<Longrightarrow> advances s k k'"
  by (auto simp: Release_body_def bindr_eq_Inr intro: advances_trans V_body_advances set_owner_advances)

lemma Signal_body_advances:
  assumes "Signal_body c k = Inr k'"
  shows "advances s k k'"
proof -
  obtain q where q: "conditions k c = Some q" using assms by (auto simp: Signal_body_def bindr_eq_Inr)
  show ?thesis
  proof (cases q)
    case (Cons t ts)
    then have "ReadyToRun t (k\<lparr>conditions := (conditions k)(c \<mapsto> ts)\<rparr>) = Inr k'" using assms q by (simp add: Signal_body_def)
    from ReadyToRun_advances [OF this] show ?thesis by (rule advances_from) simp_all
  qed (use assms q in \<open>simp add: Signal_body_def advances_same\<close>)
qed

lemma Signal_times_advances: "Signal_times c n k = Inr k' \<Longrightarrow> advances s k k'"
  by (induction n arbitrary: k) (auto simp: bindr_eq_Inr advances_same intro: advances_trans Signal_body_advances)

lemma kernel_SetLevel_advances:
  assumes "kernel_SetLevel now k = Inr k'"
  shows "advances s k k'"
proof (cases "now = IntOn \<and> level (intr k) = IntOff")
  case True
  then obtain k1 where k1: "tick_and_fire kernel_handlers (ChangeLevel IntOn k) = Inr k1"
    "(if yieldOnReturn (intr k1) then push [FYield, FSetStatus (status (intr (ChangeLevel IntOn k)))] (k1\<lparr>intr := (intr k1)\<lparr>yieldOnReturn := False, status := SystemMode\<rparr>\<rparr>)
      else Inr k1) = Inr k'"
    using assms by (auto simp: kernel_SetLevel_def kernel_OneTick_def bindr_eq_Inr)
  have a: "advances s k k1" by (rule kq.tick_and_fire_keeps [OF k1(1)]) (simp add: advances_same ChangeLevel_def)
  show ?thesis
  proof (cases "yieldOnReturn (intr k1)")
    case True
    then have "advances s (k1\<lparr>intr := (intr k1)\<lparr>yieldOnReturn := False, status := SystemMode\<rparr>\<rparr>) k'"
      using k1(2) by (auto intro: advances_push)
    then have "advances s k1 k'" by (rule advances_from) simp_all
    with a show ?thesis by (rule advances_trans)
  qed (use a k1(2) in simp)
next
  case False
  then show ?thesis using assms by (auto simp: kernel_SetLevel_def ASSERT_def ChangeLevel_def intro!: advances_same split: if_splits)
qed

lemma Fork_advances: "Fork t p k = Inr k' \<Longrightarrow> advances s k k'"
proof -
  assume "Fork t p k = Inr k'"
  then obtain k1 k2 where f: "StackAllocate t p k = Inr k1" "ReadyToRun t (ChangeLevel IntOff k1) = Inr k2" "push [FSetLevel (level (intr k1))] k2 = Inr k'"
    by (auto simp: Fork_def level_off_def bindr_eq_Inr)
  show ?thesis
    using advances_upd_thread [OF f(1) [unfolded StackAllocate_def]] off_advances [OF ReadyToRun_advances [OF f(2)]] advances_push [OF f(3)]
      advances_trans by blast
qed

lemma Thread_new_advances: "Thread_new nm k = Inr (k', t) \<Longrightarrow> advances s k k'"
  by (auto simp: Thread_new_def getNewId_def Let_def bindr_eq_Inr split: option.splits intro!: advances_same)

lemma Run_tail_advances:
  assumes "Scheduler_Run_tail k = Inr k'"
  shows "advances s k k'"
  using assms
  by (auto simp: Scheduler_Run_tail_def Thread_delete_def RestoreUserState_def AddrSpace_RestoreState_def bindr_eq_Inr
      split: option.splits intro!: advances_same)

lemma Finish_advances: "Finish k = Inr k' \<Longrightarrow> advances s k k'"
  by (auto simp: Finish_def level_off_def ChangeLevel_def bindr_eq_Inr dest!: Sleep_advances [of _ _ s] elim!: advances_from)

lemma bind_push_advances:
  assumes "bindr (g k) (push new) = Inr k'" "\<And>k1. g k = Inr k1 \<Longrightarrow> advances s k k1"
  shows "advances s k k'"
  using assms by (auto simp: bindr_eq_Inr intro: advances_trans advances_push)

lemma off_push_advances:
  assumes "bindr (g (ChangeLevel IntOff k)) (push new) = Inr k'"
    and "\<And>k1. g (ChangeLevel IntOff k) = Inr k1 \<Longrightarrow> advances s (ChangeLevel IntOff k) k1"
  shows "advances s k k'"
  using off_advances [of s IntOff k k'] bind_push_advances [of g "ChangeLevel IntOff k" new k' s] assms by blast

lemma push_from_advances:
  "push fs k1 = Inr k' \<Longrightarrow> semaphores k1 = semaphores k \<Longrightarrow> readyList k1 = readyList k \<Longrightarrow> currentThread k1 = currentThread k \<Longrightarrow>
   advances s k k'"
  by (erule advances_from [OF advances_push])

lemma synch_advances:
  shows "Semaphore_P s' k = Inr k' \<Longrightarrow> advances s k k'"
    and "Semaphore_V s' k = Inr k' \<Longrightarrow> advances s k k'"
    and "Acquire l k = Inr k' \<Longrightarrow> advances s k k'"
    and "Acquire_tail l old k = Inr k' \<Longrightarrow> advances s k k'"
    and "Release l k = Inr k' \<Longrightarrow> advances s k k'"
    and "Signal c k = Inr k' \<Longrightarrow> advances s k k'"
    and "Broadcast c k = Inr k' \<Longrightarrow> advances s k k'"
proof -
  show "Semaphore_P s' k = Inr k' \<Longrightarrow> advances s k k'"
    by (auto simp: Semaphore_P_def level_off_def intro: off_advances [OF advances_push])
  show "Semaphore_V s' k = Inr k' \<Longrightarrow> advances s k k'"
    by (auto simp: Semaphore_V_def level_off_def elim!: off_push_advances V_body_advances)
  show "Acquire l k = Inr k' \<Longrightarrow> advances s k k'"
    by (auto simp: Acquire_def level_off_def bindr_eq_Inr intro: off_advances [OF advances_push])
  show "Acquire_tail l old k = Inr k' \<Longrightarrow> advances s k k'"
    by (auto simp: Acquire_tail_def elim!: bind_push_advances set_owner_advances)
  show "Release l k = Inr k' \<Longrightarrow> advances s k k'"
    by (auto simp: Release_def level_off_def elim!: off_push_advances Release_body_advances)
  show "Signal c k = Inr k' \<Longrightarrow> advances s k k'"
    by (auto simp: Signal_def level_off_def elim!: off_push_advances Signal_body_advances)
  assume "Broadcast c k = Inr k'"
  then obtain q k1 where "Signal_times c (length (q :: nat list)) (ChangeLevel IntOff k) = Inr k1" "push [FSetLevel (level (intr k))] k1 = Inr k'"
    by (auto simp: Broadcast_def level_off_def bindr_eq_Inr)
  then show "advances s k k'" using Signal_times_advances advances_push advances_trans off_advances by blast
qed

lemma list_advances:
  shows "Barrier_body n k = Inr k' \<Longrightarrow> advances s k k'"
    and "SynchList_Append i x k = Inr k' \<Longrightarrow> advances s k k'"
    and "Append_body i x k = Inr k' \<Longrightarrow> advances s k k'"
    and "SynchList_Remove i k = Inr k' \<Longrightarrow> advances s k k'"
    and "Remove_loop i k = Inr k' \<Longrightarrow> advances s k k'"
proof -
  show "Barrier_body n k = Inr k' \<Longrightarrow> advances s k k'"
    by (auto simp: Barrier_body_def Let_def split: if_splits elim!: push_from_advances)
  show "SynchList_Append i x k = Inr k' \<Longrightarrow> advances s k k'" "SynchList_Remove i k = Inr k' \<Longrightarrow> advances s k k'"
    by (auto simp: SynchList_Append_def SynchList_Remove_def bindr_eq_Inr elim!: push_from_advances)
  show "Append_body i x k = Inr k' \<Longrightarrow> advances s k k'"
    by (auto simp: Append_body_def bindr_eq_Inr elim!: push_from_advances)
  assume r: "Remove_loop i k = Inr k'"
  then obtain sl where "synchlists k i = Some sl" by (auto simp: Remove_loop_def bindr_eq_Inr)
  then show "advances s k k'" using r
    by (cases "sl_list sl") (auto simp: Remove_loop_def bindr_eq_Inr elim!: push_from_advances)
qed

text \<open>Every frame but \<^verbatim>\<open>Yield\<close>, the loop of \<^verbatim>\<open>Sleep\<close> and the loop of \<^verbatim>\<open>P\<close> on \<open>s\<close> itself.\<close>

lemma exec_advances:
  assumes "exec f k = Inr k'" "f \<noteq> FYield" "f \<noteq> FSleepLoop" "\<And>old. f \<noteq> FPLoop s old"
  shows "advances s k k'"
proof (cases f)
  case (FSpawn nm p)
  then obtain k1 t where c: "createThread nm k = Inr (k1, Some t)" "Fork t p k1 = Inr k'" using assms(1) by (auto simp: bindr_eq_Inr)
  then have "Thread_new nm k = Inr (k1, t)" by (auto simp: createThread_def bindr_eq_Inr split: if_splits)
  from advances_trans [OF Thread_new_advances [OF this] Fork_advances [OF c(2)]] show ?thesis .
next
  case (FPLoop s' old)
  then have "s' \<noteq> s" using assms(4) by blast
  obtain x where x: "semaphores k s' = Some x" using assms(1) FPLoop by (auto simp: P_loop_def bindr_eq_Inr)
  have u: "advances s k (upd_sem s' y k)" for y
    unfolding advances_def using \<open>s' \<noteq> s\<close> by (intro exI [of _ 0]) (simp add: signalled_def que_def upd_sem_def val_def)
  show ?thesis using assms(1) FPLoop x
    by (auto simp: P_loop_def bindr_eq_Inr split: if_splits intro: advances_trans [OF u] advances_push Sleep_advances advances_trans)
next
  case (FWait c l)
  then obtain k1 q k2 where k1: "Release_body l (ChangeLevel IntOff k) = Inr k1"
    "push [FWaitTail c l (level (intr k))] (k1\<lparr>conditions := (conditions k1)(c \<mapsto> q @ [currentThread k1])\<rparr>) = Inr k2" "Sleep k2 = Inr k'"
    using assms(1) by (auto simp: Wait_def level_off_def bindr_eq_Inr)
  have "advances s k1 k2" by (rule advances_from [OF advances_push [OF k1(2)]]) simp_all
  then show ?thesis using off_advances [OF Release_body_advances [OF k1(1)]] Sleep_advances [OF k1(3)] advances_trans by blast
qed (use assms in \<open>auto simp: Barrier_def setStatus_def intro: kernel_SetLevel_advances Finish_advances Run_tail_advances advances_push
      advances_same synch_advances list_advances\<close>)

section \<open>Scheduling\<close>

lemma Scheduler_Run_queues:
  assumes "Scheduler_Run n k = Inr k'"
  shows "semaphores k' = semaphores k" "readyList k' = readyList k" "currentThread k' = n"
  using assms unfolding Scheduler_Run_def
  by (auto simp: Let_def bindr_eq_Inr push_def upd_thread_def SaveUserState_def split: if_splits)

lemma Yield_queues:
  assumes "Yield k = Inr k'"
  shows "semaphores k' = semaphores k" "readyList k @ [currentThread k] = currentThread k' # readyList k'"
proof -
  let ?f = "\<lambda>th. if priority th < 4 then th\<lparr>priority := priority th + 1\<rparr> else th"
  obtain k2 k3 k1 where y: "push [FSetLevel (level (intr k))] (ChangeLevel IntOff k) = Inr k2" "upd_thread (currentThread k2) ?f k2 = Inr k3"
    "ReadyToRun (currentThread k3) k3 = Inr k1" "(case FindNextToRun k1 of (k5, None) \<Rightarrow> Inr k5 | (k5, Some n) \<Rightarrow> Scheduler_Run n k5) = Inr k'"
    using assms by (auto simp: Yield_def level_off_def bindr_eq_Inr)
  have "semaphores k2 = semaphores k" "readyList k2 = readyList k" "currentThread k2 = currentThread k"
    using y(1) by (auto simp: push_def upd_thread_def bindr_eq_Inr ChangeLevel_def)
  moreover have "semaphores k3 = semaphores k2" "readyList k3 = readyList k2" "currentThread k3 = currentThread k2"
    using y(2) by (auto simp: upd_thread_def bindr_eq_Inr)
  moreover have "semaphores k1 = semaphores k3" "readyList k1 = readyList k3 @ [currentThread k3]"
    using y(3) by (auto simp: ReadyToRun_def upd_thread_def bindr_eq_Inr)
  ultimately have k1: "semaphores k1 = semaphores k" "readyList k1 = readyList k @ [currentThread k]"
    "(case FindNextToRun k1 of (k5, None) \<Rightarrow> Inr k5 | (k5, Some n) \<Rightarrow> Scheduler_Run n k5) = Inr k'" using y(4) by simp_all
  have "readyList k1 \<noteq> []" using k1(2) by simp
  then obtain n ns where ns: "readyList k1 = n # ns" by (cases "readyList k1") blast+
  then have "Scheduler_Run n (k1\<lparr>readyList := ns\<rparr>) = Inr k'" using k1(3) by (simp add: FindNextToRun_def)
  from Scheduler_Run_queues [OF this] show "semaphores k' = semaphores k" "readyList k @ [currentThread k] = currentThread k' # readyList k'"
    using k1(1) ns k1(2) by simp_all
qed

lemma Sleep_loop_queues:
  assumes "Sleep_loop k = Inr k'"
  shows "semaphores k' = semaphores k \<and> readyList k = currentThread k' # readyList k' \<or> readyList k = [] \<and> advances s k k'"
proof (cases "readyList k")
  case Nil
  then obtain k1 where k1: "Idle kernel_handlers k = Inr k1" "push [FSleepLoop] k1 = Inr k'"
    using assms by (auto simp: Sleep_loop_def FindNextToRun_def bindr_eq_Inr)
  have "advances s k k1" by (rule kq.Idle_keeps [OF k1(1)]) (simp add: advances_same)
  from advances_trans [OF this advances_push [OF k1(2)]] Nil show ?thesis by simp
next
  case (Cons n ns)
  then have "Scheduler_Run n (k\<lparr>readyList := ns\<rparr>) = Inr k'" using assms by (simp add: Sleep_loop_def FindNextToRun_def)
  from Scheduler_Run_queues [OF this] Cons show ?thesis by simp
qed

text \<open>A step that dispatches a thread takes the first of the ready list, to which it may have added some.\<close>

definition dispatches :: "kernel \<Rightarrow> kernel \<Rightarrow> bool" where
  "dispatches k k' \<longleftrightarrow> (\<exists>ys. readyList k @ ys = currentThread k' # readyList k')"

lemma advances_ready: "advances s k k' \<Longrightarrow> currentThread k' = currentThread k \<and> prefix (readyList k) (readyList k')"
  by (auto simp: advances_def signalled_def)

lemma kstep_ready:
  assumes "kstep k = Inr k'"
  shows "dispatches k k' \<or> currentThread k' = currentThread k \<and> prefix (readyList k) (readyList k')"
proof -
  obtain th f fs where ex: "exec f (k\<lparr>threads := (threads k)(currentThread k \<mapsto> th\<lparr>kstack := fs\<rparr>)\<rparr>) = Inr k'"
    using kstepE [OF assms] by metis
  let ?k = "k\<lparr>threads := (threads k)(currentThread k \<mapsto> th\<lparr>kstack := fs\<rparr>)\<rparr>"
  consider "f = FYield" | "f = FSleepLoop" | "f \<noteq> FYield" "f \<noteq> FSleepLoop" by blast
  then show ?thesis
  proof cases
    case 1
    then have "Yield ?k = Inr k'" using ex by simp
    from Yield_queues(2) [OF this] show ?thesis by (auto simp: dispatches_def)
  next
    case 2
    then have "Sleep_loop ?k = Inr k'" using ex by simp
    from Sleep_loop_queues [OF this, of 0] advances_ready [of 0 ?k k'] show ?thesis
      by (auto simp: dispatches_def intro: exI [of _ "[]"])
  next
    case 3
    have "\<exists>s. x \<noteq> s" for x :: nat by (rule exI [of _ "Suc x"]) simp
    then have "\<exists>s. \<forall>old. f \<noteq> FPLoop s old" by (cases f) auto
    then obtain s where s: "\<And>old. f \<noteq> FPLoop s old" by blast
    show ?thesis using advances_ready [OF exec_advances [OF ex 3 s]] by simp
  qed
qed

text \<open>
  The threads that get the processor from another one in the first \<open>m\<close> steps of a run, in order, whichever way
  they get it.
\<close>

primrec switches :: "(nat \<Rightarrow> kernel) \<Rightarrow> nat \<Rightarrow> nat list" where
  "switches K 0 = []"
| "switches K (Suc m) = switches K m @ (if currentThread (K (Suc m)) \<noteq> currentThread (K m) then [currentThread (K (Suc m))] else [])"

text \<open>\<open>t\<close> still waits behind the rest of \<open>xs\<close>, and only threads of \<open>xs\<close> have got the processor.\<close>

definition still_waits :: "(nat \<Rightarrow> kernel) \<Rightarrow> nat \<Rightarrow> nat list \<Rightarrow> nat \<Rightarrow> bool" where
  "still_waits K m xs t \<longleftrightarrow> (\<exists>d ys. d \<le> length xs \<and> readyList (K m) = drop d xs @ t # ys \<and> subseq (switches K m) (take d xs))"

lemma waits_step:
  assumes k: "kstep (K m) = Inr (K (Suc m))" and w: "still_waits K m xs t"
  shows "still_waits K (Suc m) xs t \<or> subseq (switches K m) xs \<and> currentThread (K (Suc m)) = t"
proof -
  obtain d ys where d: "d \<le> length xs" "readyList (K m) = drop d xs @ t # ys" "subseq (switches K m) (take d xs)"
    using w by (auto simp: still_waits_def)
  consider zs where "readyList (K m) @ zs = currentThread (K (Suc m)) # readyList (K (Suc m))"
    | "currentThread (K (Suc m)) = currentThread (K m)" "prefix (readyList (K m)) (readyList (K (Suc m)))"
    using kstep_ready [OF k] by (auto simp: dispatches_def)
  then show ?thesis
  proof cases
    case 1
    show ?thesis
    proof (cases "d < length xs")
      case True
      then have "drop d xs = xs ! d # drop (Suc d) xs" by (simp add: Cons_nth_drop_Suc)
      then have n: "currentThread (K (Suc m)) = xs ! d" "readyList (K (Suc m)) = drop (Suc d) xs @ t # (ys @ zs)" using 1 d(2) by simp_all
      have "subseq (switches K (Suc m)) (take d xs @ [xs ! d])" using d(3) n(1) by (auto intro: list_emb_append_mono subseq_rev_drop_many)
      then have "subseq (switches K (Suc m)) (take (Suc d) xs)" using True by (simp add: take_Suc_conv_app_nth)
      then have "still_waits K (Suc m) xs t" using True n(2) unfolding still_waits_def by (intro exI [of _ "Suc d"]) auto
      then show ?thesis ..
    next
      case False
      then show ?thesis using 1 d by auto
    qed
  next
    case 2
    then show ?thesis using d by (auto simp: still_waits_def prefix_def)
  qed
qed

lemma ready_order:
  assumes "\<forall>i < m. kstep (K i) = Inr (K (Suc i))" "readyList (K 0) = xs @ t # ys"
  shows "still_waits K m xs t \<or> (\<exists>i < m. subseq (switches K i) xs \<and> currentThread (K (Suc i)) = t)"
  using assms
proof (induction m)
  case 0
  then show ?case by (auto simp: still_waits_def intro!: exI [of _ 0])
next
  case (Suc m)
  then show ?case using waits_step [of K m xs t] less_Suc_eq by (metis lessI less_SucI)
qed

text \<open>
  (C22) First come, first served. Take any run of the kernel and a thread \<open>t\<close> with the threads \<open>xs\<close> before it on the ready
  list. Until \<open>t\<close> runs, the threads that get the processor, in whichever way, are threads of \<open>xs\<close> in the order of
  the list, each at most as often as it stands there, and \<open>t\<close> stays on the list behind those that are left: nothing overtakes it. Once the processor has changed
  hands more often than there were threads before it, \<open>t\<close> has run.
\<close>

theorem ready_first_come_first_served:
  assumes "\<forall>i < m. kstep (K i) = Inr (K (Suc i))" "readyList (K 0) = xs @ t # ys"
  shows "(still_waits K m xs t \<or> (\<exists>i < m. subseq (switches K i) xs \<and> currentThread (K (Suc i)) = t)) \<and>
    (length xs < length (switches K m) \<longrightarrow> (\<exists>i < m. subseq (switches K i) xs \<and> currentThread (K (Suc i)) = t))"
proof -
  note o = ready_order [OF assms]
  have "length (switches K m) \<le> length xs" if "still_waits K m xs t"
    using that list_emb_length [of "(=)" "switches K m"] by (fastforce simp: still_waits_def)
  then show ?thesis using o by auto
qed

definition demo_yield :: kernel where
  "demo_yield = demo_kernel\<lparr>threads := (threads demo_kernel)(0 \<mapsto> demo_thread 0 0 None RUNNING [FYield, FFinish])\<rparr>"

theorem ready_first_come_first_served_witness:
  "\<exists>k'. kstep demo_yield = Inr k' \<and> currentThread k' = 1"
proof -
  obtain k' where k': "kstep demo_yield = Inr k'" "currentThread k' = 1"
    by (simp add: demo_yield_def demo_kernel_def step_simps Yield_def ReadyToRun_def FindNextToRun_def Scheduler_Run_def CheckOverflow_def)
  define K where "K = (\<lambda>i::nat. if i = 0 then demo_yield else k')"
  have r: "readyList demo_yield = [1]" "currentThread demo_yield = 0" by (simp_all add: demo_yield_def demo_kernel_def)
  have run: "\<forall>i < 1. kstep (K i) = Inr (K (Suc i))" "readyList (K 0) = [] @ 1 # []" using k'(1) r by (simp_all add: K_def)
  have "length [] < length (switches K 1)" using k'(2) r(2) by (simp add: K_def)
  then have "\<exists>i < 1. subseq (switches K i) [] \<and> currentThread (K (Suc i)) = 1"
    using ready_first_come_first_served [OF run] by blast
  then show ?thesis using k'(1) by (auto simp: K_def)
qed

end
