(* ===== verification/Nachos_Disk.thy ===== *)
theory Nachos_Disk
  imports Nachos_Interrupt
begin

text \<open>
  The raw disk device (\<^verbatim>\<open>machine/disk.h\<close>, \<^verbatim>\<open>disk.cc\<close>): one outstanding request, the latency model
  with seek time, rotational delay and track buffer, and the completion interrupt. The UNIX file that
  stores the disk is its sequence of sectors behind the magic number. The disk's fields extend
  the simulator state \<open>sim\<close>.
\<close>

definition SectorsPerTrack :: int where "SectorsPerTrack = 32"
definition NumTracks :: int where "NumTracks = 32"
definition NumSectors :: int where "NumSectors = SectorsPerTrack * NumTracks"
definition MagicNumber :: u32 where "MagicNumber = 0x456789ab"

lemmas disk_consts = SectorsPerTrack_def NumTracks_def NumSectors_def SectorSize_def

type_synonym sector = "byte list"

record disk_sim = sim +
  image :: "nat \<Rightarrow> sector"
  active :: bool
  lastSector :: int
  bufferInit :: int

definition zero_sector :: sector where
  "zero_sector = replicate (nat SectorSize) 0"

text \<open>
  The constructor opens the UNIX file: an existing one must start with the magic number, a missing
  one is created and reads as zeros.
\<close>

definition Disk_new :: "(u32 \<times> (nat \<Rightarrow> sector)) option \<Rightarrow> 'a disk_sim_scheme \<Rightarrow> 'a disk_sim_scheme result" where
  "Disk_new file s =
     (let s1 = s\<lparr>lastSector := 0, bufferInit := 0\<rparr> in
      case file of
        Some (magicNum, secs) \<Rightarrow> bindr (ASSERT (magicNum = MagicNumber)) (\<lambda>_.
          Inr (s1\<lparr>image := secs, active := False\<rparr>))
      | None \<Rightarrow> Inr (s1\<lparr>image := (\<lambda>_. zero_sector), active := False\<rparr>))"

definition TimeToSeek :: "int \<Rightarrow> 'a disk_sim_scheme \<Rightarrow> int \<times> int" where
  "TimeToSeek newSector s =
     (let newTrack = newSector sdiv SectorsPerTrack;
          oldTrack = lastSector s sdiv SectorsPerTrack;
          seek = \<bar>newTrack - oldTrack\<bar> * SeekTime;
          over = (totalTicks (stats s) + seek) smod RotationTime
      in (seek, if over > 0 then RotationTime - over else 0))"

definition ModuloDiff :: "int \<Rightarrow> int \<Rightarrow> int" where
  "ModuloDiff to from =
     (let toOffset = to smod SectorsPerTrack;
          fromOffset = from smod SectorsPerTrack
      in ((toOffset - fromOffset) + SectorsPerTrack) smod SectorsPerTrack)"

definition ComputeLatency :: "int \<Rightarrow> bool \<Rightarrow> 'a disk_sim_scheme \<Rightarrow> int" where
  "ComputeLatency newSector writing s =
     (case TimeToSeek newSector s of (seek, rotation) \<Rightarrow>
        let timeAfter = totalTicks (stats s) + seek + rotation
        in if writing = False \<and> seek = 0 \<and>
              (timeAfter - bufferInit s) sdiv RotationTime > ModuloDiff newSector (bufferInit s sdiv RotationTime)
           then RotationTime
           else let rotation' = rotation + ModuloDiff newSector (timeAfter sdiv RotationTime) * RotationTime
                in seek + rotation' + RotationTime)"

definition UpdateLast :: "int \<Rightarrow> 'a disk_sim_scheme \<Rightarrow> 'a disk_sim_scheme" where
  "UpdateLast newSector s =
     (case TimeToSeek newSector s of (seek, rot) \<Rightarrow>
        let s1 = (if seek \<noteq> 0 then s\<lparr>bufferInit := totalTicks (stats s) + seek + rot\<rparr> else s)
        in s1\<lparr>lastSector := newSector\<rparr>)"

definition disk_self :: int where "disk_self = 0"

definition ReadRequest :: "int \<Rightarrow> 'a disk_sim_scheme \<Rightarrow> ('a disk_sim_scheme \<times> sector) result" where
  "ReadRequest sectorNumber s =
     (let ticks = ComputeLatency sectorNumber False s in
      bindr (ASSERT (\<not> active s)) (\<lambda>_.
      bindr (ASSERT (sectorNumber \<ge> 0 \<and> sectorNumber < NumSectors)) (\<lambda>_.
        let data = image s (nat sectorNumber);
            s1 = UpdateLast sectorNumber (s\<lparr>active := True\<rparr>);
            s2 = s1\<lparr>stats := (stats s1)\<lparr>numDiskReads := numDiskReads (stats s1) + 1\<rparr>\<rparr>
        in bindr (Schedule DiskDone disk_self ticks DiskInt s2) (\<lambda>s3. Inr (s3, data)))))"

text \<open>\<^verbatim>\<open>WriteRequest\<close> reads \<^verbatim>\<open>SectorSize\<close> bytes from the buffer it is given.\<close>

definition WriteRequest :: "int \<Rightarrow> sector \<Rightarrow> 'a disk_sim_scheme \<Rightarrow> 'a disk_sim_scheme result" where
  "WriteRequest sectorNumber data s =
     (let ticks = ComputeLatency sectorNumber True s in
      bindr (ASSERT (\<not> active s)) (\<lambda>_.
      bindr (ASSERT (sectorNumber \<ge> 0 \<and> sectorNumber < NumSectors)) (\<lambda>_.
        if int (length data) < SectorSize then Inl OutOfBounds
        else let s0 = s\<lparr>image := (image s)(nat sectorNumber := take (nat SectorSize) data)\<rparr>;
                 s1 = UpdateLast sectorNumber (s0\<lparr>active := True\<rparr>);
                 s2 = s1\<lparr>stats := (stats s1)\<lparr>numDiskWrites := numDiskWrites (stats s1) + 1\<rparr>\<rparr>
             in Schedule DiskDone disk_self ticks DiskInt s2)))"

text \<open>\<open>done\<close> is the completion handler the disk was created with.\<close>

definition HandleInterrupt :: "('a disk_sim_scheme \<Rightarrow> 'a disk_sim_scheme result) \<Rightarrow> 'a disk_sim_scheme \<Rightarrow> 'a disk_sim_scheme result" where
  "HandleInterrupt donef s = donef (s\<lparr>active := False\<rparr>)"

section \<open>Latency\<close>

definition disk_ok :: "'a disk_sim_scheme \<Rightarrow> bool" where
  "disk_ok s \<longleftrightarrow> 0 \<le> totalTicks (stats s) \<and> 0 \<le> lastSector s \<and> lastSector s < NumSectors \<and> 0 \<le> bufferInit s"

definition valid_sector :: "int \<Rightarrow> bool" where
  "valid_sector n \<longleftrightarrow> 0 \<le> n \<and> n < NumSectors"

lemma ModuloDiff_mod: "0 \<le> a \<Longrightarrow> 0 \<le> b \<Longrightarrow> ModuloDiff a b = (a - b) mod SectorsPerTrack"
proof -
  assume "0 \<le> a" "0 \<le> b"
  moreover have "0 \<le> (a mod 32 - b mod 32) + 32"
    using pos_mod_bound [of 32 b] pos_mod_sign [of 32 a] by (simp add: add_increasing2 less_imp_le)
  ultimately show ?thesis
    by (simp add: ModuloDiff_def Let_def SectorsPerTrack_def mod_diff_eq)
qed

lemma ModuloDiff_bounds: "0 \<le> a \<Longrightarrow> 0 \<le> b \<Longrightarrow> 0 \<le> ModuloDiff a b \<and> ModuloDiff a b \<le> 31"
  using pos_mod_bound [of 32 "a - b"] by (simp add: ModuloDiff_mod SectorsPerTrack_def)

lemma track_bounds: "0 \<le> x \<Longrightarrow> x < 1024 \<Longrightarrow> 0 \<le> x div 32 \<and> x div (32 :: int) \<le> 31"
  by presburger

lemma TimeToSeek_bounds:
  assumes "disk_ok s" "valid_sector n" "TimeToSeek n s = (seek, rot)"
  shows "0 \<le> seek" "seek \<le> 31 * SeekTime" "0 \<le> rot" "rot < RotationTime"
    and "(totalTicks (stats s) + seek + rot) mod RotationTime = 0"
proof -
  have t: "0 \<le> n div 32" "n div 32 \<le> 31" "0 \<le> lastSector s div 32" "lastSector s div 32 \<le> 31"
    using assms(1,2) track_bounds by (simp_all add: disk_ok_def valid_sector_def disk_consts)
  have seek: "seek = \<bar>n div 32 - lastSector s div 32\<bar> * 500"
    and rot: "rot = (if (totalTicks (stats s) + seek) mod 500 > 0 then 500 - (totalTicks (stats s) + seek) mod 500 else 0)"
    using assms by (auto simp: TimeToSeek_def Let_def disk_ok_def valid_sector_def disk_consts tick_consts)
  show "0 \<le> seek" "seek \<le> 31 * SeekTime" using t by (simp_all add: seek tick_consts)
  define r where "r = (totalTicks (stats s) + seek) mod 500"
  have m: "0 \<le> r" "r < 500" by (simp_all add: r_def)
  then show "0 \<le> rot" "rot < RotationTime" unfolding rot r_def [symmetric] tick_consts by auto
  show "(totalTicks (stats s) + seek + rot) mod RotationTime = 0"
  proof (cases "(totalTicks (stats s) + seek) mod 500 > 0")
    case True
    have "(totalTicks (stats s) + seek + (500 - (totalTicks (stats s) + seek) mod 500)) mod 500 = 0"
      by (metis add_diff_eq diff_add_eq mod_add_self2 minus_mod_eq_mult_div mod_mult_self1_is_0)
    with True show ?thesis by (simp add: rot tick_consts)
  next
    case False
    with m show ?thesis by (simp add: rot tick_consts r_def)
  qed
qed

lemma ComputeLatency_range:
  assumes "disk_ok s" "valid_sector n"
  shows "RotationTime \<le> ComputeLatency n w s \<and> ComputeLatency n w s < 31 * SeekTime + 33 * RotationTime"
proof -
  obtain seek rot where t: "TimeToSeek n s = (seek, rot)" by fastforce
  note b = TimeToSeek_bounds [OF assms t]
  have n: "0 \<le> n" using assms(2) by (simp add: valid_sector_def)
  have "0 \<le> totalTicks (stats s) + seek + rot" using assms(1) b by (simp add: disk_ok_def)
  then have "0 \<le> (totalTicks (stats s) + seek + rot) div 500" by simp
  then have d: "0 \<le> ModuloDiff n ((totalTicks (stats s) + seek + rot) sdiv RotationTime)"
    "ModuloDiff n ((totalTicks (stats s) + seek + rot) sdiv RotationTime) \<le> 31"
    using n \<open>0 \<le> totalTicks (stats s) + seek + rot\<close> ModuloDiff_bounds [OF n, of "(totalTicks (stats s) + seek + rot) div 500"]
    by (simp_all add: tick_consts)
  show ?thesis
    using b(1-4) d by (auto simp: ComputeLatency_def t Let_def tick_consts)
qed



section \<open>Requests\<close>

lemma UpdateLast_frame [simp]:
  "stats (UpdateLast n s) = stats s" "intr (UpdateLast n s) = intr s" "image (UpdateLast n s) = image s"
  "active (UpdateLast n s) = active s" "lastSector (UpdateLast n s) = n" "mach (UpdateLast n s) = mach s"
  "machine_on (UpdateLast n s) = machine_on s" "disk_sim.more (UpdateLast n s) = disk_sim.more s"
  by (simp_all add: UpdateLast_def Let_def split: prod.splits)

lemma UpdateLast_buffer:
  assumes "disk_ok s" "valid_sector n"
  shows "0 \<le> bufferInit (UpdateLast n s)"
proof -
  obtain seek rot where t: "TimeToSeek n s = (seek, rot)" by fastforce
  show ?thesis using TimeToSeek_bounds [OF assms t] assms(1)
    by (simp add: UpdateLast_def Let_def t disk_ok_def)
qed

text \<open>The state a request leaves behind: what changed is the disk's own fields, one counter and one
  pending interrupt.\<close>

lemma ReadRequest_ok:
  assumes "disk_ok s" "valid_sector n" "\<not> active s"
  shows "\<exists>s' w. ReadRequest n s = Inr (s', image s (nat n)) \<and> disk_ok s' \<and> active s' \<and> image s' = image s \<and>
     intr s' = (intr s)\<lparr>pending := kl_sorted_insert (PendingInterrupt_new DiskDone disk_self w DiskInt) w (pending (intr s))\<rparr> \<and>
     totalTicks (stats s) < w \<and> same_clock s s' \<and> mach s' = mach s \<and> machine_on s' = machine_on s \<and>
     disk_sim.more s' = disk_sim.more s"
proof -
  let ?t = "ComputeLatency n False s"
  have t: "0 < ?t" using ComputeLatency_range [OF assms(1,2), of False] by (simp add: tick_consts)
  have a: "disk_ok (s\<lparr>active := True\<rparr>)" using assms(1) by (simp add: disk_ok_def)
  show ?thesis
    using assms t UpdateLast_buffer [OF a assms(2)]
    by (auto simp: ReadRequest_def Let_def valid_sector_def Schedule_def disk_ok_def same_clock_def
        intro!: exI [of _ "totalTicks (stats s) + ?t"])
qed

lemma WriteRequest_ok:
  assumes "disk_ok s" "valid_sector n" "\<not> active s" "length data = nat SectorSize"
  shows "\<exists>s' w. WriteRequest n data s = Inr s' \<and> disk_ok s' \<and> active s' \<and> image s' = (image s)(nat n := data) \<and>
     intr s' = (intr s)\<lparr>pending := kl_sorted_insert (PendingInterrupt_new DiskDone disk_self w DiskInt) w (pending (intr s))\<rparr> \<and>
     totalTicks (stats s) < w \<and> same_clock s s' \<and> mach s' = mach s \<and> machine_on s' = machine_on s \<and>
     disk_sim.more s' = disk_sim.more s"
proof -
  let ?t = "ComputeLatency n True s"
  have t: "0 < ?t" using ComputeLatency_range [OF assms(1,2), of True] by (simp add: tick_consts)
  let ?s0 = "s\<lparr>image := (image s)(nat n := data), active := True\<rparr>"
  have a: "disk_ok ?s0" using assms(1) by (simp add: disk_ok_def)
  show ?thesis
    using assms t UpdateLast_buffer [OF a assms(2)]
    by (auto simp: WriteRequest_def Let_def valid_sector_def Schedule_def disk_ok_def same_clock_def disk_consts
        intro!: exI [of _ "totalTicks (stats s) + ?t"])
qed

end
