(* ===== verification/Nachos_SynchDisk.thy ===== *)
theory Nachos_SynchDisk
  imports Nachos_Disk
begin

text \<open>
  The synchronous disk (\<^verbatim>\<open>filesys/synchdisk.h\<close>, \<^verbatim>\<open>synchdisk.cc\<close>) as one thread executes it: its lock and
  semaphores, the sector cache, and the wait for the completion interrupt. A thread that blocks in
  \<^verbatim>\<open>Semaphore::P\<close> while no other thread is ready makes \<^verbatim>\<open>Thread::Sleep\<close> call \<^verbatim>\<open>Interrupt::Idle\<close> until the
  disk interrupt has performed the \<^verbatim>\<open>V\<close>; that wait is \<open>sleep_until\<close>. No timer is installed (\<^verbatim>\<open>-rs\<close> is
  not given), so no time slice ends and \<^verbatim>\<open>Yield\<close> is never due.
\<close>

section \<open>State\<close>

definition cache_size :: nat where "cache_size = 4"

record Cache =
  c_valid :: bool
  c_dirty :: bool
  c_sector :: int
  c_cnt :: int
  c_data :: sector

text \<open>The semaphores of the object, those inside its two locks included.\<close>

datatype sem_id = DiskSem | DiskLock | ReaderLock | FileMutex nat

record synch_sim = disk_sim +
  sems :: "sem_id \<Rightarrow> int"
  owned :: "sem_id \<Rightarrow> bool"
  cache :: "Cache list"
  reader_num :: "int list"
  vis_num :: "int list"

definition SynchDisk_new ::
  "(u32 \<times> (nat \<Rightarrow> sector)) option \<Rightarrow> Cache list \<Rightarrow> 'a synch_sim_scheme \<Rightarrow> 'a synch_sim_scheme result" where
  "SynchDisk_new file mem s =
     bindr (Disk_new file s) (\<lambda>s1. Inr (s1\<lparr>
       sems := (\<lambda>i. case i of DiskSem \<Rightarrow> 0 | _ \<Rightarrow> 1), owned := (\<lambda>_. False),
       reader_num := replicate (nat NumSectors) 0, vis_num := replicate (nat NumSectors) 0,
       cache := map (\<lambda>c. c\<lparr>c_valid := False\<rparr>) (take cache_size mem)\<rparr>))"

section \<open>Semaphores and locks, as one thread uses them\<close>

definition sem_add :: "sem_id \<Rightarrow> int \<Rightarrow> 'a synch_sim_scheme \<Rightarrow> 'a synch_sim_scheme" where
  "sem_add i d s = s\<lparr>sems := (sems s)(i := sems s i + d)\<rparr>"

text \<open>
  \<^verbatim>\<open>V\<close> inside an interrupt handler: interrupts are off already, and \<^verbatim>\<open>SetLevel\<close> asserts that a handler
  does not turn them on, so neither call of \<^verbatim>\<open>SetLevel\<close> advances the clock.
\<close>

definition no_handler :: "handler_fn \<Rightarrow> int \<Rightarrow> 'a synch_sim_scheme \<Rightarrow> 'a synch_sim_scheme result" where
  "no_handler h a s = Inl BadPointer"

definition no_yield :: "'a synch_sim_scheme \<Rightarrow> 'a synch_sim_scheme result" where
  "no_yield s = Inl BadPointer"

definition sem_V ::
  "(handler_fn \<Rightarrow> int \<Rightarrow> 'a synch_sim_scheme \<Rightarrow> 'a synch_sim_scheme result) \<Rightarrow> sem_id \<Rightarrow> 'a synch_sim_scheme
     \<Rightarrow> 'a synch_sim_scheme result" where
  "sem_V H i s =
     bindr (SetLevel H no_yield IntOff s) (\<lambda>(s1, oldLevel).
     bindr (SetLevel H no_yield oldLevel (sem_add i 1 s1)) (\<lambda>(s2, _). Inr s2))"

definition RequestDone ::
  "(handler_fn \<Rightarrow> int \<Rightarrow> 'a synch_sim_scheme \<Rightarrow> 'a synch_sim_scheme result) \<Rightarrow> 'a synch_sim_scheme \<Rightarrow> 'a synch_sim_scheme result" where
  "RequestDone H s = sem_V H DiskSem s"

definition sd_handlers :: "handler_fn \<Rightarrow> int \<Rightarrow> 'a synch_sim_scheme \<Rightarrow> 'a synch_sim_scheme result" where
  "sd_handlers h a s = (case h of DiskDone \<Rightarrow> HandleInterrupt (RequestDone no_handler) s | _ \<Rightarrow> Inl BadPointer)"

abbreviation (input) setl :: "IntStatus \<Rightarrow> 'a synch_sim_scheme \<Rightarrow> ('a synch_sim_scheme \<times> IntStatus) result" where
  "setl \<equiv> SetLevel sd_handlers no_yield"

text \<open>The wait in \<^verbatim>\<open>P\<close>: one call of \<^verbatim>\<open>Idle\<close> per pending interrupt is enough, and one more to see it.\<close>

fun sleep_until :: "nat \<Rightarrow> sem_id \<Rightarrow> 'a synch_sim_scheme \<Rightarrow> 'a synch_sim_scheme result" where
  "sleep_until 0 i s = Inl Diverges"
| "sleep_until (Suc n) i s = (if sems s i = 0 then bindr (Idle sd_handlers s) (sleep_until n i) else Inr s)"

definition sem_P :: "sem_id \<Rightarrow> 'a synch_sim_scheme \<Rightarrow> 'a synch_sim_scheme result" where
  "sem_P i s =
     bindr (setl IntOff s) (\<lambda>(s1, oldLevel).
     bindr (sleep_until (Suc (Suc (length (pending (intr s1))))) i s1) (\<lambda>s2.
     bindr (setl oldLevel (sem_add i (-1) s2)) (\<lambda>(s3, _). Inr s3)))"

definition lock_Acquire :: "sem_id \<Rightarrow> 'a synch_sim_scheme \<Rightarrow> 'a synch_sim_scheme result" where
  "lock_Acquire i s =
     bindr (setl IntOff s) (\<lambda>(s1, oldLevel).
     bindr (sem_P i s1) (\<lambda>s2.
     bindr (setl oldLevel (s2\<lparr>owned := (owned s2)(i := True)\<rparr>)) (\<lambda>(s3, _). Inr s3)))"

definition lock_Release :: "sem_id \<Rightarrow> 'a synch_sim_scheme \<Rightarrow> 'a synch_sim_scheme result" where
  "lock_Release i s =
     bindr (setl IntOff s) (\<lambda>(s1, oldLevel).
     bindr (sem_V sd_handlers i s1) (\<lambda>s2.
     bindr (setl oldLevel (s2\<lparr>owned := (owned s2)(i := False)\<rparr>)) (\<lambda>(s3, _). Inr s3)))"

section \<open>Reading and writing sectors\<close>

definition cache_find :: "Cache list \<Rightarrow> int \<Rightarrow> nat option" where
  "cache_find cs n = find (\<lambda>k. c_valid (cs ! k) \<and> c_sector (cs ! k) = n) [0..<length cs]"

text \<open>The victim of a miss: the source takes the first \<^emph>\<open>valid\<close> entry, and the oldest one when there is none.\<close>

definition first_valid :: "Cache list \<Rightarrow> nat option" where
  "first_valid cs = find (\<lambda>k. c_valid (cs ! k)) [0..<length cs]"

fun lru_scan :: "Cache list \<Rightarrow> nat list \<Rightarrow> int \<Rightarrow> nat \<Rightarrow> nat" where
  "lru_scan cs [] lru_min min_pos = min_pos"
| "lru_scan cs (k # ks) lru_min min_pos =
     (if c_cnt (cs ! k) < lru_min then lru_scan cs ks (c_cnt (cs ! k)) k else lru_scan cs ks lru_min min_pos)"

definition victim :: "Cache list \<Rightarrow> nat" where
  "victim cs = (case first_valid cs of Some k \<Rightarrow> k | None \<Rightarrow> lru_scan cs [0..<length cs] (c_cnt (cs ! 0)) 0)"

definition ReadSector :: "int \<Rightarrow> 'a synch_sim_scheme \<Rightarrow> ('a synch_sim_scheme \<times> sector) result" where
  "ReadSector n s =
     bindr (lock_Acquire DiskLock s) (\<lambda>s1.
     bindr (case cache_find (cache s1) n of
         None \<Rightarrow> bindr (ReadRequest n s1) (\<lambda>(s2, data).
           let k = victim (cache s2) in
           if k < length (cache s2) then
             Inr (s2\<lparr>cache := (cache s2)[k := (cache s2 ! k)\<lparr>c_valid := True, c_dirty := False, c_sector := n,
                    c_cnt := totalTicks (stats s2), c_data := data\<rparr>]\<rparr>, data)
           else Inl OutOfBounds)
       | Some k \<Rightarrow>
           let c = cache s1 ! k;
               s2 = s1\<lparr>cache := (cache s1)[k := c\<lparr>c_cnt := totalTicks (stats s1)\<rparr>]\<rparr>
           in bindr (HandleInterrupt (RequestDone sd_handlers) s2) (\<lambda>s3. Inr (s3, c_data c))) (\<lambda>(s4, data).
     bindr (sem_P DiskSem s4) (\<lambda>s5.
     bindr (lock_Release DiskLock s5) (\<lambda>s6. Inr (s6, data)))))"

definition invalidate :: "int \<Rightarrow> Cache list \<Rightarrow> Cache list" where
  "invalidate n cs = map (\<lambda>c. if c_sector c = n then c\<lparr>c_valid := False\<rparr> else c) cs"

definition WriteSector :: "int \<Rightarrow> sector \<Rightarrow> 'a synch_sim_scheme \<Rightarrow> 'a synch_sim_scheme result" where
  "WriteSector n data s =
     bindr (lock_Acquire DiskLock s) (\<lambda>s1.
     bindr (WriteRequest n data s1) (\<lambda>s2.
     bindr (sem_P DiskSem s2) (\<lambda>s3.
     bindr (lock_Release DiskLock s3) (\<lambda>s4.
       Inr (s4\<lparr>cache := invalidate n (cache s4)\<rparr>)))))"

section \<open>Readers and writers of one file\<close>

definition ReaderIn :: "int \<Rightarrow> 'a synch_sim_scheme \<Rightarrow> 'a synch_sim_scheme result" where
  "ReaderIn sec s =
     bindr (lock_Acquire ReaderLock s) (\<lambda>s1.
     bindr (arr_get (reader_num s1) sec) (\<lambda>v.
     bindr (arr_set (reader_num s1) sec (v + 1)) (\<lambda>rn.
     bindr (if v + 1 = 1 then sem_P (FileMutex (nat sec)) (s1\<lparr>reader_num := rn\<rparr>) else Inr (s1\<lparr>reader_num := rn\<rparr>))
       (lock_Release ReaderLock))))"

definition ReaderOut :: "int \<Rightarrow> 'a synch_sim_scheme \<Rightarrow> 'a synch_sim_scheme result" where
  "ReaderOut sec s =
     bindr (lock_Acquire ReaderLock s) (\<lambda>s1.
     bindr (arr_get (reader_num s1) sec) (\<lambda>v.
     bindr (arr_set (reader_num s1) sec (v - 1)) (\<lambda>rn.
     bindr (if v - 1 = 0 then sem_V sd_handlers (FileMutex (nat sec)) (s1\<lparr>reader_num := rn\<rparr>) else Inr (s1\<lparr>reader_num := rn\<rparr>))
       (lock_Release ReaderLock))))"

definition WriteBegin :: "int \<Rightarrow> 'a synch_sim_scheme \<Rightarrow> 'a synch_sim_scheme result" where
  "WriteBegin sec s = (if valid_sector sec then sem_P (FileMutex (nat sec)) s else Inl OutOfBounds)"

definition WriteDone :: "int \<Rightarrow> 'a synch_sim_scheme \<Rightarrow> 'a synch_sim_scheme result" where
  "WriteDone sec s = (if valid_sector sec then sem_V sd_handlers (FileMutex (nat sec)) s else Inl OutOfBounds)"

section \<open>Between requests\<close>

text \<open>No request outstanding, the kernel running, interrupts at level \<open>L\<close>.\<close>

definition calm :: "IntStatus \<Rightarrow> 'a synch_sim_scheme \<Rightarrow> bool" where
  "calm L s \<longleftrightarrow> level (intr s) = L \<and> pending (intr s) = [] \<and> \<not> inHandler (intr s) \<and> \<not> yieldOnReturn (intr s) \<and>
     status (intr s) = SystemMode \<and> mach_ok s \<and> clock_ok s \<and> disk_ok s"

text \<open>Nothing but the clock, the interrupt controller and the disk head has moved.\<close>

definition keeps :: "'a synch_sim_scheme \<Rightarrow> 'a synch_sim_scheme \<Rightarrow> bool" where
  "keeps s s' \<longleftrightarrow> image s' = image s \<and> active s' = active s \<and> sems s' = sems s \<and> owned s' = owned s \<and>
     cache s' = cache s \<and> reader_num s' = reader_num s \<and> vis_num s' = vis_num s \<and> machine_on s' = machine_on s \<and>
     synch_sim.more s' = synch_sim.more s"

lemma keeps_refl [simp]: "keeps s s"
  by (simp add: keeps_def)

lemma keeps_trans: "keeps s t \<Longrightarrow> keeps t u \<Longrightarrow> keeps s u"
  by (simp add: keeps_def)

lemma keeps_sem_add: "keeps s t \<Longrightarrow> keeps (sem_add i d s) (sem_add i d t)"
  by (simp add: keeps_def sem_add_def)

lemma keeps_owned: "keeps s t \<Longrightarrow> keeps (s\<lparr>owned := f (owned s)\<rparr>) (t\<lparr>owned := f (owned t)\<rparr>)"
  by (simp add: keeps_def)

lemma calm_frames [simp]:
  "calm L (sem_add i d s) = calm L s" "calm L (s\<lparr>owned := x\<rparr>) = calm L s" "calm L (s\<lparr>cache := c\<rparr>) = calm L s"
  "calm L (s\<lparr>reader_num := r\<rparr>) = calm L s" "calm L (s\<lparr>active := b\<rparr>) = calm L s"
  by (simp_all add: calm_def sem_add_def mach_ok_def clock_ok_def disk_ok_def)

lemma setl_off:
  assumes "calm L s"
  shows "\<exists>s'. SetLevel sd_handlers no_yield IntOff s = Inr (s', L) \<and> calm IntOff s' \<and> keeps s s'"
  using assms
  by (simp add: SetLevel_def ChangeLevel_def Let_def calm_def keeps_def mach_ok_def clock_ok_def disk_ok_def)

lemma tick_calm:
  assumes "calm L s"
  shows "\<exists>s'. OneTick sd_handlers no_yield s = Inr s' \<and> calm IntOn s' \<and> keeps s s'"
proof -
  let ?s = "ChangeLevel IntOff (advance_time s)"
  have p: "pending (intr ?s) = []" "level (intr ?s) = IntOff" "\<not> yieldOnReturn (intr ?s)"
    using assms by (simp_all add: ChangeLevel_def advance_time_def calm_def)
  then have "fire_due sd_handlers ?s = Inr ?s" by (simp add: fire_due_def CheckIfDue_def)
  then have "OneTick sd_handlers no_yield s = Inr (ChangeLevel IntOn ?s)"
    using p by (simp add: OneTick_def tick_and_fire_def ChangeLevel_def)
  moreover have "calm IntOn (ChangeLevel IntOn ?s)" "keeps s (ChangeLevel IntOn ?s)"
    using assms by (auto simp: calm_def keeps_def ChangeLevel_def advance_time_def mach_ok_def clock_ok_def
        disk_ok_def tick_consts)
  ultimately show ?thesis by blast
qed

lemma setl_to:
  assumes "calm IntOff s"
  shows "\<exists>s' old. SetLevel sd_handlers no_yield L s = Inr (s', old) \<and> calm L s' \<and> keeps s s'"
proof (cases L)
  case IntOff
  then show ?thesis using setl_off [OF assms] by blast
next
  case IntOn
  have c: "calm IntOn (ChangeLevel IntOn s)" "keeps s (ChangeLevel IntOn s)"
    using assms by (simp_all add: calm_def keeps_def ChangeLevel_def mach_ok_def clock_ok_def disk_ok_def)
  from tick_calm [OF c(1)] obtain s' where "OneTick sd_handlers no_yield (ChangeLevel IntOn s) = Inr s'"
    "calm IntOn s'" "keeps (ChangeLevel IntOn s) s'" by blast
  moreover have "SetLevel sd_handlers no_yield IntOn s =
      bindr (OneTick sd_handlers no_yield (ChangeLevel IntOn s)) (\<lambda>s1. Inr (s1, IntOff))"
    using assms by (simp add: SetLevel_def Let_def calm_def)
  ultimately show ?thesis using IntOn c(2) keeps_trans by auto
qed

lemma sem_V_ok:
  assumes "calm L s"
  shows "\<exists>s'. sem_V sd_handlers i s = Inr s' \<and> calm L s' \<and> keeps (sem_add i 1 s) s'"
proof -
  obtain s1 where s1: "SetLevel sd_handlers no_yield IntOff s = Inr (s1, L)" "calm IntOff s1" "keeps s s1"
    using setl_off [OF assms] by blast
  obtain s2 old where "SetLevel sd_handlers no_yield L (sem_add i 1 s1) = Inr (s2, old)" "calm L s2" "keeps (sem_add i 1 s1) s2"
    using setl_to [of "sem_add i 1 s1" L] s1(2) by auto
  with s1 show ?thesis by (auto simp: sem_V_def intro: keeps_trans keeps_sem_add)
qed

lemma sem_P_ok:
  assumes "calm L s" "sems s i \<noteq> 0"
  shows "\<exists>s'. sem_P i s = Inr s' \<and> calm L s' \<and> keeps (sem_add i (-1) s) s'"
proof -
  obtain s1 where s1: "SetLevel sd_handlers no_yield IntOff s = Inr (s1, L)" "calm IntOff s1" "keeps s s1"
    using setl_off [OF assms(1)] by blast
  have "sleep_until (Suc (Suc (length (pending (intr s1))))) i s1 = Inr s1"
    using s1(3) assms(2) by (simp add: keeps_def)
  moreover obtain s2 old where "SetLevel sd_handlers no_yield L (sem_add i (-1) s1) = Inr (s2, old)" "calm L s2" "keeps (sem_add i (-1) s1) s2"
    using setl_to [of "sem_add i (-1) s1" L] s1(2) by auto
  ultimately show ?thesis using s1 by (auto simp: sem_P_def intro: keeps_trans keeps_sem_add)
qed

lemma lock_Acquire_ok:
  assumes "calm L s" "sems s i \<noteq> 0"
  shows "\<exists>s'. lock_Acquire i s = Inr s' \<and> calm L s' \<and> keeps ((sem_add i (-1) s)\<lparr>owned := (owned s)(i := True)\<rparr>) s'"
proof -
  obtain s1 where s1: "SetLevel sd_handlers no_yield IntOff s = Inr (s1, L)" "calm IntOff s1" "keeps s s1"
    using setl_off [OF assms(1)] by blast
  then have "sems s1 i \<noteq> 0" using assms(2) by (simp add: keeps_def)
  then obtain s2 where s2: "sem_P i s1 = Inr s2" "calm IntOff s2" "keeps (sem_add i (-1) s1) s2"
    using sem_P_ok [OF s1(2)] by blast
  let ?s2 = "s2\<lparr>owned := (owned s2)(i := True)\<rparr>"
  obtain s3 old where s3: "SetLevel sd_handlers no_yield L ?s2 = Inr (s3, old)" "calm L s3" "keeps ?s2 s3"
    using setl_to [of ?s2 L] s2(2) by auto
  have "keeps ((sem_add i (-1) s)\<lparr>owned := (owned s)(i := True)\<rparr>) s3"
    using s1(3) s2(3) s3(3) by (simp add: keeps_def sem_add_def)
  with s1 s2 s3 show ?thesis by (auto simp: lock_Acquire_def)
qed

lemma lock_Release_ok:
  assumes "calm L s"
  shows "\<exists>s'. lock_Release i s = Inr s' \<and> calm L s' \<and> keeps ((sem_add i 1 s)\<lparr>owned := (owned s)(i := False)\<rparr>) s'"
proof -
  obtain s1 where s1: "SetLevel sd_handlers no_yield IntOff s = Inr (s1, L)" "calm IntOff s1" "keeps s s1"
    using setl_off [OF assms(1)] by blast
  obtain s2 where s2: "sem_V sd_handlers i s1 = Inr s2" "calm IntOff s2" "keeps (sem_add i 1 s1) s2"
    using sem_V_ok [OF s1(2)] by blast
  let ?s2 = "s2\<lparr>owned := (owned s2)(i := False)\<rparr>"
  obtain s3 old where s3: "SetLevel sd_handlers no_yield L ?s2 = Inr (s3, old)" "calm L s3" "keeps ?s2 s3"
    using setl_to [of ?s2 L] s2(2) by auto
  have "keeps ((sem_add i 1 s)\<lparr>owned := (owned s)(i := False)\<rparr>) s3"
    using s1(3) s2(3) s3(3) by (simp add: keeps_def sem_add_def)
  with s1 s2 s3 show ?thesis by (auto simp: lock_Release_def)
qed

section \<open>Waiting for the disk\<close>

definition waiting :: "IntStatus \<Rightarrow> 'a synch_sim_scheme \<Rightarrow> bool" where
  "waiting L s \<longleftrightarrow> level (intr s) = L \<and>
     (\<exists>w. pending (intr s) = [(w, PendingInterrupt_new DiskDone disk_self w DiskInt)]) \<and>
     \<not> inHandler (intr s) \<and> \<not> yieldOnReturn (intr s) \<and> status (intr s) = SystemMode \<and>
     mach_ok s \<and> clock_ok s \<and> disk_ok s"

lemma disk_handler_runs:
  "level (intr s) = IntOff \<Longrightarrow>
   sd_handlers DiskDone a s = Inr (ChangeLevel IntOff (sem_add DiskSem 1 (ChangeLevel IntOff (s\<lparr>active := False\<rparr>))))"
  by (simp add: sd_handlers_def HandleInterrupt_def RequestDone_def sem_V_def SetLevel_def Let_def ChangeLevel_def sem_add_def)

interpretation sdi: interrupt_handlers sd_handlers "\<lambda>h. h = DiskDone" "\<lambda>_. True"
  by unfold_locales
     (auto simp: disk_handler_runs ChangeLevel_def sem_add_def only_pending_def handler_effect_def same_clock_def due_now_def)

lemma fire_disk:
  assumes "level (intr s) = IntOff" "mach_ok s" "handler t = DiskDone"
  shows "\<exists>m. fire sd_handlers t s = Inr ((sem_add DiskSem 1 (s\<lparr>active := False\<rparr>))\<lparr>mach := m,
      intr := (intr s)\<lparr>level := IntOff, status := status (intr s), inHandler := False\<rparr>\<rparr>) \<and> (machine_on s \<longrightarrow> regs_ok m)"
proof -
  obtain m where m: "complete_load s = Inr (s\<lparr>mach := m\<rparr>)" "machine_on s \<longrightarrow> regs_ok m"
  proof (cases "machine_on s")
    case True
    then have ok: "regs_ok (mach s)" using assms(2) by (simp add: mach_ok_def)
    from DelayedLoad_ok [OF ok, of 0 0] obtain m where m: "DelayedLoad 0 0 (mach s) = Inr m" by blast
    then have "regs_ok m" using DelayedLoad_regs_ok by fastforce
    with m True that show thesis by (simp add: complete_load_def)
  next
    case False
    then show thesis using that [of "mach s"] by (simp add: complete_load_def)
  qed
  then show ?thesis using assms
    by (intro exI [of _ m]) (simp add: fire_def disk_handler_runs ChangeLevel_def sem_add_def)
qed

lemma Idle_disk:
  assumes "waiting IntOff s"
  shows "\<exists>s'. Idle sd_handlers s = Inr s' \<and> calm IntOff s' \<and> keeps (sem_add DiskSem 1 (s\<lparr>active := False\<rparr>)) s'"
proof -
  obtain w where w: "pending (intr s) = [(w, PendingInterrupt_new DiskDone disk_self w DiskInt)]" "level (intr s) = IntOff"
    "mach_ok s" "clock_ok s" "disk_ok s" "\<not> inHandler (intr s)" "\<not> yieldOnReturn (intr s)"
    using assms by (auto simp: waiting_def)
  let ?t = "PendingInterrupt_new DiskDone disk_self w DiskInt"
  let ?now = "totalTicks (stats s)"
  define s1 where "s1 = (setStatus IdleMode s)\<lparr>intr := (intr (setStatus IdleMode s))\<lparr>pending := []\<rparr>\<rparr>"
  define s2 where "s2 = (if w > ?now then s1\<lparr>stats := (stats s1)\<lparr>
      idleTicks := idleTicks (stats s1) + (w - ?now), totalTicks := w\<rparr>\<rparr> else s1)"
  have s2: "level (intr s2) = IntOff" "mach_ok s2" "clock_ok s2" "disk_ok s2" "pending (intr s2) = []"
    "status (intr s2) = IdleMode" "\<not> yieldOnReturn (intr s2)" "keeps s s2"
    using w by (auto simp: s2_def s1_def setStatus_def mach_ok_def clock_ok_def disk_ok_def keeps_def)
  obtain m where m: "fire sd_handlers ?t s2 = Inr ((sem_add DiskSem 1 (s2\<lparr>active := False\<rparr>))\<lparr>mach := m,
      intr := (intr s2)\<lparr>level := IntOff, status := status (intr s2), inHandler := False\<rparr>\<rparr>)" (is "_ = Inr ?s3")
      "machine_on s2 \<longrightarrow> regs_ok m"
    using fire_disk [OF s2(1,2), of ?t] by (auto simp: PendingInterrupt_new_def)
  have "CheckIfDue sd_handlers True (setStatus IdleMode s) = bindr (fire sd_handlers ?t s2) (\<lambda>s3. Inr (s3, True))"
    using w unfolding CheckIfDue_def by (auto simp: setStatus_def Let_def s2_def s1_def PendingInterrupt_new_def)
  moreover have "fire_due sd_handlers ?s3 = Inr ?s3"
    using s2(5) by (simp add: fire_due_def CheckIfDue_def sem_add_def)
  ultimately have i: "Idle sd_handlers s = Inr (?s3\<lparr>intr := (intr ?s3)\<lparr>yieldOnReturn := False, status := SystemMode\<rparr>\<rparr>)"
    using m(1) by (simp add: Idle_def)
  show ?thesis unfolding i using s2 m(2)
    by (auto simp: calm_def keeps_def sem_add_def mach_ok_def clock_ok_def disk_ok_def)
qed

lemma sem_P_wait:
  assumes "waiting IntOn s" "sems s DiskSem = 0"
  shows "\<exists>s'. sem_P DiskSem s = Inr s' \<and> calm IntOn s' \<and> keeps (s\<lparr>active := False\<rparr>) s'"
proof -
  let ?s1 = "ChangeLevel IntOff s"
  have off: "SetLevel sd_handlers no_yield IntOff s = Inr (?s1, IntOn)"
    using assms(1) by (simp add: SetLevel_def waiting_def Let_def)
  have w: "waiting IntOff ?s1" "keeps s ?s1" "sems ?s1 DiskSem = 0"
    using assms by (auto simp: waiting_def ChangeLevel_def keeps_def mach_ok_def clock_ok_def disk_ok_def)
  obtain s2 where s2: "Idle sd_handlers ?s1 = Inr s2" "calm IntOff s2" "keeps (sem_add DiskSem 1 (?s1\<lparr>active := False\<rparr>)) s2"
    using Idle_disk [OF w(1)] by blast
  have one: "sems s2 DiskSem = 1" using s2(3) w(3) by (simp add: keeps_def sem_add_def)
  obtain k where "Suc (length (pending (intr ?s1))) = Suc k" by blast
  then have "sleep_until (Suc (Suc (length (pending (intr ?s1))))) DiskSem ?s1 = Inr s2"
    using w(3) s2(1) one by simp
  moreover obtain s3 old where s3: "SetLevel sd_handlers no_yield IntOn (sem_add DiskSem (-1) s2) = Inr (s3, old)"
    "calm IntOn s3" "keeps (sem_add DiskSem (-1) s2) s3"
    using setl_to [of "sem_add DiskSem (-1) s2" IntOn] s2(2) by auto
  moreover have "keeps (s\<lparr>active := False\<rparr>) s3"
    using s3(3) s2(3) w(2,3) assms(2) by (simp add: keeps_def sem_add_def fun_upd_idem)
  ultimately show ?thesis using off by (simp add: sem_P_def)
qed

section \<open>Sectors are read as they were last written\<close>

definition cache_ok :: "(nat \<Rightarrow> sector) \<Rightarrow> Cache list \<Rightarrow> bool" where
  "cache_ok img cs \<longleftrightarrow> length cs = cache_size \<and>
     (\<forall>c \<in> set cs. c_valid c \<longrightarrow> valid_sector (c_sector c) \<and> c_data c = img (nat (c_sector c)))"

text \<open>The state in which the file system calls the disk.\<close>

definition sd_ok :: "'a synch_sim_scheme \<Rightarrow> bool" where
  "sd_ok s \<longleftrightarrow> calm IntOn s \<and> \<not> active s \<and> sems s DiskSem = 0 \<and> sems s DiskLock = 1 \<and>
     cache_ok (image s) (cache s) \<and> (\<forall>n. length (image s n) = nat SectorSize)"

text \<open>What the layers above may rely on: everything they keep in the state is untouched.\<close>

definition sd_frame :: "'a synch_sim_scheme \<Rightarrow> 'a synch_sim_scheme \<Rightarrow> bool" where
  "sd_frame s s' \<longleftrightarrow> reader_num s' = reader_num s \<and> vis_num s' = vis_num s \<and>
     (\<forall>i. i \<noteq> DiskLock \<longrightarrow> sems s' i = sems s i) \<and> machine_on s' = machine_on s \<and>
     synch_sim.more s' = synch_sim.more s"

lemma sd_frame_refl [simp]: "sd_frame s s"
  by (simp add: sd_frame_def)

lemma sd_frame_trans: "sd_frame s t \<Longrightarrow> sd_frame t u \<Longrightarrow> sd_frame s u"
  by (simp add: sd_frame_def)

lemma lru_scan_less: "\<forall>k \<in> set ks. k < N \<Longrightarrow> p < N \<Longrightarrow> lru_scan cs ks v p < N"
  by (induction cs ks v p rule: lru_scan.induct) auto

lemma victim_less: "cs \<noteq> [] \<Longrightarrow> victim cs < length cs"
  by (auto simp: victim_def first_valid_def intro: lru_scan_less dest!: find_Some_mem split: option.splits)

lemma cache_find_Some:
  "cache_find cs n = Some k \<Longrightarrow> k < length cs \<and> c_valid (cs ! k) \<and> c_sector (cs ! k) = n"
  by (auto simp: cache_find_def dest!: find_Some_mem)

lemma cache_ok_update:
  "cache_ok img cs \<Longrightarrow> (c_valid c \<Longrightarrow> valid_sector (c_sector c) \<and> c_data c = img (nat (c_sector c))) \<Longrightarrow> cache_ok img (cs[k := c])"
  by (auto simp: cache_ok_def dest: subsetD [OF set_update_subset_insert])

lemma calm_waiting:
  assumes "calm IntOn s" "disk_ok s'" "same_clock s s'" "mach s' = mach s" "machine_on s' = machine_on s"
    and "intr s' = (intr s)\<lparr>pending := kl_sorted_insert (PendingInterrupt_new DiskDone disk_self w DiskInt) w (pending (intr s))\<rparr>"
  shows "waiting IntOn s'"
  using assms same_clock_ok [OF assms(3)] by (simp add: calm_def waiting_def mach_ok_def)

text \<open>How many entries of the cache are in use.\<close>

definition one_valid :: "Cache list \<Rightarrow> bool" where
  "one_valid cs \<longleftrightarrow> length (filter c_valid cs) \<le> 1"

lemma filter_update_same:
  "k < length cs \<Longrightarrow> P (cs ! k) = P c \<Longrightarrow> length (filter P (cs[k := c])) = length (filter P cs)"
  by (induction cs arbitrary: k) (auto split: nat.splits)

lemma one_valid_update: "k < length cs \<Longrightarrow> c_valid (cs ! k) = c_valid c \<Longrightarrow> one_valid (cs[k := c]) = one_valid cs"
  by (simp add: one_valid_def filter_update_same)

lemma one_valid_none: "\<forall>c \<in> set cs. \<not> c_valid c \<Longrightarrow> one_valid (cs[k := c])"
proof -
  assume "\<forall>c \<in> set cs. \<not> c_valid c"
  then have "length (filter c_valid (cs[k := c])) \<le> 1"
    by (induction cs arbitrary: k) (auto split: nat.splits)
  then show ?thesis by (simp add: one_valid_def)
qed

lemma one_valid_victim: "one_valid cs \<Longrightarrow> cs \<noteq> [] \<Longrightarrow> c_valid c \<Longrightarrow> one_valid (cs[victim cs := c])"
proof (cases "first_valid cs")
  case None
  then have "\<forall>c \<in> set cs. \<not> c_valid c" by (auto simp: first_valid_def find_None_iff in_set_conv_nth)
  then show ?thesis by (rule one_valid_none)
next
  case (Some k)
  then have "k < length cs" "c_valid (cs ! k)" by (auto simp: first_valid_def dest!: find_Some_mem)
  moreover assume "one_valid cs" "c_valid c"
  ultimately show ?thesis using Some by (simp add: victim_def one_valid_update)
qed

lemma one_valid_invalidate: "one_valid cs \<Longrightarrow> one_valid (invalidate n cs)"
proof -
  have "length (filter c_valid (invalidate n cs)) \<le> length (filter c_valid cs)"
    by (induction cs) (auto simp: invalidate_def)
  then show "one_valid cs \<Longrightarrow> one_valid (invalidate n cs)" by (simp add: one_valid_def)
qed

lemma finish_request:
  assumes "calm IntOn s5" "sems s5 DiskLock = 0"
  shows "\<exists>s6. lock_Release DiskLock s5 = Inr s6 \<and> calm IntOn s6 \<and> image s6 = image s5 \<and> active s6 = active s5 \<and>
    cache s6 = cache s5 \<and> sems s6 = (sems s5)(DiskLock := 1) \<and> reader_num s6 = reader_num s5 \<and>
    vis_num s6 = vis_num s5 \<and> machine_on s6 = machine_on s5 \<and> synch_sim.more s6 = synch_sim.more s5"
  using lock_Release_ok [OF assms(1), of DiskLock] assms(2) by (auto simp: keeps_def sem_add_def)

lemma start_request:
  assumes "sd_ok s"
  shows "\<exists>s1. lock_Acquire DiskLock s = Inr s1 \<and> calm IntOn s1 \<and> image s1 = image s \<and> \<not> active s1 \<and>
    cache s1 = cache s \<and> sems s1 = (sems s)(DiskLock := 0) \<and> reader_num s1 = reader_num s \<and>
    vis_num s1 = vis_num s \<and> machine_on s1 = machine_on s \<and> synch_sim.more s1 = synch_sim.more s"
  using lock_Acquire_ok [of IntOn s DiskLock] assms by (auto simp: sd_ok_def keeps_def sem_add_def)

lemma more_synch: "disk_sim.more s' = disk_sim.more s \<Longrightarrow> sems s' = sems s \<and> owned s' = owned s \<and> cache s' = cache s \<and>
   reader_num s' = reader_num s \<and> vis_num s' = vis_num s \<and> synch_sim.more s' = synch_sim.more s"
  by (cases s; cases s') simp

lemma ReadSector_ok:
  assumes ok: "sd_ok s" and n: "valid_sector n"
  shows "\<exists>s'. ReadSector n s = Inr (s', image s (nat n)) \<and> sd_ok s' \<and> image s' = image s \<and> sd_frame s s' \<and>
    (one_valid (cache s) \<longrightarrow> one_valid (cache s'))"
proof -
  obtain s1 where s1: "lock_Acquire DiskLock s = Inr s1" "calm IntOn s1" "image s1 = image s" "\<not> active s1"
    "cache s1 = cache s" "sems s1 = (sems s)(DiskLock := 0)" "reader_num s1 = reader_num s" "vis_num s1 = vis_num s"
    "machine_on s1 = machine_on s" "synch_sim.more s1 = synch_sim.more s"
    using start_request [OF ok] by blast
  have co: "cache_ok (image s) (cache s)" and len: "\<forall>k. length (image s k) = nat SectorSize"
    and d0: "sems s DiskSem = 0" using ok by (simp_all add: sd_ok_def)
  show ?thesis
  proof (cases "cache_find (cache s) n")
    case None
    have "disk_ok s1" using s1(2) by (simp add: calm_def)
    from ReadRequest_ok [OF this n s1(4)] obtain s2 w where s2: "ReadRequest n s1 = Inr (s2, image s1 (nat n))" "disk_ok s2"
      "image s2 = image s1" "same_clock s1 s2" "mach s2 = mach s1" "machine_on s2 = machine_on s1"
      "disk_sim.more s2 = disk_sim.more s1"
      "intr s2 = (intr s1)\<lparr>pending := kl_sorted_insert (PendingInterrupt_new DiskDone disk_self w DiskInt) w (pending (intr s1))\<rparr>"
      by blast
    have m2: "sems s2 = sems s1" "cache s2 = cache s" "reader_num s2 = reader_num s" "vis_num s2 = vis_num s"
      "synch_sim.more s2 = synch_sim.more s"
      using more_synch [OF s2(7)] s1 by simp_all
    have w2: "waiting IntOn s2" using calm_waiting [OF s1(2) s2(2,4-6,8)] .
    let ?k = "victim (cache s)"
    have "cache s \<noteq> []" using co by (auto simp: cache_ok_def cache_size_def)
    then have k: "?k < length (cache s)" by (rule victim_less)
    let ?c = "(cache s ! ?k)\<lparr>c_valid := True, c_dirty := False, c_sector := n, c_cnt := totalTicks (stats s2), c_data := image s (nat n)\<rparr>"
    let ?s3 = "s2\<lparr>cache := (cache s)[?k := ?c]\<rparr>"
    have "waiting IntOn ?s3" using w2 by (simp add: waiting_def mach_ok_def clock_ok_def disk_ok_def)
    moreover have "sems ?s3 DiskSem = 0" using m2(1) s1(6) d0 by simp
    ultimately obtain s5 where s5: "sem_P DiskSem ?s3 = Inr s5" "calm IntOn s5" "keeps (?s3\<lparr>active := False\<rparr>) s5"
      using sem_P_wait by blast
    then have "sems s5 DiskLock = 0" using m2(1) s1(6) by (simp add: keeps_def)
    from finish_request [OF s5(2) this] obtain s6 where s6: "lock_Release DiskLock s5 = Inr s6" "calm IntOn s6"
      "image s6 = image s5" "active s6 = active s5" "cache s6 = cache s5" "sems s6 = (sems s5)(DiskLock := 1)"
      "reader_num s6 = reader_num s5" "vis_num s6 = vis_num s5" "machine_on s6 = machine_on s5"
      "synch_sim.more s6 = synch_sim.more s5" by blast
    have "ReadSector n s = Inr (s6, image s (nat n))"
      using s1 None s2(1) m2(2) k s5(1) s6(1) by (simp add: ReadSector_def Let_def)
    moreover have "cache_ok (image s) (cache s6)"
      using cache_ok_update [OF co, of ?c] n s6(5) s5(3) by (simp add: keeps_def)
    moreover have "one_valid (cache s) \<longrightarrow> one_valid (cache s6)"
      using one_valid_victim [OF _ \<open>cache s \<noteq> []\<close>, of ?c] s6(5) s5(3) by (simp add: keeps_def)
    ultimately show ?thesis
      using s6 s5(3) s2 m2 s1 ok len by (auto simp: sd_ok_def sd_frame_def keeps_def)
  next
    case (Some k)
    note hit = cache_find_Some [OF Some]
    let ?c = "cache s ! k"
    have d: "c_data ?c = image s (nat n)" using co hit by (simp add: cache_ok_def)
    let ?s2 = "s1\<lparr>cache := (cache s)[k := ?c\<lparr>c_cnt := totalTicks (stats s1)\<rparr>], active := False\<rparr>"
    have "calm IntOn ?s2" using s1(2) by simp
    from sem_V_ok [OF this, of DiskSem] obtain s3 where s3: "sem_V sd_handlers DiskSem ?s2 = Inr s3" "calm IntOn s3"
      "keeps (sem_add DiskSem 1 ?s2) s3" by blast
    have "sems s3 DiskSem = 1" using s3(3) s1(6) d0 by (simp add: keeps_def sem_add_def)
    then obtain s5 where s5: "sem_P DiskSem s3 = Inr s5" "calm IntOn s5" "keeps (sem_add DiskSem (-1) s3) s5"
      using sem_P_ok [OF s3(2), of DiskSem] by auto
    have "sems s5 DiskLock = 0" using s5(3) s3(3) s1(6) by (simp add: keeps_def sem_add_def)
    from finish_request [OF s5(2) this] obtain s6 where s6: "lock_Release DiskLock s5 = Inr s6" "calm IntOn s6"
      "image s6 = image s5" "active s6 = active s5" "cache s6 = cache s5" "sems s6 = (sems s5)(DiskLock := 1)"
      "reader_num s6 = reader_num s5" "vis_num s6 = vis_num s5" "machine_on s6 = machine_on s5"
      "synch_sim.more s6 = synch_sim.more s5" by blast
    have "ReadSector n s = Inr (s6, image s (nat n))"
      using s1 Some s3(1) s5(1) s6(1) d by (simp add: ReadSector_def Let_def HandleInterrupt_def RequestDone_def)
    moreover have "cache_ok (image s) ((cache s)[k := ?c\<lparr>c_cnt := totalTicks (stats s1)\<rparr>])"
      using cache_ok_update [OF co, of "?c\<lparr>c_cnt := totalTicks (stats s1)\<rparr>"] d hit n by simp
    moreover have "one_valid (cache s) \<longrightarrow> one_valid ((cache s)[k := ?c\<lparr>c_cnt := totalTicks (stats s1)\<rparr>])"
      using hit by (simp add: one_valid_update)
    ultimately show ?thesis
      using s6 s5(3) s3(3) s1 ok len by (auto simp: sd_ok_def sd_frame_def keeps_def sem_add_def)
  qed
qed

lemma cache_ok_invalidate:
  "cache_ok img cs \<Longrightarrow> valid_sector n \<Longrightarrow> cache_ok (img(nat n := d)) (invalidate n cs)"
  by (auto simp: cache_ok_def invalidate_def valid_sector_def)

lemma WriteSector_ok:
  assumes ok: "sd_ok s" and n: "valid_sector n" and d: "length data = nat SectorSize"
  shows "\<exists>s'. WriteSector n data s = Inr s' \<and> sd_ok s' \<and> image s' = (image s)(nat n := data) \<and> sd_frame s s' \<and>
    (one_valid (cache s) \<longrightarrow> one_valid (cache s'))"
proof -
  obtain s1 where s1: "lock_Acquire DiskLock s = Inr s1" "calm IntOn s1" "image s1 = image s" "\<not> active s1"
    "cache s1 = cache s" "sems s1 = (sems s)(DiskLock := 0)" "reader_num s1 = reader_num s" "vis_num s1 = vis_num s"
    "machine_on s1 = machine_on s" "synch_sim.more s1 = synch_sim.more s"
    using start_request [OF ok] by blast
  have co: "cache_ok (image s) (cache s)" and len: "\<forall>k. length (image s k) = nat SectorSize"
    and d0: "sems s DiskSem = 0" using ok by (simp_all add: sd_ok_def)
  have "disk_ok s1" using s1(2) by (simp add: calm_def)
  from WriteRequest_ok [OF this n s1(4) d] obtain s2 w where s2: "WriteRequest n data s1 = Inr s2" "disk_ok s2"
    "image s2 = (image s1)(nat n := data)" "same_clock s1 s2" "mach s2 = mach s1" "machine_on s2 = machine_on s1"
    "disk_sim.more s2 = disk_sim.more s1"
    "intr s2 = (intr s1)\<lparr>pending := kl_sorted_insert (PendingInterrupt_new DiskDone disk_self w DiskInt) w (pending (intr s1))\<rparr>"
    by blast
  have m2: "sems s2 = sems s1" "cache s2 = cache s" "reader_num s2 = reader_num s" "vis_num s2 = vis_num s"
    "synch_sim.more s2 = synch_sim.more s"
    using more_synch [OF s2(7)] s1 by simp_all
  have "waiting IntOn s2" using calm_waiting [OF s1(2) s2(2,4-6,8)] .
  moreover have "sems s2 DiskSem = 0" using m2(1) s1(6) d0 by simp
  ultimately obtain s5 where s5: "sem_P DiskSem s2 = Inr s5" "calm IntOn s5" "keeps (s2\<lparr>active := False\<rparr>) s5"
    using sem_P_wait by blast
  then have "sems s5 DiskLock = 0" using m2(1) s1(6) by (simp add: keeps_def)
  from finish_request [OF s5(2) this] obtain s6 where s6: "lock_Release DiskLock s5 = Inr s6" "calm IntOn s6"
    "image s6 = image s5" "active s6 = active s5" "cache s6 = cache s5" "sems s6 = (sems s5)(DiskLock := 1)"
    "reader_num s6 = reader_num s5" "vis_num s6 = vis_num s5" "machine_on s6 = machine_on s5"
    "synch_sim.more s6 = synch_sim.more s5" by blast
  have "WriteSector n data s = Inr (s6\<lparr>cache := invalidate n (cache s6)\<rparr>)"
    using s1(1) s2(1) s5(1) s6(1) by (simp add: WriteSector_def)
  moreover have "cache_ok ((image s)(nat n := data)) (invalidate n (cache s))"
    by (rule cache_ok_invalidate [OF co n])
  moreover have "one_valid (cache s) \<longrightarrow> one_valid (invalidate n (cache s))" by (simp add: one_valid_invalidate)
  ultimately show ?thesis
    using s6 s5(3) s2 m2 s1 ok len d by (auto simp: sd_ok_def sd_frame_def keeps_def)
qed

text \<open>A sequence of requests to a sector device, and the same sequence on an array of sectors.\<close>

datatype request = Rd int | Wr int sector

fun dev_run ::
  "(int \<Rightarrow> 's \<Rightarrow> ('s \<times> sector) result) \<Rightarrow> (int \<Rightarrow> sector \<Rightarrow> 's \<Rightarrow> 's result) \<Rightarrow> request list \<Rightarrow> 's \<Rightarrow> ('s \<times> sector list) result" where
  "dev_run rd wr [] s = Inr (s, [])"
| "dev_run rd wr (Rd n # rs) s = bindr (rd n s) (\<lambda>(s', d). bindr (dev_run rd wr rs s') (\<lambda>(s'', ds). Inr (s'', d # ds)))"
| "dev_run rd wr (Wr n d # rs) s = bindr (wr n d s) (dev_run rd wr rs)"

fun array_run :: "request list \<Rightarrow> (nat \<Rightarrow> sector) \<Rightarrow> (nat \<Rightarrow> sector) \<times> sector list" where
  "array_run [] img = (img, [])"
| "array_run (Rd n # rs) img = (case array_run rs img of (img', ds) \<Rightarrow> (img', img (nat n) # ds))"
| "array_run (Wr n d # rs) img = array_run rs (img(nat n := d))"

fun request_ok :: "request \<Rightarrow> bool" where
  "request_ok (Rd n) = valid_sector n"
| "request_ok (Wr n d) = (valid_sector n \<and> length d = nat SectorSize)"

text \<open>A sector device: what the file system layers rely on.\<close>

locale sector_device =
  fixes rd :: "int \<Rightarrow> 's \<Rightarrow> ('s \<times> sector) result"
    and wr :: "int \<Rightarrow> sector \<Rightarrow> 's \<Rightarrow> 's result"
    and dev_ok :: "'s \<Rightarrow> bool"
    and contents :: "'s \<Rightarrow> nat \<Rightarrow> sector"
  assumes rd_law: "dev_ok s \<Longrightarrow> valid_sector n \<Longrightarrow>
      \<exists>s'. rd n s = Inr (s', contents s (nat n)) \<and> dev_ok s' \<and> contents s' = contents s"
    and wr_law: "dev_ok s \<Longrightarrow> valid_sector n \<Longrightarrow> length d = nat SectorSize \<Longrightarrow>
      \<exists>s'. wr n d s = Inr s' \<and> dev_ok s' \<and> contents s' = (contents s)(nat n := d)"
begin

lemma run_refines:
  "dev_ok s \<Longrightarrow> \<forall>r \<in> set rs. request_ok r \<Longrightarrow>
   \<exists>s'. dev_run rd wr rs s = Inr (s', snd (array_run rs (contents s))) \<and> dev_ok s' \<and>
     contents s' = fst (array_run rs (contents s))"
proof (induction rs arbitrary: s)
  case (Cons r rs)
  show ?case
  proof (cases r)
    case (Rd n)
    then obtain s1 where s1: "rd n s = Inr (s1, contents s (nat n))" "dev_ok s1" "contents s1 = contents s"
      using rd_law Cons.prems by fastforce
    then show ?thesis using Cons.IH [OF s1(2)] Cons.prems Rd by (auto split: prod.splits)
  next
    case (Wr n d)
    then obtain s1 where s1: "wr n d s = Inr s1" "dev_ok s1" "contents s1 = (contents s)(nat n := d)"
      using wr_law Cons.prems by fastforce
    have "\<forall>r \<in> set rs. request_ok r" using Cons.prems(2) by simp
    from Cons.IH [OF s1(2) this, unfolded s1(3)] s1(1) Wr show ?thesis by (simp add: fun_upd_def)
  qed
qed simp

end

interpretation sdd: sector_device ReadSector WriteSector sd_ok image
  by unfold_locales (use ReadSector_ok WriteSector_ok in blast)+

text \<open>
  (C5) The synchronous disk is an array of sectors. From any state between requests, every sequence of
  \<^verbatim>\<open>ReadSector\<close> and \<^verbatim>\<open>WriteSector\<close> calls on valid sectors returns: no assertion fails, no wait for the
  completion interrupt lasts for ever, whatever the cache holds every read yields what the last write
  of that sector stored, and the contents of the disk at the end are those of the array.
\<close>

theorem SynchDisk_refines_array:
  assumes "sd_ok s" "\<forall>r \<in> set rs. request_ok r"
  shows "\<exists>s'. dev_run ReadSector WriteSector rs s = Inr (s', snd (array_run rs (image s))) \<and> sd_ok s' \<and>
     image s' = fst (array_run rs (image s))"
  using assms by (rule sdd.run_refines)

text \<open>A concrete start state: a fresh disk, no machine, and a cache with stale contents.\<close>

definition fresh_synch :: synch_sim where
  "fresh_synch = \<lparr>stats = Statistics_new, intr = Interrupt_new\<lparr>level := IntOn\<rparr>, machine_on = False,
     mach = \<lparr>registers = (\<lambda>_. 0), mainMemory = (\<lambda>_. 0), tlb = None, tables = Map.empty, pageTable = None,
       pageTableSize = 0, TLBhit = 0, TLBmiss = 0, frames = [], singleStep = False, runUntilTime = 0\<rparr>,
     image = (\<lambda>_. zero_sector), active = False, lastSector = 0, bufferInit = 0,
     sems = (\<lambda>i. case i of DiskSem \<Rightarrow> 0 | _ \<Rightarrow> 1), owned = (\<lambda>_. False),
     cache = replicate cache_size \<lparr>c_valid = False, c_dirty = False, c_sector = 3, c_cnt = 7, c_data = []\<rparr>,
     reader_num = replicate 1024 0, vis_num = replicate 1024 0\<rparr>"

lemma fresh_synch_ok: "sd_ok fresh_synch"
  by (simp add: sd_ok_def fresh_synch_def calm_def Interrupt_new_def Statistics_new_def mach_ok_def clock_ok_def
      disk_ok_def disk_consts cache_ok_def zero_sector_def)

theorem SynchDisk_refines_array_witness:
  "\<exists>s'. dev_run ReadSector WriteSector [Rd 5, Wr 5 (replicate 128 7), Rd 5, Rd 3, Rd 5] fresh_synch =
     Inr (s', [zero_sector, replicate 128 7, zero_sector, replicate 128 7])"
  using SynchDisk_refines_array [OF fresh_synch_ok, of "[Rd 5, Wr 5 (replicate 128 7), Rd 5, Rd 3, Rd 5]"]
  by (auto simp: valid_sector_def disk_consts fresh_synch_def)

text \<open>
  (C34) The cache never holds more than one sector: a miss replaces the first \<^emph>\<open>valid\<close> entry, so starting
  from a cache with at most one valid entry no sequence of requests ever fills a second one, although
  there are four.
\<close>

theorem cache_holds_one_sector:
  assumes "sd_ok s" "one_valid (cache s)" "\<forall>r \<in> set rs. request_ok r"
  shows "\<exists>s' ds. dev_run ReadSector WriteSector rs s = Inr (s', ds) \<and> one_valid (cache s')"
  using assms
proof (induction rs arbitrary: s)
  case (Cons r rs)
  show ?case
  proof (cases r)
    case (Rd n)
    with Cons.prems obtain s1 where "ReadSector n s = Inr (s1, image s (nat n))" "sd_ok s1" "one_valid (cache s1)"
      using ReadSector_ok [of s n] by auto
    with Cons.IH [of s1] Cons.prems(3) Rd show ?thesis by auto
  next
    case (Wr n d)
    with Cons.prems obtain s1 where "WriteSector n d s = Inr s1" "sd_ok s1" "one_valid (cache s1)"
      using WriteSector_ok [of s n d] by auto
    with Cons.IH [of s1] Cons.prems(3) Wr show ?thesis by auto
  qed
qed simp

theorem cache_holds_one_sector_witness:
  "\<exists>s' ds. dev_run ReadSector WriteSector [Rd 1, Rd 2, Rd 3, Rd 1] fresh_synch = Inr (s', ds) \<and>
     length (filter c_valid (cache s')) \<le> 1"
  using cache_holds_one_sector [OF fresh_synch_ok, of "[Rd 1, Rd 2, Rd 3, Rd 1]"]
  by (simp add: valid_sector_def disk_consts fresh_synch_def one_valid_def)

end
