(* ===== verification/Nachos_FileHdr.thy ===== *)
theory Nachos_FileHdr
  imports Nachos_SynchDisk
begin

text \<open>
  File headers (\<^verbatim>\<open>filesys/filehdr.h\<close>, \<^verbatim>\<open>filehdr.cc\<close>): allocation of the data sectors of a file out of the
  free map, the indirect index block, translation of file offsets, and the 128-byte image on disk.
  \<^verbatim>\<open>NumDirect\<close> is an unsigned constant in the source (it is computed with \<^verbatim>\<open>sizeof\<close>), so the
  comparisons with it convert the other operand to unsigned: \<open>uns\<close>.
\<close>

section \<open>Data\<close>

definition NumDirect :: int where "NumDirect = 9"

definition uns :: "int \<Rightarrow> int" where
  "uns z = z mod 2 ^ 32"

record FileHeader =
  numBytes :: int
  numSectors :: int
  dataSectors :: "int list"
  ftype :: "byte list"
  create_time :: "byte list"
  last_v_time :: "byte list"
  last_m_time :: "byte list"
  sectorNumber :: int

text \<open>The object in memory, byte by byte: 4 + 4 + 36 + 5 + 3 * 25 + 4 = 128 bytes, without padding.\<close>

definition int_bytes :: "int \<Rightarrow> byte list" where
  "int_bytes z = le32 (word_of_int z)"

definition bytes_int :: "byte list \<Rightarrow> int" where
  "bytes_int bs = sint (un_le32 bs)"

definition ints_bytes :: "int list \<Rightarrow> byte list" where
  "ints_bytes zs = concat (map int_bytes zs)"

definition bytes_ints :: "byte list \<Rightarrow> int list" where
  "bytes_ints bs = map sint (words_of_bytes bs)"

definition hdr_bytes :: "FileHeader \<Rightarrow> byte list" where
  "hdr_bytes h = int_bytes (numBytes h) @ int_bytes (numSectors h) @ ints_bytes (dataSectors h) @ ftype h @
     create_time h @ last_v_time h @ last_m_time h @ int_bytes (sectorNumber h)"

definition bytes_hdr :: "byte list \<Rightarrow> FileHeader" where
  "bytes_hdr bs = \<lparr>numBytes = bytes_int (take 4 bs), numSectors = bytes_int (take 4 (drop 4 bs)),
     dataSectors = bytes_ints (take 36 (drop 8 bs)), ftype = take 5 (drop 44 bs),
     create_time = take 25 (drop 49 bs), last_v_time = take 25 (drop 74 bs), last_m_time = take 25 (drop 99 bs),
     sectorNumber = bytes_int (take 4 (drop 124 bs))\<rparr>"

definition FetchFrom :: "int \<Rightarrow> 'a synch_sim_scheme \<Rightarrow> ('a synch_sim_scheme \<times> FileHeader) result" where
  "FetchFrom sec s = bindr (ReadSector sec s) (\<lambda>(s', bs). Inr (s', bytes_hdr bs))"

definition WriteBack :: "int \<Rightarrow> FileHeader \<Rightarrow> 'a synch_sim_scheme \<Rightarrow> 'a synch_sim_scheme result" where
  "WriteBack sec h s = WriteSector sec (hdr_bytes h) s"

section \<open>Allocation\<close>

text \<open>\<^verbatim>\<open>for (i = lo; i < hi; i++) arr[i] = freeMap->Find();\<close>\<close>

function fill_find :: "int list \<Rightarrow> BitMap \<Rightarrow> int \<Rightarrow> int \<Rightarrow> (int list \<times> BitMap) result" where
  "fill_find arr fm i hi =
     (if i < hi then
        bindr (BitMap_Find fm) (\<lambda>(fm', k).
        bindr (arr_set arr i k) (\<lambda>arr'. fill_find arr' fm' (i + 1) hi))
      else Inr (arr, fm))"
  by pat_completeness auto
termination
  by (relation "measure (\<lambda>(arr, fm, i, hi). nat (hi - i))") auto

text \<open>\<^verbatim>\<open>for (i = 0; i < n; i++) arr[i] = base + i;\<close>\<close>

function fill_run :: "int list \<Rightarrow> int \<Rightarrow> int \<Rightarrow> int \<Rightarrow> int list result" where
  "fill_run arr base i n =
     (if i < n then bindr (arr_set arr i (base + i)) (\<lambda>arr'. fill_run arr' base (i + 1) n) else Inr arr)"
  by pat_completeness auto
termination
  by (relation "measure (\<lambda>(arr, base, i, n). nat (n - i))") auto

declare fill_find.simps [simp del] fill_run.simps [simp del]

text \<open>\<open>junk\<close> is what the uninitialised array \<^verbatim>\<open>indirect_idx[32]\<close> on the stack holds.\<close>

definition Allocate ::
  "int list \<Rightarrow> BitMap \<Rightarrow> int \<Rightarrow> FileHeader \<Rightarrow> 'a synch_sim_scheme
     \<Rightarrow> ('a synch_sim_scheme \<times> BitMap \<times> FileHeader \<times> bool) result" where
  "Allocate junk freeMap fileSize h s =
     (let h1 = h\<lparr>numBytes := fileSize, numSectors := divRoundUp fileSize SectorSize\<rparr>;
          ns = numSectors h1
      in bindr (BitMap_NumClear freeMap) (\<lambda>c.
         if c < ns then Inr (s, freeMap, h1, False)
         else if uns ns < NumDirect then
           bindr (BitMap_myFind freeMap ns) (\<lambda>(fm, big).
             if big \<noteq> -1 then bindr (fill_run (dataSectors h1) big 0 ns) (\<lambda>ds.
               Inr (s, fm, h1\<lparr>dataSectors := ds\<rparr>, True))
             else bindr (fill_find (dataSectors h1) fm 0 ns) (\<lambda>(ds, fm').
               Inr (s, fm', h1\<lparr>dataSectors := ds\<rparr>, True)))
         else
           bindr (fill_find (dataSectors h1) freeMap 0 NumDirect) (\<lambda>(ds, fm1).
           bindr (fill_find junk fm1 0 (uns (ns - NumDirect + 1))) (\<lambda>(idx, fm2).
           bindr (arr_get ds (NumDirect - 1)) (\<lambda>ib.
           bindr (WriteSector ib (ints_bytes idx) s) (\<lambda>s'.
             Inr (s', fm2, h1\<lparr>dataSectors := ds\<rparr>, True)))))))"

text \<open>The index block is read as an array of \<^verbatim>\<open>char\<close>: entry \<open>i\<close> is its byte \<open>4 * i\<close>, sign-extended.\<close>

definition index_entry :: "sector \<Rightarrow> int \<Rightarrow> int result" where
  "index_entry bs i = bindr (arr_get bs (i * 4)) (\<lambda>b. Inr (sint b))"

function clear_direct :: "int list \<Rightarrow> bool \<Rightarrow> BitMap \<Rightarrow> int \<Rightarrow> int \<Rightarrow> BitMap result" where
  "clear_direct ds check fm i n =
     (if i < n then
        bindr (arr_get ds i) (\<lambda>k.
        bindr (if check then bindr (BitMap_Test fm k) ASSERT else Inr ()) (\<lambda>_.
        bindr (BitMap_Clear fm k) (\<lambda>fm'. clear_direct ds check fm' (i + 1) n)))
      else Inr fm)"
  by pat_completeness auto
termination
  by (relation "measure (\<lambda>(ds, check, fm, i, n). nat (n - i))") auto

function clear_indirect :: "sector \<Rightarrow> BitMap \<Rightarrow> int \<Rightarrow> int \<Rightarrow> BitMap result" where
  "clear_indirect bs fm i n =
     (if i < n then
        bindr (index_entry bs i) (\<lambda>k. bindr (BitMap_Clear fm k) (\<lambda>fm'. clear_indirect bs fm' (i + 1) n))
      else Inr fm)"
  by pat_completeness auto
termination
  by (relation "measure (\<lambda>(bs, fm, i, n). nat (n - i))") auto

declare clear_direct.simps [simp del] clear_indirect.simps [simp del]

definition Deallocate :: "BitMap \<Rightarrow> FileHeader \<Rightarrow> 'a synch_sim_scheme \<Rightarrow> ('a synch_sim_scheme \<times> BitMap) result" where
  "Deallocate freeMap h s =
     (if uns (numSectors h) < NumDirect then
        bindr (clear_direct (dataSectors h) True freeMap 0 (numSectors h)) (\<lambda>fm. Inr (s, fm))
      else
        bindr (arr_get (dataSectors h) (NumDirect - 1)) (\<lambda>ib.
        bindr (ReadSector ib s) (\<lambda>(s', bs).
        bindr (clear_indirect bs freeMap 0 (uns (numSectors h - NumDirect + 1))) (\<lambda>fm1.
        bindr (clear_direct (dataSectors h) False fm1 0 NumDirect) (\<lambda>fm2. Inr (s', fm2))))))"

definition ByteToSector :: "FileHeader \<Rightarrow> int \<Rightarrow> 'a synch_sim_scheme \<Rightarrow> ('a synch_sim_scheme \<times> int) result" where
  "ByteToSector h offset s =
     (if uns offset < (NumDirect - 1) * SectorSize then
        bindr (arr_get (dataSectors h) (offset sdiv SectorSize)) (\<lambda>k. Inr (s, k))
      else
        (let tmp_offset = uns (offset - (NumDirect - 1) * SectorSize) div SectorSize in
         bindr (arr_get (dataSectors h) (NumDirect - 1)) (\<lambda>ib.
         bindr (ReadSector ib s) (\<lambda>(s', bs).
         bindr (index_entry bs tmp_offset) (\<lambda>k. Inr (s', k))))))"

definition FileLength :: "FileHeader \<Rightarrow> int" where
  "FileLength h = numBytes h"

definition SetLength :: "int \<Rightarrow> FileHeader \<Rightarrow> FileHeader" where
  "SetLength sz h = h\<lparr>numBytes := sz\<rparr>"

definition Extend :: "BitMap \<Rightarrow> int \<Rightarrow> FileHeader \<Rightarrow> (BitMap \<times> FileHeader \<times> bool) result" where
  "Extend bm sz h =
     (let h1 = h\<lparr>numBytes := numBytes h + sz\<rparr>;
          oldSectors = numSectors h1;
          h2 = h1\<lparr>numSectors := divRoundUp (numBytes h1) SectorSize\<rparr>
      in if oldSectors = numSectors h2 then Inr (bm, h2, True)
         else bindr (BitMap_NumClear bm) (\<lambda>c.
           if c < numSectors h2 - oldSectors then Inr (bm, h2, False)
           else bindr (fill_find (dataSectors h2) bm oldSectors (numSectors h2)) (\<lambda>(ds, bm').
             Inr (bm', h2\<lparr>dataSectors := ds\<rparr>, True))))"

text \<open>\<^verbatim>\<open>SetTime\<close> copies the 25 characters of \<^verbatim>\<open>asctime\<close>, given as \<open>tm\<close>, and ends them with a NUL.\<close>

definition time_text :: "byte list \<Rightarrow> byte list" where
  "time_text tm = take 24 tm @ [0]"

definition SetTime :: "char \<Rightarrow> byte list \<Rightarrow> FileHeader \<Rightarrow> FileHeader" where
  "SetTime mode tm h =
     (if mode = CHR ''c'' then h\<lparr>create_time := time_text tm\<rparr>
      else if mode = CHR ''v'' then h\<lparr>last_v_time := time_text tm\<rparr>
      else if mode = CHR ''m'' then h\<lparr>last_m_time := time_text tm\<rparr>
      else h)"

section \<open>Printing\<close>

text \<open>What \<^verbatim>\<open>Print\<close> writes, item by item.\<close>

datatype printed = PrInt int | PrChar byte | PrHex byte | PrText string

definition print_byte :: "byte \<Rightarrow> printed" where
  "print_byte b = (if 32 \<le> sint b \<and> sint b \<le> 126 then PrChar b else PrHex b)"

text \<open>The bytes of one sector while \<^verbatim>\<open>k < numBytes\<close>, with the new \<^verbatim>\<open>k\<close>.\<close>

definition print_sector :: "sector \<Rightarrow> int \<Rightarrow> int \<Rightarrow> printed list \<times> int" where
  "print_sector bs k nb =
     (let n = min (length bs) (nat (nb - k)) in (map print_byte (take n bs) @ [PrText [CHR 0x0A]], k + int n))"

fun print_blocks ::
  "bool \<Rightarrow> int list \<Rightarrow> int \<Rightarrow> int \<Rightarrow> 'a synch_sim_scheme \<Rightarrow> ('a synch_sim_scheme \<times> printed list \<times> int) result" where
  "print_blocks tell [] k nb s = Inr (s, [], k)"
| "print_blocks tell (b # blocks) k nb s =
     bindr (ReadSector b s) (\<lambda>(s1, bs).
       case print_sector bs k nb of (out, k1) \<Rightarrow>
         bindr (print_blocks tell blocks k1 nb s1) (\<lambda>(s2, outs, k2).
           Inr (s2, (if tell then [PrText ''In sector '', PrInt b] else []) @ out @ outs, k2)))"

fun index_entries :: "sector \<Rightarrow> int \<Rightarrow> nat \<Rightarrow> int list result" where
  "index_entries bs i 0 = Inr []"
| "index_entries bs i (Suc n) = bindr (index_entry bs i) (\<lambda>k. bindr (index_entries bs (i + 1) n) (\<lambda>ks. Inr (k # ks)))"

definition Hdr_Print :: "FileHeader \<Rightarrow> 'a synch_sim_scheme \<Rightarrow> ('a synch_sim_scheme \<times> printed list) result" where
  "Hdr_Print h s =
     (if uns (numSectors h) < NumDirect then
        if int (length (dataSectors h)) < numSectors h then Inl OutOfBounds
        else let bl = take (nat (numSectors h)) (dataSectors h) in
          bindr (print_blocks False bl 0 (numBytes h) s) (\<lambda>(s1, out, k).
            Inr (s1, PrInt (numBytes h) # map PrInt bl @ PrText ''File contents'' # out))
      else
        bindr (arr_get (dataSectors h) (NumDirect - 1)) (\<lambda>ib.
        bindr (ReadSector ib s) (\<lambda>(s1, bs).
        bindr (index_entries bs 0 (nat (uns (numSectors h - NumDirect + 1)))) (\<lambda>ks.
        bindr (print_blocks False (take (nat (NumDirect - 1)) (dataSectors h)) 0 (numBytes h) s1) (\<lambda>(s2, out1, k).
        bindr (ReadSector ib s2) (\<lambda>(s3, bs').
        bindr (print_blocks True ks k (numBytes h) s3) (\<lambda>(s4, out2, k').
          Inr (s4, PrInt (numBytes h) # map PrInt (take (nat (NumDirect - 1)) (dataSectors h)) @
            [PrText ''Indirect Index'', PrInt ib] @ map PrInt ks @ PrText ''File contents'' # out1 @ out2))))))))"

section \<open>The header on disk\<close>

definition hdr_ok :: "FileHeader \<Rightarrow> bool" where
  "hdr_ok h \<longleftrightarrow> fits32 (numBytes h) \<and> fits32 (numSectors h) \<and> fits32 (sectorNumber h) \<and>
     length (dataSectors h) = nat NumDirect \<and> (\<forall>z \<in> set (dataSectors h). fits32 z) \<and>
     length (ftype h) = 5 \<and> length (create_time h) = 25 \<and> length (last_v_time h) = 25 \<and> length (last_m_time h) = 25"

lemma length_int_bytes [simp]: "length (int_bytes z) = 4"
  by (simp add: int_bytes_def)

lemma length_ints_bytes [simp]: "length (ints_bytes zs) = 4 * length zs"
  by (induction zs) (simp_all add: ints_bytes_def)

lemma bytes_int_bytes [simp]: "fits32 z \<Longrightarrow> bytes_int (int_bytes z) = z"
  by (simp add: bytes_int_def int_bytes_def sint_of_fits32)

lemma bytes_ints_bytes [simp]: "\<forall>z \<in> set zs. fits32 z \<Longrightarrow> bytes_ints (ints_bytes zs) = zs"
proof -
  assume fits: "\<forall>z \<in> set zs. fits32 z"
  have "int_bytes = (\<lambda>z. le32 (word_of_int z))" by (rule ext) (simp add: int_bytes_def)
  then have "ints_bytes zs = concat (map le32 (map word_of_int zs))"
    by (simp add: ints_bytes_def comp_def)
  then have "words_of_bytes (ints_bytes zs) = map word_of_int zs" by (simp only: words_of_bytes_bytes)
  then show ?thesis using fits by (simp add: bytes_ints_def sint_of_fits32 map_idI)
qed

lemma length_hdr_bytes: "hdr_ok h \<Longrightarrow> length (hdr_bytes h) = nat SectorSize"
  by (simp add: hdr_bytes_def hdr_ok_def NumDirect_def SectorSize_def)

lemma bytes_hdr_bytes: "hdr_ok h \<Longrightarrow> bytes_hdr (hdr_bytes h) = h"
  by (simp add: hdr_bytes_def bytes_hdr_def hdr_ok_def NumDirect_def)

lemma WriteBack_ok:
  assumes "sd_ok s" "valid_sector sec" "hdr_ok h"
  shows "\<exists>s'. WriteBack sec h s = Inr s' \<and> sd_ok s' \<and> image s' = (image s)(nat sec := hdr_bytes h) \<and> sd_frame s s'"
  using WriteSector_ok [OF assms(1,2) length_hdr_bytes [OF assms(3)]] by (auto simp: WriteBack_def)

lemma FetchFrom_ok:
  assumes "sd_ok s" "valid_sector sec"
  shows "\<exists>s'. FetchFrom sec s = Inr (s', bytes_hdr (image s (nat sec))) \<and> sd_ok s' \<and> image s' = image s \<and> sd_frame s s'"
  using ReadSector_ok [OF assms] by (auto simp: FetchFrom_def)

text \<open>
  (C35) A file header survives the disk: for every header whose numbers fit in 32 bits and whose arrays
  have their declared lengths, \<^verbatim>\<open>WriteBack\<close> followed by \<^verbatim>\<open>FetchFrom\<close> of the same sector returns that header,
  field by field, and changes no other sector.
\<close>

theorem FileHeader_disk_roundtrip:
  assumes "sd_ok s" "valid_sector sec" "hdr_ok h"
  shows "\<exists>s1 s2. WriteBack sec h s = Inr s1 \<and> FetchFrom sec s1 = Inr (s2, h) \<and> sd_ok s2 \<and>
     (\<forall>n. n \<noteq> nat sec \<longrightarrow> image s2 n = image s n)"
proof -
  obtain s1 where s1: "WriteBack sec h s = Inr s1" "sd_ok s1" "image s1 = (image s)(nat sec := hdr_bytes h)"
    using WriteBack_ok [OF assms] by blast
  obtain s2 where "FetchFrom sec s1 = Inr (s2, bytes_hdr (image s1 (nat sec)))" "sd_ok s2" "image s2 = image s1"
    using FetchFrom_ok [OF s1(2) assms(2)] by blast
  with s1 bytes_hdr_bytes [OF assms(3)] show ?thesis by auto
qed

definition sample_hdr :: FileHeader where
  "sample_hdr = \<lparr>numBytes = 300, numSectors = 3, dataSectors = [7, 8, 9, -1, 0, 0, 0, 0, 2147483647],
     ftype = [1, 2, 3, 4, 0], create_time = replicate 25 65, last_v_time = replicate 25 66, last_m_time = replicate 25 67,
     sectorNumber = 5\<rparr>"

theorem FileHeader_disk_roundtrip_witness:
  "\<exists>s1 s2. WriteBack 5 sample_hdr fresh_synch = Inr s1 \<and> FetchFrom 5 s1 = Inr (s2, sample_hdr)"
  using FileHeader_disk_roundtrip [OF fresh_synch_ok, of 5 sample_hdr]
  by (auto simp: valid_sector_def disk_consts hdr_ok_def sample_hdr_def fits32_def NumDirect_def)

section \<open>Allocation of data sectors\<close>

lemma fill_run_ok:
  "0 \<le> i \<Longrightarrow> i \<le> n \<Longrightarrow> n \<le> int (length arr) \<Longrightarrow>
   fill_run arr base i n = Inr (take (nat i) arr @ map (\<lambda>j. base + int j) [nat i..<nat n] @ drop (nat n) arr)"
proof (induction arr base i n rule: fill_run.induct)
  case (1 arr base i n)
  show ?case
  proof (cases "i < n")
    case True
    let ?a = "arr[nat i := base + i]"
    have s: "arr_set arr i (base + i) = Inr ?a" using True "1.prems" by simp
    have "fill_run arr base i n = fill_run ?a base (i + 1) n"
      using True s by (subst fill_run.simps) simp
    also have "\<dots> = Inr (take (nat (i + 1)) ?a @ map (\<lambda>j. base + int j) [nat (i + 1)..<nat n] @ drop (nat n) ?a)"
      using True "1.prems" by (intro "1.IH" [OF True s]) auto
    also have "take (nat (i + 1)) ?a = take (nat i) arr @ [base + i]"
      using True "1.prems" by (simp add: nat_add_distrib take_Suc_conv_app_nth take_update_cancel)
    also have "drop (nat n) ?a = drop (nat n) arr" using True "1.prems" by simp
    finally have r: "fill_run arr base i n = Inr ((take (nat i) arr @ [base + i]) @
        map (\<lambda>j. base + int j) [nat (i + 1)..<nat n] @ drop (nat n) arr)" .
    have "[nat i..<nat n] = nat i # [nat (i + 1)..<nat n]"
      using True "1.prems" by (simp add: upt_conv_Cons nat_add_distrib)
    then show ?thesis unfolding r using "1.prems" by simp
  next
    case False
    then have "i = n" using "1.prems" by simp
    then show ?thesis by (subst fill_run.simps) simp
  qed
qed

lemma fill_find_ok:
  assumes "0 \<le> i" "alloc_n BitMap_Find k fm = Inr (fm', ks)" "length ks = k" "i + int k \<le> int (length arr)"
  shows "fill_find arr fm i (i + int k) = Inr (take (nat i) arr @ ks @ drop (nat i + k) arr, fm')"
  using assms
proof (induction k arbitrary: arr fm i ks)
  case 0
  then show ?case by (subst fill_find.simps) simp
next
  case (Suc k)
  from Suc.prems(2) obtain fm1 x ks1 where f: "BitMap_Find fm = Inr (fm1, x)" "alloc_n BitMap_Find k fm1 = Inr (fm', ks1)"
    "ks = x # ks1" by (auto elim!: bindr_InrE)
  let ?a = "arr[nat i := x]"
  have "fill_find arr fm i (i + int (Suc k)) = fill_find ?a fm1 (i + 1) ((i + 1) + int k)"
    using Suc.prems f by (subst fill_find.simps) (simp add: add.assoc)
  also have "\<dots> = Inr (take (nat (i + 1)) ?a @ ks1 @ drop (nat (i + 1) + k) ?a, fm')"
    using Suc.prems f by (intro Suc.IH) auto
  also have "take (nat (i + 1)) ?a = take (nat i) arr @ [x]"
    using Suc.prems by (simp add: nat_add_distrib take_Suc_conv_app_nth take_update_cancel)
  finally show ?case using Suc.prems f by (simp add: nat_add_distrib)
qed

definition free_sectors :: "BitMap \<Rightarrow> int set" where
  "free_sectors bm = {0..<numBits bm} - bm_marked bm"

lemma uns_id: "0 \<le> z \<Longrightarrow> z < 2 ^ 32 \<Longrightarrow> uns z = z"
  by (simp add: uns_def)

lemma divRoundUp_range:
  assumes "0 < n" "n \<le> 128 * k"
  shows "0 < divRoundUp n SectorSize" "divRoundUp n SectorSize \<le> k"
proof -
  have "n \<le> divRoundUp n 128 * 128" "divRoundUp n 128 * 128 < n + 128"
    using divRoundUp_bounds [of n 128] assms(1) by simp_all
  then show "0 < divRoundUp n SectorSize" "divRoundUp n SectorSize \<le> k"
    using assms unfolding SectorSize_def by linarith+
qed

lemma Allocate_direct_cases:
  assumes fm: "bm_wf fm" "0 < numBits fm" and h: "length (dataSectors h) = nat NumDirect"
    and sz: "0 < fileSize" "fileSize \<le> 1024"
  shows "let ns = divRoundUp fileSize SectorSize;
      h1 = h\<lparr>numBytes := fileSize, numSectors := ns\<rparr>
    in if int (card (free_sectors fm)) < ns then Allocate junk fm fileSize h s = Inr (s, fm, h1, False)
       else if \<exists>k. 0 \<le> k \<and> k + ns \<le> numBits fm \<and> {k..<k + ns} \<subseteq> free_sectors fm
       then \<exists>fm' k. Allocate junk fm fileSize h s =
           Inr (s, fm', h1\<lparr>dataSectors := map (\<lambda>j. k + int j) [0..<nat ns] @ drop (nat ns) (dataSectors h)\<rparr>, True) \<and>
         bm_wf fm' \<and> numBits fm' = numBits fm \<and> {k..<k + ns} \<subseteq> free_sectors fm \<and>
         bm_marked fm' = bm_marked fm \<union> {k..<k + ns}
       else Allocate junk fm fileSize h s = Inl AssertFailed"
proof -
  define ns where "ns = divRoundUp fileSize SectorSize"
  have ns: "0 < ns" "ns \<le> 8" using divRoundUp_range [of fileSize 8] sz by (simp_all add: ns_def)
  have nc: "BitMap_NumClear fm = Inr (int (card (free_sectors fm)))"
    using BitMap_NumClear_ok [OF fm(1)] by (simp add: free_sectors_def)
  have small: "uns ns < NumDirect" using ns by (simp add: uns_id NumDirect_def)
  have free_iff: "{k..<k + ns} \<subseteq> free_sectors fm \<longleftrightarrow> {k..<k + ns} \<inter> bm_marked fm = {}"
    if "0 \<le> k" "k + ns \<le> numBits fm" for k
    using that by (auto simp: free_sectors_def)
  let ?run = "\<lambda>k. 0 \<le> k \<and> k + ns \<le> numBits fm \<and> {k..<k + ns} \<subseteq> free_sectors fm"
  consider (few) "int (card (free_sectors fm)) < ns" | (run) "\<not> int (card (free_sectors fm)) < ns" "Ex ?run"
    | (none) "\<not> int (card (free_sectors fm)) < ns" "\<not> Ex ?run" by blast
  then show ?thesis
  proof cases
    case few
    then show ?thesis by (simp add: Let_def Allocate_def nc flip: ns_def)
  next
    case run
    then have "\<exists>k. 0 \<le> k \<and> k + ns \<le> numBits fm \<and> {k..<k + ns} \<inter> bm_marked fm = {}" using free_iff by blast
    with ns(1) obtain fm' k where k: "BitMap_myFind fm ns = Inr (fm', k)" "0 \<le> k" "k + ns \<le> numBits fm"
      "{k..<k + ns} \<inter> bm_marked fm = {}" "bm_wf fm'" "numBits fm' = numBits fm" "bm_marked fm' = bm_marked fm \<union> {k..<k + ns}"
      using myFind_run_ok [OF fm(1), of ns] by force
    have "fill_run (dataSectors h) k 0 ns = Inr (map (\<lambda>j. k + int j) [0..<nat ns] @ drop (nat ns) (dataSectors h))"
      using fill_run_ok [of 0 ns "dataSectors h" k] ns h by (simp add: NumDirect_def)
    then have "Allocate junk fm fileSize h s = Inr (s, fm', h\<lparr>numBytes := fileSize, numSectors := ns,
        dataSectors := map (\<lambda>j. k + int j) [0..<nat ns] @ drop (nat ns) (dataSectors h)\<rparr>, True)"
      using run(1) small k by (simp add: Allocate_def Let_def nc flip: ns_def)
    with run k free_iff [of k] show ?thesis by (auto simp: Let_def simp flip: ns_def)
  next
    case none
    have "2 \<le> ns"
    proof (rule ccontr)
      assume "\<not> 2 \<le> ns"
      then have "ns = 1" using ns by simp
      moreover from none(1) ns(1) have "free_sectors fm \<noteq> {}" by auto
      then obtain k where "k \<in> free_sectors fm" by blast
      ultimately have "?run k" by (auto simp: free_sectors_def)
      with none(2) show False by blast
    qed
    moreover have "\<not> (\<exists>k. 0 \<le> k \<and> k + ns \<le> numBits fm \<and> {k..<k + ns} \<inter> bm_marked fm = {})"
      using none(2) free_iff by blast
    ultimately have "BitMap_myFind fm ns = Inl AssertFailed" by (intro myFind_no_run [OF fm(1) _ fm(2)])
    then show ?thesis using none small by (simp add: Allocate_def Let_def nc flip: ns_def)
  qed
qed

text \<open>
  (C36) Allocation of a file of at most eight sectors (1 to 1024 bytes). With too few free sectors it reports
  failure and leaves the free map alone. If a run of free sectors of the right length exists, it takes
  the run, marks exactly its sectors, which were free, and records them in order in the header. If
  there is enough space but no such run, it does not fall back to scattered sectors as its \<^verbatim>\<open>else\<close>
  branch intends: it aborts.
\<close>

theorem Allocate_direct:
  assumes fm: "bm_wf fm" "0 < numBits fm" and h: "length (dataSectors h) = nat NumDirect"
    and sz: "0 < fileSize" "fileSize \<le> 1024"
  shows "let ns = divRoundUp fileSize SectorSize;
      h1 = h\<lparr>numBytes := fileSize, numSectors := ns\<rparr>
    in if int (card (free_sectors fm)) < ns then Allocate junk fm fileSize h s = Inr (s, fm, h1, False)
       else if \<exists>k. 0 \<le> k \<and> k + ns \<le> numBits fm \<and> {k..<k + ns} \<subseteq> free_sectors fm
       then \<exists>fm' k. Allocate junk fm fileSize h s =
           Inr (s, fm', h1\<lparr>dataSectors := map (\<lambda>j. k + int j) [0..<nat ns] @ drop (nat ns) (dataSectors h)\<rparr>, True) \<and>
         bm_wf fm' \<and> numBits fm' = numBits fm \<and> {k..<k + ns} \<subseteq> free_sectors fm \<and>
         bm_marked fm' = bm_marked fm \<union> {k..<k + ns}
       else Allocate junk fm fileSize h s = Inl AssertFailed"
  using assms by (rule Allocate_direct_cases)

theorem Allocate_direct_witness:
  "\<exists>fm' k. Allocate [] \<lparr>numBits = 32, numWords = 1, bmap = [3]\<rparr> 200 sample_hdr fresh_synch =
     Inr (fresh_synch, fm', sample_hdr\<lparr>numBytes := 200, numSectors := 2, dataSectors := [k, k + 1, 9, -1, 0, 0, 0, 0, 2147483647]\<rparr>, True)"
proof -
  let ?bm = "\<lparr>numBits = 32, numWords = 1, bmap = [3]\<rparr>"
  have wf: "bm_wf ?bm" by (simp add: bm_wf_def divRoundUp_nonneg BitsInWord_def)
  have run: "{10..<12} \<subseteq> free_sectors ?bm"
  proof
    fix i :: int assume "i \<in> {10..<12}"
    then have "i = 10 \<or> i = 11" by auto
    then show "i \<in> free_sectors ?bm" by (auto simp: free_sectors_def bm_marked_def bm_bit_def)
  qed
  then have "card {10..<12 :: int} \<le> card (free_sectors ?bm)"
    by (intro card_mono) (auto simp: free_sectors_def)
  then have "2 \<le> card (free_sectors ?bm)" by simp
  moreover have ns: "divRoundUp 200 SectorSize = 2" by (simp add: divRoundUp_nonneg SectorSize_def)
  moreover have "\<exists>k. 0 \<le> k \<and> k + 2 \<le> numBits ?bm \<and> {k..<k + 2} \<subseteq> free_sectors ?bm"
    using run by (intro exI [of _ 10]) simp
  ultimately show ?thesis
    using Allocate_direct [OF wf, of sample_hdr 200 "[]" fresh_synch]
    by (auto simp: Let_def NumDirect_def sample_hdr_def upt_rec numeral_2_eq_2 numeral_3_eq_3)
qed

lemma clear_direct_ok:
  "bm_wf fm \<Longrightarrow> 0 \<le> i \<Longrightarrow> n \<le> int (length ds) \<Longrightarrow>
   (\<forall>j. i \<le> j \<and> j < n \<longrightarrow> 0 \<le> ds ! nat j \<and> ds ! nat j < numBits fm) \<Longrightarrow>
   (check \<longrightarrow> (\<forall>j. i \<le> j \<and> j < n \<longrightarrow> ds ! nat j \<in> bm_marked fm) \<and>
      (\<forall>j k. i \<le> j \<and> j < k \<and> k < n \<longrightarrow> ds ! nat j \<noteq> ds ! nat k)) \<Longrightarrow>
   \<exists>fm'. clear_direct ds check fm i n = Inr fm' \<and> bm_wf fm' \<and> numBits fm' = numBits fm \<and>
     bm_marked fm' = bm_marked fm - {ds ! nat j | j. i \<le> j \<and> j < n}"
proof (induction ds check fm i n rule: clear_direct.induct)
  case (1 ds check fm i n)
  show ?case
  proof (cases "i < n")
    case True
    let ?k = "ds ! nat i"
    have g: "arr_get ds i = Inr ?k" using True "1.prems" by simp
    have k: "0 \<le> ?k" "?k < numBits fm" using "1.prems"(4) True by auto
    have t: "(if check then bindr (BitMap_Test fm ?k) ASSERT else Inr ()) = Inr ()"
    proof (cases check)
      case c: True
      then have "?k \<in> bm_marked fm" using "1.prems"(5) True by auto
      then show ?thesis using BitMap_Test_ok [OF "1.prems"(1) k] c by simp
    qed simp
    obtain fm1 where f1: "BitMap_Clear fm ?k = Inr fm1" "bm_wf fm1" "numBits fm1 = numBits fm" "bm_marked fm1 = bm_marked fm - {?k}"
      using BitMap_Clear_ok [OF "1.prems"(1) k] by blast
    have nx: "i \<le> j \<and> j < n \<longleftrightarrow> j = i \<or> i + 1 \<le> j \<and> j < n" for j using True by auto
    have "\<exists>fm'. clear_direct ds check fm1 (i + 1) n = Inr fm' \<and> bm_wf fm' \<and> numBits fm' = numBits fm1 \<and>
        bm_marked fm' = bm_marked fm1 - {ds ! nat j | j. i + 1 \<le> j \<and> j < n}"
    proof (rule "1.IH" [OF True g t f1(1) f1(2)])
      show "\<forall>j. i + 1 \<le> j \<and> j < n \<longrightarrow> 0 \<le> ds ! nat j \<and> ds ! nat j < numBits fm1" using "1.prems"(4) f1(3) by auto
      show "check \<longrightarrow> (\<forall>j. i + 1 \<le> j \<and> j < n \<longrightarrow> ds ! nat j \<in> bm_marked fm1) \<and>
          (\<forall>j k. i + 1 \<le> j \<and> j < k \<and> k < n \<longrightarrow> ds ! nat j \<noteq> ds ! nat k)"
      proof (intro impI conjI allI)
        fix j assume c: check and j: "i + 1 \<le> j \<and> j < n"
        then have "ds ! nat j \<in> bm_marked fm" "?k \<noteq> ds ! nat j" using "1.prems"(5) by auto
        then show "ds ! nat j \<in> bm_marked fm1" by (simp add: f1(4))
      qed (use "1.prems"(5) in auto)
    qed (use "1.prems" in auto)
    then obtain fm' where f: "clear_direct ds check fm1 (i + 1) n = Inr fm'" "bm_wf fm'" "numBits fm' = numBits fm1"
        "bm_marked fm' = bm_marked fm1 - {ds ! nat j | j. i + 1 \<le> j \<and> j < n}" by blast
    have "clear_direct ds check fm i n = Inr fm'"
      using True g t f1(1) f(1) by (subst clear_direct.simps) simp
    moreover have "bm_marked fm' = bm_marked fm - {ds ! nat j | j. i \<le> j \<and> j < n}"
      unfolding f(4) f1(4) nx by auto
    ultimately show ?thesis using f f1(3) by auto
  next
    case False
    then have "{ds ! nat j | j. i \<le> j \<and> j < n} = {}" by auto
    with False "1.prems" show ?thesis by (subst clear_direct.simps) auto
  qed
qed

text \<open>
  (C37) \<^verbatim>\<open>Deallocate\<close> undoes \<^verbatim>\<open>Allocate\<close> for files of at most eight sectors: when the allocation succeeded, the
  deallocation with the resulting header succeeds, all its checks that the sectors are marked pass,
  and the free map is again the set it was before.
\<close>

theorem Deallocate_undoes_Allocate:
  assumes fm: "bm_wf fm" "0 < numBits fm" and h: "length (dataSectors h) = nat NumDirect"
    and sz: "0 < fileSize" "fileSize \<le> 1024"
    and al: "Allocate junk fm fileSize h s = Inr (s1, fm1, h1, True)"
  shows "\<exists>fm2. Deallocate fm1 h1 s1 = Inr (s1, fm2) \<and> bm_wf fm2 \<and> numBits fm2 = numBits fm \<and> bm_marked fm2 = bm_marked fm"
proof -
  define ns where "ns = divRoundUp fileSize SectorSize"
  have ns: "0 < ns" "ns \<le> 8" using divRoundUp_range [of fileSize 8] sz by (simp_all add: ns_def)
  note cases = Allocate_direct_cases [OF fm h sz, of junk s, unfolded Let_def, folded ns_def]
  obtain k where k: "h1 = h\<lparr>numBytes := fileSize, numSectors := ns,
      dataSectors := map (\<lambda>j. k + int j) [0..<nat ns] @ drop (nat ns) (dataSectors h)\<rparr>"
    "bm_wf fm1" "numBits fm1 = numBits fm" "{k..<k + ns} \<subseteq> free_sectors fm" "bm_marked fm1 = bm_marked fm \<union> {k..<k + ns}"
    using cases al by (auto split: if_splits)
  let ?ds = "dataSectors h1"
  have nth: "?ds ! nat j = k + j" if "0 \<le> j" "j < ns" for j
    using that k(1) by (simp add: nth_append)
  have len: "length ?ds = 9" using k(1) ns h by (simp add: NumDirect_def)
  have kr: "0 \<le> k + j" "k + j < numBits fm" "k + j \<notin> bm_marked fm" if "0 \<le> j" "j < ns" for j
  proof -
    have "k + j \<in> {k..<k + ns}" using that by simp
    from subsetD [OF k(4) this] show "0 \<le> k + j" "k + j < numBits fm" "k + j \<notin> bm_marked fm"
      by (auto simp: free_sectors_def)
  qed
  have "\<exists>fm2. clear_direct ?ds True fm1 0 ns = Inr fm2 \<and> bm_wf fm2 \<and> numBits fm2 = numBits fm1 \<and>
     bm_marked fm2 = bm_marked fm1 - {?ds ! nat j | j. 0 \<le> j \<and> j < ns}"
    using k(2,3,5) nth kr len ns by (intro clear_direct_ok) (auto simp: nat_le_eq_zle)
  then obtain fm2 where f: "clear_direct ?ds True fm1 0 ns = Inr fm2" "bm_wf fm2" "numBits fm2 = numBits fm1"
     "bm_marked fm2 = bm_marked fm1 - {?ds ! nat j | j. 0 \<le> j \<and> j < ns}" by blast
  have "{?ds ! nat j | j. 0 \<le> j \<and> j < ns} = {k..<k + ns}"
  proof
    show "{?ds ! nat j | j. 0 \<le> j \<and> j < ns} \<subseteq> {k..<k + ns}" using nth by auto
    show "{k..<k + ns} \<subseteq> {?ds ! nat j | j. 0 \<le> j \<and> j < ns}"
    proof
      fix x assume "x \<in> {k..<k + ns}"
      then have "x = ?ds ! nat (x - k)" "0 \<le> x - k" "x - k < ns" using nth [of "x - k"] by auto
      then show "x \<in> {?ds ! nat j | j. 0 \<le> j \<and> j < ns}" by blast
    qed
  qed
  moreover have "bm_marked fm \<inter> {k..<k + ns} = {}" using k(4) by (auto simp: free_sectors_def)
  ultimately have "bm_marked fm2 = bm_marked fm" using f(4) k(5) by auto
  moreover have "numSectors h1 = ns" "uns ns < NumDirect" using k(1) ns by (simp_all add: uns_id NumDirect_def)
  ultimately show ?thesis using f k(3) by (simp add: Deallocate_def)
qed

theorem Deallocate_undoes_Allocate_witness:
  "\<exists>s1 fm1 h1 fm2. Allocate [] \<lparr>numBits = 32, numWords = 1, bmap = [3]\<rparr> 100 sample_hdr fresh_synch = Inr (s1, fm1, h1, True) \<and>
     Deallocate fm1 h1 s1 = Inr (s1, fm2) \<and> bm_marked fm2 = bm_marked \<lparr>numBits = 32, numWords = 1, bmap = [3]\<rparr>"
proof -
  let ?bm = "\<lparr>numBits = 32, numWords = 1, bmap = [3]\<rparr>"
  have wf: "bm_wf ?bm" by (simp add: bm_wf_def divRoundUp_nonneg BitsInWord_def)
  have l: "length (dataSectors sample_hdr) = nat NumDirect" by (simp add: sample_hdr_def NumDirect_def)
  have f: "10 \<in> free_sectors ?bm" by (simp add: free_sectors_def bm_marked_def bm_bit_def)
  then have "card {10 :: int} \<le> card (free_sectors ?bm)" by (intro card_mono) (auto simp: free_sectors_def)
  moreover have ns: "divRoundUp 100 SectorSize = 1" by (simp add: divRoundUp_nonneg SectorSize_def)
  moreover have "\<exists>k. 0 \<le> k \<and> k + 1 \<le> numBits ?bm \<and> {k..<k + 1} \<subseteq> free_sectors ?bm"
  proof (intro exI [of _ 10] conjI)
    have "{10..<10 + 1 :: int} = {10}" by auto
    then show "{10..<10 + 1} \<subseteq> free_sectors ?bm" using f by simp
  qed simp_all
  ultimately obtain fm1 h1 where al: "Allocate [] ?bm 100 sample_hdr fresh_synch = Inr (fresh_synch, fm1, h1, True)"
    using Allocate_direct_cases [OF wf _ l, of 100 "[]" fresh_synch] by (auto simp: Let_def)
  from Deallocate_undoes_Allocate [OF wf _ l _ _ al] al show ?thesis by auto
qed

text \<open>
  Files of more than eight sectors: nine entries of the header and one index block, whose entries name
  the remaining sectors. \<open>ns + 1\<close> sectors are taken, one more than the test at the top asks for.
\<close>

text \<open>\<^verbatim>\<open>Find\<close> takes the lowest free sector, so nothing below an allocated sector is free afterwards.\<close>

lemma alloc_lowest:
  assumes "bm_wf bm" "n \<le> card (free_sectors bm)" "alloc_n BitMap_Find n bm = Inr (bm', ks)" "k \<in> set ks"
  shows "{0..<k} \<subseteq> bm_marked bm'"
  using assms
proof (induction n arbitrary: bm ks)
  case (Suc n)
  have "free_sectors bm \<noteq> {}" using Suc.prems(2) by auto
  then have "bm_marked bm \<noteq> {0..<numBits bm}" by (auto simp: free_sectors_def)
  then obtain bm1 x where x: "BitMap_Find bm = Inr (bm1, x)" "0 \<le> x" "x < numBits bm" "x \<notin> bm_marked bm" "{0..<x} \<subseteq> bm_marked bm" "bm_wf bm1"
    "numBits bm1 = numBits bm" "bm_marked bm1 = insert x (bm_marked bm)" using BitMap_Find_free [OF Suc.prems(1)] by metis
  have "free_sectors bm1 = free_sectors bm - {x}" "x \<in> free_sectors bm" using x by (auto simp: free_sectors_def)
  then have n: "n \<le> card (free_sectors bm1)" using Suc.prems(2) by simp
  then have fc: "n \<le> bma.free_count bm1" by (simp add: bma.free_count_def free_sectors_def)
  obtain ks1 where ks1: "alloc_n BitMap_Find n bm1 = Inr (bm', ks1)" "ks = x # ks1" using Suc.prems(3) x(1) by (auto elim!: bindr_InrE)
  have "bm_marked bm' = bm_marked bm1 \<union> set ks1" using bma.alloc_n_ok [OF x(6) fc] ks1(1) by auto
  then show ?case using Suc.IH [OF x(6) n ks1(1)] Suc.prems(4) ks1(2) x(5,8) by auto
qed simp

lemma Allocate_indirect_ok:
  assumes fm: "bm_wf fm" "numBits fm = NumSectors" and h: "length (dataSectors h) = nat NumDirect"
    and junk: "length junk = 32" and ns: "ns = divRoundUp fileSize SectorSize" "9 \<le> ns" "ns \<le> 40"
    and enough: "ns + 1 \<le> int (card (free_sectors fm))" and ok: "sd_ok s"
  shows "\<exists>s' fm' ds ks. Allocate junk fm fileSize h s =
      Inr (s', fm', h\<lparr>numBytes := fileSize, numSectors := ns, dataSectors := ds\<rparr>, True) \<and> sd_ok s' \<and> sd_frame s s' \<and>
    length ds = 9 \<and> length ks = nat (ns - 8) \<and> distinct (ds @ ks) \<and> set (ds @ ks) \<subseteq> free_sectors fm \<and>
    bm_wf fm' \<and> numBits fm' = numBits fm \<and> bm_marked fm' = bm_marked fm \<union> set (ds @ ks) \<and>
    image s' = (image s)(nat (ds ! 8) := ints_bytes (ks @ drop (nat (ns - 8)) junk)) \<and> (\<forall>k \<in> set (ds @ ks). {0..<k} \<subseteq> bm_marked fm')"
proof -
  have nc: "BitMap_NumClear fm = Inr (int (card (free_sectors fm)))"
    using BitMap_NumClear_ok [OF fm(1)] by (simp add: free_sectors_def)
  have fc: "bma.free_count b = card (free_sectors b)" for b by (simp add: bma.free_count_def free_sectors_def)
  have "9 \<le> bma.free_count fm" using enough ns(2) by (simp add: fc)
  from bma.alloc_n_ok [OF fm(1) this] obtain fm1 ds where ds: "alloc_n BitMap_Find 9 fm = Inr (fm1, ds)" "length ds = 9"
    "distinct ds" "set ds \<subseteq> {0..<numBits fm} - bm_marked fm" "bm_wf fm1" "numBits fm1 = numBits fm"
    "bm_marked fm1 = bm_marked fm \<union> set ds" by blast
  have "free_sectors fm1 = free_sectors fm - set ds" using ds(6,7) by (auto simp: free_sectors_def)
  moreover have "set ds \<subseteq> free_sectors fm" using ds(4) by (simp add: free_sectors_def)
  ultimately have "card (free_sectors fm1) = card (free_sectors fm) - 9"
    using ds(2,3) by (simp add: card_Diff_subset distinct_card)
  then have "nat (ns - 8) \<le> bma.free_count fm1" using enough ns(2) by (simp add: fc)
  from bma.alloc_n_ok [OF ds(5) this] obtain fm2 ks where ks: "alloc_n BitMap_Find (nat (ns - 8)) fm1 = Inr (fm2, ks)"
    "length ks = nat (ns - 8)" "distinct ks" "set ks \<subseteq> {0..<numBits fm1} - bm_marked fm1" "bm_wf fm2"
    "numBits fm2 = numBits fm1" "bm_marked fm2 = bm_marked fm1 \<union> set ks" by blast
  have f1: "fill_find (dataSectors h) fm 0 NumDirect = Inr (ds, fm1)"
    using fill_find_ok [of 0 9 fm fm1 ds "dataSectors h"] ds(1,2) h by (simp add: NumDirect_def)
  have f2: "fill_find junk fm1 0 (uns (ns - NumDirect + 1)) = Inr (ks @ drop (nat (ns - 8)) junk, fm2)"
    using fill_find_ok [of 0 "nat (ns - 8)" fm1 fm2 ks junk] ks(1,2) ns(2,3) junk by (simp add: NumDirect_def uns_id)
  have "ds ! 8 \<in> set ds" using ds(2) by simp
  then have v: "valid_sector (ds ! 8)" using ds(4) fm(2) by (auto simp: valid_sector_def)
  have "length (ints_bytes (ks @ drop (nat (ns - 8)) junk)) = nat SectorSize"
    using ks(2) junk ns(2,3) by (simp add: SectorSize_def)
  from WriteSector_ok [OF ok v this] obtain s' where s': "WriteSector (ds ! 8) (ints_bytes (ks @ drop (nat (ns - 8)) junk)) s = Inr s'"
    "sd_ok s'" "image s' = (image s)(nat (ds ! 8) := ints_bytes (ks @ drop (nat (ns - 8)) junk))" "sd_frame s s'" by blast
  have "\<not> uns ns < NumDirect" "\<not> int (card (free_sectors fm)) < ns"
    using ns enough by (simp_all add: uns_id NumDirect_def)
  then have "Allocate junk fm fileSize h s =
      Inr (s', fm2, h\<lparr>numBytes := fileSize, numSectors := ns, dataSectors := ds\<rparr>, True)"
    using nc f1 f2 s'(1) ds(2) unfolding Allocate_def Let_def by (simp add: NumDirect_def flip: ns(1))
  moreover have "distinct (ds @ ks)" using ds ks by auto
  moreover have "set (ds @ ks) \<subseteq> free_sectors fm" using ds ks by (auto simp: free_sectors_def)
  moreover have "{0..<k} \<subseteq> bm_marked fm2" if "k \<in> set (ds @ ks)" for k
    using alloc_lowest [OF fm(1) _ ds(1), of k] alloc_lowest [OF ds(5) _ ks(1), of k] that enough ns(2) ks(7) fc \<open>nat (ns - 8) \<le> bma.free_count fm1\<close>
    by auto
  ultimately show ?thesis using s' ds ks
    by (intro exI [of _ s'] exI [of _ fm2] exI [of _ ds] exI [of _ ks]) (simp add: Un_assoc)
qed

lemma index_entry_of_ints:
  assumes "i < length zs"
  shows "index_entry (ints_bytes zs) (int i) = Inr (sint (ucast (word_of_int (zs ! i) :: u32) :: byte))"
proof -
  have "ints_bytes zs ! (i * 4) = ucast (word_of_int (zs ! i) :: u32)"
    using assms
  proof (induction zs arbitrary: i)
    case (Cons z zs)
    have c: "ints_bytes (z # zs) = int_bytes z @ ints_bytes zs" by (simp add: ints_bytes_def)
    show ?case
    proof (cases i)
      case 0
      then show ?thesis by (simp add: c nth_append) (simp add: int_bytes_def le32_def)
    next
      case (Suc k)
      then show ?thesis using Cons by (simp add: c nth_append)
    qed
  qed simp
  moreover have "int i * 4 < int (length (ints_bytes zs))" using assms by simp
  moreover have "nat (int i * 4) = i * 4" by simp
  ultimately show ?thesis by (simp add: index_entry_def)
qed

lemma byte_of_sector:
  assumes "0 \<le> z" "z < NumSectors"
  shows "sint (ucast (word_of_int z :: u32) :: byte) = z \<longleftrightarrow> z < 128"
proof -
  have u: "uint (ucast (word_of_int z :: u32) :: byte) = z mod 256"
    using assms by (simp add: unsigned_ucast_eq unsigned_of_int take_bit_eq_mod disk_consts)
  have "sint (ucast (word_of_int z :: u32) :: byte) < 128" using sint_lt [of "ucast (word_of_int z :: u32) :: byte"] by simp
  moreover have "sint (ucast (word_of_int z :: u32) :: byte) = z" if "z < 128"
  proof -
    have "signed_take_bit 7 z = z" using that assms(1) by (intro signed_take_bit_int_eq_self) auto
    moreover have "z mod 256 = z" using that assms(1) by simp
    ultimately show ?thesis using u by (simp add: sint_uint)
  qed
  ultimately show ?thesis by force
qed

text \<open>\<^verbatim>\<open>ByteToSector\<close> on a header with eight blocks and an index block that holds the others.\<close>

lemma ByteToSector_indexed:
  assumes ds: "length ds = 9" "dataSectors h = ds" and ks: "length ks = nat (ns - 8)" "9 \<le> ns" "ns \<le> 40"
    and s1: "sd_ok s1" "valid_sector (ds ! 8)" "image s1 (nat (ds ! 8)) = ints_bytes (ks @ rest)"
    and blocks: "blocks = take 8 ds @ ks" "\<forall>k \<in> set blocks. 0 \<le> k \<and> k < NumSectors" and off: "0 \<le> offset" "offset < ns * 128"
  shows "\<exists>s2 k. ByteToSector h offset s1 = Inr (s2, k) \<and>
        (k = blocks ! nat (offset div 128) \<longleftrightarrow> offset < 1024 \<or> blocks ! nat (offset div 128) < 128)"
proof (cases "offset < 1024")
  case True
  then have o: "offset div 128 < 8" "nat (offset div 128) < 8" by auto
  then have "blocks ! nat (offset div 128) = ds ! nat (offset div 128)" using ds(1) by (simp add: blocks(1) nth_append)
  moreover have "ByteToSector h offset s1 = Inr (s1, ds ! nat (offset div 128))"
    using True off(1) o ds by (simp add: ByteToSector_def uns_id NumDirect_def SectorSize_def)
  ultimately show ?thesis using True by auto
next
  case False
  have od: "0 \<le> offset div 128" "offset div 128 < ns" using off by auto
  have "blocks ! nat (offset div 128) \<in> set blocks" using od ks ds(1) by (intro nth_mem) (simp add: blocks(1))
  then have z: "0 \<le> blocks ! nat (offset div 128)" "blocks ! nat (offset div 128) < NumSectors" using blocks(2) by blast+
  define t where "t = nat (offset div 128) - 8"
  have t: "t < length ks" "int t = (offset - 1024) div 128" "nat (offset div 128) = 8 + t"
    using False od ks by (auto simp: t_def)
  obtain s2 where s2: "ReadSector (ds ! 8) s1 = Inr (s2, ints_bytes (ks @ rest))" using ReadSector_ok [OF s1(1,2)] s1(3) by auto
  have "index_entry (ints_bytes (ks @ rest)) (int t) = Inr (sint (ucast (word_of_int (ks ! t) :: u32) :: byte))"
    using index_entry_of_ints [of t "ks @ rest"] t(1) by (simp add: nth_append)
  moreover have "blocks ! nat (offset div 128) = ks ! t" using t(3) ds(1) by (simp add: blocks(1) nth_append)
  moreover have "uns offset = offset" "uns (offset - 1024) = offset - 1024" using False off ks(3) by (auto intro!: uns_id)
  ultimately have "ByteToSector h offset s1 = Inr (s2, sint (ucast (word_of_int (blocks ! nat (offset div 128)) :: u32) :: byte))"
    using False s2 t(2) ds by (simp add: ByteToSector_def NumDirect_def SectorSize_def)
  then show ?thesis using byte_of_sector [OF z] False by auto
qed

text \<open>
  (C38) Large files (9 to 40 sectors). When enough sectors are free, the allocation succeeds: the file's
  blocks are distinct sectors that were free, one for every 128 bytes, and the index block is one more; exactly these become
  marked. The header holds the first eight blocks and the index block, and the index block, on the disk, holds the others.
  But \<^verbatim>\<open>ByteToSector\<close> finds the block of an offset only in the first 1024 bytes, or when the
  block's number is below 128: it reads entries of the index block as single signed bytes.
\<close>

theorem ByteToSector_large_file:
  assumes fm: "bm_wf fm" "numBits fm = NumSectors" and h: "length (dataSectors h) = nat NumDirect"
    and junk: "length junk = 32" and sz: "1024 < fileSize" "fileSize \<le> 5120"
    and enough: "divRoundUp fileSize SectorSize + 1 \<le> int (card (free_sectors fm))" and ok: "sd_ok s"
  shows "\<exists>s1 fm' h' blocks idx. Allocate junk fm fileSize h s = Inr (s1, fm', h', True) \<and> sd_ok s1 \<and>
     length blocks = nat (divRoundUp fileSize SectorSize) \<and> distinct (idx # blocks) \<and> set (idx # blocks) \<subseteq> free_sectors fm \<and>
     bm_marked fm' = bm_marked fm \<union> set (idx # blocks) \<and> dataSectors h' = take 8 blocks @ [idx] \<and>
     image s1 (nat idx) = ints_bytes (drop 8 blocks @ drop (length blocks - 8) junk) \<and>
     (\<forall>offset. 0 \<le> offset \<and> offset < fileSize \<longrightarrow> (\<exists>s2 k. ByteToSector h' offset s1 = Inr (s2, k) \<and>
        (k = blocks ! nat (offset div 128) \<longleftrightarrow> offset < 1024 \<or> blocks ! nat (offset div 128) < 128)))"
proof -
  define ns where "ns = divRoundUp fileSize SectorSize"
  have b: "fileSize \<le> ns * 128" "ns * 128 < fileSize + 128"
    using divRoundUp_bounds [of fileSize 128] sz by (simp_all add: ns_def SectorSize_def)
  then have ns: "9 \<le> ns" "ns \<le> 40" using sz by linarith+
  obtain s1 fm' ds ks where al: "Allocate junk fm fileSize h s =
      Inr (s1, fm', h\<lparr>numBytes := fileSize, numSectors := ns, dataSectors := ds\<rparr>, True)" "sd_ok s1"
    "length ds = 9" "length ks = nat (ns - 8)" "distinct (ds @ ks)" "set (ds @ ks) \<subseteq> free_sectors fm"
    "bm_marked fm' = bm_marked fm \<union> set (ds @ ks)"
    "image s1 = (image s)(nat (ds ! 8) := ints_bytes (ks @ drop (nat (ns - 8)) junk))"
    using Allocate_indirect_ok [OF fm h junk ns_def ns enough [folded ns_def] ok] by blast
  let ?h = "h\<lparr>numBytes := fileSize, numSectors := ns, dataSectors := ds\<rparr>"
  obtain xs idx where ds: "ds = xs @ [idx]" "length xs = 8" using al(3) by (cases ds rule: rev_cases) auto
  then have i8: "ds ! 8 = idx" "take 8 ds = xs" by (simp_all add: nth_append)
  let ?b = "xs @ ks"
  have bl: "length ?b = nat ns" using ds(2) al(4) ns by simp
  have fr: "set (idx # ?b) \<subseteq> free_sectors fm" "distinct (idx # ?b)" "bm_marked fm' = bm_marked fm \<union> set (idx # ?b)"
    using al(5-7) ds(1) by auto
  have v: "valid_sector (ds ! 8)" "\<forall>k \<in> set ?b. 0 \<le> k \<and> k < NumSectors"
    using fr(1) fm(2) i8(1) by (auto simp: valid_sector_def free_sectors_def)
  have im: "image s1 (nat idx) = ints_bytes (ks @ drop (nat (ns - 8)) junk)" using al(8) i8(1) by simp
  have look: "\<exists>s2 k. ByteToSector ?h offset s1 = Inr (s2, k) \<and>
        (k = ?b ! nat (offset div 128) \<longleftrightarrow> offset < 1024 \<or> ?b ! nat (offset div 128) < 128)"
    if "0 \<le> offset" "offset < fileSize" for offset
    using ByteToSector_indexed [OF al(3) _ al(4) ns al(2) v(1) _ _ v(2), of ?h "drop (nat (ns - 8)) junk" offset] that b(1) im i8 by simp
  have "length ?b - 8 = nat (ns - 8)" using bl by simp
  then have im': "image s1 (nat idx) = ints_bytes (drop 8 ?b @ drop (length ?b - 8) junk)" using im ds(2) by simp
  have hd: "dataSectors ?h = take 8 ?b @ [idx]" using ds by simp
  note all = al(1,2) bl [unfolded ns_def] fr(2,1,3) hd im'
  show ?thesis
    by (rule exI [of _ s1], rule exI [of _ fm'], rule exI [of _ ?h], rule exI [of _ ?b], rule exI [of _ idx]) (use all look in blast)
qed

definition empty_map :: BitMap where
  "empty_map = \<lparr>numBits = 1024, numWords = 32, bmap = replicate 32 0\<rparr>"

lemma empty_map_ok: "bm_wf empty_map" "bm_marked empty_map = {}" "numBits empty_map = NumSectors"
proof -
  show "bm_wf empty_map" by (simp add: empty_map_def bm_wf_def divRoundUp_nonneg BitsInWord_def)
  show "numBits empty_map = NumSectors" by (simp add: empty_map_def disk_consts)
  have "replicate 32 (0 :: u32) ! nat (i div 32) = 0" if "0 \<le> i" "i < 1024" for i :: int
    using that track_bounds [OF that] by simp
  then show "bm_marked empty_map = {}" by (auto simp: bm_marked_def bm_bit_def empty_map_def)
qed

theorem ByteToSector_large_file_witness:
  "\<exists>s1 fm' h' blocks s2 k. Allocate (replicate 32 0) empty_map 2000 sample_hdr fresh_synch = Inr (s1, fm', h', True) \<and>
     length blocks = 16 \<and> distinct blocks \<and> take 8 blocks = take 8 (dataSectors h') \<and> ByteToSector h' 1500 s1 = Inr (s2, k) \<and>
     (k = blocks ! 11 \<longleftrightarrow> blocks ! 11 < 128)"
proof -
  have ns: "divRoundUp 2000 SectorSize = 16" by (simp add: divRoundUp_nonneg SectorSize_def)
  have c: "card (free_sectors empty_map) = 1024" by (simp add: free_sectors_def empty_map_ok disk_consts)
  have pre: "length (dataSectors sample_hdr) = nat NumDirect" "length (replicate 32 (0 :: int)) = 32"
    "divRoundUp 2000 SectorSize + 1 \<le> int (card (free_sectors empty_map))" by (simp_all add: sample_hdr_def NumDirect_def ns c)
  obtain s1 fm' h' blocks idx where A: "Allocate (replicate 32 0) empty_map 2000 sample_hdr fresh_synch = Inr (s1, fm', h', True)"
    "length blocks = nat (divRoundUp 2000 SectorSize)" "distinct (idx # blocks)" "dataSectors h' = take 8 blocks @ [idx]"
    "\<forall>offset. 0 \<le> offset \<and> offset < 2000 \<longrightarrow> (\<exists>s2 k. ByteToSector h' offset s1 = Inr (s2, k) \<and>
        (k = blocks ! nat (offset div 128) \<longleftrightarrow> offset < 1024 \<or> blocks ! nat (offset div 128) < 128))"
    using ByteToSector_large_file [OF empty_map_ok(1,3) pre(1,2) _ _ pre(3) fresh_synch_ok] by auto
  obtain s2 k where "ByteToSector h' 1500 s1 = Inr (s2, k)" "k = blocks ! 11 \<longleftrightarrow> blocks ! 11 < 128" using A(5) [rule_format, of 1500] by auto
  then show ?thesis using A(1-4) ns by auto
qed

end
