(* ===== verification/Nachos_OpenFile.thy ===== *)
theory Nachos_OpenFile
  imports Nachos_FileHdr
begin

text \<open>
  Open files (\<^verbatim>\<open>filesys/openfile.h\<close>, \<^verbatim>\<open>openfile.cc\<close>): reading and writing at a position, with the
  extension of files that are written past their end, and the two bitmap operations that go through a
  file (\<^verbatim>\<open>userprog/bitmap.cc\<close>, \<^verbatim>\<open>FetchFrom\<close> and \<^verbatim>\<open>WriteBack\<close>). The state gains what the source reads from its
  surroundings: the host's clock, as the texts \<^verbatim>\<open>asctime\<close> returns call after call, and the contents of
  fresh heap and stack memory.
\<close>

section \<open>State\<close>

record fs_sim = synch_sim +
  hostclock :: "nat \<Rightarrow> byte list"
  clock_reads :: nat
  fresh_heap :: "nat \<Rightarrow> byte"
  fresh_stack :: "int list"

record OpenFile =
  hdr :: FileHeader
  seekPosition :: int

definition fresh_buf :: "'a fs_sim_scheme \<Rightarrow> int \<Rightarrow> byte list" where
  "fresh_buf w n = map (fresh_heap w) [0..<nat n]"

definition set_time :: "char \<Rightarrow> OpenFile \<Rightarrow> 'a fs_sim_scheme \<Rightarrow> 'a fs_sim_scheme \<times> OpenFile" where
  "set_time mode f w =
     (w\<lparr>clock_reads := Suc (clock_reads w)\<rparr>, f\<lparr>hdr := SetTime mode (hostclock w (clock_reads w)) (hdr f)\<rparr>)"

definition OpenFile_new :: "int \<Rightarrow> 'a fs_sim_scheme \<Rightarrow> ('a fs_sim_scheme \<times> OpenFile) result" where
  "OpenFile_new sec w =
     bindr (FetchFrom sec w) (\<lambda>(w1, h).
     bindr (arr_get (vis_num w1) (sectorNumber h)) (\<lambda>v.
     bindr (arr_set (vis_num w1) (sectorNumber h) (v + 1)) (\<lambda>vn.
       Inr (w1\<lparr>vis_num := vn\<rparr>, \<lparr>hdr = h, seekPosition = 0\<rparr>))))"

definition OpenFile_delete :: "OpenFile \<Rightarrow> 'a fs_sim_scheme \<Rightarrow> 'a fs_sim_scheme result" where
  "OpenFile_delete f w =
     bindr (arr_get (vis_num w) (sectorNumber (hdr f))) (\<lambda>v.
     bindr (arr_set (vis_num w) (sectorNumber (hdr f)) (v - 1)) (\<lambda>vn. Inr (w\<lparr>vis_num := vn\<rparr>)))"

definition Seek :: "int \<Rightarrow> OpenFile \<Rightarrow> OpenFile" where
  "Seek position f = f\<lparr>seekPosition := position\<rparr>"

definition Length :: "OpenFile \<Rightarrow> int" where
  "Length f = FileLength (hdr f)"

definition OpenFile_Print :: "OpenFile \<Rightarrow> int" where
  "OpenFile_Print f = sectorNumber (hdr f)"

section \<open>Reading\<close>

text \<open>\<^verbatim>\<open>for (i = first; i <= last; i++) ReadSector(hdr->ByteToSector(i * SectorSize), ...)\<close>\<close>

function read_sectors ::
  "FileHeader \<Rightarrow> int \<Rightarrow> int \<Rightarrow> 'a fs_sim_scheme \<Rightarrow> ('a fs_sim_scheme \<times> byte list) result" where
  "read_sectors h i lst w =
     (if i \<le> lst then
        bindr (ByteToSector h (i * SectorSize) w) (\<lambda>(w1, k).
        bindr (ReadSector k w1) (\<lambda>(w2, bs).
        bindr (read_sectors h (i + 1) lst w2) (\<lambda>(w3, rest). Inr (w3, bs @ rest))))
      else Inr (w, []))"
  by pat_completeness auto
termination
  by (relation "measure (\<lambda>(h, i, lst, w). nat (lst + 1 - i))") auto

declare read_sectors.simps [simp del]

text \<open>\<^verbatim>\<open>bcopy(&buf[off], into, n)\<close>: the bytes that are copied.\<close>

definition slice :: "byte list \<Rightarrow> int \<Rightarrow> int \<Rightarrow> byte list result" where
  "slice buf off n =
     (if n \<le> 0 then Inr []
      else if 0 \<le> off \<and> off + n \<le> int (length buf) then Inr (take (nat n) (drop (nat off) buf))
      else Inl OutOfBounds)"

text \<open>
  \<^verbatim>\<open>ReadAt\<close> returns the bytes it puts in the buffer; their number is its result. The sum \<^verbatim>\<open>position + numBytes\<close> is a
  C int: when it overflows the behaviour is undefined, here and in \<^verbatim>\<open>WriteAt\<close>.
\<close>

definition ReadAt ::
  "int \<Rightarrow> int \<Rightarrow> OpenFile \<Rightarrow> 'a fs_sim_scheme \<Rightarrow> ('a fs_sim_scheme \<times> OpenFile \<times> byte list) result" where
  "ReadAt nbytes position f w =
     (let fileLength = FileLength (hdr f) in
      if nbytes \<le> 0 \<or> position > fileLength then Inr (w, f, [])
      else if \<not> fits32 (position + nbytes) then Inl UndefinedOp
      else let n = (if position + nbytes > fileLength then fileLength - position else nbytes);
               firstS = divRoundDown position SectorSize;
               lastS = divRoundDown (position + n - 1) SectorSize
           in bindr (read_sectors (hdr f) firstS lastS w) (\<lambda>(w1, buf).
              bindr (slice buf (position - firstS * SectorSize) n) (\<lambda>out.
                case set_time (CHR ''v'') f w1 of (w2, f1) \<Rightarrow>
                bindr (WriteBack (sectorNumber (hdr f1)) (hdr f1) w2) (\<lambda>w3. Inr (w3, f1, out)))))"

section \<open>Writing\<close>

function write_sectors ::
  "FileHeader \<Rightarrow> int \<Rightarrow> int \<Rightarrow> byte list \<Rightarrow> 'a fs_sim_scheme \<Rightarrow> 'a fs_sim_scheme result" where
  "write_sectors h i lst buf w =
     (if i \<le> lst then
        bindr (ByteToSector h (i * SectorSize) w) (\<lambda>(w1, k).
        bindr (WriteSector k (take (nat SectorSize) buf) w1) (\<lambda>w2.
          write_sectors h (i + 1) lst (drop (nat SectorSize) buf) w2))
      else Inr w)"
  by pat_completeness auto
termination
  by (relation "measure (\<lambda>(h, i, lst, buf, w). nat (lst + 1 - i))") auto

declare write_sectors.simps [simp del]

text \<open>Copying \<open>bs\<close> to \<open>&buf[off]\<close>.\<close>

definition patch :: "byte list \<Rightarrow> int \<Rightarrow> byte list \<Rightarrow> byte list result" where
  "patch buf off bs =
     (if bs = [] then Inr buf
      else if 0 \<le> off \<and> off + int (length bs) \<le> int (length buf)
      then Inr (take (nat off) buf @ bs @ drop (nat off + length bs) buf)
      else Inl OutOfBounds)"

text \<open>The words of a bitmap, read from and written to its file.\<close>

definition BitMap_FetchFrom ::
  "BitMap \<Rightarrow> OpenFile \<Rightarrow> 'a fs_sim_scheme \<Rightarrow> ('a fs_sim_scheme \<times> OpenFile \<times> BitMap) result" where
  "BitMap_FetchFrom bm f w =
     bindr (ReadAt (numWords bm * 4) 0 f w) (\<lambda>(w1, f1, bs).
     bindr (patch (BitMap_bytes bm) 0 bs) (\<lambda>image'. Inr (w1, f1, bm\<lparr>bmap := words_of_bytes image'\<rparr>)))"

text \<open>The part of \<^verbatim>\<open>WriteAt\<close> after the file is long enough.\<close>

definition write_body ::
  "byte list \<Rightarrow> int \<Rightarrow> int \<Rightarrow> OpenFile \<Rightarrow> 'a fs_sim_scheme \<Rightarrow> ('a fs_sim_scheme \<times> OpenFile \<times> int) result" where
  "write_body from nbytes position f w =
     (let firstS = divRoundDown position SectorSize;
          lastS = divRoundDown (position + nbytes - 1) SectorSize;
          numS = 1 + lastS - firstS;
          buf0 = fresh_buf w (numS * SectorSize);
          firstAligned = (position = firstS * SectorSize);
          lastAligned = (position + nbytes = (lastS + 1) * SectorSize)
      in bindr (if \<not> firstAligned then
                  bindr (ReadAt SectorSize (firstS * SectorSize) f w) (\<lambda>(w1, f1, bs).
                  bindr (patch buf0 0 bs) (\<lambda>buf. Inr (w1, f1, buf)))
                else Inr (w, f, buf0)) (\<lambda>(w1, f1, buf1).
         bindr (if \<not> lastAligned \<and> (firstS \<noteq> lastS \<or> firstAligned) then
                  bindr (ReadAt SectorSize (lastS * SectorSize) f1 w1) (\<lambda>(w2, f2, bs).
                  bindr (patch buf1 ((lastS - firstS) * SectorSize) bs) (\<lambda>buf. Inr (w2, f2, buf)))
                else Inr (w1, f1, buf1)) (\<lambda>(w2, f2, buf2).
         bindr (slice from 0 nbytes) (\<lambda>new.
         bindr (patch buf2 (position - firstS * SectorSize) new) (\<lambda>buf3.
         bindr (write_sectors (hdr f2) firstS lastS buf3 w2) (\<lambda>w3.
           case set_time (CHR ''m'') f2 w3 of (w4, f3) \<Rightarrow>
           bindr (WriteBack (sectorNumber (hdr f3)) (hdr f3) w4) (\<lambda>w5. Inr (w5, f3, nbytes))))))))"

text \<open>
  \<^verbatim>\<open>WriteAt\<close> past the end extends the file, which reads and writes the free map through its own file:
  a nested call of \<^verbatim>\<open>WriteAt\<close>. The first argument bounds the nesting; the free map file has its full
  length in a formatted file system, so a depth of 2 is enough there.
\<close>

fun WriteAt_depth ::
  "nat \<Rightarrow> byte list \<Rightarrow> int \<Rightarrow> int \<Rightarrow> OpenFile \<Rightarrow> 'a fs_sim_scheme \<Rightarrow> ('a fs_sim_scheme \<times> OpenFile \<times> int) result" where
  "WriteAt_depth 0 from nbytes position f w = Inl Diverges"
| "WriteAt_depth (Suc d) from nbytes position f w =
     (let fileLength = FileLength (hdr f) in
      if nbytes \<le> 0 \<or> position > fileLength then Inr (w, f, 0)
      else if \<not> fits32 (position + nbytes) then Inl UndefinedOp
      else
        bindr (if position + nbytes > fileLength then
                 bindr (OpenFile_new 0 w) (\<lambda>(w1, mapf).
                 bindr (BitMap_new (map (\<lambda>_. 0) [0..<32]) NumSectors) (\<lambda>bm0.
                 bindr (BitMap_FetchFrom bm0 mapf w1) (\<lambda>(w2, mapf1, bm).
                 bindr (Extend bm (position + nbytes - fileLength) (hdr f)) (\<lambda>(bm', h', _).
                 bindr (WriteBack (sectorNumber h') h' w2) (\<lambda>w3.
                 bindr (WriteAt_depth d (BitMap_bytes bm') (numWords bm' * 4) 0 mapf1 w3) (\<lambda>(w4, mapf2, _).
                 bindr (OpenFile_delete mapf2 w4) (\<lambda>w5. Inr (w5, f\<lparr>hdr := h'\<rparr>))))))))
               else Inr (w, f)) (\<lambda>(w6, f1). write_body from nbytes position f1 w6))"

definition WriteAt ::
  "byte list \<Rightarrow> int \<Rightarrow> int \<Rightarrow> OpenFile \<Rightarrow> 'a fs_sim_scheme \<Rightarrow> ('a fs_sim_scheme \<times> OpenFile \<times> int) result" where
  "WriteAt from nbytes position f w = WriteAt_depth 3 from nbytes position f w"

definition BitMap_WriteBack ::
  "BitMap \<Rightarrow> OpenFile \<Rightarrow> 'a fs_sim_scheme \<Rightarrow> ('a fs_sim_scheme \<times> OpenFile) result" where
  "BitMap_WriteBack bm f w =
     bindr (WriteAt (BitMap_bytes bm) (numWords bm * 4) 0 f w) (\<lambda>(w1, f1, _). Inr (w1, f1))"

section \<open>Sequential access\<close>

text \<open>\<^verbatim>\<open>Yield\<close> of the only thread: it goes to the ready list and is taken from it again.\<close>

definition yield_alone :: "'a fs_sim_scheme \<Rightarrow> 'a fs_sim_scheme result" where
  "yield_alone w =
     bindr (SetLevel sd_handlers no_yield IntOff w) (\<lambda>(w1, old).
     bindr (SetLevel sd_handlers no_yield old w1) (\<lambda>(w2, _). Inr w2))"

definition Read :: "int \<Rightarrow> OpenFile \<Rightarrow> 'a fs_sim_scheme \<Rightarrow> ('a fs_sim_scheme \<times> OpenFile \<times> byte list) result" where
  "Read nbytes f w =
     bindr (ReaderIn (sectorNumber (hdr f)) w) (\<lambda>w1.
     bindr (ReadAt nbytes (seekPosition f) f w1) (\<lambda>(w2, f2, bs).
     bindr (yield_alone w2) (\<lambda>w3.
       let f3 = f2\<lparr>seekPosition := seekPosition f2 + int (length bs)\<rparr> in
       bindr (ReaderOut (sectorNumber (hdr f3)) w3) (\<lambda>w4. Inr (w4, f3, bs)))))"

definition Write :: "byte list \<Rightarrow> int \<Rightarrow> OpenFile \<Rightarrow> 'a fs_sim_scheme \<Rightarrow> ('a fs_sim_scheme \<times> OpenFile \<times> int) result" where
  "Write from nbytes f w =
     bindr (WriteBegin (sectorNumber (hdr f)) w) (\<lambda>w1.
     bindr (WriteAt from nbytes (seekPosition f) f w1) (\<lambda>(w2, f2, n).
     bindr (yield_alone w2) (\<lambda>w3.
       let f3 = f2\<lparr>seekPosition := seekPosition f2 + n\<rparr> in
       bindr (WriteDone (sectorNumber (hdr f3)) w3) (\<lambda>w4. Inr (w4, f3, n)))))"

end
