(* ===== verification/Nachos_FileData.thy ===== *)
theory Nachos_FileData
  imports Nachos_OpenFile
begin

text \<open>
  The bytes of a file, and what \<^verbatim>\<open>ReadAt\<close> and \<^verbatim>\<open>WriteAt\<close> do to them. A header describes the list of its
  data blocks: the first eight directly, the others through the index block, whose entries the source
  reads as single signed bytes (so that only block numbers below 128 are read back correctly). All
  results are about files whose header and index block describe a list \<open>B\<close> of distinct valid blocks.
\<close>

section \<open>The blocks of a file\<close>

text \<open>The block list a header and the disk describe, as \<^verbatim>\<open>ByteToSector\<close> sees it.\<close>

definition described :: "(nat \<Rightarrow> sector) \<Rightarrow> FileHeader \<Rightarrow> int list" where
  "described img h =
     (if numSectors h \<le> 8 then take (nat (numSectors h)) (dataSectors h)
      else take 8 (dataSectors h) @ map (\<lambda>i. sint (img (nat (dataSectors h ! 8)) ! (4 * i))) [0..<nat (numSectors h) - 8])"

text \<open>At most 40 distinct valid blocks, none of them the header's sector or the index block.\<close>

definition mapped :: "(nat \<Rightarrow> sector) \<Rightarrow> FileHeader \<Rightarrow> int list \<Rightarrow> bool" where
  "mapped img h B \<longleftrightarrow> hdr_ok h \<and> 0 \<le> numBytes h \<and> numSectors h = divRoundUp (numBytes h) SectorSize \<and> numSectors h \<le> 40 \<and>
     valid_sector (sectorNumber h) \<and> B = described img h \<and> (\<forall>k \<in> set B. valid_sector k) \<and> distinct B \<and> sectorNumber h \<notin> set B \<and>
     (8 < numSectors h \<longrightarrow> valid_sector (dataSectors h ! 8) \<and> dataSectors h ! 8 \<noteq> sectorNumber h \<and> dataSectors h ! 8 \<notin> set B)"

definition gbyte :: "(nat \<Rightarrow> sector) \<Rightarrow> int list \<Rightarrow> nat \<Rightarrow> byte" where
  "gbyte img B p = img (nat (B ! (p div 128))) ! (p mod 128)"

definition content :: "(nat \<Rightarrow> sector) \<Rightarrow> int list \<Rightarrow> int \<Rightarrow> byte list" where
  "content img B n = map (gbyte img B) [0..<nat n]"

lemma length_content [simp]: "length (content img B n) = nat n"
  by (simp add: content_def)

text \<open>The disk is idle, the host's clock has texts of full length, and the array on the stack of \<^verbatim>\<open>Allocate\<close> has its 32 entries.\<close>

definition fs_ok :: "'a fs_sim_scheme \<Rightarrow> bool" where
  "fs_ok w \<longleftrightarrow> sd_ok w \<and> (\<forall>k. 24 \<le> length (hostclock w k)) \<and> length (fresh_stack w) = 32"

text \<open>What an access to one file leaves alone in the state.\<close>

definition fs_frame :: "'a fs_sim_scheme \<Rightarrow> 'a fs_sim_scheme \<Rightarrow> bool" where
  "fs_frame w w' \<longleftrightarrow> reader_num w' = reader_num w \<and> vis_num w' = vis_num w \<and> (\<forall>i. i \<noteq> DiskLock \<longrightarrow> sems w' i = sems w i) \<and>
     machine_on w' = machine_on w \<and> hostclock w' = hostclock w \<and> fresh_heap w' = fresh_heap w \<and>
     fresh_stack w' = fresh_stack w \<and> fs_sim.more w' = fs_sim.more w"

lemma fs_frame_refl [simp]: "fs_frame w w"
  by (simp add: fs_frame_def)

lemma fs_frame_trans: "fs_frame u v \<Longrightarrow> fs_frame v w \<Longrightarrow> fs_frame u w"
  by (simp add: fs_frame_def)

lemma more_fs: "synch_sim.more w' = synch_sim.more w \<Longrightarrow> hostclock w' = hostclock w \<and> clock_reads w' = clock_reads w \<and>
   fresh_heap w' = fresh_heap w \<and> fresh_stack w' = fresh_stack w \<and> fs_sim.more w' = fs_sim.more w"
  by (cases w; cases w') simp

lemma sd_fs_frame: "sd_frame w w' \<Longrightarrow> fs_frame w w' \<and> clock_reads w' = clock_reads w"
  using more_fs [of w' w] by (auto simp: fs_frame_def sd_frame_def)

lemma concat_blocks:
  assumes "\<forall>x \<in> set xs. length x = n" "0 < n"
  shows "length (concat xs) = length xs * n \<and> (q < length xs * n \<longrightarrow> concat xs ! q = xs ! (q div n) ! (q mod n))"
  using assms(1)
proof (induction xs arbitrary: q)
  case (Cons x xs)
  have l: "length (concat xs) = length xs * n" and x: "length x = n" using Cons by auto
  show ?case
  proof (cases "q < n")
    case True
    then show ?thesis using l x by (simp add: nth_append)
  next
    case False
    then have "q div n = Suc ((q - n) div n)" "q mod n = (q - n) mod n"
      using assms(2) by (simp_all add: le_div_geq le_mod_geq)
    then show ?thesis using False l x Cons.IH [of "q - n"] Cons.prems by (auto simp: nth_append)
  qed
qed simp

text \<open>The bytes \<open>p\<close> to \<open>p + n\<close> of a sequence of blocks, cut out of the blocks that hold them.\<close>

lemma blocks_slice:
  assumes "\<forall>k. length (g k) = 128" "0 < n"
  shows "take n (drop (p - p div 128 * 128) (concat (map g [p div 128..<Suc ((p + n - 1) div 128)]))) =
     map (\<lambda>q. g (q div 128) ! (q mod 128)) [p..<p + n]"
proof (rule nth_equalityI)
  let ?a = "p div 128" and ?b = "Suc ((p + n - 1) div 128)"
  let ?xs = "map g [?a..<?b]"
  have len: "length (concat ?xs) = (?b - ?a) * 128"
    using concat_blocks [of ?xs 128 0] assms(1) by (simp del: upt_Suc)
  have d: "p mod 128 = p - ?a * 128" "?a * 128 \<le> p" by (simp_all add: minus_div_mult_eq_mod)
  have ab: "?a \<le> (p + n - 1) div 128" using assms(2) by (intro div_le_mono) simp
  have up: "p + n \<le> ?b * 128" using assms(2) dividend_less_div_times [of 128 "p + n - 1"] by simp
  have fit: "p - ?a * 128 + n \<le> (?b - ?a) * 128" using up d(2) by (simp add: diff_mult_distrib)
  define c where "c = concat ?xs"
  have fc: "p - ?a * 128 + n \<le> length c" unfolding c_def len by (rule fit)
  show "length (take n (drop (p - ?a * 128) (concat ?xs))) = length (map (\<lambda>q. g (q div 128) ! (q mod 128)) [p..<p + n])"
    unfolding c_def [symmetric] using fc by auto
  fix i assume "i < length (take n (drop (p - ?a * 128) (concat ?xs)))"
  then have i: "i < n" by (simp del: upt_Suc)
  define q where "q = p - ?a * 128 + i"
  have q: "q < (?b - ?a) * 128" "p + i = ?a * 128 + q" using i fit d(2) unfolding q_def by linarith+
  have qd: "(p + i) div 128 = ?a + q div 128" "(p + i) mod 128 = q mod 128" unfolding q(2) by simp_all
  have "q div 128 < ?b - ?a" using q(1) by (simp add: div_less_iff_less_mult)
  then have "?xs ! (q div 128) = g (?a + q div 128)" by (simp del: upt_Suc)
  moreover have "c ! q = ?xs ! (q div 128) ! (q mod 128)"
    using concat_blocks [of ?xs 128 q] assms(1) q(1) unfolding c_def by (simp del: upt_Suc)
  ultimately have "c ! q = g ((p + i) div 128) ! ((p + i) mod 128)" using qd by simp
  then show "take n (drop (p - ?a * 128) (concat ?xs)) ! i = map (\<lambda>q. g (q div 128) ! (q mod 128)) [p..<p + n] ! i"
    unfolding c_def [symmetric] using i fc by (simp add: q_def)
qed

lemma described_length: "hdr_ok h \<Longrightarrow> 0 \<le> numSectors h \<Longrightarrow> length (described img h) = nat (numSectors h)"
  by (auto simp: described_def hdr_ok_def NumDirect_def)

lemma mappedD:
  assumes "mapped img h B"
  shows "hdr_ok h" "length (dataSectors h) = 9" "0 \<le> numBytes h" "numBytes h \<le> numSectors h * 128"
    "0 \<le> numSectors h" "numSectors h \<le> 40" "valid_sector (sectorNumber h)"
    "length B = nat (numSectors h)" "k < nat (numSectors h) \<Longrightarrow> valid_sector (B ! k)"
    "k < nat (numSectors h) \<Longrightarrow> B ! k \<noteq> sectorNumber h" "distinct B"
proof -
  note m = assms [unfolded mapped_def]
  show h: "hdr_ok h" "0 \<le> numBytes h" "numSectors h \<le> 40" "valid_sector (sectorNumber h)" "distinct B" using m by blast+
  show ds: "length (dataSectors h) = 9" using h(1) by (simp add: hdr_ok_def NumDirect_def)
  show ns: "0 \<le> numSectors h" "numBytes h \<le> numSectors h * 128"
    using m divRoundUp_bounds [of "numBytes h" 128] by (auto simp: SectorSize_def divRoundUp_nonneg)
  show len: "length B = nat (numSectors h)" using m described_length [OF h(1) ns(1)] by simp
  show "k < nat (numSectors h) \<Longrightarrow> valid_sector (B ! k)" "k < nat (numSectors h) \<Longrightarrow> B ! k \<noteq> sectorNumber h"
    using m len by (metis nth_mem)+
qed

lemma SetTime_fields [simp]:
  "numBytes (SetTime m tm h) = numBytes h" "numSectors (SetTime m tm h) = numSectors h"
  "dataSectors (SetTime m tm h) = dataSectors h" "sectorNumber (SetTime m tm h) = sectorNumber h"
  by (simp_all add: SetTime_def)

lemma hdr_ok_SetTime: "24 \<le> length tm \<Longrightarrow> hdr_ok h \<Longrightarrow> hdr_ok (SetTime m tm h)"
  by (auto simp: hdr_ok_def SetTime_def time_text_def)

lemma mapped_SetTime [simp]: "24 \<le> length tm \<Longrightarrow> mapped img h B \<Longrightarrow> mapped img (SetTime m tm h) B"
  unfolding mapped_def described_def SetTime_fields using hdr_ok_SetTime by blast

text \<open>The block list depends on the disk only through the index block.\<close>

lemma mapped_image:
  assumes "mapped img h B" "8 < numSectors h \<Longrightarrow> img' (nat (dataSectors h ! 8)) = img (nat (dataSectors h ! 8))"
  shows "mapped img' h B"
proof -
  have "described img' h = described img h" using assms(2) by (auto simp: described_def)
  then show ?thesis using assms(1) unfolding mapped_def by metis
qed

lemma index_apart:
  assumes "mapped img h B" "8 < numSectors h"
  shows "nat (dataSectors h ! 8) \<noteq> nat (sectorNumber h)" "nat (dataSectors h ! 8) \<notin> nat ` set B"
proof -
  have v: "valid_sector (dataSectors h ! 8)" "dataSectors h ! 8 \<noteq> sectorNumber h" "dataSectors h ! 8 \<notin> set B"
    "valid_sector (sectorNumber h)" "\<forall>k \<in> set B. valid_sector k" using assms by (auto simp: mapped_def)
  show "nat (dataSectors h ! 8) \<noteq> nat (sectorNumber h)" using v by (auto simp: valid_sector_def)
  show "nat (dataSectors h ! 8) \<notin> nat ` set B"
  proof
    assume "nat (dataSectors h ! 8) \<in> nat ` set B"
    then obtain k where k: "k \<in> set B" "nat (dataSectors h ! 8) = nat k" by blast
    then have "dataSectors h ! 8 = k" using v(1,5) by (auto simp: valid_sector_def)
    with k v show False by blast
  qed
qed

lemma mapped_header:
  "mapped img h B \<Longrightarrow> mapped (img(nat (sectorNumber h) := x)) h B"
proof (rule mapped_image, assumption)
  assume "mapped img h B" "8 < numSectors h"
  from index_apart(1) [OF this] show "(img(nat (sectorNumber h) := x)) (nat (dataSectors h ! 8)) = img (nat (dataSectors h ! 8))" by simp
qed

lemma mapped_touch:
  "mapped img h B \<Longrightarrow> 24 \<le> length tm \<Longrightarrow> sectorNumber h = sec \<Longrightarrow> mapped (img(nat sec := x)) (SetTime m tm h) B"
  using mapped_header [of img "SetTime m tm h" B x] by simp

lemma block_inj:
  assumes "mapped img h B" "j < nat (numSectors h)" "k < nat (numSectors h)"
  shows "nat (B ! j) = nat (B ! k) \<longleftrightarrow> j = k"
proof -
  have "B ! j = B ! k \<longleftrightarrow> j = k"
    using nth_eq_iff_index_eq [OF mappedD(11) [OF assms(1)], of j k] assms(2,3) mappedD(8) [OF assms(1)] by simp
  then show ?thesis using mappedD(9) [OF assms(1,2)] mappedD(9) [OF assms(1,3)] by (auto simp: valid_sector_def)
qed

lemma header_not_block:
  "mapped img h B \<Longrightarrow> k < nat (numSectors h) \<Longrightarrow> nat (B ! k) \<noteq> nat (sectorNumber h)"
  using mappedD(7) [of img h B] mappedD(9,10) [of img h B k] by (auto simp: valid_sector_def)

lemma byte_block: "mapped img h B \<Longrightarrow> p < nat (numBytes h) \<Longrightarrow> p div 128 < nat (numSectors h)"
  using mappedD(4) [of img h B] by linarith

lemma content_header:
  "mapped img h B \<Longrightarrow> content (img(nat (sectorNumber h) := x)) B (numBytes h) = content img B (numBytes h)"
  using header_not_block byte_block by (fastforce simp: content_def gbyte_def)

lemma ByteToSector_block:
  assumes m: "mapped (image w) h B" and w: "sd_ok w" and i: "0 \<le> i" "i < numSectors h"
  shows "\<exists>w'. ByteToSector h (i * SectorSize) w = Inr (w', B ! nat i) \<and> sd_ok w' \<and> image w' = image w \<and> sd_frame w w'"
proof (cases "i < 8")
  case True
  have "B = described (image w) h" using m by (simp add: mapped_def)
  moreover have "nat i < 8" "nat i < nat (numSectors h)" using True i by linarith+
  ultimately have "B ! nat i = dataSectors h ! nat i" using mappedD(2) [OF m] by (simp add: described_def nth_append)
  then have "ByteToSector h (i * SectorSize) w = Inr (w, B ! nat i)"
    using mappedD(2) [OF m] i True by (simp add: ByteToSector_def uns_id NumDirect_def SectorSize_def)
  then show ?thesis using w by simp
next
  case False
  then have ns: "8 < numSectors h" "i < 40" using i mappedD(6) [OF m] by linarith+
  then have v: "valid_sector (dataSectors h ! 8)" using m by (simp add: mapped_def)
  obtain w' where w': "ReadSector (dataSectors h ! 8) w = Inr (w', image w (nat (dataSectors h ! 8)))" "sd_ok w'" "image w' = image w" "sd_frame w w'"
    using ReadSector_ok [OF w v] by blast
  have u: "uns (i * 128) = i * 128" "uns (i * 128 - 1024) = i * 128 - 1024" "(i * 128 - 1024) div 128 = i - 8"
    using False i(1) ns(2) by (auto intro!: uns_id)
  have len: "length (image w (nat (dataSectors h ! 8))) = 128" using w by (simp add: sd_ok_def SectorSize_def)
  have "nat ((i - 8) * 4) = 4 * (nat i - 8)" using False i by simp
  moreover have "B = described (image w) h" using m by (simp add: mapped_def)
  moreover have "\<not> nat i < 8" "nat i - 8 < nat (numSectors h) - 8" using False i by linarith+
  ultimately have "B ! nat i = sint (image w (nat (dataSectors h ! 8)) ! (4 * (nat i - 8)))" "nat ((i - 8) * 4) = 4 * (nat i - 8)"
    using ns mappedD(2) [OF m] by (simp_all add: described_def nth_append)
  then have "index_entry (image w (nat (dataSectors h ! 8))) (i - 8) = Inr (B ! nat i)"
    using False i ns len by (simp add: index_entry_def)
  then have "ByteToSector h (i * SectorSize) w = Inr (w', B ! nat i)"
    using mappedD(2) [OF m] False w'(1) u by (simp add: ByteToSector_def NumDirect_def SectorSize_def Let_def)
  then show ?thesis using w' by blast
qed

lemma read_sectors_ok:
  assumes "mapped (image w) h B"
  shows "sd_ok w \<Longrightarrow> 0 \<le> i \<Longrightarrow> lst < numSectors h \<Longrightarrow>
    \<exists>w'. read_sectors h i lst w = Inr (w', concat (map (\<lambda>k. image w (nat (B ! k))) [nat i..<nat (lst + 1)])) \<and>
      sd_ok w' \<and> image w' = image w \<and> sd_frame w w'"
  using assms
proof (induction "nat (lst + 1 - i)" arbitrary: i w)
  case 0
  then show ?case by (simp add: read_sectors.simps)
next
  case (Suc n)
  note h = Suc.prems(4)
  from Suc.hyps(2) have i: "i \<le> lst" "n = nat (lst + 1 - (i + 1))" by linarith+
  obtain w0 where w0: "ByteToSector h (i * SectorSize) w = Inr (w0, B ! nat i)" "sd_ok w0" "image w0 = image w" "sd_frame w w0"
    using ByteToSector_block [OF h Suc.prems(1,2)] i(1) Suc.prems(3) by auto
  have "valid_sector (B ! nat i)" using mappedD(9) [OF h, of "nat i"] Suc.prems i by simp
  from ReadSector_ok [OF w0(2) this] obtain w1 where w1:
    "ReadSector (B ! nat i) w0 = Inr (w1, image w (nat (B ! nat i)))" "sd_ok w1" "image w1 = image w"
    "sd_frame w0 w1" using w0(3) by auto
  obtain w2 where w2: "read_sectors h (i + 1) lst w1 =
      Inr (w2, concat (map (\<lambda>k. image w1 (nat (B ! k))) [nat (i + 1)..<nat (lst + 1)]))"
    "sd_ok w2" "image w2 = image w1" "sd_frame w1 w2"
    using Suc.hyps(1) [OF i(2) w1(2)] Suc.prems(2,3) h w1(3) by force
  have "[nat i..<nat (lst + 1)] = nat i # [nat (i + 1)..<nat (lst + 1)]"
    using i(1) Suc.prems(2) by (simp add: upt_conv_Cons Suc_nat_eq_nat_zadd1 add.commute)
  then show ?case
    using i(1) w0(1) w1 w2 sd_frame_trans [OF w0(4) sd_frame_trans [OF w1(4) w2(4)]]
    by (simp add: read_sectors.simps [of h i])
qed

text \<open>Requests of at most a megabyte stay within the range of a C int, because files do.\<close>

lemma small_request:
  assumes "mapped img h B" "0 \<le> p" "p \<le> numBytes h" "0 \<le> n" "n \<le> 1048576"
  shows "fits32 (p + n)"
proof -
  have "numBytes h \<le> 40 * 128" using mappedD(4) [OF assms(1)] assms(1) by (simp add: mapped_def)
  then show ?thesis using assms(2-5) by (simp add: fits32_def)
qed

lemma ReadAt_ok:
  assumes f: "mapped (image w) (hdr f) B" and w: "fs_ok w" and n: "0 < n" and p: "0 \<le> p" "p < numBytes (hdr f)" and r: "fits32 (p + n)"
  shows "\<exists>w' tm. 24 \<le> length tm \<and>
    ReadAt n p f w = Inr (w', f\<lparr>hdr := SetTime (CHR ''v'') tm (hdr f)\<rparr>, take (nat n) (drop (nat p) (content (image w) B (numBytes (hdr f))))) \<and>
    fs_ok w' \<and> fs_frame w w' \<and>
    image w' = (image w)(nat (sectorNumber (hdr f)) := hdr_bytes (SetTime (CHR ''v'') tm (hdr f)))"
proof -
  let ?h = "hdr f"
  define m where "m = (if p + n > numBytes ?h then numBytes ?h - p else n)"
  have m: "0 < m" "p + m \<le> numBytes ?h" using n p by (auto simp: m_def)
  have b: "numBytes ?h \<le> numSectors ?h * 128" using mappedD(4) [OF f] .
  define a l where "a = p div 128" and "l = (p + m - 1) div 128"
  have al: "0 \<le> a" "l < numSectors ?h" using p m b by (auto simp: a_def l_def)
  obtain w1 where w1: "read_sectors ?h a l w =
      Inr (w1, concat (map (\<lambda>k. image w (nat (B ! k))) [nat a..<nat (l + 1)]))"
    "sd_ok w1" "image w1 = image w" "sd_frame w w1"
    using read_sectors_ok [OF f _ al] w by (auto simp: fs_ok_def)
  define c where "c = concat (map (\<lambda>k. image w (nat (B ! k))) [nat a..<nat (l + 1)])"
  have len: "\<forall>k. length (image w (nat (B ! k))) = 128" using w by (simp add: fs_ok_def sd_ok_def SectorSize_def)
  have na: "nat a = nat p div 128" "nat (l + 1) = Suc ((nat p + nat m - 1) div 128)"
    "nat (p - a * 128) = nat p - nat p div 128 * 128"
    using p m by (auto simp: a_def l_def nat_div_distrib nat_diff_distrib nat_mult_distrib Suc_nat_eq_nat_zadd1 nat_add_distrib)
  have bs: "take (nat m) (drop (nat (p - a * 128)) c) = map (gbyte (image w) B) [nat p..<nat p + nat m]"
    using blocks_slice [OF len, of "nat m" "nat p"] m(1) unfolding c_def na by (simp add: gbyte_def del: upt_Suc)
  then have "length (take (nat m) (drop (nat (p - a * 128)) c)) = nat m" by simp
  then have "nat (p - a * 128) + nat m \<le> length c" using m(1) by simp
  moreover have "0 \<le> p - a * 128" by (simp add: a_def minus_div_mult_eq_mod)
  ultimately have sl: "slice c (p - a * 128) m = Inr (map (gbyte (image w) B) [nat p..<nat p + nat m])"
    using m(1) bs by (simp add: slice_def)
  have out: "map (gbyte (image w) B) [nat p..<nat p + nat m] = take (nat n) (drop (nat p) (content (image w) B (numBytes ?h)))"
    using p n by (auto simp: m_def content_def take_map drop_map nat_add_distrib [symmetric])
  note fr1 = sd_fs_frame [OF w1(4)]
  define tm where "tm = hostclock w1 (clock_reads w1)"
  have tm: "24 \<le> length tm" using w fr1 by (simp add: tm_def fs_ok_def fs_frame_def)
  let ?w2 = "w1\<lparr>clock_reads := Suc (clock_reads w1)\<rparr>" and ?h1 = "SetTime (CHR ''v'') tm ?h"
  have "sd_ok ?w2" using w1(2) by (simp add: sd_ok_def calm_def mach_ok_def clock_ok_def disk_ok_def)
  from WriteBack_ok [OF this mappedD(7) [OF f] mappedD(1) [OF mapped_SetTime [OF tm f]]]
  obtain w3 where w3: "WriteBack (sectorNumber ?h) ?h1 ?w2 = Inr w3" "sd_ok w3"
    "image w3 = (image ?w2)(nat (sectorNumber ?h) := hdr_bytes ?h1)" "sd_frame ?w2 w3" by blast
  have fr: "fs_frame w w3" using fr1 sd_fs_frame [OF w3(4)] by (simp add: fs_frame_def)
  have "ReadAt n p f w = Inr (w3, f\<lparr>hdr := ?h1\<rparr>, map (gbyte (image w) B) [nat p..<nat p + nat m])"
    using n p r m w1(1) sl w3(1)
    by (simp add: ReadAt_def FileLength_def Let_def m_def [symmetric] divRoundDown_def SectorSize_def a_def [symmetric]
        l_def [symmetric] c_def [symmetric] set_time_def tm_def del: upt_Suc)
  then show ?thesis using tm fr w w3 w1(3) out by (auto simp: fs_ok_def fs_frame_def)
qed


lemma write_sectors_ok:
  assumes "mapped (image w) h B"
  shows "sd_ok w \<Longrightarrow> 0 \<le> i \<Longrightarrow> lst < numSectors h \<Longrightarrow> length buf = nat (lst + 1 - i) * 128 \<Longrightarrow>
    \<exists>w'. write_sectors h i lst buf w = Inr w' \<and> sd_ok w' \<and> sd_frame w w' \<and>
      (\<forall>k. nat i \<le> k \<and> k < nat (lst + 1) \<longrightarrow> image w' (nat (B ! k)) = take 128 (drop ((k - nat i) * 128) buf)) \<and>
      (\<forall>x. (\<forall>k. nat i \<le> k \<and> k < nat (lst + 1) \<longrightarrow> x \<noteq> nat (B ! k)) \<longrightarrow> image w' x = image w x)"
  using assms
proof (induction "nat (lst + 1 - i)" arbitrary: i w buf)
  case 0
  then show ?case by (auto simp: write_sectors.simps)
next
  case (Suc n)
  note h = Suc.prems(5)
  from Suc.hyps(2) have i: "i \<le> lst" "n = nat (lst + 1 - (i + 1))" by linarith+
  let ?k = "nat i"
  obtain w0 where w0: "ByteToSector h (i * SectorSize) w = Inr (w0, B ! ?k)" "sd_ok w0" "image w0 = image w" "sd_frame w w0"
    using ByteToSector_block [OF h Suc.prems(1,2)] i(1) Suc.prems(3) by auto
  have lt: "?k < nat (numSectors h)" using Suc.prems i by simp
  then have v: "valid_sector (B ! ?k)" using mappedD(9) [OF h] by blast
  have len: "length buf = Suc n * 128" using Suc.hyps(2) Suc.prems(4) by simp
  then have "length (take 128 buf) = nat SectorSize" by (simp add: SectorSize_def)
  moreover have len': "length (drop 128 buf) = nat (lst + 1 - (i + 1)) * 128" using len i(2) by (simp del: add_diff_cancel_left)
  ultimately have l128: "length (take 128 buf) = nat SectorSize" by simp
  from WriteSector_ok [OF w0(2) v l128] obtain w1 where w1: "WriteSector (B ! ?k) (take 128 buf) w0 = Inr w1"
    "sd_ok w1" "image w1 = (image w)(nat (B ! ?k) := take 128 buf)" "sd_frame w0 w1" using w0(3) by auto
  have m1: "mapped (image w1) h B"
    using index_apart(2) [OF h] lt mappedD(8) [OF h] unfolding w1(3) by (intro mapped_image [OF h]) auto
  obtain w2 where w2: "write_sectors h (i + 1) lst (drop 128 buf) w1 = Inr w2" "sd_ok w2" "sd_frame w1 w2"
    "\<And>k. nat (i + 1) \<le> k \<and> k < nat (lst + 1) \<Longrightarrow>
       image w2 (nat (B ! k)) = take 128 (drop ((k - nat (i + 1)) * 128) (drop 128 buf))"
    "\<And>x. (\<forall>k. nat (i + 1) \<le> k \<and> k < nat (lst + 1) \<longrightarrow> x \<noteq> nat (B ! k)) \<Longrightarrow> image w2 x = image w1 x"
    using Suc.hyps(1) [OF i(2) w1(2) _ Suc.prems(3) len' m1] Suc.prems(2) by auto
  have ni: "nat (i + 1) = Suc ?k" using Suc.prems(2) by simp
  have eq: "write_sectors h i lst buf w = Inr w2"
    using i(1) w0(1) w1(1) w2(1)
    by (simp add: write_sectors.simps [of h i] SectorSize_def)
  have blk: "image w2 (nat (B ! k)) = take 128 (drop ((k - ?k) * 128) buf)" if "?k \<le> k" "k < nat (lst + 1)" for k
  proof (cases "k = ?k")
    case True
    have "nat (B ! ?k) \<noteq> nat (B ! j)" if "nat (i + 1) \<le> j \<and> j < nat (lst + 1)" for j
    proof -
      have "j < nat (numSectors h)" using that Suc.prems(3) by linarith
      then show ?thesis using block_inj [OF h lt, of j] that ni by auto
    qed
    then show ?thesis using w2(5) [of "nat (B ! ?k)"] w1(3) True by simp
  next
    case False
    then have "(k - nat (i + 1)) * 128 + 128 = (k - ?k) * 128" using that ni by simp
    then show ?thesis using w2(4) [of k] False that ni by simp
  qed
  have oth: "image w2 x = image w x" if "\<forall>k. ?k \<le> k \<and> k < nat (lst + 1) \<longrightarrow> x \<noteq> nat (B ! k)" for x
  proof -
    have "x \<noteq> nat (B ! ?k)" using that i(1) Suc.prems(2) by auto
    moreover have "image w2 x = image w1 x" using w2(5) [of x] that ni by auto
    ultimately show ?thesis using w1(3) by simp
  qed
  show ?case using eq w2(2) sd_frame_trans [OF w0(4) sd_frame_trans [OF w1(4) w2(3)]] blk oth by blast
qed

text \<open>Bytes of a patched buffer.\<close>

lemma patch_ok:
  assumes "0 \<le> off" "nat off + length bs \<le> length buf"
  shows "\<exists>buf'. patch buf off bs = Inr buf' \<and> length buf' = length buf \<and>
    (\<forall>q < length buf. buf' ! q = (if nat off \<le> q \<and> q < nat off + length bs then bs ! (q - nat off) else buf ! q))"
proof (cases "bs = []")
  case True
  then show ?thesis by (auto simp: patch_def)
next
  case False
  let ?b = "take (nat off) buf @ bs @ drop (nat off + length bs) buf"
  have "patch buf off bs = Inr ?b" using assms False by (simp add: patch_def)
  moreover have "length ?b = length buf" using assms by simp
  moreover have "\<forall>q < length buf. ?b ! q = (if nat off \<le> q \<and> q < nat off + length bs then bs ! (q - nat off) else buf ! q)"
    using assms by (auto simp: nth_append min_def)
  ultimately show ?thesis by blast
qed

text \<open>What a sector read at a boundary yields: the bytes of the file in it.\<close>

definition covers :: "(nat \<Rightarrow> byte) \<Rightarrow> nat \<Rightarrow> nat \<Rightarrow> byte list \<Rightarrow> nat set \<Rightarrow> bool" where
  "covers old a len buf P \<longleftrightarrow> (\<forall>q < length buf. a * 128 + q \<in> P \<and> a * 128 + q < len \<longrightarrow> buf ! q = old (a * 128 + q))"

lemma read_edge:
  assumes f: "mapped (image w) (hdr f) B" and w: "fs_ok w" and a: "0 \<le> a" "a \<le> k" "k * 128 < numBytes (hdr f)"
    and buf: "length buf = nat (b - a) * 128" "k < b"
  shows "\<exists>w' tm buf'. 24 \<le> length tm \<and> fs_ok w' \<and> fs_frame w w' \<and> length buf' = length buf \<and>
    bindr (ReadAt SectorSize (k * SectorSize) f w) (\<lambda>(w1, f1, bs).
      bindr (patch buf ((k - a) * SectorSize) bs) (\<lambda>buf. Inr (w1, f1, buf))) =
      Inr (w', f\<lparr>hdr := SetTime (CHR ''v'') tm (hdr f)\<rparr>, buf') \<and>
    image w' = (image w)(nat (sectorNumber (hdr f)) := hdr_bytes (SetTime (CHR ''v'') tm (hdr f))) \<and>
    (\<forall>P. covers (gbyte (image w) B) (nat a) (nat (numBytes (hdr f))) buf P \<longrightarrow>
       covers (gbyte (image w) B) (nat a) (nat (numBytes (hdr f))) buf' (P \<union> {q. q div 128 = nat k}))"
proof -
  let ?h = "hdr f" and ?N = "nat (numBytes (hdr f))"
  obtain w1 tm where r: "24 \<le> length tm" "ReadAt 128 (k * 128) f w = Inr (w1, f\<lparr>hdr := SetTime (CHR ''v'') tm ?h\<rparr>,
      take 128 (drop (nat (k * 128)) (content (image w) B (numBytes ?h))))" "fs_ok w1" "fs_frame w w1"
    "image w1 = (image w)(nat (sectorNumber ?h) := hdr_bytes (SetTime (CHR ''v'') tm ?h))"
    using ReadAt_ok [OF f w, of 128 "k * 128"] small_request [OF f, of "k * 128" 128] a by auto
  define bs where "bs = take 128 (drop (nat (k * 128)) (content (image w) B (numBytes ?h)))"
  have bs: "length bs = min 128 (?N - nat k * 128)" "\<forall>q < length bs. bs ! q = gbyte (image w) B (nat k * 128 + q)"
    using a by (auto simp: bs_def content_def nat_mult_distrib min.commute)
  have off: "nat ((k - a) * 128) = (nat k - nat a) * 128" using a by (simp add: nat_mult_distrib nat_diff_distrib)
  have "nat k - nat a + 1 \<le> nat (b - a)" using a buf(2) by linarith
  then have fit: "(nat k - nat a) * 128 + length bs \<le> length buf" unfolding buf(1) bs(1) by linarith
  obtain buf' where pt: "patch buf ((k - a) * 128) bs = Inr buf'" "length buf' = length buf"
    "\<forall>q < length buf. buf' ! q = (if (nat k - nat a) * 128 \<le> q \<and> q < (nat k - nat a) * 128 + length bs
        then bs ! (q - (nat k - nat a) * 128) else buf ! q)"
    using patch_ok [of "(k - a) * 128" bs buf, unfolded off] a fit by auto
  have cov: "covers (gbyte (image w) B) (nat a) ?N buf' (P \<union> {q. q div 128 = nat k})"
    if P: "covers (gbyte (image w) B) (nat a) ?N buf P" for P
    unfolding covers_def
  proof (intro allI impI)
    fix q assume q: "q < length buf'" "nat a * 128 + q \<in> P \<union> {q. q div 128 = nat k} \<and> nat a * 128 + q < ?N"
    have ka: "nat k * 128 = nat a * 128 + (nat k - nat a) * 128" using a by (simp add: diff_mult_distrib nat_mono)
    show "buf' ! q = gbyte (image w) B (nat a * 128 + q)"
    proof (cases "(nat k - nat a) * 128 \<le> q \<and> q < (nat k - nat a) * 128 + length bs")
      case True
      then have e: "nat k * 128 + (q - (nat k - nat a) * 128) = nat a * 128 + q" "q - (nat k - nat a) * 128 < length bs"
        using ka by linarith+
      then have "buf' ! q = bs ! (q - (nat k - nat a) * 128)" using True pt(2,3) q(1) by simp
      then show ?thesis using bs(2) e by metis
    next
      case False
      have "(nat a * 128 + q) div 128 \<noteq> nat k"
      proof
        assume "(nat a * 128 + q) div 128 = nat k"
        then have "nat k * 128 \<le> nat a * 128 + q" "nat a * 128 + q < nat k * 128 + 128" by linarith+
        moreover have "nat a * 128 + q < ?N" using q(2) by blast
        ultimately have "(nat k - nat a) * 128 \<le> q" "q < (nat k - nat a) * 128 + length bs" using ka bs(1) by linarith+
        then show False using False by blast
      qed
      then show ?thesis using False pt(2,3) q P by (auto simp: covers_def)
    qed
  qed
  have "bindr (ReadAt SectorSize (k * SectorSize) f w) (\<lambda>(w1, f1, bs).
      bindr (patch buf ((k - a) * SectorSize) bs) (\<lambda>buf. Inr (w1, f1, buf))) =
      Inr (w1, f\<lparr>hdr := SetTime (CHR ''v'') tm (hdr f)\<rparr>, buf')"
    using r(2) pt(1) by (simp add: SectorSize_def bs_def)
  then show ?thesis using r(1,3-5) pt(2) cov by (intro exI conjI allI impI)
qed


text \<open>The file is still the same one: only the times in its header, and the header's sector, have changed.\<close>

definition same_file :: "OpenFile \<Rightarrow> OpenFile \<Rightarrow> bool" where
  "same_file f f' \<longleftrightarrow> numBytes (hdr f') = numBytes (hdr f) \<and> numSectors (hdr f') = numSectors (hdr f) \<and>
     dataSectors (hdr f') = dataSectors (hdr f) \<and> sectorNumber (hdr f') = sectorNumber (hdr f) \<and>
     seekPosition f' = seekPosition f"

definition reread :: "int list \<Rightarrow> 'a fs_sim_scheme \<Rightarrow> OpenFile \<Rightarrow> 'a fs_sim_scheme \<Rightarrow> OpenFile \<Rightarrow> bool" where
  "reread B w f w' f' \<longleftrightarrow> fs_ok w' \<and> fs_frame w w' \<and> mapped (image w') (hdr f') B \<and> same_file f f' \<and>
     (\<forall>x. x \<noteq> nat (sectorNumber (hdr f)) \<longrightarrow> image w' x = image w x)"

lemma gbyte_reread:
  assumes "mapped (image w) (hdr f) B" "reread B w f w' f'" "p < nat (numBytes (hdr f))"
  shows "gbyte (image w') B p = gbyte (image w) B p"
  using header_not_block [OF assms(1) byte_block [OF assms(1,3)]] assms(2)
  by (simp add: reread_def same_file_def gbyte_def)

lemma edge_step:
  assumes f: "mapped (image w0) (hdr f0) B" and r: "reread B w0 f0 w f" and a: "0 \<le> a" "a \<le> k" "k * 128 < numBytes (hdr f0)"
    and buf: "length buf = nat (b - a) * 128" "k < b"
    and cov: "covers (gbyte (image w0) B) (nat a) (nat (numBytes (hdr f0))) buf P"
  shows "\<exists>w' f' buf'. (if c then bindr (ReadAt SectorSize (k * SectorSize) f w) (\<lambda>(w1, f1, bs).
      bindr (patch buf ((k - a) * SectorSize) bs) (\<lambda>buf. Inr (w1, f1, buf))) else Inr (w, f, buf)) = Inr (w', f', buf') \<and>
    reread B w0 f0 w' f' \<and> length buf' = length buf \<and>
    covers (gbyte (image w0) B) (nat a) (nat (numBytes (hdr f0))) buf' (if c then P \<union> {q. q div 128 = nat k} else P)"
proof (cases c)
  case False
  then show ?thesis using r cov by auto
next
  case True
  have sf: "numBytes (hdr f) = numBytes (hdr f0)" "sectorNumber (hdr f) = sectorNumber (hdr f0)" "fs_ok w" "mapped (image w) (hdr f) B"
    "fs_frame w0 w" using r by (simp_all add: reread_def same_file_def)
  let ?N = "nat (numBytes (hdr f0))"
  have eq: "covers (gbyte (image w) B) (nat a) ?N xs Q = covers (gbyte (image w0) B) (nat a) ?N xs Q" for xs Q
    using gbyte_reread [OF f r] by (auto simp: covers_def)
  obtain w' tm buf' where e: "24 \<le> length tm" "fs_ok w'" "fs_frame w w'" "length buf' = length buf"
    "bindr (ReadAt SectorSize (k * SectorSize) f w) (\<lambda>(w1, f1, bs).
      bindr (patch buf ((k - a) * SectorSize) bs) (\<lambda>buf. Inr (w1, f1, buf))) =
      Inr (w', f\<lparr>hdr := SetTime (CHR ''v'') tm (hdr f)\<rparr>, buf')"
    "image w' = (image w)(nat (sectorNumber (hdr f)) := hdr_bytes (SetTime (CHR ''v'') tm (hdr f)))"
    "\<forall>P. covers (gbyte (image w) B) (nat a) ?N buf P \<longrightarrow>
       covers (gbyte (image w) B) (nat a) ?N buf' (P \<union> {q. q div 128 = nat k})"
    using read_edge [OF sf(4,3) a(1,2) _ buf] a(3) unfolding sf(1) by blast
  have "mapped (image w') (SetTime (CHR ''v'') tm (hdr f)) B"
    unfolding e(6) by (rule mapped_touch [OF sf(4) e(1) refl])
  then have "reread B w0 f0 w' (f\<lparr>hdr := SetTime (CHR ''v'') tm (hdr f)\<rparr>)"
    using e(2,3,6) r sf by (auto simp: reread_def same_file_def intro: fs_frame_trans)
  then show ?thesis using True e(4,5) e(7) [unfolded eq] cov by auto
qed

lemma block_byte:
  assumes "length buf = (l + 1 - a) * 128" "a \<le> x div 128" "x div 128 \<le> l"
  shows "take 128 (drop ((x div 128 - a) * 128) buf) ! (x mod 128) = buf ! (x - a * 128)" "x - a * 128 < length buf"
proof -
  have e: "(x div 128 - a) * 128 + x mod 128 = x - a * 128" "a * 128 \<le> x"
    using assms(2) by (auto simp: diff_mult_distrib minus_div_mult_eq_mod [symmetric])
  have "(x div 128 - a) * 128 + 128 \<le> length buf" using assms by simp
  then show "take 128 (drop ((x div 128 - a) * 128) buf) ! (x mod 128) = buf ! (x - a * 128)"
    using e by simp
  have "x mod 128 < 128" by simp
  then show "x - a * 128 < length buf" using \<open>_ \<le> length buf\<close> e(1) by linarith
qed


text \<open>The partly overwritten sectors: what they held outside the written range has been read before.\<close>

lemma edges_covered:
  fixes a l p n :: nat
  assumes range: "a * 128 \<le> p" "p < a * 128 + 128" "l * 128 < p + n" "p + n \<le> l * 128 + 128"
    and cov: "covers old a N buf (if \<not> p + n = (l + 1) * 128 \<and> (a \<noteq> l \<or> p = a * 128)
       then (if \<not> p = a * 128 then {q. q div 128 = a} else {}) \<union> {q. q div 128 = l}
       else (if \<not> p = a * 128 then {q. q div 128 = a} else {}))"
    and x: "x = a * 128 + q" "q < length buf" "x < N" "x div 128 \<le> l" "\<not> (p \<le> x \<and> x < p + n)"
  shows "buf ! q = old x"
proof (cases "x < p")
  case True
  then have "x div 128 = a" "p \<noteq> a * 128" using x(1) range(2) by linarith+
  then show ?thesis using cov x(1-3) by (auto simp: covers_def split: if_splits)
next
  case False
  then have "p + n \<le> x" using x(5) by linarith
  moreover have "x < l * 128 + 128" using x(4) by linarith
  ultimately have "x div 128 = l" "p + n < l * 128 + 128" using range(3) by linarith+
  then show ?thesis using cov x(1-3) by (auto simp: covers_def split: if_splits)
qed

text \<open>The bytes of the file once the buffer has been written to its sectors.\<close>

lemma written_byte:
  fixes a l p n :: nat
  assumes f: "mapped img h B" and range: "a * 128 \<le> p" "p + n \<le> l * 128 + 128" and l: "l < nat (numSectors h)"
    and inside: "\<And>k. a \<le> k \<Longrightarrow> k \<le> l \<Longrightarrow> img' (nat (B ! k)) = take 128 (drop ((k - a) * 128) buf3)"
    and outside: "\<And>x. (\<forall>k. a \<le> k \<and> k \<le> l \<longrightarrow> x \<noteq> nat (B ! k)) \<Longrightarrow> x \<noteq> nat (sectorNumber h) \<Longrightarrow> img' x = img x"
    and len: "length buf3 = (l + 1 - a) * 128"
    and buf3: "\<forall>q < length buf3. buf3 ! q = (if p - a * 128 \<le> q \<and> q < p - a * 128 + n then from ! (q - (p - a * 128)) else buf2 ! q)"
    and keep: "\<And>q. q < length buf3 \<Longrightarrow> a * 128 + q < nat (numBytes h) \<Longrightarrow> (a * 128 + q) div 128 \<le> l \<Longrightarrow>
      \<not> (p \<le> a * 128 + q \<and> a * 128 + q < p + n) \<Longrightarrow> buf2 ! q = gbyte img B (a * 128 + q)"
    and x: "x < nat (numBytes h)"
  shows "gbyte img' B x = (if p \<le> x \<and> x < p + n then from ! (x - p) else gbyte img B x)"
proof -
  have k: "x div 128 < nat (numSectors h)" using byte_block [OF f x] .
  show ?thesis
  proof (cases "a \<le> x div 128 \<and> x div 128 \<le> l")
    case True
    define q where "q = x - a * 128"
    have q: "q < length buf3" "gbyte img' B x = buf3 ! q" "x = a * 128 + q"
      using block_byte [OF len, of x] True inside [of "x div 128"] by (auto simp: q_def gbyte_def)
    show ?thesis
    proof (cases "p \<le> x \<and> x < p + n")
      case in_range: True
      then have "p - a * 128 \<le> q" "q < p - a * 128 + n" "q - (p - a * 128) = x - p"
        using q(3) range(1) by linarith+
      then show ?thesis using in_range q(1,2) buf3 by simp
    next
      case out: False
      then have "\<not> (p - a * 128 \<le> q \<and> q < p - a * 128 + n)" using q(3) range(1) by linarith
      then have "buf3 ! q = buf2 ! q" using buf3 q(1) by auto
      also have "\<dots> = gbyte img B x" using keep [OF q(1)] x True out unfolding q(3) by blast
      finally show ?thesis using out q(2) by auto
    qed
  next
    case False
    have "nat (B ! (x div 128)) \<noteq> nat (B ! j)" if "a \<le> j \<and> j \<le> l" for j
      using block_inj [OF f k, of j] False that l by auto
    then have "img' (nat (B ! (x div 128))) = img (nat (B ! (x div 128)))"
      using outside header_not_block [OF f k] by blast
    moreover have "\<not> (p \<le> x \<and> x < p + n)"
    proof
      assume "p \<le> x \<and> x < p + n"
      then have "a * 128 \<le> x" "x < l * 128 + 128" using range by linarith+
      then show False using False by linarith
    qed
    ultimately show ?thesis by (auto simp: gbyte_def)
  qed
qed

lemma write_body_ok:
  assumes f: "mapped (image w) (hdr f) B" and w: "fs_ok w" and p: "0 \<le> p" "0 < n" "p + n \<le> numBytes (hdr f)"
    and src: "n \<le> int (length from)"
  shows "\<exists>w' f'. write_body from n p f w = Inr (w', f', n) \<and> fs_ok w' \<and> fs_frame w w' \<and> mapped (image w') (hdr f') B \<and> same_file f f' \<and>
    image w' (nat (sectorNumber (hdr f))) = hdr_bytes (hdr f') \<and>
    (\<forall>x. x \<noteq> nat (sectorNumber (hdr f)) \<and> x \<notin> nat ` set B \<longrightarrow>
       image w' x = image w x) \<and>
    (\<forall>x < nat (numBytes (hdr f)). gbyte (image w') B x =
       (if nat p \<le> x \<and> x < nat (p + n) then from ! (x - nat p) else gbyte (image w) B x))"
proof -
  let ?h = "hdr f" and ?N = "nat (numBytes (hdr f))"
  define a l where "a = p div 128" and "l = (p + n - 1) div 128"
  have N: "numBytes ?h \<le> numSectors ?h * 128" using mappedD(4) [OF f] .
  have a: "0 \<le> a" "a \<le> l" "a * 128 \<le> p" "p < a * 128 + 128" using p by (auto simp: a_def l_def)
  have l: "l * 128 < p + n" "p + n \<le> l * 128 + 128" "l * 128 < numBytes ?h" "l < numSectors ?h"
    using p N by (auto simp: l_def)
  let ?old = "gbyte (image w) B"
  let ?c1 = "\<not> p = a * SectorSize" and ?c2 = "\<not> p + n = (l + 1) * SectorSize \<and> (a \<noteq> l \<or> p = a * SectorSize)"
  define buf0 where "buf0 = fresh_buf w ((1 + l - a) * SectorSize)"
  have b0: "length buf0 = nat (l + 1 - a) * 128" using a by (simp add: buf0_def fresh_buf_def SectorSize_def nat_mult_distrib)
  have "reread B w f w f" using f w by (simp add: reread_def same_file_def)
  moreover have "a * 128 < numBytes ?h" "a < l + 1" "covers ?old (nat a) ?N buf0 {}" using a l p by (auto simp: covers_def)
  ultimately obtain w1 f1 buf1 where s1:
    "(if ?c1 then bindr (ReadAt SectorSize (a * SectorSize) f w) (\<lambda>(w1, f1, bs).
       bindr (patch buf0 0 bs) (\<lambda>buf. Inr (w1, f1, buf))) else Inr (w, f, buf0)) = Inr (w1, f1, buf1)"
    "reread B w f w1 f1" "length buf1 = nat (l + 1 - a) * 128"
    "covers ?old (nat a) ?N buf1 (if ?c1 then {} \<union> {q. q div 128 = nat a} else {})"
    using edge_step [OF f _ a(1) order_refl _ b0, where w = w and f = f and P = "{}" and c = ?c1, unfolded diff_self mult_zero_left b0] by blast
  from edge_step [OF f s1(2) a(1,2) l(3) s1(3) _ s1(4), where c = ?c2] obtain w2 f2 buf2 where s2:
    "(if ?c2 then bindr (ReadAt SectorSize (l * SectorSize) f1 w1) (\<lambda>(w1, f1, bs).
       bindr (patch buf1 ((l - a) * SectorSize) bs) (\<lambda>buf. Inr (w1, f1, buf))) else Inr (w1, f1, buf1)) = Inr (w2, f2, buf2)"
    "reread B w f w2 f2" "length buf2 = nat (l + 1 - a) * 128"
    "covers ?old (nat a) ?N buf2 (if ?c2 then (if ?c1 then {} \<union> {q. q div 128 = nat a} else {}) \<union> {q. q div 128 = nat l}
       else (if ?c1 then {} \<union> {q. q div 128 = nat a} else {}))"
    using s1(3) by auto
  have sf: "mapped (image w2) (hdr f2) B" "numSectors (hdr f2) = numSectors ?h" "dataSectors (hdr f2) = dataSectors ?h"
    "sectorNumber (hdr f2) = sectorNumber ?h" "sd_ok w2" "fs_frame w w2" "same_file f f2"
    using s2(2) by (simp_all add: reread_def same_file_def fs_ok_def)
  have new: "slice from 0 n = Inr (take (nat n) from)" using p src by (simp add: slice_def)
  have off: "nat (p - a * 128) = nat p - nat a * 128" using a p by (simp add: nat_diff_distrib nat_mult_distrib)
  have "int (nat p - nat a * 128 + nat n) = p - a * 128 + n" using a p by (simp add: off [symmetric])
  moreover have "int (nat (l + 1 - a) * 128) = (l + 1 - a) * 128" using a by simp
  moreover have "p - a * 128 + n \<le> (l + 1 - a) * 128" using l(2) by (simp add: algebra_simps)
  ultimately have "nat p - nat a * 128 + nat n \<le> nat (l + 1 - a) * 128" by (simp only: of_nat_le_iff [symmetric, where 'a = int])
  then have fit: "nat p - nat a * 128 + nat n \<le> length buf2" unfolding s2(3) .
  have nl: "length (take (nat n) from) = nat n" using src by simp
  obtain buf3 where b3: "patch buf2 (p - a * 128) (take (nat n) from) = Inr buf3" "length buf3 = length buf2"
    "\<forall>q < length buf2. buf3 ! q = (if nat p - nat a * 128 \<le> q \<and> q < nat p - nat a * 128 + nat n
        then take (nat n) from ! (q - (nat p - nat a * 128)) else buf2 ! q)"
    using patch_ok [of "p - a * 128" "take (nat n) from" buf2, unfolded off nl, OF _ fit] a(3) by auto
  have b3n: "\<forall>q < length buf2. buf3 ! q = (if nat p - nat a * 128 \<le> q \<and> q < nat p - nat a * 128 + nat n
        then from ! (q - (nat p - nat a * 128)) else buf2 ! q)"
  proof (intro allI impI)
    fix q assume "q < length buf2"
    moreover have "take (nat n) from ! (q - (nat p - nat a * 128)) = from ! (q - (nat p - nat a * 128))"
      if "nat p - nat a * 128 \<le> q" "q < nat p - nat a * 128 + nat n" using that by (intro nth_take) linarith
    ultimately show "buf3 ! q = (if nat p - nat a * 128 \<le> q \<and> q < nat p - nat a * 128 + nat n
        then from ! (q - (nat p - nat a * 128)) else buf2 ! q)" using b3(3) by auto
  qed
  note b3l = b3(2) [unfolded s2(3)]
  have ls: "l < numSectors (hdr f2)" using l(4) sf(2) by simp
  obtain w3 where w3: "write_sectors (hdr f2) a l buf3 w2 = Inr w3" "sd_ok w3" "sd_frame w2 w3"
    "\<forall>k. nat a \<le> k \<and> k < nat (l + 1) \<longrightarrow> image w3 (nat (B ! k)) = take 128 (drop ((k - nat a) * 128) buf3)"
    "\<forall>x. (\<forall>k. nat a \<le> k \<and> k < nat (l + 1) \<longrightarrow> x \<noteq> nat (B ! k)) \<longrightarrow> image w3 x = image w2 x"
    using write_sectors_ok [OF sf(1,5) a(1) ls b3l] unfolding sf(3) by blast
  note fr3 = sd_fs_frame [OF w3(3)]
  define tm where "tm = hostclock w3 (clock_reads w3)"
  have "fs_ok w2" using s2(2) by (simp add: reread_def)
  then have tm: "24 \<le> length tm" using fr3 by (simp add: tm_def fs_ok_def fs_frame_def)
  let ?w4 = "w3\<lparr>clock_reads := Suc (clock_reads w3)\<rparr>" and ?h3 = "SetTime (CHR ''m'') tm (hdr f2)"
  have "sd_ok ?w4" using w3(2) by (simp add: sd_ok_def calm_def mach_ok_def clock_ok_def disk_ok_def)
  from WriteBack_ok [OF this mappedD(7) [OF sf(1)] mappedD(1) [OF mapped_SetTime [OF tm sf(1)]]]
  obtain w5 where w5: "WriteBack (sectorNumber (hdr f2)) ?h3 ?w4 = Inr w5" "sd_ok w5"
    "image w5 = (image ?w4)(nat (sectorNumber (hdr f2)) := hdr_bytes ?h3)" "sd_frame ?w4 w5" by blast
  have e: "divRoundDown p SectorSize = a" "divRoundDown (p + n - 1) SectorSize = l" "p - a * SectorSize = p - a * 128"
    using p by (simp_all add: divRoundDown_def SectorSize_def a_def l_def)
  have eq: "write_body from n p f w = Inr (w5, f2\<lparr>hdr := ?h3\<rparr>, n)"
    by (simp only: write_body_def Let_def e buf0_def [symmetric] s1(1) s2(1) new e(3) b3(1) w3(1) set_time_def
        tm_def [symmetric] bindr_Inr prod.case) (simp add: w5(1))
  have fr: "fs_frame w w5" using sf(6) fr3 sd_fs_frame [OF w5(4)] by (simp add: fs_frame_def)
  have hs: "sectorNumber (hdr f2) = sectorNumber ?h" using sf(4) .
  have nats: "int (nat a) = a" "int (nat l) = l" "int (nat p) = p" "int (nat n) = n" "nat (l + 1) = Suc (nat l)"
    "nat (l + 1 - a) = nat l + 1 - nat a" "nat (p + n) = nat p + nat n" using a p by auto
  have range: "nat a * 128 \<le> nat p" "nat p < nat a * 128 + 128" "nat l * 128 < nat p + nat n" "nat p + nat n \<le> nat l * 128 + 128"
    using a(3,4) l(1,2) nats by linarith+
  have i5: "image w5 = (image w3)(nat (sectorNumber ?h) := hdr_bytes ?h3)" using w5(3) hs by simp
  have out3: "image w5 x = image w x" if "\<forall>k. nat a \<le> k \<and> k \<le> nat l \<longrightarrow> x \<noteq> nat (B ! k)" "x \<noteq> nat (sectorNumber ?h)" for x
    using w3(5) that s2(2) unfolding nats(5) i5 reread_def by (simp add: less_Suc_eq_le)
  have in3: "image w5 (nat (B ! k)) = take 128 (drop ((k - nat a) * 128) buf3)" if "nat a \<le> k" "k \<le> nat l" for k
  proof -
    have "k < nat (numSectors ?h)" "k < nat (l + 1)" using that l(4) nats(2,5) by linarith+
    then show ?thesis using w3(4) that(1) header_not_block [OF f, of k] unfolding i5 by simp
  qed
  have c: "p = a * SectorSize \<longleftrightarrow> nat p = nat a * 128" "p + n = (l + 1) * SectorSize \<longleftrightarrow> nat p + nat n = (nat l + 1) * 128" "a \<noteq> l \<longleftrightarrow> nat a \<noteq> nat l"
    using nats(1-4) unfolding SectorSize_def distrib_right by (linarith, linarith, metis)
  have fb: "gbyte (image w5) B x = (if nat p \<le> x \<and> x < nat (p + n) then from ! (x - nat p) else ?old x)" if x: "x < ?N" for x
  proof -
    have "gbyte (image w5) B x = (if nat p \<le> x \<and> x < nat p + nat n then from ! (x - nat p) else ?old x)"
      using written_byte [OF f range(1,4) _ in3 out3 b3l [unfolded nats(6)] b3n [folded b3(2)]
          edges_covered [OF range s2(4) [unfolded c Un_empty_left]] x] l(4) nats(2) s2(3) b3(2) by simp
    then show ?thesis using sf(3) nats(7) by (simp add: gbyte_def)
  qed
  have oth: "image w5 x = image w x"
    if "x \<noteq> nat (sectorNumber ?h)" "x \<notin> nat ` set B" for x
  proof -
    have "x \<noteq> nat (B ! k)" if "nat a \<le> k \<and> k \<le> nat l" for k
    proof -
      have "k < nat (numSectors ?h)" using that l(4) nats by linarith
      then have "B ! k \<in> set B" using mappedD(8) [OF f] by simp
      then show ?thesis using \<open>x \<notin> _\<close> by blast
    qed
    then show ?thesis using out3 that(1) by blast
  qed
  have "fs_ok w5" using w5(2) w fr by (simp add: fs_ok_def fs_frame_def)
  moreover have "mapped (image w5) ?h3 B"
  proof (rule mapped_SetTime [OF tm], rule mapped_image [OF sf(1)])
    assume "8 < numSectors (hdr f2)"
    from index_apart [OF sf(1) this] show "image w5 (nat (dataSectors (hdr f2) ! 8)) = image w2 (nat (dataSectors (hdr f2) ! 8))"
      using oth s2(2) sf(4) by (simp add: reread_def)
  qed
  moreover have "same_file f (f2\<lparr>hdr := ?h3\<rparr>)" using sf(7) by (simp add: same_file_def)
  moreover have "image w5 (nat (sectorNumber ?h)) = hdr_bytes ?h3" using w5(3) hs by simp
  ultimately show ?thesis
    using eq fr fb oth by (intro exI [of _ w5] exI [of _ "f2\<lparr>hdr := ?h3\<rparr>"]) simp
qed


section \<open>Reading and writing files\<close>

lemma patched_list:
  assumes "length ys = length xs" "p + n \<le> length xs" "n \<le> length zs"
    and ys: "\<And>i. i < length xs \<Longrightarrow> ys ! i = (if p \<le> i \<and> i < p + n then zs ! (i - p) else xs ! i)"
  shows "ys = take p xs @ take n zs @ drop (p + n) xs"
proof (rule nth_equalityI)
  show "length ys = length (take p xs @ take n zs @ drop (p + n) xs)" using assms by simp
  fix i assume "i < length ys"
  then have i: "i < length xs" using assms(1) by simp
  consider "i < p" | "p \<le> i" "i < p + n" "i - p < n" | "p + n \<le> i" "\<not> i - p < n" by linarith
  then show "ys ! i = (take p xs @ take n zs @ drop (p + n) xs) ! i"
    by cases (use ys [OF i] assms(2,3) i in \<open>simp_all add: nth_append min_absorb2\<close>)
qed

lemma WriteAt_in_range:
  assumes "0 < n" "p + n \<le> numBytes (hdr f)" "fits32 (p + n)"
  shows "WriteAt from n p f w = write_body from n p f w"
  using assms by (simp add: WriteAt_def FileLength_def numeral_eq_Suc)

lemma ReadAt_mapped:
  assumes "mapped (image w) (hdr f) B" "fs_ok w" "0 < n" "0 \<le> p" "p < numBytes (hdr f)" "fits32 (p + n)"
  shows "\<exists>w' f'. ReadAt n p f w = Inr (w', f', take (nat n) (drop (nat p) (content (image w) B (numBytes (hdr f))))) \<and>
    fs_ok w' \<and> fs_frame w w' \<and> mapped (image w') (hdr f') B \<and> same_file f f' \<and>
    content (image w') B (numBytes (hdr f')) = content (image w) B (numBytes (hdr f)) \<and>
    image w' = (image w)(nat (sectorNumber (hdr f)) := hdr_bytes (hdr f'))"
proof -
  obtain w' tm where r: "24 \<le> length tm"
    "ReadAt n p f w = Inr (w', f\<lparr>hdr := SetTime (CHR ''v'') tm (hdr f)\<rparr>, take (nat n) (drop (nat p) (content (image w) B (numBytes (hdr f)))))"
    "fs_ok w'" "fs_frame w w'" "image w' = (image w)(nat (sectorNumber (hdr f)) := hdr_bytes (SetTime (CHR ''v'') tm (hdr f)))"
    using ReadAt_ok [OF assms] by blast
  let ?f = "f\<lparr>hdr := SetTime (CHR ''v'') tm (hdr f)\<rparr>"
  have "mapped (image w') (hdr ?f) B" unfolding r(5) using mapped_touch [OF assms(1) r(1) refl] by simp
  moreover have "content (image w') B (numBytes (hdr ?f)) = content (image w) B (numBytes (hdr f))"
    unfolding r(5) using content_header [OF assms(1)] by simp
  moreover have "same_file f ?f" "image w' = (image w)(nat (sectorNumber (hdr f)) := hdr_bytes (hdr ?f))"
    using r(5) by (simp_all add: same_file_def)
  ultimately show ?thesis using r(2-4) by blast
qed

lemma WriteAt_mapped:
  assumes "mapped (image w) (hdr f) B" "fs_ok w" "0 \<le> p" "0 < n" "p + n \<le> numBytes (hdr f)" "n \<le> int (length from)"
  shows "\<exists>w' f'. WriteAt from n p f w = Inr (w', f', n) \<and> fs_ok w' \<and> fs_frame w w' \<and> mapped (image w') (hdr f') B \<and> same_file f f' \<and>
    content (image w') B (numBytes (hdr f')) = take (nat p) (content (image w) B (numBytes (hdr f))) @ take (nat n) from @
       drop (nat p + nat n) (content (image w) B (numBytes (hdr f))) \<and>
    image w' (nat (sectorNumber (hdr f))) = hdr_bytes (hdr f') \<and>
    (\<forall>x. x \<noteq> nat (sectorNumber (hdr f)) \<and> x \<notin> nat ` set B \<longrightarrow> image w' x = image w x)"
proof -
  obtain w' f' where b: "write_body from n p f w = Inr (w', f', n)" "fs_ok w'" "fs_frame w w'" "mapped (image w') (hdr f') B" "same_file f f'"
    "image w' (nat (sectorNumber (hdr f))) = hdr_bytes (hdr f')"
    "\<forall>x. x \<noteq> nat (sectorNumber (hdr f)) \<and> x \<notin> nat ` set B \<longrightarrow> image w' x = image w x"
    "\<forall>x < nat (numBytes (hdr f)). gbyte (image w') B x =
       (if nat p \<le> x \<and> x < nat (p + n) then from ! (x - nat p) else gbyte (image w) B x)"
    using write_body_ok [OF assms] by blast
  have pn: "nat (p + n) = nat p + nat n" "nat p + nat n \<le> nat (numBytes (hdr f))" "nat n \<le> length from" using assms by auto
  have "content (image w') B (numBytes (hdr f')) = take (nat p) (content (image w) B (numBytes (hdr f))) @ take (nat n) from @
       drop (nat p + nat n) (content (image w) B (numBytes (hdr f)))"
    using b(5,8) pn by (intro patched_list) (auto simp: same_file_def content_def)
  moreover have "fits32 (p + n)" using mappedD(1) [OF assms(1)] assms(3-5) by (auto simp: hdr_ok_def fits32_def)
  ultimately show ?thesis using b WriteAt_in_range [OF assms(4,5)] by metis
qed

section \<open>Small files\<close>

text \<open>A header that describes a file of at most eight data sectors, none of them its header's own.\<close>

definition file_ok :: "FileHeader \<Rightarrow> bool" where
  "file_ok h \<longleftrightarrow> hdr_ok h \<and> 0 \<le> numBytes h \<and> numSectors h = divRoundUp (numBytes h) SectorSize \<and> numSectors h \<le> 8 \<and>
     valid_sector (sectorNumber h) \<and>
     (\<forall>k < nat (numSectors h). valid_sector (dataSectors h ! k) \<and> dataSectors h ! k \<noteq> sectorNumber h) \<and>
     distinct (take (nat (numSectors h)) (dataSectors h))"

definition fbyte :: "(nat \<Rightarrow> sector) \<Rightarrow> FileHeader \<Rightarrow> nat \<Rightarrow> byte" where
  "fbyte img h p = img (nat (dataSectors h ! (p div 128))) ! (p mod 128)"

definition file_bytes :: "(nat \<Rightarrow> sector) \<Rightarrow> FileHeader \<Rightarrow> byte list" where
  "file_bytes img h = map (fbyte img h) [0..<nat (numBytes h)]"

lemma length_file_bytes [simp]: "length (file_bytes img h) = nat (numBytes h)"
  by (simp add: file_bytes_def)

lemma file_okD:
  assumes "file_ok h"
  shows "hdr_ok h" "length (dataSectors h) = 9" "0 \<le> numBytes h" "numBytes h \<le> numSectors h * 128"
    "0 \<le> numSectors h" "numSectors h \<le> 8" "valid_sector (sectorNumber h)"
    "numSectors h = (numBytes h + 127) div 128"
    "k < nat (numSectors h) \<Longrightarrow> valid_sector (dataSectors h ! k)"
    "k < nat (numSectors h) \<Longrightarrow> dataSectors h ! k \<noteq> sectorNumber h"
    "distinct (take (nat (numSectors h)) (dataSectors h))"
  using assms divRoundUp_bounds [of "numBytes h" 128]
  by (auto simp: file_ok_def hdr_ok_def NumDirect_def SectorSize_def divRoundUp_nonneg)

lemma file_ok_SetTime [simp]: "24 \<le> length tm \<Longrightarrow> file_ok h \<Longrightarrow> file_ok (SetTime m tm h)"
  by (auto simp: file_ok_def hdr_ok_def SetTime_def time_text_def)

lemma file_bytes_SetTime [simp]: "file_bytes img (SetTime m tm h) = file_bytes img h"
  by (simp add: file_bytes_def fbyte_def cong: map_cong)

lemma data_sector_inj:
  assumes "file_ok h" "j < nat (numSectors h)" "k < nat (numSectors h)"
  shows "nat (dataSectors h ! j) = nat (dataSectors h ! k) \<longleftrightarrow> j = k"
proof -
  have "dataSectors h ! j = dataSectors h ! k \<longleftrightarrow> j = k"
    using nth_eq_iff_index_eq [OF file_okD(11) [OF assms(1)], of j k] assms(2,3) file_okD(2,5,6) [OF assms(1)] by simp
  then show ?thesis using file_okD(9) [OF assms(1,2)] file_okD(9) [OF assms(1,3)] by (auto simp: valid_sector_def)
qed

lemma header_not_data:
  "file_ok h \<Longrightarrow> k < nat (numSectors h) \<Longrightarrow> nat (dataSectors h ! k) \<noteq> nat (sectorNumber h)"
  using file_okD(7) [of h] file_okD(9,10) [of h k] by (auto simp: valid_sector_def)

lemma byte_sector: "file_ok h \<Longrightarrow> p < nat (numBytes h) \<Longrightarrow> p div 128 < nat (numSectors h)"
  using file_okD(4) [of h] by linarith

lemma file_bytes_header [simp]: "file_ok h \<Longrightarrow> file_bytes (img(nat (sectorNumber h) := x)) h = file_bytes img h"
  using header_not_data byte_sector by (fastforce simp: file_bytes_def fbyte_def)

lemma file_ok_mapped:
  assumes "file_ok h"
  shows "mapped img h (take (nat (numSectors h)) (dataSectors h))"
    "content img (take (nat (numSectors h)) (dataSectors h)) (numBytes h) = file_bytes img h"
proof -
  let ?B = "take (nat (numSectors h)) (dataSectors h)"
  note D = file_okD [OF assms]
  have nth: "k \<in> set ?B \<longleftrightarrow> (\<exists>i < nat (numSectors h). k = dataSectors h ! i)" for k
    using D(2,5,6) by (auto simp: in_set_conv_nth)
  have v: "\<forall>k \<in> set ?B. valid_sector k" "sectorNumber h \<notin> set ?B" using D(9,10) unfolding Ball_def nth by metis+
  have "numSectors h = divRoundUp (numBytes h) SectorSize" using assms by (simp add: file_ok_def)
  then show "mapped img h ?B" using v D(1,3,6,7,11) by (simp add: mapped_def described_def)
  show "content img ?B (numBytes h) = file_bytes img h"
    using byte_sector [OF assms] by (auto simp: content_def file_bytes_def gbyte_def fbyte_def)
qed

lemma mapped_file_ok:
  assumes "mapped img h B" "numSectors h \<le> 8"
  shows "file_ok h" "B = take (nat (numSectors h)) (dataSectors h)"
proof -
  show B: "B = take (nat (numSectors h)) (dataSectors h)" using assms by (simp add: mapped_def described_def)
  have "valid_sector (dataSectors h ! k) \<and> dataSectors h ! k \<noteq> sectorNumber h" if "k < nat (numSectors h)" for k
    using mappedD(9,10) [OF assms(1) that] that mappedD(2) [OF assms(1)] assms(2) unfolding B by simp
  then show "file_ok h" using assms(2) mappedD(11) [OF assms(1)] assms(1) unfolding B by (auto simp: file_ok_def mapped_def)
qed

lemma ReadAt_file_ok:
  assumes "file_ok (hdr f)" "fs_ok w" "0 < n" "0 \<le> p" "p < numBytes (hdr f)" "fits32 (p + n)"
  shows "\<exists>w' f'. ReadAt n p f w = Inr (w', f', take (nat n) (drop (nat p) (file_bytes (image w) (hdr f)))) \<and>
    fs_ok w' \<and> fs_frame w w' \<and> file_ok (hdr f') \<and> same_file f f' \<and>
    file_bytes (image w') (hdr f') = file_bytes (image w) (hdr f) \<and>
    image w' = (image w)(nat (sectorNumber (hdr f)) := hdr_bytes (hdr f'))"
proof -
  note m = file_ok_mapped [OF assms(1), of "image w"]
  obtain w' f' where r: "ReadAt n p f w = Inr (w', f', take (nat n) (drop (nat p) (file_bytes (image w) (hdr f))))"
    "fs_ok w'" "fs_frame w w'" "mapped (image w') (hdr f') (take (nat (numSectors (hdr f))) (dataSectors (hdr f)))" "same_file f f'"
    "image w' = (image w)(nat (sectorNumber (hdr f)) := hdr_bytes (hdr f'))"
    using ReadAt_mapped [OF m(1) assms(2-6)] unfolding m(2) by blast
  have "file_ok (hdr f')" using mapped_file_ok(1) [OF r(4)] r(5) file_okD(6) [OF assms(1)] by (simp add: same_file_def)
  moreover have "file_bytes (image w') (hdr f') = file_bytes (image w) (hdr f)"
    using file_bytes_header [OF assms(1)] r(5) unfolding r(6) by (simp add: file_bytes_def fbyte_def same_file_def)
  ultimately show ?thesis using r by blast
qed

lemma WriteAt_file_ok:
  assumes "file_ok (hdr f)" "fs_ok w" "0 \<le> p" "0 < n" "p + n \<le> numBytes (hdr f)" "n \<le> int (length from)"
  shows "\<exists>w' f'. WriteAt from n p f w = Inr (w', f', n) \<and> fs_ok w' \<and> fs_frame w w' \<and> file_ok (hdr f') \<and> same_file f f' \<and>
    file_bytes (image w') (hdr f') = take (nat p) (file_bytes (image w) (hdr f)) @ take (nat n) from @
       drop (nat p + nat n) (file_bytes (image w) (hdr f)) \<and>
    image w' (nat (sectorNumber (hdr f))) = hdr_bytes (hdr f') \<and>
    (\<forall>x. x \<noteq> nat (sectorNumber (hdr f)) \<and> x \<notin> nat ` set (take (nat (numSectors (hdr f))) (dataSectors (hdr f))) \<longrightarrow>
       image w' x = image w x)"
proof -
  note m = file_ok_mapped [OF assms(1), of "image w"]
  obtain w' f' where r: "WriteAt from n p f w = Inr (w', f', n)" "fs_ok w'" "fs_frame w w'"
    "mapped (image w') (hdr f') (take (nat (numSectors (hdr f))) (dataSectors (hdr f)))" "same_file f f'"
    "content (image w') (take (nat (numSectors (hdr f))) (dataSectors (hdr f))) (numBytes (hdr f')) =
       take (nat p) (file_bytes (image w) (hdr f)) @ take (nat n) from @ drop (nat p + nat n) (file_bytes (image w) (hdr f))"
    "image w' (nat (sectorNumber (hdr f))) = hdr_bytes (hdr f')"
    "\<forall>x. x \<noteq> nat (sectorNumber (hdr f)) \<and> x \<notin> nat ` set (take (nat (numSectors (hdr f))) (dataSectors (hdr f))) \<longrightarrow> image w' x = image w x"
    using WriteAt_mapped [OF m(1) assms(2-6)] unfolding m(2) by blast
  have sf: "numSectors (hdr f') = numSectors (hdr f)" "dataSectors (hdr f') = dataSectors (hdr f)" using r(5) by (simp_all add: same_file_def)
  have ok: "file_ok (hdr f')" using mapped_file_ok(1) [OF r(4)] sf file_okD(6) [OF assms(1)] by simp
  have "file_bytes (image w') (hdr f') = content (image w') (take (nat (numSectors (hdr f))) (dataSectors (hdr f))) (numBytes (hdr f'))"
    using file_ok_mapped(2) [OF ok] unfolding sf by simp
  with r ok show ?thesis by metis
qed

section \<open>Properties of open files\<close>

text \<open>
  (C9) \<^verbatim>\<open>ReadAt\<close> on a file of up to 40 sectors, in the index block if it needs one, returns exactly the bytes
  of the file from the given position inside it, cut at the end of the file, whatever the alignment of the
  request; it changes nothing on the disk but the header of the file, where the time of the last
  access is recorded. (The blocks behind the first eight must have numbers below 128, and position and number of bytes together must fit a
  C int: the code adds them before it compares with the length.)
\<close>

theorem ReadAt_reads_file:
  assumes "mapped (image w) (hdr f) B" "fs_ok w" "0 < n" "0 \<le> p" "p < numBytes (hdr f)" "fits32 (p + n)"
  shows "\<exists>w' f'. ReadAt n p f w = Inr (w', f', take (nat n) (drop (nat p) (content (image w) B (numBytes (hdr f))))) \<and>
    fs_ok w' \<and> fs_frame w w' \<and> mapped (image w') (hdr f') B \<and> same_file f f' \<and>
    content (image w') B (numBytes (hdr f')) = content (image w) B (numBytes (hdr f)) \<and>
    image w' = (image w)(nat (sectorNumber (hdr f)) := hdr_bytes (hdr f'))"
  using assms by (rule ReadAt_mapped)

definition sample_file :: OpenFile where
  "sample_file = \<lparr>hdr = \<lparr>numBytes = 200, numSectors = 2, dataSectors = [7, 9, 0, 0, 0, 0, 0, 0, 0], ftype = replicate 5 0,
     create_time = replicate 25 0, last_v_time = replicate 25 0, last_m_time = replicate 25 0, sectorNumber = 4\<rparr>,
     seekPosition = 0\<rparr>"

definition fresh_fs :: fs_sim where
  "fresh_fs = synch_sim.extend fresh_synch
     (fs_sim.fields (\<lambda>_. replicate 25 65) 0 (\<lambda>_. 171) (replicate 32 (-1)))"

lemma fresh_fs_ok: "fs_ok fresh_fs" "image fresh_fs = (\<lambda>_. zero_sector)" "file_ok (hdr sample_file)" "numBytes (hdr sample_file) = 200"
proof -
  show "fs_ok fresh_fs"
    by (simp add: fs_ok_def sd_ok_def fresh_fs_def synch_sim.defs fs_sim.defs fresh_synch_def calm_def Interrupt_new_def Statistics_new_def mach_ok_def clock_ok_def
      disk_ok_def disk_consts cache_ok_def zero_sector_def)
  show "image fresh_fs = (\<lambda>_. zero_sector)" by (simp add: fresh_fs_def synch_sim.defs fresh_synch_def)
  show "file_ok (hdr sample_file)"
    by (auto simp: file_ok_def hdr_ok_def sample_file_def fits32_def NumDirect_def SectorSize_def divRoundUp_nonneg valid_sector_def
        disk_consts less_Suc_eq numeral_eq_Suc)
  show "numBytes (hdr sample_file) = 200" by (simp add: sample_file_def)
qed

lemma zero_file: "file_bytes (\<lambda>_. zero_sector) (hdr sample_file) = replicate 200 0"
  by (rule nth_equalityI) (simp_all add: fresh_fs_ok file_bytes_def fbyte_def zero_sector_def SectorSize_def)

text \<open>A file of ten sectors: two of its blocks are found through the index block in sector 20.\<close>

definition long_file :: OpenFile where
  "long_file = \<lparr>hdr = \<lparr>numBytes = 1200, numSectors = 10, dataSectors = [7, 9, 11, 12, 13, 14, 15, 16, 20], ftype = replicate 5 0,
     create_time = replicate 25 0, last_v_time = replicate 25 0, last_m_time = replicate 25 0, sectorNumber = 4\<rparr>,
     seekPosition = 0\<rparr>"

definition long_image :: "nat \<Rightarrow> sector" where
  "long_image = (\<lambda>_. zero_sector)(20 := ints_bytes (21 # 22 # replicate 30 0), 22 := replicate 128 5)"

definition long_fs :: fs_sim where
  "long_fs = fresh_fs\<lparr>image := long_image\<rparr>"

definition long_blocks :: "int list" where
  "long_blocks = [7, 9, 11, 12, 13, 14, 15, 16, 21, 22]"

lemma index_bytes: "sint (ints_bytes (21 # 22 # xs) ! 0) = 21" "sint (ints_bytes (21 # 22 # xs) ! 4) = 22"
  by (simp_all add: ints_bytes_def int_bytes_def le32_def)

lemma long_fs_ok: "fs_ok long_fs" "mapped long_image (hdr long_file) long_blocks" "image long_fs = long_image" "numBytes (hdr long_file) = 1200"
proof -
  show "image long_fs = long_image" "numBytes (hdr long_file) = 1200" by (simp_all add: long_fs_def long_file_def)
  have "length (long_image n) = 128" for n
    by (simp add: long_image_def zero_sector_def SectorSize_def ints_bytes_def length_concat comp_def sum_list_replicate)
  then show "fs_ok long_fs"
    using fresh_fs_ok(1) by (simp add: fs_ok_def sd_ok_def long_fs_def calm_def mach_ok_def clock_ok_def disk_ok_def SectorSize_def
        fresh_fs_def synch_sim.defs fs_sim.defs fresh_synch_def cache_ok_def)
  have "described long_image (hdr long_file) = long_blocks"
    by (simp add: described_def long_file_def long_blocks_def long_image_def index_bytes upt_rec)
  then show "mapped long_image (hdr long_file) long_blocks"
    by (simp add: mapped_def, simp add: long_file_def long_blocks_def hdr_ok_def fits32_def NumDirect_def SectorSize_def divRoundUp_nonneg valid_sector_def disk_consts)
qed

theorem ReadAt_reads_file_witness:
  "\<exists>w' f'. ReadAt 50 1170 long_file long_fs = Inr (w', f', replicate 30 5)"
proof -
  have "take 50 (drop 1170 (content long_image long_blocks 1200)) = replicate 30 5"
    by (rule nth_equalityI) (simp_all add: content_def gbyte_def long_blocks_def long_image_def)
  then show ?thesis
    using ReadAt_reads_file [of long_fs long_file long_blocks 50 1170] long_fs_ok by (auto simp: fits32_def)
qed

text \<open>
  (C8) \<^verbatim>\<open>WriteAt\<close> inside such a file replaces exactly the bytes it was given: whatever the alignment
  (partly written sectors are read first), the file afterwards is the old one with those bytes patched
  in, no sector but the file's blocks and its header has changed, and the header on disk is the one in
  memory.
\<close>

theorem WriteAt_patches_file:
  assumes "mapped (image w) (hdr f) B" "fs_ok w" "0 \<le> p" "0 < n" "p + n \<le> numBytes (hdr f)" "n \<le> int (length from)"
  shows "\<exists>w' f'. WriteAt from n p f w = Inr (w', f', n) \<and> fs_ok w' \<and> fs_frame w w' \<and> mapped (image w') (hdr f') B \<and> same_file f f' \<and>
    content (image w') B (numBytes (hdr f')) = take (nat p) (content (image w) B (numBytes (hdr f))) @ take (nat n) from @
       drop (nat p + nat n) (content (image w) B (numBytes (hdr f))) \<and>
    image w' (nat (sectorNumber (hdr f))) = hdr_bytes (hdr f') \<and>
    (\<forall>x. x \<noteq> nat (sectorNumber (hdr f)) \<and> x \<notin> nat ` set B \<longrightarrow> image w' x = image w x)"
  using assms by (rule WriteAt_mapped)

theorem WriteAt_patches_file_witness:
  "\<exists>w' f'. WriteAt [1, 2, 3] 3 1150 long_file long_fs = Inr (w', f', 3) \<and>
     drop 1149 (take 1154 (content (image w') long_blocks (numBytes (hdr f')))) = [0, 1, 2, 3, 5]"
proof -
  define c where "c = content long_image long_blocks 1200"
  have c: "length c = 1200" "c ! 1149 = 0" "c ! 1153 = 5" by (simp_all add: c_def content_def gbyte_def long_blocks_def long_image_def zero_sector_def SectorSize_def)
  have "drop 1149 (take 1154 (take 1150 c @ [1, 2, 3] @ drop 1153 c)) = [c ! 1149, 1, 2, 3, c ! 1153]" (is "?l = ?r")
  proof (rule nth_equalityI)
    fix i assume "i < length ?l"
    then have "i < 5" using c(1) by simp
    then consider "i = 0" | "i = 1" | "i = 2" | "i = 3" | "i = 4" by linarith
    then show "?l ! i = ?r ! i" using c(1) by cases (simp_all add: nth_append)
  qed (use c(1) in simp)
  with c have l: "drop 1149 (take 1154 (take 1150 c @ [1, 2, 3] @ drop 1153 c)) = [0, 1, 2, 3, 5]" by simp
  obtain w' f' where "WriteAt [1, 2, 3] 3 1150 long_file long_fs = Inr (w', f', 3)"
    "content (image w') long_blocks (numBytes (hdr f')) = take 1150 c @ [1, 2, 3] @ drop 1153 c"
    using WriteAt_patches_file [of long_fs long_file long_blocks 1150 3 "[1, 2, 3]"] long_fs_ok by (auto simp: c_def)
  then show ?thesis using l by auto
qed

end
