(* ===== verification/Nachos_Directory.thy ===== *)
theory Nachos_Directory
  imports Nachos_FileData
begin

text \<open>
  Directories (\<^verbatim>\<open>filesys/directory.h\<close>, \<^verbatim>\<open>directory.cc\<close>): tables of entries that are stored as files, path
  names, look-up, insertion and removal. File names are C strings; in the model a string is the list of
  its bytes without the final NUL, and \<open>cstr\<close> adds the NUL where the code reads it. A table is the raw
  memory the code copies to and from the file, so an entry has its padding bytes too (36 bytes in all).
\<close>

section \<open>C strings\<close>

definition cstr :: "byte list \<Rightarrow> byte list" where
  "cstr s = s @ [0]"

definition slash :: byte where "slash = 47"

text \<open>\<^verbatim>\<open>!strncmp(a, b, n)\<close> on two buffers; running off the end of a buffer is an error.\<close>

fun strncmp_eq :: "nat \<Rightarrow> byte list \<Rightarrow> byte list \<Rightarrow> bool result" where
  "strncmp_eq 0 a b = Inr True"
| "strncmp_eq (Suc n) (x # a) (y # b) = (if x \<noteq> y then Inr False else if x = 0 then Inr True else strncmp_eq n a b)"
| "strncmp_eq (Suc n) a b = Inl OutOfBounds"

text \<open>\<^verbatim>\<open>strncpy(dst, src, n)\<close>: \<open>n\<close> bytes, padded with NULs, over the beginning of \<open>dst\<close>.\<close>

definition strncpy :: "byte list \<Rightarrow> byte list \<Rightarrow> nat \<Rightarrow> byte list result" where
  "strncpy dst src n = patch dst 0 (take n src @ replicate (n - length src) 0)"

definition strcpy :: "byte list \<Rightarrow> byte list \<Rightarrow> byte list result" where
  "strcpy dst src = patch dst 0 (cstr src)"

section \<open>Path names\<close>

text \<open>The loops \<^verbatim>\<open>for (i = len - 1; i > 0; i--) if (name[i] == '/')\<close> and its forward variant.\<close>

definition last_slash :: "byte list \<Rightarrow> nat option" where
  "last_slash name = find (\<lambda>i. name ! i = slash) (rev [1..<length name])"

definition first_slash :: "byte list \<Rightarrow> nat option" where
  "first_slash name = find (\<lambda>i. name ! i = slash) [0..<length name]"

definition absPath :: "byte list \<Rightarrow> bool" where
  "absPath name = (last_slash name \<noteq> None)"

definition getAbsDir :: "byte list \<Rightarrow> byte list result" where
  "getAbsDir name =
     bindr (ASSERT (absPath name)) (\<lambda>_.
       case last_slash name of None \<Rightarrow> Inl OutOfBounds | Some p \<Rightarrow> Inr (take p name))"

definition getRealName :: "byte list \<Rightarrow> byte list" where
  "getRealName name = (case last_slash name of None \<Rightarrow> name | Some p \<Rightarrow> drop (Suc p) name)"

section \<open>Entries and tables\<close>

definition FileNameMaxLen :: nat where "FileNameMaxLen = 20"
definition rootSector :: int where "rootSector = 1"
definition NumDirEntries :: nat where "NumDirEntries = 10"

record DirectoryEntry =
  inUse :: byte
  pad1 :: "byte list"
  sector_of :: int
  entry_name :: "byte list"
  pad2 :: "byte list"
  entry_type :: int

type_synonym Directory = "DirectoryEntry list"

definition entry_bytes :: "DirectoryEntry \<Rightarrow> byte list" where
  "entry_bytes e = [inUse e] @ pad1 e @ int_bytes (sector_of e) @ entry_name e @ pad2 e @ int_bytes (entry_type e)"

definition bytes_entry :: "byte list \<Rightarrow> DirectoryEntry" where
  "bytes_entry bs = \<lparr>inUse = bs ! 0, pad1 = take 3 (drop 1 bs), sector_of = bytes_int (take 4 (drop 4 bs)),
     entry_name = take 21 (drop 8 bs), pad2 = take 3 (drop 29 bs), entry_type = bytes_int (take 4 (drop 32 bs))\<rparr>"

definition table_bytes :: "Directory \<Rightarrow> byte list" where
  "table_bytes d = concat (map entry_bytes d)"

definition bytes_table :: "byte list \<Rightarrow> Directory" where
  "bytes_table bs = map (\<lambda>i. bytes_entry (take 36 (drop (36 * i) bs))) [0..<length bs div 36]"

text \<open>The two constructors, on fresh heap memory: \<open>.\<close> and \<open>..\<close>, and unused entries.\<close>

definition set_entry :: "Directory \<Rightarrow> nat \<Rightarrow> int \<Rightarrow> byte list \<Rightarrow> Directory result" where
  "set_entry d i sec nm =
     bindr (arr_get d (int i)) (\<lambda>e.
     bindr (strcpy (entry_name e) nm) (\<lambda>nm'.
       arr_set d (int i) (e\<lparr>inUse := 1, sector_of := sec, entry_type := 0, entry_name := nm'\<rparr>)))"

definition Directory_new3 :: "nat \<Rightarrow> int \<Rightarrow> int \<Rightarrow> 'a fs_sim_scheme \<Rightarrow> Directory result" where
  "Directory_new3 n sec dad_sector w =
     (let table = bytes_table (fresh_buf w (36 * int n)) in
      bindr (set_entry table 0 sec [46]) (\<lambda>d1.
      bindr (set_entry d1 1 dad_sector [46, 46]) (\<lambda>d2.
        Inr (take 2 d2 @ map (\<lambda>e. e\<lparr>inUse := 0\<rparr>) (drop 2 d2)))))"

definition Directory_new :: "nat \<Rightarrow> 'a fs_sim_scheme \<Rightarrow> Directory result" where
  "Directory_new n w = Directory_new3 n rootSector rootSector w"

definition Dir_FetchFrom ::
  "Directory \<Rightarrow> OpenFile \<Rightarrow> 'a fs_sim_scheme \<Rightarrow> ('a fs_sim_scheme \<times> OpenFile \<times> Directory) result" where
  "Dir_FetchFrom d f w =
     bindr (ReadAt (int (length d) * 36) 0 f w) (\<lambda>(w1, f1, bs).
     bindr (patch (table_bytes d) 0 bs) (\<lambda>mem. Inr (w1, f1, bytes_table mem)))"

definition Dir_WriteBack :: "Directory \<Rightarrow> OpenFile \<Rightarrow> 'a fs_sim_scheme \<Rightarrow> ('a fs_sim_scheme \<times> OpenFile) result" where
  "Dir_WriteBack d f w =
     bindr (WriteAt (table_bytes d) (int (length d) * 36) 0 f w) (\<lambda>(w1, f1, _). Inr (w1, f1))"

section \<open>Look-up\<close>

text \<open>The search in one table: the first entry in use whose first 20 name bytes agree.\<close>

fun find_name :: "Directory \<Rightarrow> byte list \<Rightarrow> int \<Rightarrow> int result" where
  "find_name [] buf i = Inr (-1)"
| "find_name (e # d) buf i =
     (if inUse e \<noteq> 0 then
        bindr (strncmp_eq FileNameMaxLen (entry_name e) buf) (\<lambda>b. if b then Inr i else find_name d buf (i + 1))
      else find_name d buf (i + 1))"

text \<open>The search for a subdirectory takes the last match.\<close>

fun find_subdir :: "Directory \<Rightarrow> byte list \<Rightarrow> int \<Rightarrow> int \<Rightarrow> int result" where
  "find_subdir [] buf i dir_idx = Inr dir_idx"
| "find_subdir (e # d) buf i dir_idx =
     (if inUse e \<noteq> 0 \<and> entry_type e = 0 then
        bindr (strncmp_eq FileNameMaxLen (entry_name e) buf) (\<lambda>b. find_subdir d buf (i + 1) (if b then i else dir_idx))
      else find_subdir d buf (i + 1) dir_idx)"

text \<open>
  \<^verbatim>\<open>dir_name\<close> has \<open>str_p + 2\<close> bytes of which \<^verbatim>\<open>strncpy\<close> sets the first \<open>str_p\<close>: the rest is what the heap held.
\<close>

function FindIndex :: "byte list \<Rightarrow> Directory \<Rightarrow> 'a fs_sim_scheme \<Rightarrow> ('a fs_sim_scheme \<times> int) result" where
  "FindIndex name d w =
     (case first_slash name of
        None \<Rightarrow> bindr (find_name d (cstr name) 0) (\<lambda>i. Inr (w, i))
      | Some str_p \<Rightarrow>
          bindr (strncpy (fresh_buf w (int str_p + 2)) name str_p) (\<lambda>dir_name.
          bindr (find_subdir d dir_name 0 (-1)) (\<lambda>dir_idx.
          bindr (arr_get d dir_idx) (\<lambda>e.
          bindr (OpenFile_new (sector_of e) w) (\<lambda>(w1, next_dir).
          bindr (Directory_new NumDirEntries w1) (\<lambda>nd.
          bindr (Dir_FetchFrom nd next_dir w1) (\<lambda>(w2, next_dir2, nd2).
          bindr (FindIndex (drop (Suc str_p) name) nd2 w2) (\<lambda>(w3, res_idx).
          bindr (OpenFile_delete next_dir2 w3) (\<lambda>w4. Inr (w4, res_idx))))))))))"
  by pat_completeness auto
termination
proof (relation "measure (\<lambda>(name, d, w). length name)", goal_cases)
  case (2 name d w p)
  then have "p < length name" by (auto simp: first_slash_def dest: find_Some_mem)
  then show ?case by simp
qed simp

declare FindIndex.simps [simp del]


definition Dir_Find :: "byte list \<Rightarrow> Directory \<Rightarrow> 'a fs_sim_scheme \<Rightarrow> ('a fs_sim_scheme \<times> int) result" where
  "Dir_Find name d w =
     bindr (FindIndex name d w) (\<lambda>(w1, i).
       if i \<noteq> -1 then bindr (arr_get d i) (\<lambda>e. Inr (w1, sector_of e)) else Inr (w1, -1))"

section \<open>Insertion and removal\<close>

fun add_entry :: "Directory \<Rightarrow> byte list \<Rightarrow> int \<Rightarrow> int \<Rightarrow> (Directory \<times> bool) result" where
  "add_entry [] nm newSector ty = Inr ([], False)"
| "add_entry (e # d) nm newSector ty =
     (if inUse e = 0 then
        bindr (strncpy (entry_name e) nm FileNameMaxLen) (\<lambda>nm'.
          Inr (e\<lparr>inUse := 1, entry_name := nm', sector_of := newSector, entry_type := ty\<rparr> # d, True))
      else bindr (add_entry d nm newSector ty) (\<lambda>(d', b). Inr (e # d', b)))"

definition Add ::
  "byte list \<Rightarrow> int \<Rightarrow> int \<Rightarrow> Directory \<Rightarrow> 'a fs_sim_scheme \<Rightarrow> ('a fs_sim_scheme \<times> Directory \<times> bool) result" where
  "Add name newSector ty d w =
     bindr (FindIndex name d w) (\<lambda>(w1, i).
       if i \<noteq> -1 then Inr (w1, d, False)
       else bindr (add_entry d (getRealName name) newSector ty) (\<lambda>(d', b). Inr (w1, d', b)))"

definition Dir_Remove ::
  "byte list \<Rightarrow> Directory \<Rightarrow> 'a fs_sim_scheme \<Rightarrow> ('a fs_sim_scheme \<times> Directory \<times> bool) result" where
  "Dir_Remove name d w =
     bindr (FindIndex name d w) (\<lambda>(w1, i).
       if i = -1 then Inr (w1, d, False)
       else bindr (arr_get d i) (\<lambda>e. bindr (arr_set d i (e\<lparr>inUse := 0\<rparr>)) (\<lambda>d'. Inr (w1, d', True))))"

section \<open>Printing\<close>

text \<open>\<^verbatim>\<open>printf("%s", name)\<close>: the bytes up to the NUL.\<close>

definition c_text :: "byte list \<Rightarrow> byte list result" where
  "c_text buf = (if 0 \<in> set buf then Inr (takeWhile (\<lambda>b. b \<noteq> 0) buf) else Inl OutOfBounds)"

fun Dir_List :: "Directory \<Rightarrow> byte list list result" where
  "Dir_List [] = Inr []"
| "Dir_List (e # d) =
     (if inUse e \<noteq> 0 then bindr (c_text (entry_name e)) (\<lambda>t. bindr (Dir_List d) (\<lambda>ts. Inr (t # ts))) else Dir_List d)"

fun Dir_Print ::
  "Directory \<Rightarrow> 'a synch_sim_scheme \<Rightarrow> ('a synch_sim_scheme \<times> (byte list \<times> int \<times> printed list) list) result" where
  "Dir_Print [] s = Inr (s, [])"
| "Dir_Print (e # d) s =
     (if inUse e \<noteq> 0 then
        bindr (c_text (entry_name e)) (\<lambda>t.
        bindr (FetchFrom (sector_of e) s) (\<lambda>(s1, h).
        bindr (Hdr_Print h s1) (\<lambda>(s2, out).
        bindr (Dir_Print d s2) (\<lambda>(s3, outs). Inr (s3, (t, sector_of e, out) # outs)))))
      else Dir_Print d s)"


section \<open>A directory as a bounded map\<close>

definition entry_ok :: "DirectoryEntry \<Rightarrow> bool" where
  "entry_ok e \<longleftrightarrow> length (pad1 e) = 3 \<and> length (pad2 e) = 3 \<and> length (entry_name e) = 21 \<and>
     fits32 (sector_of e) \<and> fits32 (entry_type e)"

text \<open>The name that \<^verbatim>\<open>strncmp\<close> sees in an entry.\<close>

definition dname :: "DirectoryEntry \<Rightarrow> byte list" where
  "dname e = takeWhile (\<lambda>b. b \<noteq> 0) (take 20 (entry_name e))"

definition used :: "Directory \<Rightarrow> DirectoryEntry list" where
  "used d = filter (\<lambda>e. inUse e \<noteq> 0) d"

definition lookup :: "Directory \<Rightarrow> byte list \<Rightarrow> int option" where
  "lookup d = map_of (map (\<lambda>e. (dname e, sector_of e)) (used d))"

definition dir_ok :: "Directory \<Rightarrow> bool" where
  "dir_ok d \<longleftrightarrow> (\<forall>e \<in> set d. entry_ok e) \<and> distinct (map dname (used d))"

text \<open>Names that denote an entry of this table itself: no NUL, no slash.\<close>

definition plain_name :: "byte list \<Rightarrow> bool" where
  "plain_name s \<longleftrightarrow> 0 \<notin> set s \<and> slash \<notin> set s"

lemma used_simps [simp]:
  "used [] = []" "used (e # d) = (if inUse e \<noteq> 0 then e # used d else used d)"
  by (simp_all add: used_def)

lemma lookup_simps [simp]:
  "lookup [] s = None"
  "lookup (e # d) s = (if inUse e \<noteq> 0 \<and> dname e = s then Some (sector_of e) else lookup d s)"
  by (auto simp: lookup_def)

lemma lookup_None: "lookup d s = None \<longleftrightarrow> s \<notin> set (map dname (used d))"
  by (auto simp: lookup_def map_of_eq_None_iff image_image)

lemma dom_lookup: "dom (lookup d) = set (map dname (used d))"
  by (auto simp: lookup_def dom_map_of_conv_image_fst image_image)

lemma strncmp_eq_cstr:
  "n \<le> length a \<Longrightarrow> 0 \<notin> set s \<Longrightarrow> strncmp_eq n a (cstr s) = Inr (takeWhile (\<lambda>b. b \<noteq> 0) (take n a) = take n s)"
proof (induction n arbitrary: a s)
  case (Suc n)
  then obtain x a' where a: "a = x # a'" by (cases a) auto
  show ?case
  proof (cases s)
    case Nil
    then show ?thesis by (simp add: a cstr_def)
  next
    case (Cons y s')
    then show ?thesis using Suc.IH [of a' s'] Suc.prems a by (auto simp: cstr_def)
  qed
qed simp

lemma first_slash_plain: "slash \<notin> set s \<Longrightarrow> first_slash s = None"
  by (auto simp: first_slash_def find_None_iff) (metis nth_mem)

lemma last_slash_plain: "slash \<notin> set s \<Longrightarrow> last_slash s = None"
  by (auto simp: last_slash_def find_None_iff) (metis nth_mem)

lemma getRealName_plain: "slash \<notin> set s \<Longrightarrow> getRealName s = s"
  by (simp add: getRealName_def last_slash_plain)

lemma find_name_ok:
  assumes "\<forall>e \<in> set d. entry_ok e" "0 \<notin> set s"
  shows "\<exists>j. find_name d (cstr s) i = Inr j \<and>
    (case lookup d (take 20 s) of
       None \<Rightarrow> j = -1
     | Some x \<Rightarrow> \<exists>k < length d. j = i + int k \<and> inUse (d ! k) \<noteq> 0 \<and> dname (d ! k) = take 20 s \<and> sector_of (d ! k) = x)"
  using assms(1)
proof (induction d arbitrary: i)
  case (Cons e d)
  have e: "length (entry_name e) = 21" using Cons.prems by (simp add: entry_ok_def)
  have cmp: "strncmp_eq FileNameMaxLen (entry_name e) (cstr s) = Inr (dname e = take 20 s)"
    using strncmp_eq_cstr [of 20 "entry_name e" s] e assms(2) by (simp add: FileNameMaxLen_def dname_def)
  obtain j where j: "find_name d (cstr s) (i + 1) = Inr j"
    "case lookup d (take 20 s) of None \<Rightarrow> j = -1
     | Some x \<Rightarrow> \<exists>k < length d. j = i + 1 + int k \<and> inUse (d ! k) \<noteq> 0 \<and> dname (d ! k) = take 20 s \<and> sector_of (d ! k) = x"
    using Cons.IH [of "i + 1"] Cons.prems by auto
  show ?case
  proof (cases "inUse e \<noteq> 0 \<and> dname e = take 20 s")
    case True
    then show ?thesis using cmp by (auto intro!: exI [of _ "0::nat"])
  next
    case False
    then have "find_name (e # d) (cstr s) i = Inr j" using j(1) cmp by auto
    moreover have "\<exists>k < length (e # d). j = i + int k \<and> inUse ((e # d) ! k) \<noteq> 0 \<and> dname ((e # d) ! k) = take 20 s \<and> sector_of ((e # d) ! k) = x"
      if x: "lookup d (take 20 s) = Some x" for x
    proof -
      obtain k where "k < length d" "j = i + 1 + int k" "inUse (d ! k) \<noteq> 0" "dname (d ! k) = take 20 s" "sector_of (d ! k) = x"
        using j(2) x by auto
      then show ?thesis by (intro exI [of _ "Suc k"]) simp
    qed
    moreover have "lookup (e # d) (take 20 s) = lookup d (take 20 s)" using False by auto
    ultimately show ?thesis using j(2) by (auto split: option.splits)
  qed
qed simp

lemma FindIndex_plain:
  assumes "dir_ok d" "plain_name s"
  shows "\<exists>j. FindIndex s d w = Inr (w, j) \<and>
    (case lookup d (take 20 s) of
       None \<Rightarrow> j = -1
     | Some x \<Rightarrow> \<exists>k < length d. j = int k \<and> inUse (d ! k) \<noteq> 0 \<and> dname (d ! k) = take 20 s \<and> sector_of (d ! k) = x)"
  using find_name_ok [of d s 0, unfolded add_0] assms first_slash_plain [of s]
  by (auto simp: FindIndex.simps [of s] dir_ok_def plain_name_def)

lemma Dir_Find_plain:
  assumes "dir_ok d" "plain_name s"
  shows "Dir_Find s d w = Inr (w, case lookup d (take 20 s) of None \<Rightarrow> -1 | Some x \<Rightarrow> x)"
  using FindIndex_plain [OF assms, of w] by (auto simp: Dir_Find_def split: option.splits)

lemma strncpy_name:
  assumes "entry_ok e" "0 \<notin> set s"
  shows "\<exists>nm. strncpy (entry_name e) s FileNameMaxLen = Inr nm \<and> length nm = 21 \<and> takeWhile (\<lambda>b. b \<noteq> 0) (take 20 nm) = take 20 s"
proof -
  define p where "p = take 20 s @ replicate (20 - length s) (0 :: byte)"
  have l: "length p = 20" by (simp add: p_def)
  have "strncpy (entry_name e) s FileNameMaxLen = Inr (p @ drop 20 (entry_name e))"
    using assms(1) l unfolding strncpy_def FileNameMaxLen_def patch_def p_def [symmetric] by (auto simp: entry_ok_def)
  moreover have "takeWhile (\<lambda>b. b \<noteq> 0) p = take 20 s"
    using assms(2) unfolding p_def by (subst takeWhile_append2) (auto dest: in_set_takeD)
  ultimately show ?thesis using assms(1) l by (simp add: entry_ok_def)
qed

text \<open>One entry has been put among those in use.\<close>

definition inserted :: "Directory \<Rightarrow> Directory \<Rightarrow> byte list \<Rightarrow> int \<Rightarrow> int \<Rightarrow> bool" where
  "inserted d d' nm sec ty \<longleftrightarrow>
     (\<exists>xs ys e. used d = xs @ ys \<and> used d' = xs @ e # ys \<and> dname e = nm \<and> sector_of e = sec \<and> entry_type e = ty)"

lemma inserted_Cons: "inserted d d' nm sec ty \<Longrightarrow> inserted (e # d) (e # d') nm sec ty"
  unfolding inserted_def by (cases "inUse e = 0") (auto, metis append_Cons)

lemma add_entry_ok:
  assumes "\<forall>e \<in> set d. entry_ok e" "0 \<notin> set s" "fits32 sec" "fits32 ty"
  shows "\<exists>d' b. add_entry d s sec ty = Inr (d', b) \<and> length d' = length d \<and> (\<forall>e \<in> set d'. entry_ok e) \<and>
    b = (length (used d) < length d) \<and> (\<not> b \<longrightarrow> d' = d) \<and>
    (b \<longrightarrow> inserted d d' (take 20 s) sec ty)"
  using assms(1)
proof (induction d)
  case (Cons e d)
  show ?case
  proof (cases "inUse e = 0")
    case True
    obtain nm where nm: "strncpy (entry_name e) s FileNameMaxLen = Inr nm" "length nm = 21"
      "takeWhile (\<lambda>b. b \<noteq> 0) (take 20 nm) = take 20 s"
      using strncpy_name [of e s] Cons.prems assms(2) by auto
    let ?e = "e\<lparr>inUse := 1, entry_name := nm, sector_of := sec, entry_type := ty\<rparr>"
    have "entry_ok ?e" "dname ?e = take 20 s" using Cons.prems nm assms(3,4) by (simp_all add: entry_ok_def dname_def)
    moreover have "length (used d) < Suc (length d)" by (simp add: used_def less_Suc_eq_le)
    moreover have "add_entry (e # d) s sec ty = Inr (?e # d, True)" using True nm(1) by simp
    moreover have "inserted (e # d) (?e # d) (take 20 s) sec ty"
      unfolding inserted_def using True \<open>dname ?e = _\<close> by (intro exI [of _ "[]"] exI [of _ "used d"] exI [of _ ?e]) simp
    ultimately show ?thesis using True Cons.prems by (intro exI [of _ "?e # d"] exI [of _ True]) simp
  next
    case False
    obtain d' b where i: "add_entry d s sec ty = Inr (d', b)" "length d' = length d" "\<forall>e \<in> set d'. entry_ok e"
      "b = (length (used d) < length d)" "\<not> b \<longrightarrow> d' = d"
      "b \<longrightarrow> inserted d d' (take 20 s) sec ty"
      using Cons.IH Cons.prems by auto
    then show ?thesis using False Cons.prems inserted_Cons [of d d' "take 20 s" sec ty e] by auto
  qed
qed auto

lemma map_of_insert: "k \<notin> fst ` set (xs @ ys) \<Longrightarrow> map_of (xs @ (k, v) # ys) = (map_of (xs @ ys))(k \<mapsto> v)"
  by (induction xs) auto

lemma Add_plain:
  assumes d: "dir_ok d" and s: "plain_name s" and "fits32 sec" "fits32 ty"
  shows "\<exists>d' b. Add s sec ty d w = Inr (w, d', b) \<and> dir_ok d' \<and> length d' = length d \<and>
    b = (lookup d (take 20 s) = None \<and> card (dom (lookup d)) < length d) \<and>
    lookup d' = (if b then (lookup d)(take 20 s \<mapsto> sec) else lookup d)"
proof (cases "lookup d (take 20 s)")
  case (Some x)
  then obtain j where "FindIndex s d w = Inr (w, j)" "j \<noteq> -1" using FindIndex_plain [OF d s, of w] by auto
  then show ?thesis using Some d by (auto simp: Add_def)
next
  case None
  then have i: "FindIndex s d w = Inr (w, -1)" using FindIndex_plain [OF d s, of w] by auto
  obtain d' b where a: "add_entry d s sec ty = Inr (d', b)" "length d' = length d" "\<forall>e \<in> set d'. entry_ok e"
    "b = (length (used d) < length d)" "\<not> b \<longrightarrow> d' = d"
    "b \<longrightarrow> inserted d d' (take 20 s) sec ty"
    using add_entry_ok [OF _ _ assms(3,4), of d s] d s unfolding dir_ok_def plain_name_def by blast
  have eq: "Add s sec ty d w = Inr (w, d', b)"
    using i a(1) s by (simp add: Add_def getRealName_plain plain_name_def)
  have card: "card (dom (lookup d)) = length (used d)"
    using d distinct_card [of "map dname (used d)"] unfolding dir_ok_def dom_lookup by simp
  show ?thesis
  proof (cases b)
    case True
    then obtain xs ys e where u: "used d = xs @ ys" "used d' = xs @ e # ys" "dname e = take 20 s" "sector_of e = sec"
      using a(6) by (auto simp: inserted_def)
    have new: "take 20 s \<notin> set (map dname (used d))" using None by (simp add: lookup_None)
    then have "distinct (map dname (used d'))" using d u by (auto simp: dir_ok_def)
    moreover have "lookup d' = (lookup d)(take 20 s \<mapsto> sec)"
      using map_of_insert [of "take 20 s" "map (\<lambda>e. (dname e, sector_of e)) xs" "map (\<lambda>e. (dname e, sector_of e)) ys" sec] new u
      by (simp add: lookup_def image_image image_Un)
    ultimately show ?thesis using eq a(2-4) True None card by (intro exI [of _ d'] exI [of _ True]) (simp add: dir_ok_def)
  next
    case False
    then show ?thesis using eq a(4,5) d None card by auto
  qed
qed


lemma used_remove:
  "k < length d \<Longrightarrow> inUse (d ! k) \<noteq> 0 \<Longrightarrow> \<exists>xs ys. used d = xs @ (d ! k) # ys \<and> used (d[k := (d ! k)\<lparr>inUse := 0\<rparr>]) = xs @ ys"
proof (induction d arbitrary: k)
  case (Cons e d)
  show ?case
  proof (cases k)
    case 0
    then show ?thesis using Cons.prems by (auto intro: exI [of _ "[]"])
  next
    case (Suc j)
    then obtain xs ys where "used d = xs @ (d ! j) # ys" "used (d[j := (d ! j)\<lparr>inUse := 0\<rparr>]) = xs @ ys"
      using Cons.IH [of j] Cons.prems by auto
    then show ?thesis using Suc by (cases "inUse e = 0") (auto intro: exI [of _ "e # xs"])
  qed
qed simp

lemma Dir_Remove_plain:
  assumes d: "dir_ok d" and s: "plain_name s"
  shows "\<exists>d'. Dir_Remove s d w = Inr (w, d', lookup d (take 20 s) \<noteq> None) \<and> dir_ok d' \<and> length d' = length d \<and>
    lookup d' = (lookup d)(take 20 s := None)"
proof (cases "lookup d (take 20 s)")
  case None
  then have "FindIndex s d w = Inr (w, -1)" using FindIndex_plain [OF d s, of w] by auto
  then show ?thesis using None d by (auto simp: Dir_Remove_def fun_upd_idem)
next
  case (Some x)
  then obtain k where k: "FindIndex s d w = Inr (w, int k)" "k < length d" "inUse (d ! k) \<noteq> 0" "dname (d ! k) = take 20 s"
    using FindIndex_plain [OF d s, of w] by auto
  let ?d = "d[k := (d ! k)\<lparr>inUse := 0\<rparr>]"
  obtain xs ys where u: "used d = xs @ (d ! k) # ys" "used ?d = xs @ ys" using used_remove [OF k(2,3)] by blast
  have dist: "distinct (map dname (used d))" and ok: "\<forall>e \<in> set d. entry_ok e" using d by (auto simp: dir_ok_def)
  have "entry_ok (d ! k)" using ok k(2) by simp
  then have "entry_ok ((d ! k)\<lparr>inUse := 0\<rparr>)" by (simp add: entry_ok_def)
  then have "\<forall>e \<in> set ?d. entry_ok e" using ok set_update_subset_insert [of d k] by blast
  then have "dir_ok ?d" using dist u by (simp add: dir_ok_def)
  moreover have "lookup d = (lookup ?d)(take 20 s \<mapsto> sector_of (d ! k))" "lookup ?d (take 20 s) = None"
    using map_of_insert [of "take 20 s" "map (\<lambda>e. (dname e, sector_of e)) xs" "map (\<lambda>e. (dname e, sector_of e)) ys" "sector_of (d ! k)"]
      dist u k(4) by (auto simp: lookup_def image_image image_Un map_of_eq_None_iff)
  then have "lookup ?d = (lookup d)(take 20 s := None)" by (simp add: fun_upd_idem)
  moreover have "Dir_Remove s d w = Inr (w, ?d, True)" using k by (simp add: Dir_Remove_def)
  ultimately show ?thesis using Some by auto
qed

text \<open>
  What a client may rely on: a finite map from names to sectors with a bounded number of entries. The
  operations thread a state that also holds what lies below the directory.
\<close>

datatype 'k dir_op = Lookup_op 'k | Add_op 'k int | Remove_op 'k

datatype dir_answer = Sector_ans int | Bool_ans bool

fun spec_op :: "nat \<Rightarrow> 'k dir_op \<Rightarrow> ('k \<Rightarrow> int option) \<Rightarrow> ('k \<Rightarrow> int option) \<times> dir_answer" where
  "spec_op cap (Lookup_op k) m = (m, Sector_ans (case m k of None \<Rightarrow> -1 | Some x \<Rightarrow> x))"
| "spec_op cap (Add_op k x) m =
     (let b = (m k = None \<and> card (dom m) < cap) in (if b then m(k \<mapsto> x) else m, Bool_ans b))"
| "spec_op cap (Remove_op k) m = (m(k := None), Bool_ans (m k \<noteq> None))"

fun spec_run :: "nat \<Rightarrow> 'k dir_op list \<Rightarrow> ('k \<Rightarrow> int option) \<Rightarrow> ('k \<Rightarrow> int option) \<times> dir_answer list" where
  "spec_run cap [] m = (m, [])"
| "spec_run cap (op # ops) m =
     (case spec_op cap op m of (m1, a) \<Rightarrow> case spec_run cap ops m1 of (m2, as) \<Rightarrow> (m2, a # as))"

fun impl_run :: "('k dir_op \<Rightarrow> 's \<Rightarrow> ('s \<times> dir_answer) result) \<Rightarrow> 'k dir_op list \<Rightarrow> 's \<Rightarrow> ('s \<times> dir_answer list) result" where
  "impl_run f [] s = Inr (s, [])"
| "impl_run f (op # ops) s = bindr (f op s) (\<lambda>(s1, a). bindr (impl_run f ops s1) (\<lambda>(s2, as). Inr (s2, a # as)))"

locale bounded_map =
  fixes step :: "'k dir_op \<Rightarrow> 's \<Rightarrow> ('s \<times> dir_answer) result"
    and ok :: "'s \<Rightarrow> bool"
    and abst :: "'s \<Rightarrow> 'n \<Rightarrow> int option"
    and key :: "'k \<Rightarrow> 'n"
    and cap :: "'s \<Rightarrow> nat"
    and valid :: "'k dir_op \<Rightarrow> bool"
  assumes step_law: "ok s \<Longrightarrow> valid op \<Longrightarrow>
    \<exists>s'. step op s = Inr (s', snd (spec_op (cap s) (map_dir_op key op) (abst s))) \<and> ok s' \<and> cap s' = cap s \<and>
      abst s' = fst (spec_op (cap s) (map_dir_op key op) (abst s))"
begin

lemma run_refines_map:
  "ok s \<Longrightarrow> list_all valid ops \<Longrightarrow>
   \<exists>s'. impl_run step ops s = Inr (s', snd (spec_run (cap s) (map (map_dir_op key) ops) (abst s))) \<and> ok s' \<and> cap s' = cap s \<and>
     abst s' = fst (spec_run (cap s) (map (map_dir_op key) ops) (abst s))"
proof (induction ops arbitrary: s)
  case (Cons op ops)
  obtain s1 where s1: "step op s = Inr (s1, snd (spec_op (cap s) (map_dir_op key op) (abst s)))" "ok s1" "cap s1 = cap s"
    "abst s1 = fst (spec_op (cap s) (map_dir_op key op) (abst s))"
    using step_law [of s op] Cons.prems by auto
  obtain s2 where s2: "impl_run step ops s1 = Inr (s2, snd (spec_run (cap s) (map (map_dir_op key) ops) (abst s1)))" "ok s2"
    "cap s2 = cap s" "abst s2 = fst (spec_run (cap s) (map (map_dir_op key) ops) (abst s1))"
    using Cons.IH [OF s1(2)] Cons.prems s1(3) by auto
  show ?case using s1 s2 by (auto split: prod.splits)
qed simp

end

text \<open>The operations of a directory on a directory and the state below it.\<close>

fun dir_step :: "byte list dir_op \<Rightarrow> Directory \<times> 'a fs_sim_scheme \<Rightarrow> ((Directory \<times> 'a fs_sim_scheme) \<times> dir_answer) result" where
  "dir_step (Lookup_op s) (d, w) = bindr (Dir_Find s d w) (\<lambda>(w', x). Inr ((d, w'), Sector_ans x))"
| "dir_step (Add_op s x) (d, w) = bindr (Add s x 1 d w) (\<lambda>(w', d', b). Inr ((d', w'), Bool_ans b))"
| "dir_step (Remove_op s) (d, w) = bindr (Dir_Remove s d w) (\<lambda>(w', d', b). Inr ((d', w'), Bool_ans b))"

fun dir_op_ok :: "byte list dir_op \<Rightarrow> bool" where
  "dir_op_ok (Lookup_op s) = plain_name s"
| "dir_op_ok (Add_op s x) = (plain_name s \<and> fits32 x)"
| "dir_op_ok (Remove_op s) = plain_name s"

interpretation dirs: bounded_map dir_step "\<lambda>(d, w). dir_ok d" "\<lambda>(d, w). lookup d" "take 20" "\<lambda>(d, w). length d" dir_op_ok
proof
  fix s :: "Directory \<times> 'a fs_sim_scheme" and op
  assume ok: "case s of (d, w) \<Rightarrow> dir_ok d" and v: "dir_op_ok op"
  obtain d w where s: "s = (d, w)" by (cases s)
  have d: "dir_ok d" using ok s by simp
  show "\<exists>s'. dir_step op s = Inr (s', snd (spec_op (case s of (d, w) \<Rightarrow> length d) (map_dir_op (take 20) op) (case s of (d, w) \<Rightarrow> lookup d))) \<and>
      (case s' of (d, w) \<Rightarrow> dir_ok d) \<and> (case s' of (d, w) \<Rightarrow> length d) = (case s of (d, w) \<Rightarrow> length d) \<and>
      (case s' of (d, w) \<Rightarrow> lookup d) = fst (spec_op (case s of (d, w) \<Rightarrow> length d) (map_dir_op (take 20) op) (case s of (d, w) \<Rightarrow> lookup d))"
  proof (cases op)
    case (Lookup_op n)
    then show ?thesis using Dir_Find_plain [OF d, of n w] v d s by simp
  next
    case (Add_op n x)
    then obtain d' b where "Add n x 1 d w = Inr (w, d', b)" "dir_ok d'" "length d' = length d"
      "b = (lookup d (take 20 n) = None \<and> card (dom (lookup d)) < length d)" "lookup d' = (if b then (lookup d)(take 20 n \<mapsto> x) else lookup d)"
      using Add_plain [OF d, of n x 1 w] v by (auto simp: fits32_def)
    then show ?thesis using Add_op s by (simp add: Let_def)
  next
    case (Remove_op n)
    then obtain d' where "Dir_Remove n d w = Inr (w, d', lookup d (take 20 n) \<noteq> None)" "dir_ok d'" "length d' = length d"
      "lookup d' = (lookup d)(take 20 n := None)"
      using Dir_Remove_plain [OF d, of n w] v by auto
    then show ?thesis using Remove_op s by simp
  qed
qed

text \<open>
  (C10) A directory table is a map from names to sectors with room for as many names as it has entries.
  Any sequence of look-ups, insertions and removals of plain names (no \<^verbatim>\<open>/\<close>, no NUL) returns exactly what
  such a map returns (an insertion fails if the name is there or the table is full, a removal if it is
  not there), names count up to their first twenty characters, and the table stays well formed.
\<close>

theorem Directory_refines_map:
  assumes "dir_ok d" "list_all dir_op_ok ops"
  shows "\<exists>d' w'. impl_run dir_step ops (d, w) =
       Inr ((d', w'), snd (spec_run (length d) (map (map_dir_op (take 20)) ops) (lookup d))) \<and>
     dir_ok d' \<and> length d' = length d \<and> lookup d' = fst (spec_run (length d) (map (map_dir_op (take 20)) ops) (lookup d))"
  using dirs.run_refines_map [of "(d, w)" ops] assms by auto


text \<open>A table of ten entries on zeroed memory.\<close>

definition blank_entry :: DirectoryEntry where
  "blank_entry = \<lparr>inUse = 0, pad1 = replicate 3 0, sector_of = 0, entry_name = replicate 21 0, pad2 = replicate 3 0, entry_type = 0\<rparr>"

lemma blank_dir_ok: "dir_ok (replicate 10 blank_entry)" "lookup (replicate 10 blank_entry) = Map.empty"
  by (simp_all add: dir_ok_def entry_ok_def blank_entry_def fits32_def used_def lookup_def)

theorem Directory_refines_map_witness:
  "\<exists>d' w'. impl_run dir_step [Add_op [97] 7, Add_op [97] 8, Lookup_op [97], Remove_op [97], Lookup_op [97]]
       (replicate 10 blank_entry, fresh_fs) =
     Inr ((d', w'), [Bool_ans True, Bool_ans False, Sector_ans 7, Bool_ans True, Sector_ans (-1)]) \<and> dir_ok d'"
  using Directory_refines_map [OF blank_dir_ok(1),
      of "[Add_op [97] 7, Add_op [97] 8, Lookup_op [97], Remove_op [97], Lookup_op [97]]" fresh_fs]
  by (auto simp: blank_dir_ok(2) plain_name_def slash_def fits32_def Let_def)

section \<open>Directories on disk\<close>

lemma length_entry_bytes: "entry_ok e \<Longrightarrow> length (entry_bytes e) = 36"
  by (simp add: entry_ok_def entry_bytes_def)

lemma bytes_entry_bytes: "entry_ok e \<Longrightarrow> bytes_entry (entry_bytes e) = e"
  by (simp add: entry_ok_def entry_bytes_def bytes_entry_def)

lemma length_table_bytes: "\<forall>e \<in> set d. entry_ok e \<Longrightarrow> length (table_bytes d) = 36 * length d"
  by (induction d) (simp_all add: table_bytes_def length_entry_bytes)

lemma table_chunk:
  "\<forall>e \<in> set d. entry_ok e \<Longrightarrow> i < length d \<Longrightarrow> take 36 (drop (36 * i) (table_bytes d)) = entry_bytes (d ! i)"
proof (induction d arbitrary: i)
  case (Cons e d)
  have e: "length (entry_bytes e) = 36" using Cons.prems by (simp add: length_entry_bytes)
  show ?case
  proof (cases i)
    case 0
    then show ?thesis using e by (simp add: table_bytes_def)
  next
    case (Suc j)
    then have "drop (36 * i) (table_bytes (e # d)) = drop (36 * j) (table_bytes d)"
      using e by (simp add: table_bytes_def)
    then show ?thesis using Cons.IH [of j] Cons.prems Suc by simp
  qed
qed simp

lemma bytes_table_bytes: "\<forall>e \<in> set d. entry_ok e \<Longrightarrow> bytes_table (table_bytes d) = d"
  by (rule nth_equalityI) (simp_all add: bytes_table_def length_table_bytes table_chunk bytes_entry_bytes)

lemma bytes_entry_ok: "length bs = 36 \<Longrightarrow> entry_ok (bytes_entry bs)"
  by (simp add: entry_ok_def bytes_entry_def bytes_int_def)

lemma entry_bytes_entry: "length bs = 36 \<Longrightarrow> entry_bytes (bytes_entry bs) = bs"
proof -
  assume l: "length bs = 36"
  then have "int_bytes (bytes_int (take 4 (drop k bs))) = take 4 (drop k bs)" if "k \<le> 32" for k
    using that by (simp add: int_bytes_def bytes_int_def)
  then have "entry_bytes (bytes_entry bs) = [bs ! 0] @ take 3 (drop 1 bs) @ take 4 (drop 4 bs) @ take 21 (drop 8 bs) @
      take 3 (drop 29 bs) @ take 4 (drop 32 bs)"
    by (simp add: entry_bytes_def bytes_entry_def)
  also have "\<dots> = bs"
    using l by (intro nth_equalityI) (auto simp: nth_append nth_Cons')
  finally show ?thesis .
qed

end
