(* ===== verification/Nachos_FileSys.thy ===== *)
theory Nachos_FileSys
  imports Nachos_Directory
begin

text \<open>
  The file system (\<^verbatim>\<open>filesys/filesys.h\<close>, \<^verbatim>\<open>filesys.cc\<close>): formatting, creating, opening and removing files
  and the named pipes. The state gains the two files that stay open while Nachos runs. Memory that
  \<^verbatim>\<open>new\<close> returns holds \<open>fresh_heap\<close>, the arrays on the stack \<open>fresh_stack\<close>: both are arbitrary.
\<close>

section \<open>State\<close>

definition FreeMapSector :: int where "FreeMapSector = 0"
definition DirectorySector :: int where "DirectorySector = 1"
definition FreeMapFileSize :: int where "FreeMapFileSize = NumSectors div BitsInByte"
definition DirectoryFileSize :: int where "DirectoryFileSize = 36 * int NumDirEntries"

record filesys_sim = fs_sim +
  freeMapFile :: OpenFile
  directoryFile :: OpenFile

definition new_header :: "'a fs_sim_scheme \<Rightarrow> FileHeader" where
  "new_header w = bytes_hdr (fresh_buf w 128)"

definition new_map :: "BitMap result" where
  "new_map = BitMap_new (replicate 32 0) NumSectors"

text \<open>Reading and writing the free map and the root directory through the open files.\<close>

definition fetch_map :: "'a filesys_sim_scheme \<Rightarrow> ('a filesys_sim_scheme \<times> BitMap) result" where
  "fetch_map w =
     bindr new_map (\<lambda>bm0.
     bindr (BitMap_FetchFrom bm0 (freeMapFile w) w) (\<lambda>(w1, f1, bm). Inr (w1\<lparr>freeMapFile := f1\<rparr>, bm)))"

definition store_map :: "BitMap \<Rightarrow> 'a filesys_sim_scheme \<Rightarrow> 'a filesys_sim_scheme result" where
  "store_map bm w = bindr (BitMap_WriteBack bm (freeMapFile w) w) (\<lambda>(w1, f1). Inr (w1\<lparr>freeMapFile := f1\<rparr>))"

definition fetch_root :: "'a filesys_sim_scheme \<Rightarrow> ('a filesys_sim_scheme \<times> Directory) result" where
  "fetch_root w =
     bindr (Directory_new NumDirEntries w) (\<lambda>d0.
     bindr (Dir_FetchFrom d0 (directoryFile w) w) (\<lambda>(w1, f1, d). Inr (w1\<lparr>directoryFile := f1\<rparr>, d)))"

definition store_root :: "Directory \<Rightarrow> 'a filesys_sim_scheme \<Rightarrow> 'a filesys_sim_scheme result" where
  "store_root d w = bindr (Dir_WriteBack d (directoryFile w) w) (\<lambda>(w1, f1). Inr (w1\<lparr>directoryFile := f1\<rparr>))"

definition open_dir :: "int \<Rightarrow> 'a filesys_sim_scheme \<Rightarrow> ('a filesys_sim_scheme \<times> OpenFile \<times> Directory) result" where
  "open_dir sec w =
     bindr (OpenFile_new sec w) (\<lambda>(w1, f).
     bindr (Directory_new NumDirEntries w1) (\<lambda>d0. Dir_FetchFrom d0 f w1))"

section \<open>Formatting and mounting\<close>

definition FileSystem_format :: "'a filesys_sim_scheme \<Rightarrow> 'a filesys_sim_scheme result" where
  "FileSystem_format w =
     bindr new_map (\<lambda>bm0.
     bindr (Directory_new NumDirEntries w) (\<lambda>directory.
     bindr (BitMap_Mark bm0 FreeMapSector) (\<lambda>bm1.
     bindr (BitMap_Mark bm1 DirectorySector) (\<lambda>bm2.
     bindr (Allocate (fresh_stack w) bm2 FreeMapFileSize (new_header w) w) (\<lambda>(w1, bm3, mapHdr, ok1).
     bindr (ASSERT ok1) (\<lambda>_.
     bindr (Allocate (fresh_stack w1) bm3 DirectoryFileSize (new_header w1) w1) (\<lambda>(w2, bm4, dirHdr, ok2).
     bindr (ASSERT ok2) (\<lambda>_.
     bindr (WriteBack FreeMapSector (mapHdr\<lparr>sectorNumber := FreeMapSector\<rparr>) w2) (\<lambda>w3.
     bindr (WriteBack DirectorySector (dirHdr\<lparr>sectorNumber := DirectorySector\<rparr>) w3) (\<lambda>w4.
     bindr (OpenFile_new FreeMapSector w4) (\<lambda>(w5, mf).
     bindr (OpenFile_new DirectorySector w5) (\<lambda>(w6, df).
     bindr (store_map bm4 (w6\<lparr>freeMapFile := mf, directoryFile := df\<rparr>)) (\<lambda>w7.
       store_root directory w7)))))))))))))"

definition FileSystem_mount :: "'a filesys_sim_scheme \<Rightarrow> 'a filesys_sim_scheme result" where
  "FileSystem_mount w =
     bindr (OpenFile_new FreeMapSector w) (\<lambda>(w1, mf).
     bindr (OpenFile_new DirectorySector w1) (\<lambda>(w2, df).
       Inr (w2\<lparr>freeMapFile := mf, directoryFile := df\<rparr>)))"

definition FileSystem_new :: "bool \<Rightarrow> 'a filesys_sim_scheme \<Rightarrow> 'a filesys_sim_scheme result" where
  "FileSystem_new format w = (if format then FileSystem_format w else FileSystem_mount w)"

section \<open>Creating files and directories\<close>

text \<open>\<^verbatim>\<open>absPath ? getAbsDir(name) : "."\<close> and the last component of the name.\<close>

definition split_name :: "byte list \<Rightarrow> (byte list \<times> byte list) result" where
  "split_name name =
     (if absPath name then bindr (getAbsDir name) (\<lambda>dir. Inr (getRealName name, dir)) else Inr (name, [46]))"

definition first_dot :: "byte list \<Rightarrow> nat" where
  "first_dot name = (case find (\<lambda>i. name ! i = 46) [0..<length name] of None \<Rightarrow> length name | Some i \<Rightarrow> i)"

text \<open>The letters after the first dot go to \<^verbatim>\<open>hdr->type\<close>, an array of five.\<close>

definition set_type :: "byte list \<Rightarrow> FileHeader \<Rightarrow> FileHeader result" where
  "set_type name h = bindr (patch (ftype h) 0 (cstr (drop (Suc (first_dot name)) name))) (\<lambda>t. Inr (h\<lparr>ftype := t\<rparr>))"

definition stamp :: "char \<Rightarrow> FileHeader \<Rightarrow> 'a fs_sim_scheme \<Rightarrow> 'a fs_sim_scheme \<times> FileHeader" where
  "stamp mode h w = (w\<lparr>clock_reads := Suc (clock_reads w)\<rparr>, SetTime mode (hostclock w (clock_reads w)) h)"

definition stamp_all :: "FileHeader \<Rightarrow> 'a fs_sim_scheme \<Rightarrow> 'a fs_sim_scheme \<times> FileHeader" where
  "stamp_all h w =
     (case stamp (CHR ''c'') h w of (w1, h1) \<Rightarrow>
      case stamp (CHR ''v'') h1 w1 of (w2, h2) \<Rightarrow> stamp (CHR ''m'') h2 w2)"

definition create_dir ::
  "int \<Rightarrow> int \<Rightarrow> Directory \<Rightarrow> OpenFile \<Rightarrow> BitMap \<Rightarrow> 'a filesys_sim_scheme \<Rightarrow> ('a filesys_sim_scheme \<times> OpenFile \<times> bool) result" where
  "create_dir sec dir_sector dir dir_file bm w =
     bindr (Allocate (fresh_stack w) bm DirectoryFileSize (new_header w) w) (\<lambda>(w1, bm1, h, ok).
       if \<not> ok then Inr (w1, dir_file, False)
       else case stamp_all h w1 of (w2, h1) \<Rightarrow>
         let h2 = h1\<lparr>sectorNumber := sec\<rparr> in
         bindr (OpenFile_new sec w2) (\<lambda>(w3, new_dir_file).
         bindr (Directory_new3 NumDirEntries sec dir_sector w3) (\<lambda>new_dir.
         bindr (WriteBack sec h2 w3) (\<lambda>w4.
         bindr (Dir_WriteBack dir dir_file w4) (\<lambda>(w5, dir_file1).
         bindr (Dir_WriteBack new_dir new_dir_file w5) (\<lambda>(w6, new_dir_file1).
         bindr (store_map bm1 w6) (\<lambda>w7.
         bindr (OpenFile_delete new_dir_file1 w7) (\<lambda>w8. Inr (w8, dir_file1, True)))))))))"

definition create_file ::
  "byte list \<Rightarrow> int \<Rightarrow> int \<Rightarrow> Directory \<Rightarrow> OpenFile \<Rightarrow> BitMap \<Rightarrow> 'a filesys_sim_scheme
     \<Rightarrow> ('a filesys_sim_scheme \<times> OpenFile \<times> bool) result" where
  "create_file name initialSize sec dir dir_file bm w =
     bindr (Allocate (fresh_stack w) bm initialSize (new_header w) w) (\<lambda>(w1, bm1, h, ok).
       if \<not> ok then Inr (w1, dir_file, False)
       else bindr (set_type name h) (\<lambda>h0.
         case stamp_all h0 w1 of (w2, h1) \<Rightarrow>
         let h2 = h1\<lparr>sectorNumber := sec\<rparr> in
         bindr (WriteBack sec h2 w2) (\<lambda>w3.
         bindr (Dir_WriteBack dir dir_file w3) (\<lambda>(w4, dir_file1).
         bindr (store_map bm1 w4) (\<lambda>w5. Inr (w5, dir_file1, True))))))"

definition Create :: "byte list \<Rightarrow> int \<Rightarrow> 'a filesys_sim_scheme \<Rightarrow> ('a filesys_sim_scheme \<times> bool) result" where
  "Create name initialSize w =
     bindr (split_name name) (\<lambda>(real_name, abs_dir).
     bindr (fetch_root w) (\<lambda>(w1, directory).
     bindr (Dir_Find abs_dir directory w1) (\<lambda>(w2, dir_sector).
     bindr (open_dir dir_sector w2) (\<lambda>(w3, dir_file, dir).
     bindr (Dir_Find real_name dir w3) (\<lambda>(w4, found).
     bindr (if found \<noteq> -1 then Inr (w4, dir_file, False)
            else bindr (fetch_map w4) (\<lambda>(w5, bm).
                 bindr (BitMap_Find bm) (\<lambda>(bm1, sec).
                   if sec = -1 then Inr (w5, dir_file, False)
                   else bindr (Add real_name sec (if initialSize = -1 then 0 else 1) dir w5) (\<lambda>(w6, dir1, added).
                     if \<not> added then Inr (w6, dir_file, False)
                     else if initialSize = -1 then create_dir sec dir_sector dir1 dir_file bm1 w6
                     else create_file name initialSize sec dir1 dir_file bm1 w6)))) (\<lambda>(w7, dir_file1, success).
     bindr (OpenFile_delete dir_file1 w7) (\<lambda>w8. Inr (w8, success))))))))"

section \<open>Opening and removing\<close>

text \<open>\<^verbatim>\<open>Open\<close> does not close the directory's file, so its use count stays up.\<close>

definition Open :: "byte list \<Rightarrow> 'a filesys_sim_scheme \<Rightarrow> ('a filesys_sim_scheme \<times> OpenFile option) result" where
  "Open name w =
     bindr (split_name name) (\<lambda>(real_name, abs_dir).
     bindr (fetch_root w) (\<lambda>(w1, directory).
     bindr (Dir_Find abs_dir directory w1) (\<lambda>(w2, dir_sector).
     bindr (open_dir dir_sector w2) (\<lambda>(w3, dir_file, dir).
     bindr (Dir_Find real_name dir w3) (\<lambda>(w4, sec).
       if sec \<ge> 0 then bindr (OpenFile_new sec w4) (\<lambda>(w5, f). Inr (w5, Some f)) else Inr (w4, None))))))"

definition Remove :: "byte list \<Rightarrow> 'a filesys_sim_scheme \<Rightarrow> ('a filesys_sim_scheme \<times> bool) result" where
  "Remove name w =
     bindr (fetch_root w) (\<lambda>(w1, directory).
     bindr (Dir_Find name directory w1) (\<lambda>(w2, sec).
       if sec = -1 then Inr (w2, False)
       else bindr (arr_get (vis_num w2) sec) (\<lambda>v.
         if v \<noteq> 0 then Inr (w2, False)
         else bindr (FetchFrom sec w2) (\<lambda>(w3, fileHdr).
              bindr (fetch_map w3) (\<lambda>(w4, bm).
              bindr (Deallocate bm fileHdr w4) (\<lambda>(w5, bm1).
              bindr (BitMap_Clear bm1 sec) (\<lambda>bm2.
              bindr (Dir_Remove name directory w5) (\<lambda>(w6, directory1, _).
              bindr (store_map bm2 w6) (\<lambda>w7.
              bindr (store_root directory1 w7) (\<lambda>w8. Inr (w8, True)))))))))))"

section \<open>Listing\<close>

definition FileSystem_List :: "'a filesys_sim_scheme \<Rightarrow> ('a filesys_sim_scheme \<times> byte list list) result" where
  "FileSystem_List w = bindr (fetch_root w) (\<lambda>(w1, d). bindr (Dir_List d) (\<lambda>ts. Inr (w1, ts)))"

definition FileSystem_Print ::
  "'a filesys_sim_scheme \<Rightarrow> ('a filesys_sim_scheme \<times> printed list \<times> printed list \<times> int list \<times> (byte list \<times> int \<times> printed list) list) result" where
  "FileSystem_Print w =
     bindr (FetchFrom FreeMapSector w) (\<lambda>(w1, bitHdr).
     bindr (Hdr_Print bitHdr w1) (\<lambda>(w2, out1).
     bindr (FetchFrom DirectorySector w2) (\<lambda>(w3, dirHdr).
     bindr (Hdr_Print dirHdr w3) (\<lambda>(w4, out2).
     bindr (fetch_map w4) (\<lambda>(w5, bm).
     bindr (BitMap_Print bm) (\<lambda>out3.
     bindr (fetch_root w5) (\<lambda>(w6, d).
     bindr (Dir_Print d w6) (\<lambda>(w7, out4). Inr (w7, out1, out2, out3, out4)))))))))"

section \<open>Pipes\<close>

definition Writepipe :: "byte list \<Rightarrow> int \<Rightarrow> byte list \<Rightarrow> 'a filesys_sim_scheme \<Rightarrow> ('a filesys_sim_scheme \<times> int) result" where
  "Writepipe data n name w =
     bindr (Create name 0 w) (\<lambda>(w1, ok).
       if \<not> ok then Inr (w1, -1)
       else bindr (Open name w1) (\<lambda>(w2, pf). case pf of None \<Rightarrow> Inl BadPointer | Some pipefile \<Rightarrow>
            bindr (Write data n pipefile w2) (\<lambda>(w3, pipefile1, n1).
            let h = SetLength n1 (hdr pipefile1) in
            bindr (WriteBack (sectorNumber h) h w3) (\<lambda>w4.
            bindr (OpenFile_delete (pipefile1\<lparr>hdr := h\<rparr>) w4) (\<lambda>w5. Inr (w5, n1))))))"

definition Readpipe :: "byte list \<Rightarrow> 'a filesys_sim_scheme \<Rightarrow> ('a filesys_sim_scheme \<times> int \<times> byte list) result" where
  "Readpipe name w =
     bindr (Open name w) (\<lambda>(w1, pf). case pf of None \<Rightarrow> Inr (w1, -1, []) | Some pipefile \<Rightarrow>
       let n = FileLength (hdr pipefile) in
       if n = 0 then bindr (OpenFile_delete pipefile w1) (\<lambda>w2. Inr (w2, 0, []))
       else bindr (Read n (Seek 0 pipefile) w1) (\<lambda>(w2, pipefile1, bs).
            bindr (OpenFile_delete pipefile1 w2) (\<lambda>w3.
            bindr (Remove name w3) (\<lambda>(w4, _). Inr (w4, int (length bs), bs)))))"


section \<open>Well-formed file systems\<close>

definition same_layout :: "FileHeader \<Rightarrow> FileHeader \<Rightarrow> bool" where
  "same_layout h h' \<longleftrightarrow> numBytes h' = numBytes h \<and> numSectors h' = numSectors h \<and> dataSectors h' = dataSectors h \<and>
     sectorNumber h' = sectorNumber h"

definition sectors_of :: "FileHeader \<Rightarrow> nat set" where
  "sectors_of h = nat ` set (take (nat (numSectors h)) (dataSectors h))"

text \<open>The free map and the root directory as they are on the disk.\<close>

definition root_map :: "'a filesys_sim_scheme \<Rightarrow> BitMap" where
  "root_map w = \<lparr>numBits = 1024, numWords = 32, bmap = words_of_bytes (file_bytes (image w) (hdr (freeMapFile w)))\<rparr>"

definition root_dir :: "'a filesys_sim_scheme \<Rightarrow> Directory" where
  "root_dir w = bytes_table (file_bytes (image w) (hdr (directoryFile w)))"

text \<open>The parts of the invariant: the two open files, their headers on disk, and what they contain.\<close>

definition files_ok :: "'a filesys_sim_scheme \<Rightarrow> bool" where
  "files_ok w \<longleftrightarrow> file_ok (hdr (freeMapFile w)) \<and> sectorNumber (hdr (freeMapFile w)) = 0 \<and> numBytes (hdr (freeMapFile w)) = 128 \<and>
     file_ok (hdr (directoryFile w)) \<and> sectorNumber (hdr (directoryFile w)) = 1 \<and> numBytes (hdr (directoryFile w)) = 360 \<and>
     sectors_of (hdr (freeMapFile w)) \<inter> sectors_of (hdr (directoryFile w)) = {} \<and>
     1 \<notin> sectors_of (hdr (freeMapFile w)) \<and> 0 \<notin> sectors_of (hdr (directoryFile w))"

definition headers_ok :: "'a filesys_sim_scheme \<Rightarrow> bool" where
  "headers_ok w \<longleftrightarrow> same_layout (hdr (freeMapFile w)) (bytes_hdr (image w 0)) \<and>
     same_layout (hdr (directoryFile w)) (bytes_hdr (image w 1))"

definition contents_ok :: "'a filesys_sim_scheme \<Rightarrow> bool" where
  "contents_ok w \<longleftrightarrow> int ` ({0, 1} \<union> sectors_of (hdr (freeMapFile w)) \<union> sectors_of (hdr (directoryFile w))) \<subseteq> bm_marked (root_map w) \<and>
     dir_ok (root_dir w) \<and> lookup (root_dir w) [46] = Some 1"

definition fsys_ok :: "'a filesys_sim_scheme \<Rightarrow> bool" where
  "fsys_ok w \<longleftrightarrow> fs_ok w \<and> length (vis_num w) = 1024 \<and> files_ok w \<and> headers_ok w \<and> contents_ok w"

lemma same_layout_refl [simp]: "same_layout h h"
  by (simp add: same_layout_def)

lemma same_layout_trans: "same_layout a b \<Longrightarrow> same_layout b c \<Longrightarrow> same_layout a c"
  by (simp add: same_layout_def)

lemma same_layout_sym: "same_layout a b \<Longrightarrow> same_layout b a"
  by (simp add: same_layout_def)

lemma same_file_layout: "same_file f f' \<longleftrightarrow> same_layout (hdr f) (hdr f') \<and> seekPosition f' = seekPosition f"
  by (auto simp: same_file_def same_layout_def)

lemma sectors_of_layout: "same_layout h h' \<Longrightarrow> sectors_of h' = sectors_of h"
  by (simp add: same_layout_def sectors_of_def)

lemma file_bytes_cong:
  assumes "file_ok h" "same_layout h h'" "\<And>x. x \<in> sectors_of h \<Longrightarrow> img' x = img x"
  shows "file_bytes img' h' = file_bytes img h"
proof -
  have "fbyte img' h' p = fbyte img h p" if "p < nat (numBytes h)" for p
  proof -
    have k: "p div 128 < nat (numSectors h)" using byte_sector [OF assms(1) that] .
    then have "dataSectors h ! (p div 128) \<in> set (take (nat (numSectors h)) (dataSectors h))"
      using file_okD(2,6) [OF assms(1)] by (auto simp: in_set_conv_nth)
    then have "nat (dataSectors h ! (p div 128)) \<in> sectors_of h" by (simp add: sectors_of_def)
    then show ?thesis using assms(2,3) by (simp add: fbyte_def same_layout_def)
  qed
  then show ?thesis using assms(2) by (simp add: file_bytes_def same_layout_def)
qed

lemma length_words_of_bytes [simp]: "length (words_of_bytes bs) = length bs div 4"
  by (induction bs rule: words_of_bytes.induct) auto

lemma bytes_of_words: "length bs = 4 * n \<Longrightarrow> concat (map le32 (words_of_bytes bs)) = bs"
proof (induction bs arbitrary: n rule: words_of_bytes.induct)
  case (1 a b c d bs)
  then have "length bs = 4 * (n - 1)" by simp
  then show ?case using "1.IH" by (simp add: le32_un_le32 [of "[a, b, c, d]", simplified])
qed (auto, presburger+)

lemma hdr_ok_bytes_hdr: "length bs = 128 \<Longrightarrow> hdr_ok (bytes_hdr bs)"
  by (auto simp: hdr_ok_def bytes_hdr_def NumDirect_def bytes_int_def bytes_ints_def)

lemma file_ok_layout: "file_ok h \<Longrightarrow> same_layout h h' \<Longrightarrow> hdr_ok h' \<Longrightarrow> file_ok h'"
  unfolding file_ok_def same_layout_def by metis

lemma header_not_in_sectors: "file_ok h \<Longrightarrow> nat (sectorNumber h) \<notin> sectors_of h"
  using file_okD(2,6,7,9,10) [of h]
  by (fastforce simp: sectors_of_def in_set_conv_nth valid_sector_def)

text \<open>Both files keep their sectors and contents when only headers and free sectors are written.\<close>

definition kept :: "'a filesys_sim_scheme \<Rightarrow> 'a filesys_sim_scheme \<Rightarrow> bool" where
  "kept w w' \<longleftrightarrow> root_map w' = root_map w \<and> root_dir w' = root_dir w \<and>
     same_layout (hdr (freeMapFile w)) (hdr (freeMapFile w')) \<and> same_layout (hdr (directoryFile w)) (hdr (directoryFile w')) \<and>
     (\<forall>x. x \<noteq> 0 \<and> x \<noteq> 1 \<longrightarrow> image w' x = image w x)"

lemma kept_refl [simp]: "kept w w"
  by (simp add: kept_def)

lemma kept_trans: "kept u v \<Longrightarrow> kept v w \<Longrightarrow> kept u w"
  by (auto simp: kept_def intro: same_layout_trans)

lemma files_ok_layout:
  assumes "files_ok w" "same_layout (hdr (freeMapFile w)) (hdr (freeMapFile w'))" "hdr_ok (hdr (freeMapFile w'))"
    "same_layout (hdr (directoryFile w)) (hdr (directoryFile w'))" "hdr_ok (hdr (directoryFile w'))"
  shows "files_ok w'"
  using assms file_ok_layout sectors_of_layout [OF assms(2)] sectors_of_layout [OF assms(4)]
  by (auto simp: files_ok_def same_layout_def)

lemma fsys_ok_outside:
  assumes ok: "fsys_ok w" and w': "fs_ok w'" "length (vis_num w') = 1024"
    and m: "same_layout (hdr (freeMapFile w)) (hdr (freeMapFile w'))" "hdr_ok (hdr (freeMapFile w'))"
    and d: "same_layout (hdr (directoryFile w)) (hdr (directoryFile w'))" "hdr_ok (hdr (directoryFile w'))"
    and h: "same_layout (hdr (freeMapFile w)) (bytes_hdr (image w' 0))" "same_layout (hdr (directoryFile w)) (bytes_hdr (image w' 1))"
    and img: "\<And>x. x \<in> sectors_of (hdr (freeMapFile w)) \<union> sectors_of (hdr (directoryFile w)) \<Longrightarrow> image w' x = image w x"
  shows "fsys_ok w'" "root_map w' = root_map w" "root_dir w' = root_dir w"
proof -
  have f: "files_ok w" using ok by (simp add: fsys_ok_def)
  have f': "files_ok w'" by (rule files_ok_layout [OF f m d])
  show r: "root_map w' = root_map w" "root_dir w' = root_dir w"
    using f file_bytes_cong [OF _ m(1)] file_bytes_cong [OF _ d(1)] img
    by (simp_all add: root_map_def root_dir_def files_ok_def)
  have "headers_ok w'"
    using same_layout_trans [OF same_layout_sym [OF m(1)] h(1)] same_layout_trans [OF same_layout_sym [OF d(1)] h(2)]
    by (simp add: headers_ok_def)
  moreover have "contents_ok w'"
    using ok r sectors_of_layout [OF m(1)] sectors_of_layout [OF d(1)] by (simp add: fsys_ok_def contents_ok_def)
  ultimately show "fsys_ok w'" using w' f' by (simp add: fsys_ok_def)
qed

lemma system_sectors:
  assumes "files_ok w" "x \<in> sectors_of (hdr (freeMapFile w)) \<union> sectors_of (hdr (directoryFile w))"
  shows "x \<noteq> 0" "x \<noteq> 1"
  using assms header_not_in_sectors [of "hdr (freeMapFile w)"] header_not_in_sectors [of "hdr (directoryFile w)"]
  by (auto simp: files_ok_def)

lemma fsys_ok_touch:
  assumes ok: "fsys_ok w" and w': "fs_ok w'" "length (vis_num w') = 1024"
    and m: "same_layout (hdr (freeMapFile w)) (hdr (freeMapFile w'))" "hdr_ok (hdr (freeMapFile w'))"
    and d: "same_layout (hdr (directoryFile w)) (hdr (directoryFile w'))" "hdr_ok (hdr (directoryFile w'))"
    and h: "same_layout (hdr (freeMapFile w)) (bytes_hdr (image w' 0))" "same_layout (hdr (directoryFile w)) (bytes_hdr (image w' 1))"
    and img: "\<And>x. x \<noteq> 0 \<Longrightarrow> x \<noteq> 1 \<Longrightarrow> image w' x = image w x"
  shows "fsys_ok w'" "kept w w'"
proof -
  have f: "files_ok w" using ok by (simp add: fsys_ok_def)
  have i: "image w' x = image w x" if "x \<in> sectors_of (hdr (freeMapFile w)) \<union> sectors_of (hdr (directoryFile w))" for x
    using img system_sectors [OF f that] by blast
  note o = fsys_ok_outside [OF ok w' m d h i]
  show "fsys_ok w'" by (rule o(1))
  show "kept w w'" using o(2,3) m(1) d(1) img by (simp add: kept_def)
qed

lemma more_filesys: "fs_sim.more w' = fs_sim.more w \<Longrightarrow> freeMapFile w' = freeMapFile w \<and> directoryFile w' = directoryFile w"
  by (cases w; cases w') simp


section \<open>The steps on the root directory and the free map\<close>

lemma set_entry_ok:
  assumes "i < length d" "\<forall>e \<in> set d. entry_ok e" "fits32 sec" "length nm \<le> 2" "0 \<notin> set nm"
  shows "\<exists>e. set_entry d i sec nm = Inr (d[i := e]) \<and> entry_ok e \<and> inUse e = 1 \<and> dname e = nm \<and> sector_of e = sec"
proof -
  have e: "entry_ok (d ! i)" using assms by simp
  then have l: "length (entry_name (d ! i)) = 21" by (simp add: entry_ok_def)
  let ?n = "nm @ 0 # drop (Suc (length nm)) (entry_name (d ! i))"
  have s: "strcpy (entry_name (d ! i)) nm = Inr ?n" using l assms(4) by (simp add: strcpy_def patch_def cstr_def)
  have "takeWhile (\<lambda>b. b \<noteq> 0) (take 20 ?n) = nm"
  proof -
    have "take 20 ?n = nm @ 0 # take (19 - length nm) (drop (Suc (length nm)) (entry_name (d ! i)))"
      using assms(4) by (simp add: take_Cons')
    then show ?thesis using assms(5) by (simp, subst takeWhile_append2) auto
  qed
  then show ?thesis using s e assms(1,3,4) l
    by (intro exI [of _ "(d ! i)\<lparr>inUse := 1, sector_of := sec, entry_type := 0, entry_name := ?n\<rparr>"])
      (auto simp: set_entry_def entry_ok_def dname_def fits32_def)
qed

lemma Directory_new3_ok:
  assumes "fits32 sec" "fits32 dad"
  shows "\<exists>d. Directory_new3 NumDirEntries sec dad w = Inr d \<and> length d = 10 \<and> dir_ok d \<and> lookup d = [[46, 46] \<mapsto> dad, [46] \<mapsto> sec]"
proof -
  define t where "t = bytes_table (fresh_buf w (36 * int NumDirEntries))"
  have t: "length t = 10" "\<forall>e \<in> set t. entry_ok e"
    by (auto simp: t_def bytes_table_def fresh_buf_def NumDirEntries_def nat_mult_distrib intro!: bytes_entry_ok)
  obtain e0 where e0: "set_entry t 0 sec [46] = Inr (t[0 := e0])" "entry_ok e0" "inUse e0 = 1" "dname e0 = [46]" "sector_of e0 = sec"
    using set_entry_ok [of 0 t sec "[46]"] t assms by auto
  have t1: "\<forall>e \<in> set (t[0 := e0]). entry_ok e" using t e0 set_update_subset_insert [of t 0 e0] by blast
  obtain e1 where e1: "set_entry (t[0 := e0]) 1 dad [46, 46] = Inr (t[0 := e0, 1 := e1])" "entry_ok e1" "inUse e1 = 1"
    "dname e1 = [46, 46]" "sector_of e1 = dad"
    using set_entry_ok [of 1 "t[0 := e0]" dad "[46, 46]"] t t1 assms by auto
  obtain a b r where abr: "t = a # b # r" using t(1) by (cases t; cases "tl t") auto
  let ?d = "e0 # e1 # map (\<lambda>e. e\<lparr>inUse := 0\<rparr>) r"
  have "Directory_new3 NumDirEntries sec dad w = Inr ?d"
    using e0(1) e1(1) by (simp add: Directory_new3_def Let_def t_def [symmetric] abr)
  moreover have u: "used ?d = [e0, e1]" using e0(3) e1(3) by (simp add: used_def)
  moreover have "\<forall>e \<in> set ?d. entry_ok e" using t(2) e0(2) e1(2) abr by (auto simp: entry_ok_def)
  moreover have "lookup ?d = [[46, 46] \<mapsto> dad, [46] \<mapsto> sec]"
    unfolding lookup_def u using e0 e1 by auto
  ultimately show ?thesis using t(1) abr e0(4) e1(4) by (auto simp: dir_ok_def)
qed

lemma Directory_new_ok: "\<exists>d. Directory_new NumDirEntries w = Inr d \<and> length d = 10 \<and> dir_ok d \<and> lookup d = [[46, 46] \<mapsto> 1, [46] \<mapsto> 1]"
  using Directory_new3_ok [of rootSector rootSector w] by (simp add: Directory_new_def rootSector_def fits32_def)

lemma patch_whole: "length bs = length buf \<Longrightarrow> patch buf 0 bs = Inr bs"
  by (auto simp: patch_def)

lemma Dir_FetchFrom_ok:
  assumes "file_ok (hdr f)" "fs_ok w" "numBytes (hdr f) = 360" "length d0 = 10" "dir_ok d0"
  shows "\<exists>w' f'. Dir_FetchFrom d0 f w = Inr (w', f', bytes_table (file_bytes (image w) (hdr f))) \<and> fs_ok w' \<and> fs_frame w w' \<and>
    file_ok (hdr f') \<and> same_file f f' \<and> image w' = (image w)(nat (sectorNumber (hdr f)) := hdr_bytes (hdr f'))"
proof -
  obtain w' f' where r: "ReadAt 360 0 f w = Inr (w', f', file_bytes (image w) (hdr f))" "fs_ok w'" "fs_frame w w'"
    "file_ok (hdr f')" "same_file f f'" "image w' = (image w)(nat (sectorNumber (hdr f)) := hdr_bytes (hdr f'))"
    using ReadAt_file_ok [OF assms(1,2), of 360 0] assms(3) by (auto simp: fits32_def)
  have "patch (table_bytes d0) 0 (file_bytes (image w) (hdr f)) = Inr (file_bytes (image w) (hdr f))"
    using assms(3-5) length_table_bytes [of d0] by (intro patch_whole) (simp add: dir_ok_def)
  then show ?thesis using r assms(4) by (simp add: Dir_FetchFrom_def)
qed

lemma new_map_ok: "\<exists>bm. new_map = Inr bm \<and> bm_wf bm \<and> numBits bm = 1024 \<and> numWords bm = 32 \<and> bm_marked bm = {}"
  using BitMap_new_ok [of NumSectors "replicate 32 0"]
  by (auto simp: new_map_def disk_consts divRoundUp_nonneg BitsInWord_def bm_wf_def)


lemma fsys_okD:
  assumes "fsys_ok w"
  shows "fs_ok w" "length (vis_num w) = 1024" "files_ok w" "headers_ok w" "contents_ok w"
    "file_ok (hdr (freeMapFile w))" "sectorNumber (hdr (freeMapFile w)) = 0" "numBytes (hdr (freeMapFile w)) = 128"
    "file_ok (hdr (directoryFile w))" "sectorNumber (hdr (directoryFile w)) = 1" "numBytes (hdr (directoryFile w)) = 360"
  using assms by (simp_all add: fsys_ok_def files_ok_def)

text \<open>Everything but the contents: enough to write the two files.\<close>

definition base_ok :: "'a filesys_sim_scheme \<Rightarrow> bool" where
  "base_ok w \<longleftrightarrow> fs_ok w \<and> length (vis_num w) = 1024 \<and> files_ok w \<and> headers_ok w"

lemma fsys_ok_base: "fsys_ok w \<longleftrightarrow> base_ok w \<and> contents_ok w"
  by (auto simp: fsys_ok_def base_ok_def)

lemma base_okD:
  assumes "base_ok w"
  shows "fs_ok w" "length (vis_num w) = 1024" "files_ok w" "headers_ok w"
    "file_ok (hdr (freeMapFile w))" "sectorNumber (hdr (freeMapFile w)) = 0" "numBytes (hdr (freeMapFile w)) = 128"
    "file_ok (hdr (directoryFile w))" "sectorNumber (hdr (directoryFile w)) = 1" "numBytes (hdr (directoryFile w)) = 360"
  using assms by (simp_all add: base_ok_def files_ok_def)

lemma bytes_hdr_layout: "file_ok h' \<Longrightarrow> same_layout h h' \<Longrightarrow> same_layout h (bytes_hdr (hdr_bytes h'))"
  using bytes_hdr_bytes [OF file_okD(1) [of h']] by simp

text \<open>Reading through an open file: the header of the file gets a new access time, nothing else happens.\<close>

lemma fetch_map_ok:
  assumes ok: "fsys_ok w"
  shows "\<exists>w'. fetch_map w = Inr (w', root_map w) \<and> fsys_ok w' \<and> kept w w' \<and> vis_num w' = vis_num w"
proof -
  note D = fsys_okD [OF ok]
  let ?f = "freeMapFile w"
  obtain bm where bm: "new_map = Inr bm" "bm_wf bm" "numBits bm = 1024" "numWords bm = 32" using new_map_ok by blast
  obtain w1 f1 where r: "ReadAt 128 0 ?f w = Inr (w1, f1, file_bytes (image w) (hdr ?f))" "fs_ok w1" "fs_frame w w1"
    "file_ok (hdr f1)" "same_file ?f f1" "image w1 = (image w)(0 := hdr_bytes (hdr f1))"
    using ReadAt_file_ok [OF D(6) D(1), of 128 0] D(7,8) by (auto simp: fits32_def)
  have "length (BitMap_bytes bm) = 128" using bm by (simp add: BitMap_bytes_def length_bm_bytes bm_wf_def)
  then have "patch (BitMap_bytes bm) 0 (file_bytes (image w) (hdr ?f)) = Inr (file_bytes (image w) (hdr ?f))"
    using D(8) by (intro patch_whole) simp
  then have eq: "fetch_map w = Inr (w1\<lparr>freeMapFile := f1\<rparr>, root_map w)"
    using bm(3,4) r(1) by (simp add: fetch_map_def bm(1) BitMap_FetchFrom_def root_map_def)
  let ?w = "w1\<lparr>freeMapFile := f1\<rparr>"
  have fr: "directoryFile w1 = directoryFile w" "vis_num w1 = vis_num w"
    using r(3) more_filesys [of w1 w] by (simp_all add: fs_frame_def)
  have lay: "same_layout (hdr ?f) (hdr f1)" using r(5) by (simp add: same_file_layout)
  have "fs_ok ?w" using r(2) by (simp add: fs_ok_def sd_ok_def calm_def mach_ok_def clock_ok_def disk_ok_def)
  from fsys_ok_touch [OF ok this] have "fsys_ok ?w" "kept w ?w"
    using fr D r lay bytes_hdr_layout [OF r(4) lay] file_okD(1) by (auto simp: headers_ok_def)
  then show ?thesis using eq fr by simp
qed


lemma fs_ok_update [simp]:
  "fs_ok (w\<lparr>freeMapFile := f\<rparr>) = fs_ok w" "fs_ok (w\<lparr>directoryFile := f\<rparr>) = fs_ok w" "fs_ok (u\<lparr>vis_num := v\<rparr>) = fs_ok u"
  "fs_ok (u\<lparr>clock_reads := n\<rparr>) = fs_ok u"
  by (simp_all add: fs_ok_def sd_ok_def calm_def mach_ok_def clock_ok_def disk_ok_def)

lemma fetch_root_ok:
  assumes ok: "fsys_ok w"
  shows "\<exists>w'. fetch_root w = Inr (w', root_dir w) \<and> fsys_ok w' \<and> kept w w' \<and> vis_num w' = vis_num w"
proof -
  note D = fsys_okD [OF ok]
  let ?f = "directoryFile w"
  obtain d0 where d0: "Directory_new NumDirEntries w = Inr d0" "length d0 = 10" "dir_ok d0" using Directory_new_ok by blast
  obtain w1 f1 where r: "Dir_FetchFrom d0 ?f w = Inr (w1, f1, root_dir w)" "fs_ok w1" "fs_frame w w1"
    "file_ok (hdr f1)" "same_file ?f f1" "image w1 = (image w)(1 := hdr_bytes (hdr f1))"
    using Dir_FetchFrom_ok [OF D(9) D(1) D(11) d0(2,3)] D(10) by (auto simp: root_dir_def)
  have eq: "fetch_root w = Inr (w1\<lparr>directoryFile := f1\<rparr>, root_dir w)"
    using r(1) by (simp add: fetch_root_def d0(1))
  let ?w = "w1\<lparr>directoryFile := f1\<rparr>"
  have fr: "freeMapFile w1 = freeMapFile w" "vis_num w1 = vis_num w"
    using r(3) more_filesys [of w1 w] by (simp_all add: fs_frame_def)
  have lay: "same_layout (hdr ?f) (hdr f1)" using r(5) by (simp add: same_file_layout)
  have "fs_ok ?w" using r(2) by simp
  from fsys_ok_touch [OF ok this] have "fsys_ok ?w" "kept w ?w"
    using fr D r lay bytes_hdr_layout [OF r(4) lay] file_okD(1) by (auto simp: headers_ok_def)
  then show ?thesis using eq fr by simp
qed

text \<open>A second open file of the root directory, as \<^verbatim>\<open>Create\<close> and \<^verbatim>\<open>Open\<close> make it.\<close>

lemma open_dir_ok:
  assumes ok: "fsys_ok w"
  shows "\<exists>w' f. open_dir 1 w = Inr (w', f, root_dir w) \<and> fsys_ok w' \<and> kept w w' \<and>
    vis_num w' = (vis_num w)[1 := vis_num w ! 1 + 1] \<and> file_ok (hdr f) \<and> same_layout (hdr (directoryFile w')) (hdr f)"
proof -
  note D = fsys_okD [OF ok]
  let ?h = "bytes_hdr (image w 1)"
  have sd: "sd_ok w" and len: "length (image w 1) = 128" using D(1) by (simp_all add: fs_ok_def sd_ok_def SectorSize_def)
  have lay: "same_layout (hdr (directoryFile w)) ?h" using D(4) by (simp add: headers_ok_def)
  have fh: "file_ok ?h" using file_ok_layout [OF D(9) lay hdr_ok_bytes_hdr [OF len]] .
  have sn: "sectorNumber ?h = 1" "numBytes ?h = 360" using lay D(10,11) by (simp_all add: same_layout_def)
  have v1: "valid_sector 1" by (simp add: valid_sector_def disk_consts)
  obtain w1 where w1: "FetchFrom 1 w = Inr (w1, ?h)" "sd_ok w1" "image w1 = image w" "sd_frame w w1"
    using FetchFrom_ok [OF sd v1] by auto
  note fr1 = sd_fs_frame [OF w1(4)]
  have v: "vis_num w1 = vis_num w" using w1(4) by (simp add: sd_frame_def)
  let ?w = "w1\<lparr>vis_num := (vis_num w)[1 := vis_num w ! 1 + 1]\<rparr>" and ?f = "\<lparr>hdr = ?h, seekPosition = 0\<rparr>"
  have o: "OpenFile_new 1 w = Inr (?w, ?f)" using w1(1) v D(2) sn(1) by (simp add: OpenFile_new_def)
  have f1: "fs_ok ?w" using w1(2) D(1) fr1 by (simp add: fs_ok_def [of w1] fs_ok_def [of w] fs_frame_def)
  obtain d0 where d0: "Directory_new NumDirEntries ?w = Inr d0" "length d0 = 10" "dir_ok d0" using Directory_new_ok by blast
  have "file_bytes (image w) ?h = file_bytes (image w) (hdr (directoryFile w))" by (rule file_bytes_cong [OF D(9) lay]) simp
  then obtain w2 f2 where r: "Dir_FetchFrom d0 ?f ?w = Inr (w2, f2, root_dir w)" "fs_ok w2" "fs_frame ?w w2"
    "file_ok (hdr f2)" "same_file ?f f2" "image w2 = (image w)(1 := hdr_bytes (hdr f2))"
    using Dir_FetchFrom_ok [of ?f ?w d0] fh f1 sn d0(2,3) w1(3) by (auto simp: root_dir_def)
  have fr: "freeMapFile w2 = freeMapFile w" "directoryFile w2 = directoryFile w" "vis_num w2 = (vis_num w)[1 := vis_num w ! 1 + 1]"
    using r(3) more_filesys [of w2 ?w] more_filesys [of w1 w] fr1 by (simp_all add: fs_frame_def)
  have lay2: "same_layout (hdr (directoryFile w)) (hdr f2)" using r(5) lay by (auto simp: same_file_layout intro: same_layout_trans)
  have "fsys_ok w2" "kept w w2"
    using fsys_ok_touch [OF ok r(2)] fr D r lay2 bytes_hdr_layout [OF r(4) lay2] file_okD(1) by (auto simp: headers_ok_def)
  then show ?thesis using o d0(1) r(1,4) fr lay2 by (simp add: open_dir_def)
qed


text \<open>Writing the free map and the root directory.\<close>

lemma words_of_BitMap_bytes: "words_of_bytes (BitMap_bytes bm) = bmap bm"
  by (simp add: BitMap_bytes_def)

lemma store_map_base:
  assumes ok: "base_ok w" and bm: "bm_wf bm" "numBits bm = 1024"
  shows "\<exists>w'. store_map bm w = Inr w' \<and> base_ok w' \<and> root_map w' = bm \<and> root_dir w' = root_dir w \<and> vis_num w' = vis_num w \<and>
    same_layout (hdr (freeMapFile w)) (hdr (freeMapFile w')) \<and> directoryFile w' = directoryFile w \<and>
    (\<forall>x. x \<noteq> 0 \<and> x \<notin> sectors_of (hdr (freeMapFile w)) \<longrightarrow> image w' x = image w x)"
proof -
  note D = base_okD [OF ok]
  let ?f = "freeMapFile w"
  have nw: "numWords bm = 32" "length (bmap bm) = 32" using bm by (simp_all add: bm_wf_def divRoundUp_nonneg BitsInWord_def)
  have len: "length (BitMap_bytes bm) = 128" using nw by (simp add: BitMap_bytes_def length_bm_bytes)
  obtain w1 f1 where r: "WriteAt (BitMap_bytes bm) 128 0 ?f w = Inr (w1, f1, 128)" "fs_ok w1" "fs_frame w w1" "file_ok (hdr f1)"
    "same_file ?f f1" "file_bytes (image w1) (hdr f1) = BitMap_bytes bm" "image w1 0 = hdr_bytes (hdr f1)"
    "\<forall>x. x \<noteq> 0 \<and> x \<notin> sectors_of (hdr ?f) \<longrightarrow> image w1 x = image w x"
    using WriteAt_file_ok [OF D(5) D(1), of 0 128 "BitMap_bytes bm"] D(6,7) len by (auto simp: sectors_of_def)
  let ?w = "w1\<lparr>freeMapFile := f1\<rparr>"
  have eq: "store_map bm w = Inr ?w" using r(1) nw by (simp add: store_map_def BitMap_WriteBack_def)
  have fr: "directoryFile w1 = directoryFile w" "vis_num w1 = vis_num w"
    using r(3) more_filesys [of w1 w] by (simp_all add: fs_frame_def)
  have lay: "same_layout (hdr ?f) (hdr f1)" using r(5) by (simp add: same_file_layout)
  have rm: "root_map ?w = bm" using r(6) bm(2) nw(1) by (simp add: root_map_def words_of_BitMap_bytes)
  have dis: "image w1 x = image w x" if "x \<in> sectors_of (hdr (directoryFile w))" for x
  proof -
    have "x \<noteq> 0" "x \<notin> sectors_of (hdr ?f)" using that D(3) system_sectors [OF D(3)] by (auto simp: files_ok_def)
    then show ?thesis using r(8) by blast
  qed
  have rd: "root_dir ?w = root_dir w"
    using file_bytes_cong [OF D(8) same_layout_refl dis] fr by (simp add: root_dir_def)
  have "files_ok ?w" using files_ok_layout [OF D(3), of ?w] lay file_okD(1) [OF r(4)] file_okD(1) [OF D(8)] fr by simp
  moreover have "headers_ok ?w"
    using D(3,4) r(7,8) fr bytes_hdr_layout [OF r(4) same_layout_refl] by (auto simp: headers_ok_def files_ok_def)
  ultimately have "base_ok ?w" using r(2) D(2) fr by (simp add: base_ok_def)
  then show ?thesis using eq rm rd fr lay r(8) by auto
qed

lemma Dir_WriteBack_base:
  assumes ok: "base_ok w" and f: "file_ok (hdr f)" "same_layout (hdr (directoryFile w)) (hdr f)"
    and d: "dir_ok d" "length d = 10"
  shows "\<exists>w' f'. Dir_WriteBack d f w = Inr (w', f') \<and> base_ok w' \<and> root_map w' = root_map w \<and> root_dir w' = d \<and>
    vis_num w' = vis_num w \<and> freeMapFile w' = freeMapFile w \<and> directoryFile w' = directoryFile w \<and> file_ok (hdr f') \<and> same_file f f' \<and>
    (\<forall>x. x \<noteq> 1 \<and> x \<notin> sectors_of (hdr (directoryFile w)) \<longrightarrow> image w' x = image w x)"
proof -
  note D = base_okD [OF ok]
  have sn: "sectorNumber (hdr f) = 1" "numBytes (hdr f) = 360" "sectors_of (hdr f) = sectors_of (hdr (directoryFile w))"
    using f(2) D(9,10) sectors_of_layout [OF f(2)] by (simp_all add: same_layout_def)
  have len: "length (table_bytes d) = 360" using d length_table_bytes [of d] by (simp add: dir_ok_def)
  obtain w1 f1 where r: "WriteAt (table_bytes d) 360 0 f w = Inr (w1, f1, 360)" "fs_ok w1" "fs_frame w w1" "file_ok (hdr f1)"
    "same_file f f1" "file_bytes (image w1) (hdr f1) = table_bytes d" "image w1 1 = hdr_bytes (hdr f1)"
    "\<forall>x. x \<noteq> 1 \<and> x \<notin> sectors_of (hdr f) \<longrightarrow> image w1 x = image w x"
    using WriteAt_file_ok [OF f(1) D(1), of 0 360 "table_bytes d"] sn len by (auto simp: sectors_of_def)
  have eq: "Dir_WriteBack d f w = Inr (w1, f1)" using r(1) d(2) by (simp add: Dir_WriteBack_def)
  have fr: "freeMapFile w1 = freeMapFile w" "directoryFile w1 = directoryFile w" "vis_num w1 = vis_num w"
    using r(3) more_filesys [of w1 w] by (simp_all add: fs_frame_def)
  have lay: "same_layout (hdr (directoryFile w)) (hdr f1)" using r(5) f(2) by (auto simp: same_file_layout intro: same_layout_trans)
  have dis: "image w1 x = image w x" if "x \<in> sectors_of (hdr (freeMapFile w))" for x
  proof -
    have "x \<noteq> 1" "x \<notin> sectors_of (hdr f)" using that D(3) sn(3) by (auto simp: files_ok_def)
    then show ?thesis using r(8) by blast
  qed
  have rm: "root_map w1 = root_map w" using file_bytes_cong [OF D(5) same_layout_refl dis] fr by (simp add: root_map_def)
  have "file_bytes (image w1) (hdr f1) = file_bytes (image w1) (hdr (directoryFile w))" by (rule file_bytes_cong [OF D(8) lay]) simp
  then have "file_bytes (image w1) (hdr (directoryFile w)) = table_bytes d" using r(6) by simp
  then have rd: "root_dir w1 = d" using d(1) fr by (simp add: root_dir_def bytes_table_bytes dir_ok_def)
  have "files_ok w1" using D(3) fr by (simp add: files_ok_def)
  moreover have "headers_ok w1"
    using D(3,4) r(7,8) fr bytes_hdr_layout [OF r(4) lay] sn(3) by (auto simp: headers_ok_def files_ok_def)
  ultimately have "base_ok w1" using r(2) D(2) fr by (simp add: base_ok_def)
  then show ?thesis using eq rm rd fr r(4,5,8) sn(3) by auto
qed


lemma store_map_ok:
  assumes ok: "fsys_ok w" and bm: "bm_wf bm" "numBits bm = 1024"
    and marks: "int ` ({0, 1} \<union> sectors_of (hdr (freeMapFile w)) \<union> sectors_of (hdr (directoryFile w))) \<subseteq> bm_marked bm"
  shows "\<exists>w'. store_map bm w = Inr w' \<and> fsys_ok w' \<and> root_map w' = bm \<and> root_dir w' = root_dir w \<and> vis_num w' = vis_num w \<and>
    same_layout (hdr (freeMapFile w)) (hdr (freeMapFile w')) \<and> directoryFile w' = directoryFile w \<and>
    (\<forall>x. x \<noteq> 0 \<and> x \<notin> sectors_of (hdr (freeMapFile w)) \<longrightarrow> image w' x = image w x)"
proof -
  from ok have b: "base_ok w" "contents_ok w" by (simp_all add: fsys_ok_base)
  obtain w' where w': "store_map bm w = Inr w'" "base_ok w'" "root_map w' = bm" "root_dir w' = root_dir w" "vis_num w' = vis_num w"
    "same_layout (hdr (freeMapFile w)) (hdr (freeMapFile w'))" "directoryFile w' = directoryFile w"
    "\<forall>x. x \<noteq> 0 \<and> x \<notin> sectors_of (hdr (freeMapFile w)) \<longrightarrow> image w' x = image w x"
    using store_map_base [OF b(1) bm] by blast
  have "contents_ok w'" using marks w' b(2) sectors_of_layout [OF w'(6)] by (simp add: contents_ok_def)
  then show ?thesis using w' by (auto simp: fsys_ok_base)
qed

lemma Dir_WriteBack_ok:
  assumes ok: "fsys_ok w" and f: "file_ok (hdr f)" "same_layout (hdr (directoryFile w)) (hdr f)"
    and d: "dir_ok d" "length d = 10" "lookup d [46] = Some 1"
  shows "\<exists>w' f'. Dir_WriteBack d f w = Inr (w', f') \<and> fsys_ok w' \<and> root_map w' = root_map w \<and> root_dir w' = d \<and>
    vis_num w' = vis_num w \<and> freeMapFile w' = freeMapFile w \<and> directoryFile w' = directoryFile w \<and> file_ok (hdr f') \<and> same_file f f' \<and>
    (\<forall>x. x \<noteq> 1 \<and> x \<notin> sectors_of (hdr (directoryFile w)) \<longrightarrow> image w' x = image w x)"
proof -
  from ok have b: "base_ok w" "contents_ok w" by (simp_all add: fsys_ok_base)
  obtain w' f' where w': "Dir_WriteBack d f w = Inr (w', f')" "base_ok w'" "root_map w' = root_map w" "root_dir w' = d"
    "vis_num w' = vis_num w" "freeMapFile w' = freeMapFile w" "directoryFile w' = directoryFile w" "file_ok (hdr f')" "same_file f f'"
    "\<forall>x. x \<noteq> 1 \<and> x \<notin> sectors_of (hdr (directoryFile w)) \<longrightarrow> image w' x = image w x"
    using Dir_WriteBack_base [OF b(1) f d(1,2)] by blast
  have "contents_ok w'" using w' b(2) d by (simp add: contents_ok_def)
  then show ?thesis using w' by (auto simp: fsys_ok_base)
qed

section \<open>Creating a file\<close>

lemma stamp_all_ok:
  assumes "\<forall>k. 24 \<le> length (hostclock w k)"
  shows "\<exists>n h'. stamp_all h w = (w\<lparr>clock_reads := n\<rparr>, h') \<and> same_layout h h' \<and> (hdr_ok h \<longrightarrow> hdr_ok h')"
  using assms by (auto simp: stamp_all_def stamp_def SetTime_def same_layout_def hdr_ok_def time_text_def)

lemma new_header_ok: "hdr_ok (new_header w)"
  unfolding new_header_def by (rule hdr_ok_bytes_hdr) (simp add: fresh_buf_def)

lemma set_type_ok:
  assumes "hdr_ok h" "length (drop (Suc (first_dot name)) name) \<le> 4"
  shows "\<exists>h'. set_type name h = Inr h' \<and> same_layout h h' \<and> hdr_ok h'"
proof -
  have "length (ftype h) = 5" using assms(1) by (simp add: hdr_ok_def)
  then obtain t where "patch (ftype h) 0 (cstr (drop (Suc (first_dot name)) name)) = Inr t" "length t = 5"
    using patch_ok [of 0 "cstr (drop (Suc (first_dot name)) name)" "ftype h"] assms(2) by (auto simp: cstr_def)
  then show ?thesis using assms(1) by (auto simp: set_type_def same_layout_def hdr_ok_def)
qed

text \<open>The header that \<^verbatim>\<open>Allocate\<close> fills in describes a file.\<close>

lemma allocated_file_ok:
  assumes h: "hdr_ok h" and sz: "0 < n" "n \<le> 1024" and ns: "ns = divRoundUp n SectorSize"
    and k: "0 \<le> k" "k + ns \<le> 1024" and sec: "0 \<le> sec" "sec < 1024" "sec \<notin> {k..<k + ns}"
  shows "file_ok (h\<lparr>numBytes := n, numSectors := ns, dataSectors := map (\<lambda>j. k + int j) [0..<nat ns] @ drop (nat ns) (dataSectors h),
    sectorNumber := sec\<rparr>)" (is "file_ok ?h")
proof -
  have b: "n \<le> ns * 128" "ns * 128 < n + 128" using divRoundUp_bounds [of n 128] sz by (simp_all add: ns SectorSize_def)
  then have r: "0 < ns" "ns \<le> 8" using sz by linarith+
  have l: "length (dataSectors h) = 9" using h by (simp add: hdr_ok_def NumDirect_def)
  have "\<forall>z \<in> set (drop (nat ns) (dataSectors h)). fits32 z" using h by (auto simp: hdr_ok_def dest: in_set_dropD)
  then have "hdr_ok ?h" using h k r sec sz by (auto simp: hdr_ok_def fits32_def NumDirect_def)
  moreover have "(map (\<lambda>j. k + int j) [0..<nat ns] @ drop (nat ns) (dataSectors h)) ! i = k + int i" if "i < nat ns" for i
    using that by (simp add: nth_append)
  moreover have "distinct (map (\<lambda>j. k + int j) [0..<nat ns])" by (simp add: distinct_map inj_on_def)
  moreover have "take (nat ns) (map (\<lambda>j. k + int j) [0..<nat ns] @ drop (nat ns) (dataSectors h)) = map (\<lambda>j. k + int j) [0..<nat ns]" by simp
  ultimately show ?thesis using r sz k sec ns unfolding file_ok_def by (auto simp: valid_sector_def disk_consts)
qed

lemma sectors_of_run: "0 \<le> k \<Longrightarrow> numSectors h = ns \<Longrightarrow> 0 \<le> ns \<Longrightarrow> take (nat ns) (dataSectors h) = map (\<lambda>j. k + int j) [0..<nat ns] \<Longrightarrow>
   int ` sectors_of h = {k..<k + ns}"
proof -
  assume a: "0 \<le> k" "numSectors h = ns" "0 \<le> ns" "take (nat ns) (dataSectors h) = map (\<lambda>j. k + int j) [0..<nat ns]"
  have "int ` sectors_of h = (\<lambda>j. k + int j) ` {0..<nat ns}"
    using a by (auto simp: sectors_of_def image_image)
  also have "\<dots> = {k..<k + ns}"
  proof
    show "{k..<k + ns} \<subseteq> (\<lambda>j. k + int j) ` {0..<nat ns}"
    proof
      fix x assume "x \<in> {k..<k + ns}"
      then show "x \<in> (\<lambda>j. k + int j) ` {0..<nat ns}" by (intro image_eqI [of _ _ "nat (x - k)"]) auto
    qed
  qed auto
  finally show ?thesis .
qed


text \<open>What a successful \<^verbatim>\<open>Create\<close> leaves behind: a header in sector \<open>sec\<close> that describes the new file.\<close>

definition new_file :: "'a filesys_sim_scheme \<Rightarrow> int \<Rightarrow> int \<Rightarrow> FileHeader \<Rightarrow> bool" where
  "new_file w sec n h \<longleftrightarrow> bytes_hdr (image w (nat sec)) = h \<and> file_ok h \<and> sectorNumber h = sec \<and> numBytes h = n \<and>
     int ` insert (nat sec) (sectors_of h) \<subseteq> bm_marked (root_map w)"

lemma free_run_card:
  assumes "{k..<k + ns} \<subseteq> free_sectors bm" "0 \<le> ns"
  shows "ns \<le> int (card (free_sectors bm))"
proof -
  have "card {k..<k + ns} \<le> card (free_sectors bm)" using assms(1) by (intro card_mono) (simp_all add: free_sectors_def)
  then show ?thesis using assms(2) by simp
qed

lemma Allocate_run_ok:
  assumes bm: "bm_wf bm" "numBits bm = 1024" and h: "hdr_ok h" and sz: "0 < n" "n \<le> 1024" and ns: "ns = divRoundUp n SectorSize"
    and run: "\<exists>k. 0 \<le> k \<and> k + ns \<le> 1024 \<and> {k..<k + ns} \<inter> bm_marked bm = {}"
  shows "\<exists>bm' k. Allocate junk bm n h s = Inr (s, bm', h\<lparr>numBytes := n, numSectors := ns,
      dataSectors := map (\<lambda>j. k + int j) [0..<nat ns] @ drop (nat ns) (dataSectors h)\<rparr>, True) \<and>
    bm_wf bm' \<and> numBits bm' = 1024 \<and> 0 \<le> k \<and> k + ns \<le> 1024 \<and> {k..<k + ns} \<inter> bm_marked bm = {} \<and>
    bm_marked bm' = bm_marked bm \<union> {k..<k + ns}"
proof -
  have r8: "0 < ns" "ns \<le> 8" using divRoundUp_bounds [of n 128] sz by (auto simp: ns SectorSize_def)
  have fs: "free_sectors bm = {0..<1024} - bm_marked bm" using bm(2) by (simp add: free_sectors_def)
  have ex: "\<exists>k. 0 \<le> k \<and> k + ns \<le> numBits bm \<and> {k..<k + ns} \<subseteq> free_sectors bm" using run bm(2) fs by fastforce
  then have card: "\<not> int (card (free_sectors bm)) < ns" using free_run_card r8 by (metis less_imp_le not_less)
  have nh: "length (dataSectors h) = nat NumDirect" using h by (simp add: hdr_ok_def)
  obtain bm' k where al: "Allocate junk bm n h s = Inr (s, bm', h\<lparr>numBytes := n, numSectors := ns,
      dataSectors := map (\<lambda>j. k + int j) [0..<nat ns] @ drop (nat ns) (dataSectors h)\<rparr>, True)"
    "bm_wf bm'" "numBits bm' = numBits bm" "{k..<k + ns} \<subseteq> free_sectors bm" "bm_marked bm' = bm_marked bm \<union> {k..<k + ns}"
    using Allocate_direct_cases [OF bm(1) _ nh sz, of junk s, unfolded Let_def ns [symmetric] if_not_P [OF card] if_P [OF ex]] bm(2)
    by auto
  have "k \<in> free_sectors bm" "k + ns - 1 \<in> free_sectors bm" using r8 al(4) by auto
  then have k: "0 \<le> k" "k + ns \<le> 1024" "{k..<k + ns} \<inter> bm_marked bm = {}" using al(4) fs by auto
  with al bm(2) show ?thesis by auto
qed

text \<open>The header as \<^verbatim>\<open>Create\<close> completes it: type, times and sector number.\<close>

lemma complete_header_ok:
  assumes h0: "hdr_ok (h0\<lparr>sectorNumber := sec\<rparr>)" "hdr_ok h0" and nm: "length (drop (Suc (first_dot name)) name) \<le> 4"
    and w: "fs_ok w"
  shows "\<exists>h1 h2 c. set_type name h0 = Inr h1 \<and> stamp_all h1 w = (w\<lparr>clock_reads := c\<rparr>, h2) \<and>
    hdr_ok (h2\<lparr>sectorNumber := sec\<rparr>) \<and> same_layout (h0\<lparr>sectorNumber := sec\<rparr>) (h2\<lparr>sectorNumber := sec\<rparr>)"
proof -
  obtain h1 where h1: "set_type name h0 = Inr h1" "same_layout h0 h1" "hdr_ok h1" using set_type_ok [OF h0(2) nm] by blast
  obtain c h2 where h2: "stamp_all h1 w = (w\<lparr>clock_reads := c\<rparr>, h2)" "same_layout h1 h2" "hdr_ok h2"
    using stamp_all_ok [of w h1] w h1(3) by (auto simp: fs_ok_def)
  have lay: "same_layout (h0\<lparr>sectorNumber := sec\<rparr>) (h2\<lparr>sectorNumber := sec\<rparr>)" using h1(2) h2(2) by (simp add: same_layout_def)
  have "hdr_ok (h2\<lparr>sectorNumber := sec\<rparr>)" using h2(3) h0(1) by (simp add: hdr_ok_def)
  then show ?thesis using lay h1(1) h2(1) by blast
qed

text \<open>The sectors of the two system files; writing only into sectors that the free map says are free touches none of them.\<close>

definition system_area :: "'a filesys_sim_scheme \<Rightarrow> nat set" where
  "system_area w = {0, 1} \<union> sectors_of (hdr (freeMapFile w)) \<union> sectors_of (hdr (directoryFile w))"

lemma system_area_marked: "fsys_ok w \<Longrightarrow> x \<in> system_area w \<Longrightarrow> int x \<in> bm_marked (root_map w)"
  using fsys_okD(5) [of w] by (auto simp: contents_ok_def system_area_def)

lemma free_change_ok:
  assumes ok: "fsys_ok w" and free: "\<And>x. image w' x \<noteq> image w x \<Longrightarrow> int x \<notin> bm_marked (root_map w)"
    and w': "sd_ok w'" "sd_frame (w\<lparr>clock_reads := c\<rparr>) w'"
  shows "fsys_ok w'" "root_map w' = root_map w" "root_dir w' = root_dir w" "freeMapFile w' = freeMapFile w"
    "directoryFile w' = directoryFile w" "vis_num w' = vis_num w" "system_area w' = system_area w"
proof -
  note D = fsys_okD [OF ok]
  have fr: "freeMapFile w' = freeMapFile w" "directoryFile w' = directoryFile w" "vis_num w' = vis_num w" "hostclock w' = hostclock w"
    "fresh_stack w' = fresh_stack w"
    using sd_fs_frame [OF w'(2)] more_filesys [of w' "w\<lparr>clock_reads := c\<rparr>"] by (simp_all add: fs_frame_def)
  then show "freeMapFile w' = freeMapFile w" "directoryFile w' = directoryFile w" "vis_num w' = vis_num w" "system_area w' = system_area w"
    by (simp_all add: system_area_def)
  have i: "image w' x = image w x" if "x \<in> system_area w" for x
    using free [of x] system_area_marked [OF ok that] by blast
  have "image w' 0 = image w 0" "image w' 1 = image w 1" by (rule i, simp add: system_area_def)+
  moreover have "fs_ok w'" using w'(1) D(1) fr by (simp add: fs_ok_def)
  ultimately show "fsys_ok w'" "root_map w' = root_map w" "root_dir w' = root_dir w"
    using fsys_ok_outside [OF ok, of w'] i fr D(2,4) file_okD(1) [OF D(6)] file_okD(1) [OF D(9)] by (simp_all add: headers_ok_def system_area_def)
qed

text \<open>
  Once the sectors are allocated, the rest of \<^verbatim>\<open>Create\<close> writes the header, the directory and the free map. The
  allocation may have written its index block into a free sector.
\<close>

definition creation ::
  "int \<Rightarrow> FileHeader \<Rightarrow> (nat \<Rightarrow> sector) \<Rightarrow> BitMap \<Rightarrow> 'a filesys_sim_scheme \<Rightarrow> 'a filesys_sim_scheme \<Rightarrow> bool" where
  "creation sec h0 img bm w w' \<longleftrightarrow> fsys_ok w' \<and> root_map w' = bm \<and> same_layout (h0\<lparr>sectorNumber := sec\<rparr>) (bytes_hdr (image w' (nat sec))) \<and>
     hdr_ok (bytes_hdr (image w' (nat sec))) \<and> (\<forall>x. x \<noteq> nat sec \<and> x \<notin> system_area w \<longrightarrow> image w' x = img x) \<and> vis_num w' = vis_num w \<and>
     same_layout (hdr (freeMapFile w)) (hdr (freeMapFile w')) \<and> same_layout (hdr (directoryFile w)) (hdr (directoryFile w'))"

lemma create_file_with:
  assumes ok: "fsys_ok w" and nm: "length (drop (Suc (first_dot name)) name) \<le> 4"
    and sec: "0 \<le> sec" "sec < 1024" "sec \<notin> bm_marked (root_map w)"
    and al: "Allocate (fresh_stack w) bm n (new_header w) w = Inr (wa, bm', h0, True)" "bm_wf bm'" "numBits bm' = 1024"
      "bm_marked (root_map w) \<subseteq> bm_marked bm'" "hdr_ok (h0\<lparr>sectorNumber := sec\<rparr>)" "hdr_ok h0"
    and wa: "sd_ok wa" "sd_frame w wa" "\<And>x. image wa x \<noteq> image w x \<Longrightarrow> int x \<notin> bm_marked (root_map w)"
    and f: "file_ok (hdr f)" "same_layout (hdr (directoryFile w)) (hdr f)"
    and d: "dir_ok d" "length d = 10" "lookup d [46] = Some 1"
  shows "\<exists>w' f'. create_file name n sec d f bm w = Inr (w', f', True) \<and> creation sec h0 (image wa) bm' w w' \<and> root_dir w' = d \<and> sectorNumber (hdr f') = 1"
proof -
  note D = fsys_okD [OF ok]
  have "sd_frame (w\<lparr>clock_reads := clock_reads w\<rparr>) wa" using wa(2) by simp
  note oa = free_change_ok [OF ok wa(3) wa(1) this]
  from complete_header_ok [OF al(5,6) nm fsys_okD(1) [OF oa(1)]] obtain h1 h2 c where h: "set_type name h0 = Inr h1"
    "stamp_all h1 wa = (wa\<lparr>clock_reads := c\<rparr>, h2)" "hdr_ok (h2\<lparr>sectorNumber := sec\<rparr>)"
    "same_layout (h0\<lparr>sectorNumber := sec\<rparr>) (h2\<lparr>sectorNumber := sec\<rparr>)" by blast
  let ?h = "h2\<lparr>sectorNumber := sec\<rparr>" and ?w = "wa\<lparr>clock_reads := c\<rparr>"
  have "sd_ok ?w" using wa(1) by (simp add: sd_ok_def calm_def mach_ok_def clock_ok_def disk_ok_def)
  moreover have "valid_sector sec" using sec by (simp add: valid_sector_def disk_consts)
  ultimately obtain w1 where w1: "WriteBack sec ?h ?w = Inr w1" "sd_ok w1" "image w1 = (image wa)(nat sec := hdr_bytes ?h)" "sd_frame ?w w1"
    using WriteBack_ok [OF _ _ h(3), of ?w sec] by auto
  have "int x \<notin> bm_marked (root_map wa)" if "image w1 x \<noteq> image wa x" for x
    using that w1(3) sec oa(2) by (cases "x = nat sec") auto
  note o1 = free_change_ok [OF oa(1) this w1(2,4)]
  obtain w2 f2 where w2: "Dir_WriteBack d f w1 = Inr (w2, f2)" "fsys_ok w2" "root_map w2 = root_map w1" "root_dir w2 = d"
    "vis_num w2 = vis_num w1" "freeMapFile w2 = freeMapFile w1" "directoryFile w2 = directoryFile w1" "same_file f f2"
    "\<forall>x. x \<noteq> 1 \<and> x \<notin> sectors_of (hdr (directoryFile w1)) \<longrightarrow> image w2 x = image w1 x"
    using Dir_WriteBack_ok [OF o1(1) f(1) _ d] f(2) o1(5) oa(5) by auto
  have marks: "int ` ({0, 1} \<union> sectors_of (hdr (freeMapFile w2)) \<union> sectors_of (hdr (directoryFile w2))) \<subseteq> bm_marked bm'"
    using fsys_okD(5) [OF w2(2)] w2(3) o1(2) oa(2) al(4) by (auto simp: contents_ok_def)
  obtain w3 where w3: "store_map bm' w2 = Inr w3" "fsys_ok w3" "root_map w3 = bm'" "root_dir w3 = root_dir w2" "vis_num w3 = vis_num w2"
    "\<forall>x. x \<noteq> 0 \<and> x \<notin> sectors_of (hdr (freeMapFile w2)) \<longrightarrow> image w3 x = image w2 x"
    "same_layout (hdr (freeMapFile w2)) (hdr (freeMapFile w3))" "directoryFile w3 = directoryFile w2"
    using store_map_ok [OF w2(2) al(2,3) marks] by blast
  have eq: "create_file name n sec d f bm w = Inr (w3, f2, True)"
    using h(1,2) w1(1) w2(1) w3(1) by (simp add: create_file_def al(1) Let_def)
  have out: "image w3 x = image w1 x" if "x \<notin> system_area w" for x
    using that w3(6) w2(6,7,9) o1(4,5) oa(4,5) by (simp add: system_area_def)
  have "nat sec \<notin> system_area w" using system_area_marked [OF ok, of "nat sec"] sec by auto
  then have nf: "bytes_hdr (image w3 (nat sec)) = ?h" using out w1(3) bytes_hdr_bytes [OF h(3)] by simp
  have "creation sec h0 (image wa) bm' w w3"
    using nf h(3,4) w3 w2 o1 oa w1(3) out by (simp add: creation_def)
  moreover have "sectorNumber (hdr f2) = 1" using w2(8) f(2) D(10) by (simp add: same_file_def same_layout_def)
  ultimately show ?thesis using eq w3(4) w2(4) by blast
qed

lemma create_file_ok:
  assumes ok: "fsys_ok w" and sz: "0 < n" "n \<le> 1024" and ns: "ns = divRoundUp n SectorSize"
    and nm: "length (drop (Suc (first_dot name)) name) \<le> 4"
    and bm: "bm_wf bm" "numBits bm = 1024" "bm_marked bm = insert sec (bm_marked (root_map w))"
    and sec: "0 \<le> sec" "sec < 1024" "sec \<notin> bm_marked (root_map w)"
    and run: "\<exists>k. 0 \<le> k \<and> k + ns \<le> 1024 \<and> {k..<k + ns} \<inter> bm_marked bm = {}"
    and f: "file_ok (hdr f)" "same_layout (hdr (directoryFile w)) (hdr f)"
    and d: "dir_ok d" "length d = 10" "lookup d [46] = Some 1"
  shows "\<exists>w' f' h0. create_file name n sec d f bm w = Inr (w', f', True) \<and> creation sec h0 (image w) (root_map w') w w' \<and> root_dir w' = d \<and>
    sectorNumber (hdr f') = 1 \<and> file_ok (h0\<lparr>sectorNumber := sec\<rparr>) \<and> numBytes h0 = n \<and>
    bm_marked (root_map w') = bm_marked (root_map w) \<union> int ` insert (nat sec) (sectors_of h0) \<and>
    int ` sectors_of h0 \<inter> bm_marked bm = {}"
proof -
  note D = fsys_okD [OF ok]
  obtain bm' k where al: "Allocate (fresh_stack w) bm n (new_header w) w = Inr (w, bm', (new_header w)\<lparr>numBytes := n, numSectors := ns,
      dataSectors := map (\<lambda>j. k + int j) [0..<nat ns] @ drop (nat ns) (dataSectors (new_header w))\<rparr>, True)"
    "bm_wf bm'" "numBits bm' = 1024" "0 \<le> k" "k + ns \<le> 1024" "{k..<k + ns} \<inter> bm_marked bm = {}" "bm_marked bm' = bm_marked bm \<union> {k..<k + ns}"
    using Allocate_run_ok [OF bm(1,2) new_header_ok sz ns run] by blast
  define h0 where "h0 = (new_header w)\<lparr>numBytes := n, numSectors := ns,
      dataSectors := map (\<lambda>j. k + int j) [0..<nat ns] @ drop (nat ns) (dataSectors (new_header w))\<rparr>"
  have fh0: "file_ok (h0\<lparr>sectorNumber := sec\<rparr>)"
    using allocated_file_ok [OF new_header_ok sz ns al(4,5) sec(1,2), of w] al(6) bm(3) by (auto simp: h0_def)
  have hh: "hdr_ok h0" using file_okD(1) [OF fh0] new_header_ok [of w] by (simp add: hdr_ok_def h0_def)
  have ns0: "0 \<le> ns" using divRoundUp_bounds [of n 128] sz by (auto simp: ns SectorSize_def)
  have so: "int ` sectors_of h0 = {k..<k + ns}" using sectors_of_run [OF al(4), of h0 ns] ns0 by (simp add: h0_def)
  have sub: "bm_marked (root_map w) \<subseteq> bm_marked bm'" using al(7) bm(3) by auto
  have "sd_ok w" using D(1) by (simp add: fs_ok_def)
  from create_file_with [OF ok nm sec al(1) [folded h0_def] al(2,3) sub file_okD(1) [OF fh0] hh this _ _ f d]
  obtain w' f' where c: "create_file name n sec d f bm w = Inr (w', f', True)" "creation sec h0 (image w) bm' w w'" "root_dir w' = d"
    "sectorNumber (hdr f') = 1" by auto
  moreover from c(2) have "root_map w' = bm'" by (simp add: creation_def)
  moreover have "numBytes h0 = n" by (simp add: h0_def)
  moreover have "bm_marked bm' = bm_marked (root_map w) \<union> int ` insert (nat sec) (sectors_of h0)" using al(7) bm(3) so sec(1) by auto
  ultimately show ?thesis using fh0 al(6) so by (intro exI [of _ w'] exI [of _ f'] exI [of _ h0]) simp
qed

lemma split_plain: "slash \<notin> set name \<Longrightarrow> split_name name = Inr (name, [46])"
  by (simp add: split_name_def absPath_def last_slash_plain)

lemma root_facts:
  assumes "fsys_ok w"
  shows "dir_ok (root_dir w)" "length (root_dir w) = 10" "lookup (root_dir w) [46] = Some 1"
    "bm_wf (root_map w)" "numBits (root_map w) = 1024"
  using fsys_okD [OF assms]
  by (simp_all add: contents_ok_def root_dir_def root_map_def bytes_table_def bm_wf_def divRoundUp_nonneg BitsInWord_def)

text \<open>The common beginning of \<^verbatim>\<open>Create\<close> and \<^verbatim>\<open>Open\<close>: from the root directory's \<open>.\<close> to a second open file of it.\<close>

lemma locate_ok:
  assumes ok: "fsys_ok w" and nm: "plain_name name"
  shows "\<exists>w1 w2 f. fetch_root w = Inr (w1, root_dir w) \<and> Dir_Find [46] (root_dir w) w1 = Inr (w1, 1) \<and>
    open_dir 1 w1 = Inr (w2, f, root_dir w) \<and>
    Dir_Find name (root_dir w) w2 = Inr (w2, case lookup (root_dir w) (take 20 name) of None \<Rightarrow> -1 | Some x \<Rightarrow> x) \<and>
    fsys_ok w2 \<and> kept w w2 \<and> vis_num w2 = (vis_num w)[1 := vis_num w ! 1 + 1] \<and> file_ok (hdr f) \<and>
    same_layout (hdr (directoryFile w2)) (hdr f)"
proof -
  obtain w1 where w1: "fetch_root w = Inr (w1, root_dir w)" "fsys_ok w1" "kept w w1" "vis_num w1 = vis_num w"
    using fetch_root_ok [OF ok] by blast
  have rd: "root_dir w1 = root_dir w" using w1(3) by (simp add: kept_def)
  note R = root_facts [OF ok]
  have "Dir_Find [46] (root_dir w) w1 = Inr (w1, 1)"
    using Dir_Find_plain [OF R(1), of "[46]" w1] R(3) by (simp add: plain_name_def slash_def)
  moreover obtain w2 f where w2: "open_dir 1 w1 = Inr (w2, f, root_dir w)" "fsys_ok w2" "kept w1 w2"
    "vis_num w2 = (vis_num w)[1 := vis_num w ! 1 + 1]" "file_ok (hdr f)" "same_layout (hdr (directoryFile w2)) (hdr f)"
    using open_dir_ok [OF w1(2)] rd w1(4) by auto
  ultimately show ?thesis using w1(1) w2 kept_trans [OF w1(3) w2(3)] Dir_Find_plain [OF R(1) nm, of w2] by blast
qed

lemma OpenFile_delete_ok:
  assumes "sectorNumber (hdr f) = 1" "length (vis_num w) = 1024"
  shows "OpenFile_delete f w = Inr (w\<lparr>vis_num := (vis_num w)[1 := vis_num w ! 1 - 1]\<rparr>)"
  using assms by (simp add: OpenFile_delete_def)

lemma fsys_ok_vis:
  assumes "fsys_ok w" "length v = 1024"
  shows "fsys_ok (w\<lparr>vis_num := v\<rparr>)" "root_map (w\<lparr>vis_num := v\<rparr>) = root_map w" "root_dir (w\<lparr>vis_num := v\<rparr>) = root_dir w"
  using assms by (simp_all add: fsys_ok_def files_ok_def headers_ok_def contents_ok_def root_map_def root_dir_def)

text \<open>Opening and closing the directory leaves its use count as it was.\<close>

lemma vis_back: "length v = (1024 :: nat) \<Longrightarrow> v[1 := v ! 1 + 1, 1 := (v[1 := v ! 1 + (1 :: int)]) ! 1 - 1] = v"
  by simp

lemma run_after_mark:
  fixes k ns sec :: int
  assumes "0 \<le> k" "k + ns + 1 \<le> 1024" "{k..<k + ns + 1} \<inter> m = {}" "{0..<sec} \<subseteq> m" "sec \<notin> m" "0 \<le> sec" "0 \<le> ns"
  shows "\<exists>k. 0 \<le> k \<and> k + ns \<le> 1024 \<and> {k..<k + ns} \<inter> insert sec m = {}"
proof (cases "sec \<in> {k..<k + ns + 1}")
  case True
  have "sec = k"
  proof (rule ccontr)
    assume "sec \<noteq> k"
    then have "k \<in> {0..<sec}" using True assms(1) by auto
    then have "k \<in> m" using assms(4) by blast
    moreover have "k \<in> {k..<k + ns + 1}" using assms(7) by simp
    ultimately show False using assms(3) by blast
  qed
  moreover have "{k + 1..<k + 1 + ns} \<subseteq> {k..<k + ns + 1}" by auto
  then have "{k + 1..<k + 1 + ns} \<inter> m = {}" using assms(3) by blast
  ultimately show ?thesis using assms(1,2) by (intro exI [of _ "k + 1"]) simp
next
  case False
  moreover have "{k..<k + ns} \<subseteq> {k..<k + ns + 1}" by auto
  then have "{k..<k + ns} \<inter> m = {}" using assms(3) by blast
  ultimately show ?thesis using assms(1,2) by (intro exI [of _ k]) auto
qed

text \<open>
  \<^verbatim>\<open>Create\<close> around the allocation: looking up the name, taking a sector for the header, adding the
  directory entry. \<open>A\<close> says what the allocation did.
\<close>

lemma Create_with:
  fixes w :: "'a filesys_sim_scheme"
  assumes ok: "fsys_ok w" and nm: "plain_name name" and n: "0 \<le> n"
    and room: "lookup (root_dir w) (take 20 name) = None" "card (dom (lookup (root_dir w))) < 10"
    and free: "bm_marked (root_map w) \<noteq> {0..<1024}"
    and step: "\<And>(v :: 'a filesys_sim_scheme) bm sec f d. fsys_ok v \<Longrightarrow> root_map v = root_map w \<Longrightarrow> 0 \<le> sec \<Longrightarrow> sec < 1024 \<Longrightarrow> sec \<notin> bm_marked (root_map w) \<Longrightarrow>
       {0..<sec} \<subseteq> bm_marked (root_map w) \<Longrightarrow> bm_wf bm \<Longrightarrow> numBits bm = 1024 \<Longrightarrow> bm_marked bm = insert sec (bm_marked (root_map w)) \<Longrightarrow>
       file_ok (hdr f) \<Longrightarrow> same_layout (hdr (directoryFile v)) (hdr f) \<Longrightarrow> dir_ok d \<Longrightarrow> length d = 10 \<Longrightarrow> lookup d [46] = Some 1 \<Longrightarrow>
       \<exists>v' f' h0 img. create_file name n sec d f bm v = Inr (v', f', True) \<and> creation sec h0 img (root_map v') v v' \<and> root_dir v' = d \<and>
         sectorNumber (hdr f') = 1 \<and> A sec h0 (image v) img (root_map v')"
  shows "\<exists>w' sec h0 img0 img. Create name n w = Inr (w', True) \<and> creation sec h0 img (root_map w') w w' \<and>
    lookup (root_dir w') = (lookup (root_dir w))(take 20 name \<mapsto> sec) \<and>
    A sec h0 img0 img (root_map w') \<and> (\<forall>x. x \<noteq> 0 \<and> x \<noteq> 1 \<longrightarrow> img0 x = image w x) \<and> 2 \<le> sec \<and> sec < 1024 \<and> sec \<notin> bm_marked (root_map w)"
proof -
  obtain w1 w2 f where L: "fetch_root w = Inr (w1, root_dir w)" "Dir_Find [46] (root_dir w) w1 = Inr (w1, 1)"
    "open_dir 1 w1 = Inr (w2, f, root_dir w)" "Dir_Find name (root_dir w) w2 = Inr (w2, case lookup (root_dir w) (take 20 name) of None \<Rightarrow> -1 | Some x \<Rightarrow> x)"
    "fsys_ok w2" "kept w w2" "vis_num w2 = (vis_num w)[1 := vis_num w ! 1 + 1]" "file_ok (hdr f)" "same_layout (hdr (directoryFile w2)) (hdr f)"
    using locate_ok [OF ok nm(1)] by blast
  obtain w3 where w3: "fetch_map w2 = Inr (w3, root_map w2)" "fsys_ok w3" "kept w2 w3" "vis_num w3 = vis_num w2"
    using fetch_map_ok [OF L(5)] by blast
  have k3: "root_map w2 = root_map w" "root_map w3 = root_map w" "root_dir w3 = root_dir w" "same_layout (hdr (directoryFile w3)) (hdr f)"
    using L(6,9) w3(3) by (simp_all add: kept_def same_layout_def)
  note R = root_facts [OF ok]
  obtain bm1 sec where fnd: "BitMap_Find (root_map w) = Inr (bm1, sec)" "0 \<le> sec" "sec < 1024" "sec \<notin> bm_marked (root_map w)"
    "{0..<sec} \<subseteq> bm_marked (root_map w)" "bm_wf bm1" "numBits bm1 = 1024" "bm_marked bm1 = insert sec (bm_marked (root_map w))"
    using BitMap_Find_free [OF R(4)] R(5) free by metis
  have "fits32 sec" using fnd(2,3) by (simp add: fits32_def)
  then obtain d1 where d1: "Add name sec 1 (root_dir w) w3 = Inr (w3, d1, True)" "dir_ok d1" "length d1 = 10"
    "lookup d1 = (lookup (root_dir w))(take 20 name \<mapsto> sec)"
    using Add_plain [OF R(1) nm(1), of sec 1 w3] room R(2) by (auto simp: fits32_def)
  have dot: "lookup d1 [46] = Some 1" using d1(4) R(3) room(1) by auto
  obtain w4 f4 h0 img where c: "create_file name n sec d1 f bm1 w3 = Inr (w4, f4, True)" "creation sec h0 img (root_map w4) w3 w4" "root_dir w4 = d1"
    "sectorNumber (hdr f4) = 1" "A sec h0 (image w3) img (root_map w4)"
    using step [OF w3(2) k3(2) fnd(2-8) L(8) k3(4) d1(2,3) dot] by blast
  note C = c(2) [unfolded creation_def]
  have v: "vis_num w4 = (vis_num w)[1 := vis_num w ! 1 + 1]" using C w3(4) L(7) by simp
  have lv: "length (vis_num w4) = 1024" using fsys_okD(2) C by blast
  let ?w = "w4\<lparr>vis_num := (vis_num w4)[1 := vis_num w4 ! 1 - 1]\<rparr>"
  have vw: "vis_num ?w = vis_num w" using fsys_okD(2) [OF ok] unfolding v by simp
  have eq: "Create name n w = Inr (?w, True)"
    using L(1-4) w3(1) fnd(1,2) d1(1) c(1) n OpenFile_delete_ok [OF c(4) lv] k3(1) room(1)
    by (simp add: Create_def split_plain [OF nm(1) [unfolded plain_name_def, THEN conjunct2]])
  have o: "fsys_ok ?w" "root_map ?w = root_map w4" "root_dir ?w = d1" using fsys_ok_vis [of w4] C lv c(3) by simp_all
  have lay: "same_layout (hdr (freeMapFile w)) (hdr (freeMapFile w3))" "same_layout (hdr (directoryFile w)) (hdr (directoryFile w3))"
    using L(6) w3(3) by (simp_all add: kept_def same_layout_def)
  then have "system_area w3 = system_area w" using sectors_of_layout by (simp add: system_area_def)
  then have "creation sec h0 img (root_map ?w) w ?w"
    using C o(1,2) lay vw unfolding creation_def by (simp add: same_layout_def)
  moreover have "\<forall>x. x \<noteq> 0 \<and> x \<noteq> 1 \<longrightarrow> image w3 x = image w x" using L(6) w3(3) by (simp add: kept_def)
  moreover have "2 \<le> sec"
  proof -
    have "{0, 1} \<subseteq> bm_marked (root_map w)" using fsys_okD(5) [OF ok] by (simp add: contents_ok_def)
    then have "sec \<noteq> 0" "sec \<noteq> 1" using fnd(4) by auto
    then show ?thesis using fnd(2) by linarith
  qed
  ultimately show ?thesis using eq o(2,3) c(5) d1(4) fnd(3,4)
    by (intro exI [of _ ?w] exI [of _ sec] exI [of _ h0] exI [of _ "image w3"] exI [of _ img]) simp
qed

lemma Create_ok:
  assumes ok: "fsys_ok w" and nm: "plain_name name" "length (drop (Suc (first_dot name)) name) \<le> 4"
    and sz: "0 < n" "n \<le> 1024"
    and room: "lookup (root_dir w) (take 20 name) = None" "card (dom (lookup (root_dir w))) < 10"
    and run: "0 \<le> k" "k + divRoundUp n SectorSize + 1 \<le> 1024" "{k..<k + divRoundUp n SectorSize + 1} \<inter> bm_marked (root_map w) = {}"
  shows "\<exists>w' sec h. Create name n w = Inr (w', True) \<and> fsys_ok w' \<and> lookup (root_dir w') = (lookup (root_dir w))(take 20 name \<mapsto> sec) \<and>
    new_file w' sec n h \<and> bm_marked (root_map w') = bm_marked (root_map w) \<union> int ` insert (nat sec) (sectors_of h) \<and>
    int ` insert (nat sec) (sectors_of h) \<inter> bm_marked (root_map w) = {} \<and> vis_num w' = vis_num w \<and> 0 \<le> sec \<and> sec < 1024 \<and>
    same_layout (hdr (freeMapFile w)) (hdr (freeMapFile w')) \<and> same_layout (hdr (directoryFile w)) (hdr (directoryFile w'))"
proof -
  define ns where "ns = divRoundUp n SectorSize"
  have ns0: "0 \<le> ns" using divRoundUp_bounds [of n 128] sz by (auto simp: ns_def SectorSize_def)
  have "k \<in> {k..<k + ns + 1}" "k \<in> {0..<1024}" using ns0 run(1,2) by (auto simp: ns_def)
  then have free: "bm_marked (root_map w) \<noteq> {0..<1024}" using run(3) by (auto simp: ns_def)
  define A where "A = (\<lambda>sec h0 (img0 :: nat \<Rightarrow> sector) (img :: nat \<Rightarrow> sector) bm. file_ok (h0\<lparr>sectorNumber := sec\<rparr>) \<and> numBytes h0 = n \<and>
    bm_marked bm = bm_marked (root_map w) \<union> int ` insert (nat sec) (sectors_of h0) \<and>
    int ` sectors_of h0 \<inter> insert sec (bm_marked (root_map w)) = {})"
  have step: "\<exists>v' f' h0 img. create_file name n sec d f bm v = Inr (v', f', True) \<and> creation sec h0 img (root_map v') v v' \<and> root_dir v' = d \<and>
       sectorNumber (hdr f') = 1 \<and> A sec h0 (image v) img (root_map v')"
    if v: "fsys_ok v" "root_map v = root_map w" "0 \<le> sec" "sec < 1024" "sec \<notin> bm_marked (root_map w)"
      "{0..<sec} \<subseteq> bm_marked (root_map w)" "bm_wf bm" "numBits bm = 1024" "bm_marked bm = insert sec (bm_marked (root_map w))"
      "file_ok (hdr f)" "same_layout (hdr (directoryFile v)) (hdr f)" "dir_ok d" "length d = 10" "lookup d [46] = Some 1" for v bm sec f d
  proof -
    have run1: "\<exists>k. 0 \<le> k \<and> k + ns \<le> 1024 \<and> {k..<k + ns} \<inter> bm_marked bm = {}"
      using run_after_mark [OF run(1), of ns "bm_marked (root_map w)" sec] run(2,3) v ns0 by (simp add: ns_def)
    from create_file_ok [OF v(1) sz ns_def nm(2) v(7,8) _ v(3,4) _ run1 v(10-14)]
    show ?thesis unfolding A_def using v(2,5,9) by (metis (no_types, lifting))
  qed
  obtain w' sec h0 img0 img where c: "Create name n w = Inr (w', True)" "creation sec h0 img (root_map w') w w'"
    "lookup (root_dir w') = (lookup (root_dir w))(take 20 name \<mapsto> sec)" "A sec h0 img0 img (root_map w')" "2 \<le> sec" "sec < 1024"
    "sec \<notin> bm_marked (root_map w)"
    using Create_with [where A = A, OF ok nm(1) less_imp_le [OF sz(1)] room free step] by blast
  note C = c(2) [unfolded creation_def] and A = c(4) [unfolded A_def]
  define h where "h = bytes_hdr (image w' (nat sec))"
  have lay: "same_layout (h0\<lparr>sectorNumber := sec\<rparr>) h" "hdr_ok h" using C by (simp_all add: h_def)
  have so: "sectors_of h = sectors_of h0" using sectors_of_layout [OF lay(1)] by (simp add: sectors_of_def)
  have "file_ok h" using file_ok_layout [OF _ lay] A by blast
  moreover have "sectorNumber h = sec" "numBytes h = n" using lay(1) A by (simp_all add: same_layout_def)
  ultimately have "new_file w' sec n h" using A so by (auto simp: new_file_def h_def)
  moreover have "int ` insert (nat sec) (sectors_of h) \<inter> bm_marked (root_map w) = {}" using A so c(5,7) by auto
  moreover have "0 \<le> sec" using c(5) by simp
  ultimately show ?thesis using c C A so by (intro exI [of _ w'] exI [of _ sec] exI [of _ h]) simp
qed


section \<open>Opening and removing a file\<close>

lemma Open_at:
  assumes ok: "fsys_ok w" and nm: "plain_name name" and sec: "lookup (root_dir w) (take 20 name) = Some sec"
    and f: "bytes_hdr (image w (nat sec)) = h \<and> sectorNumber h = sec" "2 \<le> sec" "sec < 1024"
  shows "\<exists>w'. Open name w = Inr (w', Some \<lparr>hdr = h, seekPosition = 0\<rparr>) \<and> fsys_ok w' \<and> kept w w'"
proof -
  obtain w1 w2 f where L: "fetch_root w = Inr (w1, root_dir w)" "Dir_Find [46] (root_dir w) w1 = Inr (w1, 1)"
    "open_dir 1 w1 = Inr (w2, f, root_dir w)" "Dir_Find name (root_dir w) w2 = Inr (w2, case lookup (root_dir w) (take 20 name) of None \<Rightarrow> -1 | Some x \<Rightarrow> x)"
    "fsys_ok w2" "kept w w2" using locate_ok [OF ok nm(1)] by blast
  note D = fsys_okD [OF L(5)]
  have img: "image w2 (nat sec) = image w (nat sec)" using L(6) f(2) by (auto simp: kept_def)
  have "sd_ok w2" using D(1) by (simp add: fs_ok_def)
  moreover have "valid_sector sec" using f(2,3) by (simp add: valid_sector_def disk_consts)
  ultimately obtain w3 where w3: "FetchFrom sec w2 = Inr (w3, h)" "sd_ok w3" "image w3 = image w2" "sd_frame w2 w3"
    using FetchFrom_ok img f(1) by fastforce
  have v: "vis_num w3 = vis_num w2" "sectorNumber h = sec" using w3(4) f(1) by (simp_all add: sd_frame_def)
  let ?w = "w3\<lparr>vis_num := (vis_num w2)[nat sec := vis_num w2 ! nat sec + 1]\<rparr>"
  have "OpenFile_new sec w2 = Inr (?w, \<lparr>hdr = h, seekPosition = 0\<rparr>)"
    using w3(1) v D(2) f(2,3) by (simp add: OpenFile_new_def)
  then have eq: "Open name w = Inr (?w, Some \<lparr>hdr = h, seekPosition = 0\<rparr>)"
    using L(1-4) sec f(2) by (simp add: Open_def split_plain [OF nm [unfolded plain_name_def, THEN conjunct2]])
  have fr: "freeMapFile w3 = freeMapFile w2" "directoryFile w3 = directoryFile w2" "hostclock w3 = hostclock w2" "fresh_stack w3 = fresh_stack w2"
    using sd_fs_frame [OF w3(4)] more_filesys [of w3 w2] by (simp_all add: fs_frame_def)
  have "fs_ok ?w" using w3(2) D(1) fr by (simp add: fs_ok_def [of w3] fs_ok_def [of w2])
  from fsys_ok_touch [OF L(5) this] have "fsys_ok ?w" "kept w2 ?w"
    using fr w3(3) D(2,4) file_okD(1) [OF D(6)] file_okD(1) [OF D(9)] by (simp_all add: headers_ok_def)
  then show ?thesis using eq kept_trans [OF L(6)] by blast
qed

lemma Open_ok:
  assumes "fsys_ok w" "plain_name name" "lookup (root_dir w) (take 20 name) = Some sec" "new_file w sec n h" "2 \<le> sec" "sec < 1024"
  shows "\<exists>w'. Open name w = Inr (w', Some \<lparr>hdr = h, seekPosition = 0\<rparr>) \<and> fsys_ok w' \<and> kept w w'"
  using assms(4) by (intro Open_at [OF assms(1-3) _ assms(5,6)]) (simp add: new_file_def)

lemma data_sectors_set:
  assumes "file_ok h"
  shows "{dataSectors h ! nat j | j. 0 \<le> j \<and> j < numSectors h} = int ` sectors_of h"
proof -
  have l: "length (take (nat (numSectors h)) (dataSectors h)) = nat (numSectors h)" using file_okD(2,5,6) [OF assms] by simp
  have v: "0 \<le> dataSectors h ! i" if "i < nat (numSectors h)" for i using file_okD(9) [OF assms that] by (simp add: valid_sector_def)
  have "set (take (nat (numSectors h)) (dataSectors h)) = (\<lambda>i. dataSectors h ! i) ` {0..<nat (numSectors h)}"
    using nth_image [of "nat (numSectors h)" "dataSectors h"] l by simp
  then have "int ` sectors_of h = (\<lambda>i. dataSectors h ! i) ` {0..<nat (numSectors h)}"
    using v by (auto simp: sectors_of_def image_image)
  also have "\<dots> = {dataSectors h ! nat j | j. 0 \<le> j \<and> j < numSectors h}"
  proof
    show "(\<lambda>i. dataSectors h ! i) ` {0..<nat (numSectors h)} \<subseteq> {dataSectors h ! nat j | j. 0 \<le> j \<and> j < numSectors h}"
    proof
      fix x assume "x \<in> (\<lambda>i. dataSectors h ! i) ` {0..<nat (numSectors h)}"
      then obtain i where "i < nat (numSectors h)" "x = dataSectors h ! i" by auto
      then show "x \<in> {dataSectors h ! nat j | j. 0 \<le> j \<and> j < numSectors h}" by (intro CollectI exI [of _ "int i"]) simp
    qed
  qed auto
  finally show ?thesis by simp
qed

lemma Deallocate_file_ok:
  assumes h: "file_ok h" and bm: "bm_wf bm" "numBits bm = 1024" and m: "int ` sectors_of h \<subseteq> bm_marked bm"
  shows "\<exists>bm'. Deallocate bm h w = Inr (w, bm') \<and> bm_wf bm' \<and> numBits bm' = 1024 \<and> bm_marked bm' = bm_marked bm - int ` sectors_of h"
proof -
  let ?ds = "dataSectors h"
  have d: "0 \<le> ?ds ! nat j" "?ds ! nat j < 1024" "?ds ! nat j \<in> bm_marked bm" if "0 \<le> j" "j < numSectors h" for j
  proof -
    show "0 \<le> ?ds ! nat j" "?ds ! nat j < 1024" using file_okD(9) [OF h, of "nat j"] that by (auto simp: valid_sector_def disk_consts)
    have "?ds ! nat j \<in> {?ds ! nat j | j. 0 \<le> j \<and> j < numSectors h}" using that by blast
    then show "?ds ! nat j \<in> bm_marked bm" using m data_sectors_set [OF h] by blast
  qed
  have inj: "?ds ! nat j \<noteq> ?ds ! nat k" if "0 \<le> j" "j < k" "k < numSectors h" for j k
    using data_sector_inj [OF h, of "nat j" "nat k"] that by auto
  have "\<exists>fm'. clear_direct ?ds True bm 0 (numSectors h) = Inr fm' \<and> bm_wf fm' \<and> numBits fm' = numBits bm \<and>
     bm_marked fm' = bm_marked bm - {?ds ! nat j | j. 0 \<le> j \<and> j < numSectors h}"
    using bm d inj file_okD(2,6) [OF h] by (intro clear_direct_ok) auto
  then show ?thesis using file_okD(5,6) [OF h] data_sectors_set [OF h] bm(2)
    by (auto simp: Deallocate_def uns_id NumDirect_def)
qed

lemma subset_Diff_disjoint: "A \<subseteq> B \<Longrightarrow> A \<inter> C = {} \<Longrightarrow> A \<subseteq> B - C"
  by blast

lemma Remove_ok:
  assumes ok: "fsys_ok w" and nm: "plain_name name" and sec: "lookup (root_dir w) (take 20 name) = Some sec"
    and f: "new_file w sec n h" "2 \<le> sec" "sec < 1024" and v: "vis_num w ! nat sec = 0"
    and dis: "insert (nat sec) (sectors_of h) \<inter> ({0, 1} \<union> sectors_of (hdr (freeMapFile w)) \<union> sectors_of (hdr (directoryFile w))) = {}"
  shows "\<exists>w'. Remove name w = Inr (w', True) \<and> fsys_ok w' \<and> lookup (root_dir w') = (lookup (root_dir w))(take 20 name := None) \<and>
    bm_marked (root_map w') = bm_marked (root_map w) - int ` insert (nat sec) (sectors_of h)"
proof -
  obtain w1 where w1: "fetch_root w = Inr (w1, root_dir w)" "fsys_ok w1" "kept w w1" "vis_num w1 = vis_num w"
    using fetch_root_ok [OF ok] by blast
  note R = root_facts [OF ok] and D1 = fsys_okD [OF w1(2)]
  have F: "Dir_Find name (root_dir w) w1 = Inr (w1, sec)" using Dir_Find_plain [OF R(1) nm, of w1] sec by simp
  have img: "image w1 (nat sec) = image w (nat sec)" using w1(3) f(2) by (auto simp: kept_def)
  have "sd_ok w1" using D1(1) by (simp add: fs_ok_def)
  moreover have "valid_sector sec" using f(2,3) by (simp add: valid_sector_def disk_consts)
  ultimately obtain w2 where w2: "FetchFrom sec w1 = Inr (w2, h)" "sd_ok w2" "image w2 = image w1" "sd_frame w1 w2"
    using FetchFrom_ok img f(1) by (fastforce simp: new_file_def)
  have fr: "freeMapFile w2 = freeMapFile w1" "directoryFile w2 = directoryFile w1" "hostclock w2 = hostclock w1" "vis_num w2 = vis_num w1"
    "fresh_stack w2 = fresh_stack w1" using sd_fs_frame [OF w2(4)] more_filesys [of w2 w1] by (simp_all add: fs_frame_def)
  have "fs_ok w2" using w2(2) D1(1) fr by (simp add: fs_ok_def)
  from fsys_ok_touch [OF w1(2) this] have o2: "fsys_ok w2" "kept w1 w2"
    using fr w2(3) D1(2,4) file_okD(1) [OF D1(6)] file_okD(1) [OF D1(9)] by (simp_all add: headers_ok_def)
  obtain w3 where w3: "fetch_map w2 = Inr (w3, root_map w2)" "fsys_ok w3" "kept w2 w3" "vis_num w3 = vis_num w2"
    using fetch_map_ok [OF o2(1)] by blast
  have kk: "kept w w3" using kept_trans [OF w1(3) kept_trans [OF o2(2) w3(3)]] .
  have m: "root_map w2 = root_map w" using w1(3) o2(2) by (simp add: kept_def)
  have hh: "file_ok h" "int ` sectors_of h \<subseteq> bm_marked (root_map w)" using f(1) by (auto simp: new_file_def)
  obtain b1 where b1: "Deallocate (root_map w) h w3 = Inr (w3, b1)" "bm_wf b1" "numBits b1 = 1024" "bm_marked b1 = bm_marked (root_map w) - int ` sectors_of h"
    using Deallocate_file_ok [OF hh(1) R(4,5) hh(2)] by blast
  obtain b2 where b2: "BitMap_Clear b1 sec = Inr b2" "bm_wf b2" "numBits b2 = 1024" "bm_marked b2 = bm_marked b1 - {sec}"
    using BitMap_Clear_ok [OF b1(2), of sec] b1(3) f(2,3) by auto
  obtain d' where d': "Dir_Remove name (root_dir w) w3 = Inr (w3, d', True)" "dir_ok d'" "length d' = 10" "lookup d' = (lookup (root_dir w))(take 20 name := None)"
    using Dir_Remove_plain [OF R(1) nm, of w3] sec R(2) by auto
  have dot: "lookup d' [46] = Some 1" using d'(4) R(3) sec f(2) by auto
  have lay: "sectors_of (hdr (freeMapFile w3)) = sectors_of (hdr (freeMapFile w))" "sectors_of (hdr (directoryFile w3)) = sectors_of (hdr (directoryFile w))"
    using kk sectors_of_layout [of "hdr (freeMapFile w)" "hdr (freeMapFile w3)"]
      sectors_of_layout [of "hdr (directoryFile w)" "hdr (directoryFile w3)"] by (simp_all add: kept_def)
  have mk: "bm_marked b2 = bm_marked (root_map w) - int ` insert (nat sec) (sectors_of h)" using b2(4) b1(4) f(2) by auto
  have "int ` ({0, 1} \<union> sectors_of (hdr (freeMapFile w3)) \<union> sectors_of (hdr (directoryFile w3))) \<subseteq> bm_marked b2"
  proof -
    let ?S = "{0, 1} \<union> sectors_of (hdr (freeMapFile w)) \<union> sectors_of (hdr (directoryFile w))"
    have "int ` ?S \<inter> int ` insert (nat sec) (sectors_of h) = {}"
      using dis by (simp only: image_Int [OF inj_of_nat, symmetric] Int_commute [of ?S] image_empty)
    moreover have "int ` ?S \<subseteq> bm_marked (root_map w)" using fsys_okD(5) [OF ok] by (simp add: contents_ok_def)
    ultimately show ?thesis unfolding lay mk by (intro subset_Diff_disjoint)
  qed
  from store_map_ok [OF w3(2) b2(2,3) this] obtain w4 where w4: "store_map b2 w3 = Inr w4" "fsys_ok w4" "root_map w4 = b2"
    "directoryFile w4 = directoryFile w3" by blast
  have f4: "file_ok (hdr (directoryFile w4))" using fsys_okD(9) [OF w4(2)] .
  obtain w5 f5 where w5: "Dir_WriteBack d' (directoryFile w4) w4 = Inr (w5, f5)" "fsys_ok w5" "root_map w5 = root_map w4" "root_dir w5 = d'"
    "directoryFile w5 = directoryFile w4" "file_ok (hdr f5)" "same_file (directoryFile w4) f5"
    using Dir_WriteBack_ok [OF w4(2) f4 same_layout_refl d'(2,3) dot] by blast
  let ?w = "w5\<lparr>directoryFile := f5\<rparr>"
  have D5: "fsys_ok w5" using w5(2) .
  from fsys_ok_touch [OF D5, of ?w] have o5: "fsys_ok ?w" "kept w5 ?w"
    using fsys_okD [OF D5] w5(5-7) file_okD(1) by (simp_all add: headers_ok_def same_file_layout)
  have eq: "Remove name w = Inr (?w, True)"
    using w1(1,4) F w2(1) w3(1) m b1(1) b2(1) d'(1) w4(1) w5(1) v fsys_okD(2) [OF ok] f(2,3)
    by (simp add: Remove_def store_root_def)
  moreover have "root_dir ?w = d'" "root_map ?w = b2" using o5(2) w5(3,4) w4(3) by (simp_all add: kept_def)
  ultimately show ?thesis using o5(1) d'(4) mk by (intro exI [of _ ?w]) simp
qed


section \<open>Formatting\<close>

lemma fits_small: "0 \<le> z \<Longrightarrow> z < 1024 \<Longrightarrow> fits32 z"
  by (simp add: fits32_def)

text \<open>The two headers that formatting writes, and the files they describe.\<close>

lemma format_headers:
  assumes w: "fs_ok w" "length (vis_num w) = 1024"
    and m: "file_ok mh" "sectorNumber mh = 0" and d: "file_ok dh" "sectorNumber dh = 1"
  shows "\<exists>w1 w2 w3 w4. WriteBack 0 mh w = Inr w1 \<and> WriteBack 1 dh w1 = Inr w2 \<and>
     OpenFile_new 0 w2 = Inr (w3, \<lparr>hdr = mh, seekPosition = 0\<rparr>) \<and> OpenFile_new 1 w3 = Inr (w4, \<lparr>hdr = dh, seekPosition = 0\<rparr>) \<and>
     fs_ok w4 \<and> length (vis_num w4) = 1024 \<and> image w4 0 = hdr_bytes mh \<and> image w4 1 = hdr_bytes dh \<and>
     vis_num w4 = (vis_num w)[0 := vis_num w ! 0 + 1, 1 := vis_num w ! 1 + 1]"
proof -
  have v: "valid_sector 0" "valid_sector 1" by (simp_all add: valid_sector_def disk_consts)
  obtain w1 where w1: "WriteBack 0 mh w = Inr w1" "sd_ok w1" "image w1 = (image w)(0 := hdr_bytes mh)" "sd_frame w w1"
    using WriteBack_ok [OF _ v(1) file_okD(1) [OF m(1)], of w] w(1) by (auto simp: fs_ok_def)
  obtain w2 where w2: "WriteBack 1 dh w1 = Inr w2" "sd_ok w2" "image w2 = (image w1)(1 := hdr_bytes dh)" "sd_frame w1 w2"
    using WriteBack_ok [OF w1(2) v(2) file_okD(1) [OF d(1)]] by auto
  obtain w3 where w3: "FetchFrom 0 w2 = Inr (w3, mh)" "sd_ok w3" "image w3 = image w2" "sd_frame w2 w3"
    using FetchFrom_ok [OF w2(2) v(1)] w2(3) w1(3) bytes_hdr_bytes [OF file_okD(1) [OF m(1)]] by auto
  let ?w3 = "w3\<lparr>vis_num := (vis_num w3)[0 := vis_num w3 ! 0 + 1]\<rparr>"
  have f3: "fs_ok ?w3"
    using w(1) w3(2) sd_fs_frame [OF w1(4)] sd_fs_frame [OF w2(4)] sd_fs_frame [OF w3(4)] by (simp add: fs_ok_def [of w3] fs_ok_def [of w] fs_frame_def)
  have l3: "length (vis_num w3) = 1024" using w(2) w1(4) w2(4) w3(4) by (simp add: sd_frame_def)
  have o3: "OpenFile_new 0 w2 = Inr (?w3, \<lparr>hdr = mh, seekPosition = 0\<rparr>)" using w3(1) l3 m(2) by (simp add: OpenFile_new_def)
  obtain w4 where w4: "FetchFrom 1 ?w3 = Inr (w4, dh)" "sd_ok w4" "image w4 = image w2" "sd_frame ?w3 w4"
    using FetchFrom_ok [OF _ v(2), of ?w3] f3 w3(3) w2(3) bytes_hdr_bytes [OF file_okD(1) [OF d(1)]] by (auto simp: fs_ok_def)
  let ?w4 = "w4\<lparr>vis_num := (vis_num w4)[1 := vis_num w4 ! 1 + 1]\<rparr>"
  have f4: "fs_ok ?w4" using f3 w4(2) sd_fs_frame [OF w4(4)] by (simp add: fs_ok_def [of w4] fs_ok_def [of w3] fs_frame_def)
  have l4: "length (vis_num w4) = 1024" using l3 w4(4) by (simp add: sd_frame_def)
  have o4: "OpenFile_new 1 ?w3 = Inr (?w4, \<lparr>hdr = dh, seekPosition = 0\<rparr>)" using w4(1) l4 d(2) by (simp add: OpenFile_new_def)
  have "vis_num w3 = vis_num w" "vis_num w4 = vis_num ?w3" using w1(4) w2(4) w3(4) w4(4) by (simp_all add: sd_frame_def)
  then have "vis_num ?w4 = (vis_num w)[0 := vis_num w ! 0 + 1, 1 := vis_num w ! 1 + 1]" by simp
  then show ?thesis using w(2) w1(1) w2(1) o3 o4 f4 l4 w4(3) w2(3) w1(3)
    by - (rule exI [of _ w1], rule exI [of _ w2], rule exI [of _ ?w3], rule exI [of _ ?w4], simp)
qed

lemma marked_two:
  assumes "bm_wf bm" "numBits bm = 1024" "bm_marked bm = {}"
  shows "\<exists>bm1 bm2. BitMap_Mark bm 0 = Inr bm1 \<and> BitMap_Mark bm1 1 = Inr bm2 \<and> bm_wf bm2 \<and> numBits bm2 = 1024 \<and> bm_marked bm2 = {0, 1}"
proof -
  obtain bm1 where b1: "BitMap_Mark bm 0 = Inr bm1" "bm_wf bm1" "numBits bm1 = 1024" "bm_marked bm1 = {0}"
    using BitMap_Mark_ok [of bm 0] assms by auto
  obtain bm2 where "BitMap_Mark bm1 1 = Inr bm2" "bm_wf bm2" "numBits bm2 = 1024" "bm_marked bm2 = {0, 1}"
    using BitMap_Mark_ok [of bm1 1] b1 by (auto simp: insert_commute)
  with b1(1) show ?thesis by blast
qed

text \<open>Both allocations of the formatter succeed, and the files they describe are disjoint.\<close>

lemma format_allocations:
  assumes bm: "bm_wf bm" "numBits bm = 1024" "bm_marked bm = {0, 1}"
  shows "\<exists>b1 mh b2 dh. Allocate j1 bm 128 (new_header w) w = Inr (w, b1, mh, True) \<and> Allocate j2 b1 360 (new_header w) w = Inr (w, b2, dh, True) \<and>
    file_ok (mh\<lparr>sectorNumber := 0\<rparr>) \<and> numBytes mh = 128 \<and> file_ok (dh\<lparr>sectorNumber := 1\<rparr>) \<and> numBytes dh = 360 \<and>
    bm_wf b2 \<and> numBits b2 = 1024 \<and> bm_marked b2 = {0, 1} \<union> int ` sectors_of mh \<union> int ` sectors_of dh \<and>
    int ` sectors_of mh \<inter> int ` sectors_of dh = {} \<and> {0, 1} \<inter> (int ` sectors_of mh \<union> int ` sectors_of dh) = {} \<and>
    (\<exists>k k'. int ` sectors_of mh = {k} \<and> int ` sectors_of dh = {k'..<k' + 3})"
proof -
  have ns: "divRoundUp 128 SectorSize = 1" "divRoundUp 360 SectorSize = 3" by (simp_all add: divRoundUp_nonneg SectorSize_def)
  let ?h = "new_header w"
  have z: "(0 :: int) < 128" "(128 :: int) \<le> 1024" "(0 :: int) < 360" "(360 :: int) \<le> 1024" by simp_all
  have r1: "\<exists>k. 0 \<le> k \<and> k + 1 \<le> 1024 \<and> {k..<k + 1} \<inter> bm_marked bm = {}" using bm(3) by (intro exI [of _ 2]) auto
  obtain b1 k where a1: "Allocate j1 bm 128 ?h w = Inr (w, b1, ?h\<lparr>numBytes := 128, numSectors := 1,
      dataSectors := map (\<lambda>j. k + int j) [0..<nat 1] @ drop (nat 1) (dataSectors ?h)\<rparr>, True)" "bm_wf b1" "numBits b1 = 1024"
    "0 \<le> k" "k + 1 \<le> 1024" "{k..<k + 1} \<inter> {0, 1} = {}" "bm_marked b1 = {0, 1} \<union> {k..<k + 1}"
    using Allocate_run_ok [OF bm(1,2) new_header_ok z(1,2) ns(1) [symmetric] r1, unfolded bm(3)] by blast
  have "{10..<13} \<inter> bm_marked b1 = {} \<or> {20..<23} \<inter> bm_marked b1 = {}" using a1(7) by auto
  then have r2: "\<exists>i. 0 \<le> i \<and> i + 3 \<le> 1024 \<and> {i..<i + 3} \<inter> bm_marked b1 = {}"
    by (elim disjE) (rule exI [of _ 10], simp, rule exI [of _ 20], simp)
  obtain b2 k' where a2: "Allocate j2 b1 360 ?h w = Inr (w, b2, ?h\<lparr>numBytes := 360, numSectors := 3,
      dataSectors := map (\<lambda>j. k' + int j) [0..<nat 3] @ drop (nat 3) (dataSectors ?h)\<rparr>, True)" "bm_wf b2" "numBits b2 = 1024"
    "0 \<le> k'" "k' + 3 \<le> 1024" "{k'..<k' + 3} \<inter> bm_marked b1 = {}" "bm_marked b2 = bm_marked b1 \<union> {k'..<k' + 3}"
    using Allocate_run_ok [OF a1(2,3) new_header_ok z(3,4) ns(2) [symmetric] r2] by blast
  define mh where "mh = ?h\<lparr>numBytes := 128, numSectors := 1, dataSectors := map (\<lambda>j. k + int j) [0..<nat 1] @ drop (nat 1) (dataSectors ?h)\<rparr>"
  define dh where "dh = ?h\<lparr>numBytes := 360, numSectors := 3, dataSectors := map (\<lambda>j. k' + int j) [0..<nat 3] @ drop (nat 3) (dataSectors ?h)\<rparr>"
  have s: "int ` sectors_of mh = {k..<k + 1}" "int ` sectors_of dh = {k'..<k' + 3}"
    using sectors_of_run [OF a1(4), of mh 1] sectors_of_run [OF a2(4), of dh 3] by (simp_all add: mh_def dh_def)
  have "file_ok (mh\<lparr>sectorNumber := 0\<rparr>)"
    using allocated_file_ok [OF new_header_ok z(1,2) ns(1) [symmetric] a1(4,5), of 0 w] a1(6) by (auto simp: mh_def)
  moreover have "file_ok (dh\<lparr>sectorNumber := 1\<rparr>)"
    using allocated_file_ok [OF new_header_ok z(3,4) ns(2) [symmetric] a2(4,5), of 1 w] a2(6) a1(7) by (auto simp: dh_def)
  moreover have "{k..<k + 1} = {k}" by auto
  then have "\<exists>k k'. int ` sectors_of mh = {k} \<and> int ` sectors_of dh = {k'..<k' + 3}" using s by blast
  moreover have "bm_marked b2 = {0, 1} \<union> int ` sectors_of mh \<union> int ` sectors_of dh" unfolding s a2(7) a1(7) ..
  moreover have "int ` sectors_of mh \<inter> int ` sectors_of dh = {}" "{0, 1} \<inter> (int ` sectors_of mh \<union> int ` sectors_of dh) = {}"
    using a1(6) a2(6) unfolding s a1(7) by blast+
  moreover have "numBytes mh = 128" "numBytes dh = 360" by (simp_all add: mh_def dh_def)
  ultimately show ?thesis using a1(1) [folded mh_def] a2(1) [folded dh_def] a2(2,3) by blast
qed

lemma format_ok:
  assumes w: "fs_ok w" "length (vis_num w) = 1024"
  shows "\<exists>w'. FileSystem_format w = Inr w' \<and> fsys_ok w' \<and> lookup (root_dir w') = [[46, 46] \<mapsto> 1, [46] \<mapsto> 1] \<and>
    (\<exists>k k'. bm_marked (root_map w') = {0, 1, k} \<union> {k'..<k' + 3}) \<and>
    vis_num w' = (vis_num w)[0 := vis_num w ! 0 + 1, 1 := vis_num w ! 1 + 1]"
proof -
  obtain bm0 where b0: "new_map = Inr bm0" "bm_wf bm0" "numBits bm0 = 1024" "bm_marked bm0 = {}" using new_map_ok by blast
  obtain bm1 bm2 where b2: "BitMap_Mark bm0 0 = Inr bm1" "BitMap_Mark bm1 1 = Inr bm2" "bm_wf bm2" "numBits bm2 = 1024" "bm_marked bm2 = {0, 1}"
    using marked_two [OF b0(2-4)] by blast
  obtain d where d: "Directory_new NumDirEntries w = Inr d" "length d = 10" "dir_ok d" "lookup d = [[46, 46] \<mapsto> 1, [46] \<mapsto> 1]"
    using Directory_new_ok by blast
  obtain b3 mh b4 dh where a: "Allocate (fresh_stack w) bm2 128 (new_header w) w = Inr (w, b3, mh, True)"
    "Allocate (fresh_stack w) b3 360 (new_header w) w = Inr (w, b4, dh, True)"
    "file_ok (mh\<lparr>sectorNumber := 0\<rparr>)" "numBytes mh = 128" "file_ok (dh\<lparr>sectorNumber := 1\<rparr>)" "numBytes dh = 360"
    "bm_wf b4" "numBits b4 = 1024" "bm_marked b4 = {0, 1} \<union> int ` sectors_of mh \<union> int ` sectors_of dh"
    "int ` sectors_of mh \<inter> int ` sectors_of dh = {}" "{0, 1} \<inter> (int ` sectors_of mh \<union> int ` sectors_of dh) = {}"
    "\<exists>k k'. int ` sectors_of mh = {k} \<and> int ` sectors_of dh = {k'..<k' + 3}"
    using format_allocations [OF b2(3-5), of "fresh_stack w" w "fresh_stack w"]
    by (elim exE [where Q = thesis] conjE) (rule that; (assumption | blast))
  let ?mh = "mh\<lparr>sectorNumber := 0\<rparr>" and ?dh = "dh\<lparr>sectorNumber := 1\<rparr>"
  obtain w1 w2 w3 w4 where h: "WriteBack 0 ?mh w = Inr w1" "WriteBack 1 ?dh w1 = Inr w2"
    "OpenFile_new 0 w2 = Inr (w3, \<lparr>hdr = ?mh, seekPosition = 0\<rparr>)" "OpenFile_new 1 w3 = Inr (w4, \<lparr>hdr = ?dh, seekPosition = 0\<rparr>)"
    "fs_ok w4" "length (vis_num w4) = 1024" "image w4 0 = hdr_bytes ?mh" "image w4 1 = hdr_bytes ?dh"
    "vis_num w4 = (vis_num w)[0 := vis_num w ! 0 + 1, 1 := vis_num w ! 1 + 1]"
    using format_headers [OF w a(3) _ a(5)] by auto
  let ?w = "w4\<lparr>freeMapFile := \<lparr>hdr = ?mh, seekPosition = 0\<rparr>, directoryFile := \<lparr>hdr = ?dh, seekPosition = 0\<rparr>\<rparr>"
  have so: "sectors_of ?mh = sectors_of mh" "sectors_of ?dh = sectors_of dh" by (simp_all add: sectors_of_def)
  have nat_dis: "sectors_of mh \<inter> sectors_of dh = {}" "1 \<notin> sectors_of mh" "0 \<notin> sectors_of dh"
    using a(10,11) by (auto simp: image_iff)
  have "base_ok ?w" using h(5-8) a(3-6) so nat_dis bytes_hdr_bytes [OF file_okD(1) [OF a(3)]] bytes_hdr_bytes [OF file_okD(1) [OF a(5)]]
    by (simp add: base_ok_def files_ok_def headers_ok_def)
  from store_map_base [OF this a(7,8)] obtain w5 where w5: "store_map b4 ?w = Inr w5" "base_ok w5" "root_map w5 = b4"
    "same_layout ?mh (hdr (freeMapFile w5))" "directoryFile w5 = \<lparr>hdr = ?dh, seekPosition = 0\<rparr>" "vis_num w5 = vis_num w4" by auto
  note D5 = base_okD [OF w5(2)]
  obtain w6 f6 where w6: "Dir_WriteBack d (directoryFile w5) w5 = Inr (w6, f6)" "base_ok w6" "root_map w6 = b4" "root_dir w6 = d"
    "freeMapFile w6 = freeMapFile w5" "directoryFile w6 = directoryFile w5" "file_ok (hdr f6)" "same_file (directoryFile w5) f6" "vis_num w6 = vis_num w5"
    using Dir_WriteBack_base [OF w5(2) D5(8) same_layout_refl d(3,2)] w5(3) by auto
  have "contents_ok w6"
    using a(9) w6(3-6) w5(4,5) d so sectors_of_layout [OF w5(4)] by (auto simp: contents_ok_def)
  then have o6: "fsys_ok w6" using w6(2) by (simp add: fsys_ok_base)
  from fsys_ok_touch [OF o6, of "w6\<lparr>directoryFile := f6\<rparr>"] have o7: "fsys_ok (w6\<lparr>directoryFile := f6\<rparr>)" "kept w6 (w6\<lparr>directoryFile := f6\<rparr>)"
    using fsys_okD [OF o6] w6(6-8) file_okD(1) by (simp_all add: headers_ok_def same_file_layout)
  have sizes: "FreeMapSector = 0" "DirectorySector = 1" "FreeMapFileSize = 128" "DirectoryFileSize = 360"
    by (simp_all add: FreeMapSector_def DirectorySector_def FreeMapFileSize_def DirectoryFileSize_def disk_consts BitsInByte_def NumDirEntries_def)
  have "FileSystem_format w = Inr (w6\<lparr>directoryFile := f6\<rparr>)"
    using b2(1,2) d(1) a(1,2) h(1-4) w5(1) w6(1) by (simp add: FileSystem_format_def b0(1) sizes store_root_def)
  moreover obtain k k' where "int ` sectors_of mh = {k}" "int ` sectors_of dh = {k'..<k' + 3}" using a(12) by blast
  then have "bm_marked b4 = {0, 1, k} \<union> {k'..<k' + 3}" using a(9) by auto
  ultimately show ?thesis using o7 w6(3,4,9) d(4) h(9) w5(6) by (intro exI [of _ "w6\<lparr>directoryFile := f6\<rparr>"]) (auto simp: kept_def)
qed


section \<open>Properties of the file system\<close>

text \<open>
  (C21) Formatting a disk establishes the file system's invariant, from any state in which the disk is idle
  and whatever the disk and fresh memory hold: the headers of the free map and the root directory are
  in sectors 0 and 1 and agree with the open files, both files have their own sectors, the free map
  marks exactly six sectors (the two headers, one of the map, three of the directory), and the root
  directory holds only \<open>.\<close> and \<open>..\<close>.
\<close>

theorem format_establishes_invariant:
  assumes "fs_ok w" "length (vis_num w) = 1024"
  shows "\<exists>w'. FileSystem_new True w = Inr w' \<and> fsys_ok w' \<and> lookup (root_dir w') = [[46, 46] \<mapsto> 1, [46] \<mapsto> 1] \<and>
    (\<exists>k k'. bm_marked (root_map w') = {0, 1, k} \<union> {k'..<k' + 3})"
  using format_ok [OF assms] by (auto simp: FileSystem_new_def)

definition fresh_disk :: filesys_sim where
  "fresh_disk = fs_sim.extend fresh_fs (filesys_sim.fields sample_file sample_file)"

lemma fresh_disk_ok: "fs_ok fresh_disk" "length (vis_num fresh_disk) = 1024"
  by (simp_all add: fresh_disk_def fs_sim.defs filesys_sim.defs fs_ok_def sd_ok_def fresh_fs_def synch_sim.defs fresh_synch_def
      calm_def Interrupt_new_def Statistics_new_def mach_ok_def clock_ok_def disk_ok_def disk_consts cache_ok_def zero_sector_def)

theorem format_establishes_invariant_witness:
  "\<exists>w'. FileSystem_new True fresh_disk = Inr w' \<and> fsys_ok w' \<and> lookup (root_dir w') [46] = Some 1"
  using format_establishes_invariant [OF fresh_disk_ok] by auto

text \<open>A freshly formatted disk has room.\<close>

lemma formatted_room:
  fixes k k' :: int
  shows "\<exists>j. 0 \<le> j \<and> j + 2 + 1 \<le> 1024 \<and> {j..<j + 2 + 1} \<inter> ({0, 1, k} \<union> {k'..<k' + 3}) = {}"
proof -
  have "{100..<103} \<inter> ({0, 1, k} \<union> {k'..<k' + 3}) = {} \<or> {200..<203} \<inter> ({0, 1, k} \<union> {k'..<k' + 3}) = {} \<or>
    {300..<303} \<inter> ({0, 1, k} \<union> {k'..<k' + 3}) = ({} :: int set)" by auto
  then consider "{100..<103} \<inter> ({0, 1, k} \<union> {k'..<k' + 3}) = {}" | "{200..<203} \<inter> ({0, 1, k} \<union> {k'..<k' + 3}) = {}" |
    "{300..<303} \<inter> ({0, 1, k} \<union> {k'..<k' + 3}) = {}" by blast
  then show ?thesis
  proof cases
    case 1
    then show ?thesis by (intro exI [of _ 100]) simp
  next
    case 2
    then show ?thesis by (intro exI [of _ 200]) simp
  next
    case 3
    then show ?thesis by (intro exI [of _ 300]) simp
  qed
qed

text \<open>A formatted disk, with the facts that the examples use.\<close>

lemma formatted:
  "\<exists>w j. FileSystem_new True fresh_disk = Inr w \<and> fsys_ok w \<and> lookup (root_dir w) [97] = None \<and> card (dom (lookup (root_dir w))) < 10 \<and>
    0 \<le> j \<and> j + divRoundUp 200 SectorSize + 1 \<le> 1024 \<and> {j..<j + divRoundUp 200 SectorSize + 1} \<inter> bm_marked (root_map w) = {} \<and>
    (\<forall>x < 1024. int x \<notin> bm_marked (root_map w) \<longrightarrow> vis_num w ! x = 0)"
proof -
  obtain w k k' where w: "FileSystem_format fresh_disk = Inr w" "fsys_ok w" "lookup (root_dir w) = [[46, 46] \<mapsto> 1, [46] \<mapsto> 1]"
    "bm_marked (root_map w) = {0, 1, k} \<union> {k'..<k' + 3}"
    "vis_num w = (vis_num fresh_disk)[0 := vis_num fresh_disk ! 0 + 1, 1 := vis_num fresh_disk ! 1 + 1]"
    using format_ok [OF fresh_disk_ok] by blast
  have "vis_num fresh_disk = replicate 1024 0"
    by (simp add: fresh_disk_def fs_sim.defs filesys_sim.defs fresh_fs_def synch_sim.defs fresh_synch_def)
  then have v: "\<forall>x < 1024. int x \<notin> bm_marked (root_map w) \<longrightarrow> vis_num w ! x = 0"
    unfolding w(4,5) by (auto simp: nth_list_update)
  have "divRoundUp 200 SectorSize = 2" by (simp add: divRoundUp_nonneg SectorSize_def)
  moreover obtain j where "0 \<le> j" "j + 2 + 1 \<le> 1024" "{j..<j + 2 + 1} \<inter> bm_marked (root_map w) = {}"
    using formatted_room [of k k'] unfolding w(4) by blast
  moreover have "card (dom (lookup (root_dir w))) \<le> 2" unfolding w(3) by (simp add: card_insert_if)
  ultimately show ?thesis using w(1-3) v by (intro exI [of _ w] exI [of _ j]) (simp add: FileSystem_new_def)
qed

text \<open>
  (C11) A created file can be opened. In a well-formed file system, creating a file of 1 to 1024 bytes under
  a name that is not in the root directory (at most four letters after its first dot, no slash)
  succeeds when the directory has a free entry and a run of enough free sectors exists; opening that
  name then returns a file of exactly that length whose sectors were all free before and are marked
  now, all other names still lead where they led, and the invariant holds throughout.
\<close>

theorem Create_then_Open:
  assumes "fsys_ok w" "plain_name name" "length (drop (Suc (first_dot name)) name) \<le> 4" "0 < n" "n \<le> 1024"
    and "lookup (root_dir w) (take 20 name) = None" "card (dom (lookup (root_dir w))) < 10"
    and "0 \<le> k" "k + divRoundUp n SectorSize + 1 \<le> 1024" "{k..<k + divRoundUp n SectorSize + 1} \<inter> bm_marked (root_map w) = {}"
  shows "\<exists>w1 w2 sec f. Create name n w = Inr (w1, True) \<and> Open name w1 = Inr (w2, Some f) \<and> fsys_ok w1 \<and> fsys_ok w2 \<and>
    file_ok (hdr f) \<and> Length f = n \<and> sectorNumber (hdr f) = sec \<and>
    lookup (root_dir w2) = (lookup (root_dir w))(take 20 name \<mapsto> sec) \<and>
    int ` insert (nat sec) (sectors_of (hdr f)) \<inter> bm_marked (root_map w) = {} \<and>
    bm_marked (root_map w2) = bm_marked (root_map w) \<union> int ` insert (nat sec) (sectors_of (hdr f))"
proof -
  obtain w1 sec h where c: "Create name n w = Inr (w1, True)" "fsys_ok w1" "lookup (root_dir w1) = (lookup (root_dir w))(take 20 name \<mapsto> sec)"
    "new_file w1 sec n h" "bm_marked (root_map w1) = bm_marked (root_map w) \<union> int ` insert (nat sec) (sectors_of h)"
    "int ` insert (nat sec) (sectors_of h) \<inter> bm_marked (root_map w) = {}" "0 \<le> sec" "sec < 1024"
    using Create_ok [OF assms] by blast
  have "{0, 1} \<subseteq> bm_marked (root_map w)" using fsys_okD(5) [OF assms(1)] by (simp add: contents_ok_def)
  then have "sec \<noteq> 0" "sec \<noteq> 1" using c(6,7) by auto
  then have s2: "2 \<le> sec" using c(7) by linarith
  have lk: "lookup (root_dir w1) (take 20 name) = Some sec" using c(3) by simp
  obtain w2 where o: "Open name w1 = Inr (w2, Some \<lparr>hdr = h, seekPosition = 0\<rparr>)" "fsys_ok w2" "kept w1 w2"
    using Open_ok [OF c(2) assms(2) lk c(4) s2 c(8)] by blast
  have "root_dir w2 = root_dir w1" "root_map w2 = root_map w1" using o(3) by (simp_all add: kept_def)
  then show ?thesis using c o(1,2)
    by (intro exI [of _ w1] exI [of _ w2] exI [of _ sec] exI [of _ "\<lparr>hdr = h, seekPosition = 0\<rparr>"])
      (simp add: new_file_def Length_def FileLength_def)
qed

theorem Create_then_Open_witness:
  "\<exists>w0 w1 w2 f. FileSystem_new True fresh_disk = Inr w0 \<and> Create [97] 200 w0 = Inr (w1, True) \<and> Open [97] w1 = Inr (w2, Some f) \<and> Length f = 200"
proof -
  obtain w j where w: "FileSystem_new True fresh_disk = Inr w" "fsys_ok w" "lookup (root_dir w) [97] = None" "card (dom (lookup (root_dir w))) < 10"
    "0 \<le> j" "j + divRoundUp 200 SectorSize + 1 \<le> 1024" "{j..<j + divRoundUp 200 SectorSize + 1} \<inter> bm_marked (root_map w) = {}"
    using formatted by blast
  show ?thesis using Create_then_Open [OF w(2), of "[97]" 200 j] w by (auto simp: plain_name_def slash_def)
qed


text \<open>
  (C12) \<^verbatim>\<open>Remove\<close> undoes \<^verbatim>\<open>Create\<close>: after a file of 1 to 1024 bytes has been created under a new plain name, and
  with nobody holding the new header's sector open, removing that name succeeds and gives back exactly
  what the creation took: the free map marks the sectors it marked before, the root directory maps the
  names it mapped before, and the invariant holds.
\<close>

theorem Remove_undoes_Create:
  assumes "fsys_ok w" "plain_name name" "length (drop (Suc (first_dot name)) name) \<le> 4" "0 < n" "n \<le> 1024"
    and "lookup (root_dir w) (take 20 name) = None" "card (dom (lookup (root_dir w))) < 10"
    and "0 \<le> k" "k + divRoundUp n SectorSize + 1 \<le> 1024" "{k..<k + divRoundUp n SectorSize + 1} \<inter> bm_marked (root_map w) = {}"
    and vis: "\<forall>x < 1024. int x \<notin> bm_marked (root_map w) \<longrightarrow> vis_num w ! x = 0"
  shows "\<exists>w1 w2. Create name n w = Inr (w1, True) \<and> Remove name w1 = Inr (w2, True) \<and> fsys_ok w2 \<and>
    lookup (root_dir w2) = lookup (root_dir w) \<and> bm_marked (root_map w2) = bm_marked (root_map w)"
proof -
  obtain w1 sec h where c: "Create name n w = Inr (w1, True)" "fsys_ok w1" "lookup (root_dir w1) = (lookup (root_dir w))(take 20 name \<mapsto> sec)"
    "new_file w1 sec n h" "bm_marked (root_map w1) = bm_marked (root_map w) \<union> int ` insert (nat sec) (sectors_of h)"
    "int ` insert (nat sec) (sectors_of h) \<inter> bm_marked (root_map w) = {}" "vis_num w1 = vis_num w" "0 \<le> sec" "sec < 1024"
    "same_layout (hdr (freeMapFile w)) (hdr (freeMapFile w1))" "same_layout (hdr (directoryFile w)) (hdr (directoryFile w1))"
    using Create_ok [OF assms(1-10)] by blast
  let ?S = "{0, 1} \<union> sectors_of (hdr (freeMapFile w)) \<union> sectors_of (hdr (directoryFile w))"
  have sys: "int ` ?S \<subseteq> bm_marked (root_map w)" using fsys_okD(5) [OF assms(1)] by (simp add: contents_ok_def)
  have "int ` insert (nat sec) (sectors_of h) \<inter> int ` ?S = {}" using sys c(6) by blast
  then have dis: "insert (nat sec) (sectors_of h) \<inter> ?S = {}"
    by (simp only: image_Int [OF inj_of_nat, symmetric] image_is_empty)
  have "{0, 1} \<subseteq> bm_marked (root_map w)" using sys by simp
  then have "sec \<noteq> 0" "sec \<noteq> 1" using c(6,8) by auto
  then have s2: "2 \<le> sec" using c(8) by linarith
  have v: "vis_num w1 ! nat sec = 0" using vis c(6-9) by auto
  have lk: "lookup (root_dir w1) (take 20 name) = Some sec" using c(3) by simp
  obtain w2 where r: "Remove name w1 = Inr (w2, True)" "fsys_ok w2" "lookup (root_dir w2) = (lookup (root_dir w1))(take 20 name := None)"
    "bm_marked (root_map w2) = bm_marked (root_map w1) - int ` insert (nat sec) (sectors_of h)"
    using Remove_ok [OF c(2) assms(2) lk c(4) s2 c(9) v] dis unfolding sectors_of_layout [OF c(10)] sectors_of_layout [OF c(11)] by blast
  have "lookup (root_dir w2) = lookup (root_dir w)" using r(3) c(3) assms(6) by (simp add: fun_upd_idem)
  moreover have "bm_marked (root_map w2) = bm_marked (root_map w)" using r(4) c(5,6) by blast
  ultimately show ?thesis using c(1) r(1,2) by blast
qed


theorem Remove_undoes_Create_witness:
  "\<exists>w0 w1 w2. FileSystem_new True fresh_disk = Inr w0 \<and> Create [97] 200 w0 = Inr (w1, True) \<and> Remove [97] w1 = Inr (w2, True) \<and>
     bm_marked (root_map w2) = bm_marked (root_map w0)"
proof -
  obtain w j where w: "FileSystem_new True fresh_disk = Inr w" "fsys_ok w" "lookup (root_dir w) [97] = None" "card (dom (lookup (root_dir w))) < 10"
    "0 \<le> j" "j + divRoundUp 200 SectorSize + 1 \<le> 1024" "{j..<j + divRoundUp 200 SectorSize + 1} \<inter> bm_marked (root_map w) = {}"
    "\<forall>x < 1024. int x \<notin> bm_marked (root_map w) \<longrightarrow> vis_num w ! x = 0"
    using formatted by blast
  show ?thesis using Remove_undoes_Create [OF w(2), of "[97]" 200 j] w by (auto simp: plain_name_def slash_def)
qed

end
