(* ===== verification/Nachos_Frame.thy ===== *)
theory Nachos_Frame
  imports Nachos_FileSys Nachos_Mips_Safety
begin

text \<open>
  What the file system does to the user-level machine. Every file operation may wait for the disk, and
  an interrupt completes the delayed load of the interrupted program; that is the only way these
  operations reach the machine. So a property of machines that completing a load keeps is kept by all
  of them, whatever else they do. The contract is the locale \<open>load_stable\<close>; its instances are the
  well-formedness of the machine and, when no load is pending, its whole contents.
\<close>

section \<open>Predicates on results\<close>

definition returns :: "('a \<Rightarrow> bool) \<Rightarrow> 'a result \<Rightarrow> bool" where
  "returns P r \<longleftrightarrow> (\<forall>x. r = Inr x \<longrightarrow> P x)"

lemma returns_simps [simp]: "returns P (Inl e)" "returns P (Inr x) = P x"
  by (simp_all add: returns_def)

lemma returnsD: "returns P r \<Longrightarrow> r = Inr x \<Longrightarrow> P x"
  by (simp add: returns_def)

lemma returns_bind: "returns P r \<Longrightarrow> (\<And>x. P x \<Longrightarrow> returns Q (f x)) \<Longrightarrow> returns Q (bindr r f)"
  by (cases r) auto

lemma returns_pure: "(\<And>x. returns Q (f x)) \<Longrightarrow> returns Q (bindr r f)"
  by (cases r) auto

lemma returns_split:
  "returns Q (case x of (a, b) \<Rightarrow> f a b) = (\<forall>a b. x = (a, b) \<longrightarrow> returns Q (f a b))"
  "returns Q (if c then r1 else r2) = ((c \<longrightarrow> returns Q r1) \<and> (\<not> c \<longrightarrow> returns Q r2))"
  "returns Q (case y of None \<Rightarrow> r1 | Some z \<Rightarrow> g z) = ((y = None \<longrightarrow> returns Q r1) \<and> (\<forall>z. y = Some z \<longrightarrow> returns Q (g z)))"
  by (auto split: prod.split option.split)

text \<open>The steps that do not touch the state.\<close>

lemmas pure_steps =
  returns_pure [where r = "ASSERT b" for b] returns_pure [where r = "arr_get xs k" for xs k]
  returns_pure [where r = "arr_set xs k v" for xs k v] returns_pure [where r = "slice b o' n" for b o' n]
  returns_pure [where r = "patch b o' n" for b o' n] returns_pure [where r = "index_entry b i" for b i]
  returns_pure [where r = "BitMap_Find b" for b] returns_pure [where r = "BitMap_new m n" for m n]
  returns_pure [where r = "BitMap_NumClear b" for b] returns_pure [where r = "BitMap_myFind b n" for b n]
  returns_pure [where r = "fill_run a b i n" for a b i n] returns_pure [where r = "fill_find a b i n" for a b i n]
  returns_pure [where r = "Extend b n h" for b n h] returns_pure [where r = new_map]
  returns_pure [where r = "Directory_new n w" for n w] returns_pure [where r = "Directory_new3 n a b w" for n a b w]
  returns_pure [where r = "strncpy a b n" for a b n] returns_pure [where r = "find_name d b i" for d b i]
  returns_pure [where r = "find_subdir d b i j" for d b i j] returns_pure [where r = "add_entry d n s t" for d n s t]
  returns_pure [where r = "split_name n" for n] returns_pure [where r = "set_type n h" for n h]

section \<open>Properties that completing a load keeps\<close>

locale load_stable =
  fixes M :: "machine \<Rightarrow> bool"
  assumes stable: "M m \<Longrightarrow> DelayedLoad 0 0 m = Inr m' \<Longrightarrow> M m'"
begin

abbreviation (input) ok1 :: "'a sim_scheme \<Rightarrow> bool" where "ok1 s \<equiv> M (mach s)"
abbreviation (input) ok2 :: "'a sim_scheme \<times> 'b \<Rightarrow> bool" where "ok2 p \<equiv> M (mach (fst p))"

definition kept_by :: "('a sim_scheme \<Rightarrow> 'a sim_scheme result) \<Rightarrow> bool" where
  "kept_by f \<longleftrightarrow> (\<forall>s. M (mach s) \<longrightarrow> returns ok1 (f s))"

lemma complete_load_stable: "M (mach s) \<Longrightarrow> returns ok1 (complete_load s)"
  unfolding complete_load_def by (cases "DelayedLoad 0 0 (mach s)") (auto dest: stable)

lemma fire_stable: "(\<And>h a. kept_by (H h a)) \<Longrightarrow> M (mach s) \<Longrightarrow> returns ok1 (fire H t s)"
  unfolding fire_def
  by (rule returns_bind [OF complete_load_stable], assumption, rule returns_bind [where P = ok1])
     (simp_all add: kept_by_def)

lemma CheckIfDue_stable: "(\<And>h a. kept_by (H h a)) \<Longrightarrow> M (mach s) \<Longrightarrow> returns ok2 (CheckIfDue H adv s)"
  unfolding CheckIfDue_def Let_def
  by (rule returns_pure) (auto simp: returns_split split: prod.split option.split intro!: returns_bind [OF fire_stable])

lemma due_loop_stable:
  assumes "\<And>h a. kept_by (H h a)"
  shows "M (mach s) \<Longrightarrow> returns ok1 (due_loop H n s)"
proof (induction n arbitrary: s)
  case (Suc n)
  show ?case unfolding due_loop.simps
    by (rule returns_bind [OF CheckIfDue_stable [OF assms Suc.prems]]) (auto simp: returns_split intro: Suc.IH)
qed simp

lemma tick_and_fire_stable: "(\<And>h a. kept_by (H h a)) \<Longrightarrow> M (mach s) \<Longrightarrow> returns ok1 (tick_and_fire H s)"
  unfolding tick_and_fire_def fire_due_def
  by (rule returns_bind [OF due_loop_stable]) (auto simp: ChangeLevel_def advance_time_def)

lemma OneTick_stable:
  "(\<And>h a. kept_by (H h a)) \<Longrightarrow> kept_by y \<Longrightarrow> M (mach s) \<Longrightarrow> returns ok1 (OneTick H y s)"
  unfolding OneTick_def
  by (rule returns_bind [OF tick_and_fire_stable])
     (auto simp: returns_split setStatus_def kept_by_def intro!: returns_bind [where P = ok1])

lemma SetLevel_stable:
  "(\<And>h a. kept_by (H h a)) \<Longrightarrow> kept_by y \<Longrightarrow> M (mach s) \<Longrightarrow> returns ok2 (SetLevel H y now s)"
  unfolding SetLevel_def Let_def
  by (rule returns_pure, rule returns_bind [where P = ok1]) (auto simp: ChangeLevel_def intro!: OneTick_stable)

lemma fire_due_stable: "(\<And>h a. kept_by (H h a)) \<Longrightarrow> M (mach s) \<Longrightarrow> returns ok1 (fire_due H s)"
  unfolding fire_due_def by (rule due_loop_stable)

lemma Idle_stable: "(\<And>h a. kept_by (H h a)) \<Longrightarrow> M (mach s) \<Longrightarrow> returns ok1 (Idle H s)"
  unfolding Idle_def
  by (rule returns_bind [OF CheckIfDue_stable])
     (auto simp: setStatus_def Halt_def returns_split intro!: returns_bind [OF fire_due_stable])

subsection \<open>The synchronous disk\<close>

lemma no_handlers_kept: "kept_by (no_handler h a)" "kept_by no_yield"
  by (simp_all add: kept_by_def no_handler_def no_yield_def)

lemma sem_V_stable: "(\<And>h a. kept_by (H h a)) \<Longrightarrow> M (mach s) \<Longrightarrow> returns ok1 (sem_V H i s)"
  unfolding sem_V_def
  by (auto simp: returns_split sem_add_def no_handlers_kept intro!: returns_bind [OF SetLevel_stable])

lemma sd_handlers_kept: "kept_by (sd_handlers h a)"
  unfolding kept_by_def sd_handlers_def HandleInterrupt_def RequestDone_def
  by (auto split: handler_fn.split intro!: sem_V_stable no_handlers_kept)

lemmas kept_handlers = no_handlers_kept sd_handlers_kept
lemmas setl_stable = SetLevel_stable [OF sd_handlers_kept no_handlers_kept(2)]

lemma sleep_until_stable: "M (mach s) \<Longrightarrow> returns ok1 (sleep_until n i s)"
proof (induction n arbitrary: s)
  case (Suc n)
  then show ?case by (auto simp: returns_split intro!: returns_bind [OF Idle_stable] sd_handlers_kept)
qed simp

lemma sem_P_stable: "M (mach s) \<Longrightarrow> returns ok1 (sem_P i s)"
  unfolding sem_P_def
  by (auto simp: returns_split sem_add_def simp del: sleep_until.simps
      intro!: returns_bind [OF setl_stable] returns_bind [OF sleep_until_stable])

lemma lock_stable:
  "M (mach s) \<Longrightarrow> returns ok1 (lock_Acquire i s)" "M (mach s) \<Longrightarrow> returns ok1 (lock_Release i s)"
  unfolding lock_Acquire_def lock_Release_def
  by (auto simp: returns_split sd_handlers_kept intro!: returns_bind [OF setl_stable] returns_bind [OF sem_P_stable] returns_bind [OF sem_V_stable])

lemma Schedule_stable: "M (mach s) \<Longrightarrow> returns ok1 (Schedule h a n k s)"
  unfolding Schedule_def Let_def by (rule returns_pure) simp

lemma disk_request_stable:
  "M (mach s) \<Longrightarrow> returns ok2 (ReadRequest n s)" "M (mach s) \<Longrightarrow> returns ok1 (WriteRequest n d s)"
  unfolding ReadRequest_def WriteRequest_def Let_def
  by (auto simp: returns_split intro!: pure_steps returns_bind [OF Schedule_stable] Schedule_stable)

lemma ReadSector_stable: "M (mach s) \<Longrightarrow> returns ok2 (ReadSector n s)"
  unfolding ReadSector_def Let_def HandleInterrupt_def RequestDone_def
  by (auto simp: returns_split sd_handlers_kept split: option.split
      intro!: returns_bind [OF lock_stable(1)] returns_bind [OF lock_stable(2)] returns_bind [OF sem_P_stable] returns_bind [where P = ok2]
        returns_bind [OF disk_request_stable(1)] returns_bind [OF sem_V_stable])

lemma WriteSector_stable: "M (mach s) \<Longrightarrow> returns ok1 (WriteSector n d s)"
  unfolding WriteSector_def
  by (auto simp: returns_split intro!: returns_bind [OF lock_stable(1)] returns_bind [OF disk_request_stable(2)]
      returns_bind [OF sem_P_stable] returns_bind [OF lock_stable(2)])

lemma reader_stable:
  "M (mach s) \<Longrightarrow> returns ok1 (ReaderIn n s)" "M (mach s) \<Longrightarrow> returns ok1 (ReaderOut n s)"
  unfolding ReaderIn_def ReaderOut_def
  by (auto simp: returns_split sd_handlers_kept intro!: pure_steps returns_bind [where P = ok1] lock_stable sem_P_stable sem_V_stable)

lemma writer_stable:
  "M (mach s) \<Longrightarrow> returns ok1 (WriteBegin n s)" "M (mach s) \<Longrightarrow> returns ok1 (WriteDone n s)"
  unfolding WriteBegin_def WriteDone_def by (auto simp: returns_split sd_handlers_kept intro!: sem_P_stable sem_V_stable)

subsection \<open>Files\<close>

lemma header_stable:
  "M (mach s) \<Longrightarrow> returns ok2 (FetchFrom n s)" "M (mach s) \<Longrightarrow> returns ok1 (WriteBack n h s)"
  unfolding FetchFrom_def WriteBack_def
  by (auto simp: returns_split intro!: returns_bind [OF ReadSector_stable] WriteSector_stable)

lemma Allocate_stable: "M (mach s) \<Longrightarrow> returns ok2 (Allocate j fm n h s)"
  unfolding Allocate_def Let_def
  by (auto simp: returns_split intro!: pure_steps returns_bind [OF WriteSector_stable])

lemma ByteToSector_stable: "M (mach s) \<Longrightarrow> returns ok2 (ByteToSector h n s)"
  unfolding ByteToSector_def Let_def
  by (auto simp: returns_split intro!: pure_steps returns_bind [OF ReadSector_stable])

lemma read_sectors_stable: "M (mach s) \<Longrightarrow> returns ok2 (read_sectors h i l s)"
proof (induction h i l s rule: read_sectors.induct)
  case (1 h i lst w)
  show ?case
  proof (cases "i \<le> lst")
    case True
    have "returns ok2 (bindr (ByteToSector h (i * SectorSize) w) (\<lambda>(w1, k).
        bindr (ReadSector k w1) (\<lambda>(w2, bs). bindr (read_sectors h (i + 1) lst w2) (\<lambda>(w3, rest). Inr (w3, bs @ rest)))))"
    proof (subst returns_def, clarsimp simp: bindr_eq_Inr)
      fix w1 k w2 bs w3 rest
      assume r: "ByteToSector h (i * SectorSize) w = Inr (w1, k)" "ReadSector k w1 = Inr (w2, bs)"
        "read_sectors h (i + 1) lst w2 = Inr (w3, rest)"
      have "M (mach w1)" using returnsD [OF ByteToSector_stable [OF "1.prems"] r(1)] by simp
      from returnsD [OF ReadSector_stable [OF this] r(2)] have "M (mach w2)" by simp
      from returnsD [OF "1.IH" [OF True r(1) refl r(2) refl this] r(3)] show "M (mach w3)" by simp
    qed
    then show ?thesis using True by (subst read_sectors.simps) simp
  qed (subst read_sectors.simps, simp add: "1.prems")
qed

lemma set_time_mach [simp]: "mach (fst (set_time c f w)) = mach w"
  by (simp add: set_time_def)

lemma ReadAt_stable: "M (mach s) \<Longrightarrow> returns ok2 (ReadAt n p f s)"
  unfolding ReadAt_def Let_def set_time_def
  by (auto simp: returns_split intro!: pure_steps returns_bind [OF read_sectors_stable] returns_bind [OF header_stable(2)])

lemma OpenFile_stable:
  "M (mach s) \<Longrightarrow> returns ok2 (OpenFile_new n s)" "M (mach s) \<Longrightarrow> returns ok1 (OpenFile_delete f s)"
  unfolding OpenFile_new_def OpenFile_delete_def
  by (auto simp: returns_split intro!: pure_steps returns_bind [OF header_stable(1)])

lemma write_sectors_stable: "M (mach s) \<Longrightarrow> returns ok1 (write_sectors h i l b s)"
proof (induction h i l b s rule: write_sectors.induct)
  case (1 h i lst buf w)
  show ?case
  proof (cases "i \<le> lst")
    case True
    have "returns ok1 (bindr (ByteToSector h (i * SectorSize) w) (\<lambda>(w1, k).
        bindr (WriteSector k (take (nat SectorSize) buf) w1) (\<lambda>w2. write_sectors h (i + 1) lst (drop (nat SectorSize) buf) w2)))"
    proof (subst returns_def, clarsimp simp: bindr_eq_Inr)
      fix w1 k w2 w3
      assume r: "ByteToSector h (i * SectorSize) w = Inr (w1, k)" "WriteSector k (take (nat SectorSize) buf) w1 = Inr w2"
        "write_sectors h (i + 1) lst (drop (nat SectorSize) buf) w2 = Inr w3"
      have "M (mach w1)" using returnsD [OF ByteToSector_stable [OF "1.prems"] r(1)] by simp
      from returnsD [OF WriteSector_stable [OF this] r(2)] have "M (mach w2)" by simp
      from returnsD [OF "1.IH" [OF True r(1) refl r(2) this] r(3)] show "M (mach w3)" by simp
    qed
    then show ?thesis using True by (subst write_sectors.simps) simp
  qed (subst write_sectors.simps, simp add: "1.prems")
qed

lemma write_body_stable: "M (mach s) \<Longrightarrow> returns ok2 (write_body b n p f s)"
  unfolding write_body_def Let_def set_time_def
  by (auto simp: returns_split intro!: pure_steps returns_bind [where P = ok2] ReadAt_stable
      returns_bind [OF write_sectors_stable] returns_bind [OF header_stable(2)])

lemma BitMap_FetchFrom_stable: "M (mach s) \<Longrightarrow> returns ok2 (BitMap_FetchFrom bm f s)"
  unfolding BitMap_FetchFrom_def by (auto simp: returns_split intro!: pure_steps returns_bind [OF ReadAt_stable])

lemma WriteAt_depth_stable: "M (mach s) \<Longrightarrow> returns ok2 (WriteAt_depth d b n p f s)"
proof (induction d arbitrary: b n p f s)
  case (Suc d)
  show ?case unfolding WriteAt_depth.simps Let_def
    by (auto simp: returns_split Suc.prems simp del: WriteAt_depth.simps
      intro!: pure_steps returns_bind [where P = ok2] write_body_stable OpenFile_stable BitMap_FetchFrom_stable
        returns_bind [OF header_stable(2)] returns_bind [OF OpenFile_stable(2)] Suc.IH)
qed simp

lemma WriteAt_stable: "M (mach s) \<Longrightarrow> returns ok2 (WriteAt b n p f s)"
  unfolding WriteAt_def by (rule WriteAt_depth_stable)

lemma yield_alone_stable: "M (mach s) \<Longrightarrow> returns ok1 (yield_alone s)"
  unfolding yield_alone_def by (auto simp: returns_split intro!: returns_bind [OF setl_stable])

lemma Read_Write_stable:
  "M (mach s) \<Longrightarrow> returns ok2 (Read n f s)" "M (mach s) \<Longrightarrow> returns ok2 (Write b n f s)"
  unfolding Read_def Write_def Let_def
  by (auto simp: returns_split intro!: returns_bind [OF reader_stable(1)] returns_bind [OF reader_stable(2)]
      returns_bind [OF writer_stable(1)] returns_bind [OF writer_stable(2)] returns_bind [OF ReadAt_stable]
      returns_bind [OF WriteAt_stable] returns_bind [OF yield_alone_stable])

subsection \<open>Directories and the file system\<close>

lemma Dir_file_stable:
  "M (mach s) \<Longrightarrow> returns ok2 (Dir_FetchFrom d f s)" "M (mach s) \<Longrightarrow> returns ok2 (Dir_WriteBack d f s)"
  unfolding Dir_FetchFrom_def Dir_WriteBack_def
  by (auto simp: returns_split intro!: pure_steps returns_bind [OF ReadAt_stable] returns_bind [OF WriteAt_stable])

lemma FindIndex_stable: "M (mach s) \<Longrightarrow> returns ok2 (FindIndex n d s)"
proof (induction "length n" arbitrary: n d s rule: less_induct)
  case less
  have sub: "length n - Suc p < length n" if "first_slash n = Some p" for p
    using that by (auto simp: first_slash_def dest: find_Some_mem)
  show ?case
    by (subst FindIndex.simps)
       (auto simp: returns_split less.prems sub intro!: pure_steps returns_bind [where P = ok2] OpenFile_stable Dir_file_stable less.hyps
         returns_bind [OF OpenFile_stable(2)])
qed

lemma Dir_ops_stable:
  "M (mach s) \<Longrightarrow> returns ok2 (Dir_Find n d s)" "M (mach s) \<Longrightarrow> returns ok2 (Add n k t d s)"
  unfolding Dir_Find_def Add_def
  by (auto simp: returns_split intro!: pure_steps returns_bind [OF FindIndex_stable])

lemma fetch_stable:
  "M (mach s) \<Longrightarrow> returns ok2 (fetch_map s)" "M (mach s) \<Longrightarrow> returns ok2 (fetch_root s)" "M (mach s) \<Longrightarrow> returns ok2 (open_dir n s)"
  unfolding fetch_map_def fetch_root_def open_dir_def
  by (auto simp: returns_split intro!: pure_steps returns_bind [OF BitMap_FetchFrom_stable] returns_bind [OF Dir_file_stable(1)]
      returns_bind [OF OpenFile_stable(1)] Dir_file_stable(1))

lemma store_map_stable: "M (mach s) \<Longrightarrow> returns ok1 (store_map bm s)"
  unfolding store_map_def BitMap_WriteBack_def by (auto simp: returns_split intro!: returns_bind [where P = ok2] WriteAt_stable)

lemma Open_stable: "M (mach s) \<Longrightarrow> returns ok2 (Open n s)"
  unfolding Open_def
  by (auto simp: returns_split intro!: pure_steps returns_bind [OF fetch_stable(2)] returns_bind [OF Dir_ops_stable(1)]
      returns_bind [OF fetch_stable(3)] returns_bind [OF OpenFile_stable(1)])

lemma stamp_all_mach [simp]: "stamp_all h w = (w', h') \<Longrightarrow> mach w' = mach w"
  by (auto simp: stamp_all_def stamp_def)

lemma create_stable:
  "M (mach s) \<Longrightarrow> returns ok2 (create_dir a b d f bm s)" "M (mach s) \<Longrightarrow> returns ok2 (create_file n z a d f bm s)"
  unfolding create_dir_def create_file_def Let_def
  by (auto simp: returns_split intro!: pure_steps returns_bind [OF Allocate_stable] returns_bind [OF OpenFile_stable(1)]
      returns_bind [OF header_stable(2)] returns_bind [OF Dir_file_stable(2)] returns_bind [OF store_map_stable]
      returns_bind [OF OpenFile_stable(2)])

lemma Create_stable: "M (mach s) \<Longrightarrow> returns ok2 (Create n z s)"
  unfolding Create_def
  by (auto simp: returns_split intro!: pure_steps returns_bind [OF OpenFile_stable(2)]
      returns_bind [where P = ok2] fetch_stable Dir_ops_stable create_stable)

end

section \<open>The instances\<close>

text \<open>Completing a load keeps the machine well formed.\<close>

definition machine_wf :: "machine \<Rightarrow> bool" where
  "machine_wf m \<longleftrightarrow> regs_ok m \<and> table_ok m"

interpretation wf: load_stable machine_wf
proof
  fix m m'
  assume m: "machine_wf m" and d: "DelayedLoad 0 0 m = Inr m'"
  then obtain rf where "DelayedLoad 0 0 m = Inr (m\<lparr>registers := rf\<rparr>)" "rf 0 = 0" "rf LoadReg = 0"
    using DelayedLoad_load_ok [of m 0 0] by (auto simp: machine_wf_def regs_ok_def load_ok_def)
  with m d show "machine_wf m'" by (auto simp: machine_wf_def regs_ok_def)
qed

text \<open>A machine without a pending load is left exactly as it is.\<close>

definition quiet :: "machine \<Rightarrow> bool" where
  "quiet m \<longleftrightarrow> registers m 0 = 0 \<and> registers m LoadReg = 0 \<and> registers m LoadValueReg = 0"

lemma quiet_load: "quiet m \<Longrightarrow> DelayedLoad 0 0 m = Inr m' \<Longrightarrow> m' = m"
  unfolding quiet_def DelayedLoad_def Let_def by (auto intro!: machine.equality ext)

lemma quiet_stable: "quiet m \<Longrightarrow> load_stable (\<lambda>x. x = m)"
  by unfold_locales (auto dest: quiet_load)

end
