(* ===== verification/Nachos_AddrSpace.thy ===== *)
theory Nachos_AddrSpace
  imports Nachos_FileSys Nachos_Thread
begin

text \<open>
  Address spaces (\<^verbatim>\<open>userprog/addrspace.h\<close>, \<^verbatim>\<open>addrspace.cc\<close>, \<^verbatim>\<open>bin/noff.h\<close>): loading a program into the file
  \<^verbatim>\<open>virtual_memory\<close>, the initial page table and registers. Pages come into main memory only when the program
  touches them (\<open>Nachos_Exception\<close>). Memory that the source does not initialise (the header buffer on
  the stack, the page table entries, the character the copying loops read into) is an argument.
\<close>

section \<open>Object files\<close>

definition NOFFMAGIC :: u32 where "NOFFMAGIC = 0xbadfad"

record Segment =
  virtualAddr :: u32
  inFileAddr :: u32
  seg_size :: u32

record NoffHeader =
  noffMagic :: u32
  noff_code :: Segment
  initData :: Segment
  uninitData :: Segment

definition bytes_segment :: "byte list \<Rightarrow> Segment" where
  "bytes_segment bs = \<lparr>virtualAddr = un_le32 (take 4 bs), inFileAddr = un_le32 (take 4 (drop 4 bs)), seg_size = un_le32 (take 4 (drop 8 bs))\<rparr>"

definition bytes_noff :: "byte list \<Rightarrow> NoffHeader" where
  "bytes_noff bs = \<lparr>noffMagic = un_le32 (take 4 bs), noff_code = bytes_segment (drop 4 bs), initData = bytes_segment (drop 16 bs),
     uninitData = bytes_segment (drop 28 bs)\<rparr>"

definition swap_segment :: "bool \<Rightarrow> Segment \<Rightarrow> Segment" where
  "swap_segment big s = \<lparr>virtualAddr = WordToHost big (virtualAddr s), inFileAddr = WordToHost big (inFileAddr s),
     seg_size = WordToHost big (seg_size s)\<rparr>"

definition SwapHeader :: "bool \<Rightarrow> NoffHeader \<Rightarrow> NoffHeader" where
  "SwapHeader big h = \<lparr>noffMagic = WordToHost big (noffMagic h), noff_code = swap_segment big (noff_code h),
     initData = swap_segment big (initData h), uninitData = swap_segment big (uninitData h)\<rparr>"

text \<open>The header as the constructor uses it; \<open>big\<close> says whether the host is big endian.\<close>

definition noff_header :: "bool \<Rightarrow> byte list \<Rightarrow> NoffHeader result" where
  "noff_header big mem =
     (let h = bytes_noff mem;
          h' = (if noffMagic h \<noteq> NOFFMAGIC \<and> WordToHost big (noffMagic h) = NOFFMAGIC then SwapHeader big h else h)
      in bindr (ASSERT (noffMagic h' = NOFFMAGIC)) (\<lambda>_. Inr h'))"

section \<open>The constructor\<close>

definition UserStackSize :: u32 where "UserStackSize = 1024"

text \<open>\<^verbatim>\<open>size\<close> and \<^verbatim>\<open>numPages\<close> are unsigned 32-bit values.\<close>

definition space_pages :: "NoffHeader \<Rightarrow> u32" where
  "space_pages h =
     (let size = seg_size (noff_code h) + seg_size (initData h) + seg_size (uninitData h) + UserStackSize
      in size div word_of_int PageSize + (if size mod word_of_int PageSize > 0 then 1 else 0))"

definition initial_table :: "TranslationEntry list \<Rightarrow> TranslationEntry list" where
  "initial_table mem = map (\<lambda>i. (mem ! i)\<lparr>virtualPage := -1, physicalPage := of_nat i, valid := False, use := False,
     dirty := False, readOnly := False\<rparr>) [0..<nat NumPhysPages]"

definition vm_name :: "byte list" where
  "vm_name = [118, 105, 114, 116, 117, 97, 108, 95, 109, 101, 109, 111, 114, 121]"

text \<open>The loops copy one byte per round; a read that returns nothing leaves the character as it was.\<close>

primrec copy_bytes ::
  "nat \<Rightarrow> u32 \<Rightarrow> u32 \<Rightarrow> byte \<Rightarrow> OpenFile \<Rightarrow> OpenFile \<Rightarrow> 'a filesys_sim_scheme \<Rightarrow> ('a filesys_sim_scheme \<times> OpenFile \<times> OpenFile) result" where
  "copy_bytes 0 pos1 pos2 ch executable openfile w = Inr (w, executable, openfile)"
| "copy_bytes (Suc n) pos1 pos2 ch executable openfile w =
     bindr (ReadAt 1 (sint pos1) executable w) (\<lambda>(w1, executable1, bs).
     let ch' = (case bs of [] \<Rightarrow> ch | b # _ \<Rightarrow> b) in
     bindr (WriteAt [ch'] 1 (sint pos2) openfile w1) (\<lambda>(w2, openfile1, _).
       copy_bytes n (pos1 + 1) (pos2 + 1) ch' executable1 openfile1 w2))"

definition copy_segment ::
  "Segment \<Rightarrow> byte \<Rightarrow> OpenFile \<Rightarrow> OpenFile \<Rightarrow> 'a filesys_sim_scheme \<Rightarrow> ('a filesys_sim_scheme \<times> OpenFile \<times> OpenFile) result" where
  "copy_segment seg ch executable openfile w =
     (if sint (seg_size seg) > 0
      then copy_bytes (nat (sint (seg_size seg))) (inFileAddr seg) (virtualAddr seg) ch executable openfile w
      else Inr (w, executable, openfile))"

definition set_table :: "nat \<Rightarrow> TranslationEntry list \<Rightarrow> 'a sim_scheme \<Rightarrow> 'a sim_scheme" where
  "set_table p pt s = s\<lparr>mach := (mach s)\<lparr>tables := (tables (mach s))(p \<mapsto> pt)\<rparr>\<rparr>"

definition AddrSpace_new ::
  "nat \<Rightarrow> byte list \<Rightarrow> TranslationEntry list \<Rightarrow> byte \<Rightarrow> OpenFile \<Rightarrow> 'a filesys_sim_scheme
     \<Rightarrow> ('a filesys_sim_scheme \<times> OpenFile \<times> AddrSpace) result" where
  "AddrSpace_new p hdr_mem pt_mem ch executable w =
     bindr (ReadAt 40 0 executable w) (\<lambda>(w1, executable1, bs).
     bindr (patch hdr_mem 0 bs) (\<lambda>mem.
     bindr (noff_header False mem) (\<lambda>noffH.
     let n = space_pages noffH; size = n * word_of_int PageSize in
     bindr (ASSERT (uint n \<le> NumPhysPages)) (\<lambda>_.
     bindr (Create vm_name (sint size) (set_table p (initial_table pt_mem) w1)) (\<lambda>(w2, _).
     bindr (Open vm_name w2) (\<lambda>(w3, file). case file of
         None \<Rightarrow> Inl AssertFailed
       | Some openfile \<Rightarrow>
         bindr (copy_segment (noff_code noffH) ch executable1 openfile w3) (\<lambda>(w4, executable2, openfile2).
         bindr (copy_segment (initData noffH) ch executable2 openfile2 w4) (\<lambda>(w5, executable3, openfile3).
         bindr (OpenFile_delete openfile3 w5) (\<lambda>w6.
           Inr (w6, executable3, \<lparr>space_table = p, numPages = n\<rparr>))))))))))"

section \<open>Starting a program\<close>

primrec zero_registers :: "nat \<Rightarrow> machine \<Rightarrow> machine result" where
  "zero_registers 0 m = Inr m"
| "zero_registers (Suc i) m = bindr (zero_registers i m) (\<lambda>m1. WriteRegister m1 (int i) 0)"

definition InitRegisters :: "AddrSpace \<Rightarrow> machine \<Rightarrow> machine result" where
  "InitRegisters sp m =
     bindr (zero_registers NumTotalRegs m) (\<lambda>m1.
     bindr (WriteRegister m1 (int PCReg) 0) (\<lambda>m2.
     bindr (WriteRegister m2 (int NextPCReg) 4) (\<lambda>m3.
       WriteRegister m3 (int StackReg) (numPages sp * word_of_int PageSize - 16))))"

end
