(* ===== verification/Nachos_Exception.thy ===== *)
theory Nachos_Exception
  imports Nachos_AddrSpace Nachos_Mips_Safety
begin

text \<open>
  The system calls on files and the page fault handler (\<^verbatim>\<open>userprog/exception.cc\<close>). The calls that create,
  join and end threads are an argument of the handler here. An open file of a user program is the address of an
  \<^verbatim>\<open>OpenFile\<close> object; the addresses that \<^verbatim>\<open>new\<close> returns are given by \<open>heap_addr\<close>. The handler uses arrays of
  variable length on the kernel stack and writes behind their end: \<open>vla_slack\<close> is the number of bytes
  behind such an array that may be overwritten without harm (0 in the C++ standard), and what the stack
  held before is \<open>stack_junk\<close> for arrays and \<open>stack_int\<close> for integers.
\<close>

section \<open>State\<close>

record user_sim = filesys_sim +
  open_files :: "u32 \<Rightarrow> OpenFile option"
  heap_addr :: "nat \<Rightarrow> u32"
  heap_allocs :: nat
  vla_slack :: nat
  stack_junk :: "nat \<Rightarrow> byte"
  stack_int :: u32

definition vla :: "int \<Rightarrow> 'a user_sim_scheme \<Rightarrow> byte list result" where
  "vla n s = (if n < 0 then Inl OutOfBounds else Inr (map (stack_junk s) [0..<nat n + vla_slack s]))"

section \<open>Page faults\<close>

definition page_bytes :: "machine \<Rightarrow> int \<Rightarrow> byte list" where
  "page_bytes m pos = map (\<lambda>i. mainMemory m (nat (pos * PageSize) + i)) [0..<nat PageSize]"

definition fill_page :: "int \<Rightarrow> byte list \<Rightarrow> machine \<Rightarrow> machine" where
  "fill_page pos bs m = store_bytes m (word_of_int (pos * PageSize)) bs"

definition get_table :: "machine \<Rightarrow> (nat \<times> TranslationEntry list) result" where
  "get_table m = (case pageTable m of None \<Rightarrow> Inl BadPointer
     | Some p \<Rightarrow> (case tables m p of None \<Rightarrow> Inl BadPointer | Some pt \<Rightarrow> Inr (p, pt)))"

text \<open>The victim in frame 0: the first entry for that frame that is dirty is written back and invalidated.\<close>

fun find_victim :: "TranslationEntry list \<Rightarrow> nat \<Rightarrow> nat option" where
  "find_victim [] j = None"
| "find_victim (e # pt) j = (if physicalPage e = 0 \<and> dirty e then Some j else find_victim pt (Suc j))"

definition evict :: "OpenFile \<Rightarrow> 'a filesys_sim_scheme \<Rightarrow> ('a filesys_sim_scheme \<times> OpenFile) result" where
  "evict openfile s =
     bindr (get_table (mach s)) (\<lambda>(p, pt).
       if uint (pageTableSize (mach s)) > int (length pt) then Inl OutOfBounds
       else case find_victim (take (unat (pageTableSize (mach s))) pt) 0 of
         None \<Rightarrow> Inr (s, openfile)
       | Some j \<Rightarrow>
           bindr (WriteAt (page_bytes (mach s) 0) PageSize (sint (virtualPage (pt ! j) * word_of_int PageSize)) openfile s) (\<lambda>(s1, openfile1, _).
           bindr (get_table (mach s1)) (\<lambda>(p1, pt1).
           bindr (arr_get pt1 (int j)) (\<lambda>e.
           bindr (arr_set pt1 (int j) (e\<lparr>valid := False\<rparr>)) (\<lambda>pt2. Inr (set_table p1 pt2 s1, openfile1))))))"

text \<open>The page table entry of the frame now belongs to the new page.\<close>

definition map_page :: "int \<Rightarrow> u32 \<Rightarrow> machine \<Rightarrow> machine result" where
  "map_page pos vpn m =
     bindr (get_table m) (\<lambda>(p, pt).
     bindr (arr_get pt pos) (\<lambda>e.
     bindr (arr_set pt pos (e\<lparr>valid := True, virtualPage := vpn, use := False, dirty := False, readOnly := False\<rparr>)) (\<lambda>pt'.
       Inr (m\<lparr>tables := (tables m)(p \<mapsto> pt')\<rparr>))))"

definition page_fault :: "'a filesys_sim_scheme \<Rightarrow> 'a filesys_sim_scheme result" where
  "page_fault s =
     bindr (Open vm_name s) (\<lambda>(s1, file). case file of None \<Rightarrow> Inl AssertFailed | Some openfile \<Rightarrow>
     let vpn = registers (mach s1) BadVAddrReg div word_of_int PageSize in
     bindr (Bitmap_find (frames (mach s1))) (\<lambda>(mp, found).
     let s2 = s1\<lparr>mach := (mach s1)\<lparr>frames := mp\<rparr>\<rparr>; pos = (if found = -1 then 0 else found) in
     bindr (if found = -1 then evict openfile s2 else Inr (s2, openfile)) (\<lambda>(s3, openfile1).
     bindr (ReadAt PageSize (sint (vpn * word_of_int PageSize)) openfile1 s3) (\<lambda>(s4, openfile2, bs).
     bindr (map_page pos vpn (fill_page pos bs (mach s4))) (\<lambda>m.
       OpenFile_delete openfile2 (s4\<lparr>mach := m\<rparr>))))))"

section \<open>TLB misses\<close>

text \<open>In the build with a TLB the handler copies the page table entry into a free TLB entry, or over the
  one with the largest age. The ages are compared as signed numbers: when none is positive the index stays -1.\<close>

definition tlb_load :: "TranslationEntry \<Rightarrow> TranslationEntry \<Rightarrow> TranslationEntry" where
  "tlb_load entry t = t\<lparr>virtualPage := virtualPage entry, physicalPage := physicalPage entry, readOnly := readOnly entry,
     use := False, dirty := False, cnt := 0\<rparr>"

fun free_slot :: "TranslationEntry list \<Rightarrow> nat \<Rightarrow> nat option" where
  "free_slot [] i = None"
| "free_slot (e # es) i = (if valid e then free_slot es (Suc i) else Some i)"

fun oldest :: "TranslationEntry list \<Rightarrow> int \<Rightarrow> int \<Rightarrow> int \<Rightarrow> int" where
  "oldest [] i maxcnt maxidx = maxidx"
| "oldest (e # es) i maxcnt maxidx = (if sint (cnt e) > maxcnt then oldest es (i + 1) (sint (cnt e)) i else oldest es (i + 1) maxcnt maxidx)"

definition tlb_refill :: "TranslationEntry \<Rightarrow> TranslationEntry list \<Rightarrow> TranslationEntry list result" where
  "tlb_refill entry t =
     (if length t \<noteq> nat TLBSize then Inl OutOfBounds else
     let t1 = map (\<lambda>e. if valid e then e\<lparr>cnt := cnt e + 1\<rparr> else e) t in
     case free_slot t1 0 of
       Some i \<Rightarrow> Inr (t1[i := (tlb_load entry (t1 ! i))\<lparr>valid := True\<rparr>])
     | None \<Rightarrow> bindr (arr_get t1 (oldest t1 0 0 (-1))) (\<lambda>e. arr_set t1 (oldest t1 0 0 (-1)) (tlb_load entry e)))"

definition tlb_miss :: "machine \<Rightarrow> machine result" where
  "tlb_miss m =
     (case tlb m of None \<Rightarrow> Inl BadPointer | Some t \<Rightarrow>
      bindr (get_table m) (\<lambda>(p, pt).
      bindr (arr_get pt (uint (registers m BadVAddrReg div word_of_int PageSize))) (\<lambda>entry.
      bindr (tlb_refill entry t) (\<lambda>t'. Inr (m\<lparr>tlb := Some t'\<rparr>)))))"

definition fault_handler :: "ExceptionType \<Rightarrow> 'a filesys_sim_scheme \<Rightarrow> 'a filesys_sim_scheme result" where
  "fault_handler which s =
     (if which = PageFaultException
      then (case tlb (mach s) of None \<Rightarrow> page_fault s
            | Some _ \<Rightarrow> bindr (tlb_miss (mach s)) (\<lambda>m. Inr (s\<lparr>mach := m\<rparr>)))
      else Inl AssertFailed)"

section \<open>Names and buffers of user programs\<close>

text \<open>
  The loop that fetches a name: a read that faults leaves \<^verbatim>\<open>v\<close> as it was. It ends at a zero, or when the
  buffer is full. \<open>stop\<close> is the test for the end, which differs between the calls.
\<close>

function read_name ::
  "(u32 \<Rightarrow> bool) \<Rightarrow> u32 \<Rightarrow> u32 \<Rightarrow> nat \<Rightarrow> byte list \<Rightarrow> 'a user_sim_scheme \<Rightarrow> ('a user_sim_scheme \<times> nat \<times> byte list) result" where
  "read_name stop name_pos v i name s =
     bindr (ReadMem fault_handler name_pos 1 s) (\<lambda>(s1, r).
     let v1 = (case r of None \<Rightarrow> v | Some x \<Rightarrow> x) in
     if stop v1 then Inr (s1, i, name)
     else if i < length name then read_name stop (name_pos + 1) v1 (Suc i) (name[i := ucast v1]) s1
     else Inl OutOfBounds)"
  by pat_completeness auto
termination
  by (relation "measure (\<lambda>(stop, name_pos, v, i, name, s). length name - i)") auto

declare read_name.simps [simp del]

text \<open>\<^verbatim>\<open>Create\<close> and \<^verbatim>\<open>Open\<close> put the NUL one place too far, \<^verbatim>\<open>Exec\<close> at the right one.\<close>

definition fetch_name :: "u32 \<Rightarrow> 'a user_sim_scheme \<Rightarrow> ('a user_sim_scheme \<times> byte list) result" where
  "fetch_name name_pos s =
     bindr (vla 1 s) (\<lambda>buf.
     bindr (read_name (\<lambda>v. v = 0) name_pos (stack_int s) 0 buf s) (\<lambda>(s1, i, name).
     bindr (arr_set name (int i + 1) 0) (\<lambda>name1.
     bindr (c_text name1) (\<lambda>t. Inr (s1, t)))))"

definition fetch_exec_name :: "u32 \<Rightarrow> 'a user_sim_scheme \<Rightarrow> ('a user_sim_scheme \<times> byte list) result" where
  "fetch_exec_name name_pos s =
     bindr (vla 1 s) (\<lambda>buf.
     bindr (read_name (\<lambda>v. (ucast v :: byte) = 0) name_pos (stack_int s) 0 buf s) (\<lambda>(s1, i, name).
     bindr (arr_set name (int i) 0) (\<lambda>name1.
     bindr (c_text name1) (\<lambda>t. Inr (s1, t)))))"

primrec copy_out :: "byte list \<Rightarrow> u32 \<Rightarrow> 'a user_sim_scheme \<Rightarrow> 'a user_sim_scheme result" where
  "copy_out [] addr s = Inr s"
| "copy_out (b # bs) addr s = bindr (WriteMem fault_handler addr 1 (scast b) s) (\<lambda>(s1, _). copy_out bs (addr + 1) s1)"

primrec copy_in :: "nat \<Rightarrow> u32 \<Rightarrow> u32 \<Rightarrow> 'a user_sim_scheme \<Rightarrow> ('a user_sim_scheme \<times> byte list) result" where
  "copy_in 0 addr tmp s = Inr (s, [])"
| "copy_in (Suc n) addr tmp s =
     bindr (ReadMem fault_handler addr 1 s) (\<lambda>(s1, r).
     let tmp1 = (case r of None \<Rightarrow> tmp | Some x \<Rightarrow> x) in
     bindr (copy_in n (addr + 1) tmp1 s1) (\<lambda>(s2, bs). Inr (s2, ucast tmp1 # bs)))"

section \<open>System calls\<close>

abbreviation (input) arg_reg :: "nat \<Rightarrow> 'a sim_scheme \<Rightarrow> u32" where
  "arg_reg i s \<equiv> registers (mach s) i"

definition advance_pc :: "'a sim_scheme \<Rightarrow> 'a sim_scheme result" where
  "advance_pc s = bindr (PCAdvance (mach s)) (\<lambda>m. Inr (s\<lparr>mach := m\<rparr>))"

definition set_result :: "u32 \<Rightarrow> 'a sim_scheme \<Rightarrow> 'a sim_scheme result" where
  "set_result v s = bindr (WriteRegister (mach s) 2 v) (\<lambda>m. Inr (s\<lparr>mach := m\<rparr>))"

definition sys_Create :: "'a user_sim_scheme \<Rightarrow> 'a user_sim_scheme result" where
  "sys_Create s =
     bindr (fetch_name (arg_reg 4 s) s) (\<lambda>(s1, name).
     bindr (Create name 0 s1) (\<lambda>(s2, _). advance_pc s2))"

definition alloc_file :: "OpenFile \<Rightarrow> 'a user_sim_scheme \<Rightarrow> 'a user_sim_scheme \<times> u32" where
  "alloc_file f s =
     (let a = heap_addr s (heap_allocs s)
      in (s\<lparr>open_files := (open_files s)(a \<mapsto> f), heap_allocs := Suc (heap_allocs s)\<rparr>, a))"

definition sys_Open :: "'a user_sim_scheme \<Rightarrow> 'a user_sim_scheme result" where
  "sys_Open s =
     bindr (fetch_name (arg_reg 4 s) s) (\<lambda>(s1, name).
     bindr (Open name s1) (\<lambda>(s2, file). case file of
         None \<Rightarrow> advance_pc s2
       | Some f \<Rightarrow> (case alloc_file f s2 of (s3, a) \<Rightarrow> bindr (set_result a s3) advance_pc)))"

definition get_file :: "u32 \<Rightarrow> 'a user_sim_scheme \<Rightarrow> OpenFile result" where
  "get_file a s = (case open_files s a of None \<Rightarrow> Inl BadPointer | Some f \<Rightarrow> Inr f)"

definition sys_Read :: "'a user_sim_scheme \<Rightarrow> 'a user_sim_scheme result" where
  "sys_Read s =
     (let buff = arg_reg 4 s; size = sint (arg_reg 5 s); fid = arg_reg 6 s in
      if fid = 0 then advance_pc s
      else bindr (get_file fid s) (\<lambda>tmpfile.
           bindr (vla size s) (\<lambda>tmp_buffer.
           bindr (Read size tmpfile s) (\<lambda>(s1, tmpfile1, bs).
           bindr (patch tmp_buffer 0 bs) (\<lambda>tmp_buffer1.
           bindr (arr_set tmp_buffer1 size 0) (\<lambda>tmp_buffer2.
           bindr (copy_out (take (nat size) tmp_buffer2) buff (s1\<lparr>open_files := (open_files s1)(fid \<mapsto> tmpfile1)\<rparr>)) (\<lambda>s2.
           bindr (set_result (word_of_int size) s2) advance_pc)))))))"

definition sys_Write :: "'a user_sim_scheme \<Rightarrow> 'a user_sim_scheme result" where
  "sys_Write s =
     (let buff = arg_reg 4 s; size = sint (arg_reg 5 s); fid = arg_reg 6 s in
      bindr (vla size s) (\<lambda>_.
      bindr (copy_in (nat size) buff (stack_int s) s) (\<lambda>(s1, bs).
        if fid = 0 then advance_pc s1
        else bindr (get_file fid s1) (\<lambda>tmpfile.
             bindr (Write bs size tmpfile s1) (\<lambda>(s2, tmpfile1, _).
               advance_pc (s2\<lparr>open_files := (open_files s2)(fid \<mapsto> tmpfile1)\<rparr>))))))"

definition sys_Close :: "'a user_sim_scheme \<Rightarrow> 'a user_sim_scheme result" where
  "sys_Close s =
     (let file = arg_reg 4 s in
      if file = 0 then advance_pc s
      else bindr (get_file file s) (\<lambda>tmpfile.
           bindr (OpenFile_delete tmpfile s) (\<lambda>s1.
             advance_pc (s1\<lparr>open_files := (open_files s1)(file := None)\<rparr>))))"

datatype syscall = SC_Halt | SC_Exit | SC_Exec | SC_Join | SC_Create | SC_Open | SC_Read | SC_Write | SC_Close | SC_Fork | SC_Yield

definition syscall_of :: "u32 \<Rightarrow> syscall option" where
  "syscall_of v =
     (if v = 0 then Some SC_Halt else if v = 1 then Some SC_Exit else if v = 2 then Some SC_Exec else if v = 3 then Some SC_Join
      else if v = 4 then Some SC_Create else if v = 5 then Some SC_Open else if v = 6 then Some SC_Read else if v = 7 then Some SC_Write
      else if v = 8 then Some SC_Close else if v = 9 then Some SC_Fork else if v = 10 then Some SC_Yield else None)"

text \<open>The handler; \<open>thread_call\<close> stands for the calls on threads.\<close>

definition ExceptionHandler ::
  "(syscall \<Rightarrow> 'a user_sim_scheme \<Rightarrow> 'a user_sim_scheme result) \<Rightarrow> ExceptionType \<Rightarrow> 'a user_sim_scheme \<Rightarrow> 'a user_sim_scheme result" where
  "ExceptionHandler thread_call which s =
     (if which = SyscallException then
        (case syscall_of (arg_reg 2 s) of
           Some SC_Halt \<Rightarrow> Halt s
         | Some SC_Create \<Rightarrow> sys_Create s
         | Some SC_Open \<Rightarrow> sys_Open s
         | Some SC_Read \<Rightarrow> sys_Read s
         | Some SC_Write \<Rightarrow> sys_Write s
         | Some SC_Close \<Rightarrow> sys_Close s
         | Some c \<Rightarrow> thread_call c s
         | None \<Rightarrow> Inl AssertFailed)
      else fault_handler which s)"

end
