(* ===== verification/Nachos_Paging.thy ===== *)
theory Nachos_Paging
  imports Nachos_Frame Nachos_Exception
begin

text \<open>
  User programs on the kernel's own trap handler: the handler keeps the machine well formed, whatever
  the program asks for, and page faults bring in the page of the file \<^verbatim>\<open>virtual_memory\<close> that the program
  touched.
\<close>

section \<open>The fault handler keeps the machine well formed\<close>

lemma machine_wf_frames [simp]:
  "machine_wf (m\<lparr>frames := f\<rparr>) = machine_wf m" "machine_wf (m\<lparr>mainMemory := mm\<rparr>) = machine_wf m"
  "machine_wf (store_bytes m a bs) = machine_wf m"
  by (auto simp: machine_wf_def regs_ok_def table_ok_def store_bytes_def split: option.splits)

lemma user_ok_wf: "user_ok s = machine_wf (mach s)"
  by (simp add: user_ok_def machine_wf_def)

lemma table_wf:
  assumes "machine_wf m" "tables m p = Some pt" "pageTable m = Some p" "length pt' = length pt"
  shows "machine_wf (m\<lparr>tables := (tables m)(p \<mapsto> pt')\<rparr>)"
  using assms by (auto simp: machine_wf_def regs_ok_def table_ok_def split: option.splits)

lemma arr_set_length: "arr_set xs i v = Inr ys \<Longrightarrow> length ys = length xs"
  by (auto simp: arr_set_def split: if_splits)

lemma get_table_Inr: "get_table m = Inr (p, pt) \<longleftrightarrow> pageTable m = Some p \<and> tables m p = Some pt"
  by (auto simp: get_table_def split: option.splits)

lemma map_page_wf: "machine_wf m \<Longrightarrow> returns machine_wf (map_page pos vpn m)"
  unfolding map_page_def returns_def
  by (auto simp: bindr_eq_Inr get_table_Inr intro!: table_wf dest!: arr_set_length)

lemma invalidate_wf:
  assumes "machine_wf (mach s)"
  shows "returns (\<lambda>p. machine_wf (mach (fst p)))
    (bindr (get_table (mach s)) (\<lambda>(p1, pt1).
     bindr (arr_get pt1 j) (\<lambda>e. bindr (arr_set pt1 j (e\<lparr>valid := False\<rparr>)) (\<lambda>pt2. Inr (set_table p1 pt2 s, f)))))"
  using assms unfolding returns_def
  by (auto simp: bindr_eq_Inr get_table_Inr set_table_def intro!: table_wf dest!: arr_set_length)

lemma evict_wf: "machine_wf (mach s) \<Longrightarrow> returns (\<lambda>p. machine_wf (mach (fst p))) (evict f s)"
  unfolding evict_def
  by (auto simp: returns_split intro!: returns_pure [where r = "get_table (mach s)"] returns_bind [OF wf.WriteAt_stable] invalidate_wf)

lemma page_fault_wf: "machine_wf (mach s) \<Longrightarrow> returns (\<lambda>s'. machine_wf (mach s')) (page_fault s)"
  unfolding page_fault_def Let_def fill_page_def
  by (auto simp: returns_split intro!: wf.Open_stable returns_pure [where r = "Bitmap_find b" for b]
      returns_bind [where P = "\<lambda>p. machine_wf (mach (fst p))"] evict_wf wf.ReadAt_stable returns_bind [OF map_page_wf] wf.OpenFile_stable)

lemma tlb_refill_length: "tlb_refill e t = Inr t' \<Longrightarrow> length t' = nat TLBSize"
  unfolding tlb_refill_def Let_def
  by (auto simp: bindr_eq_Inr dest!: arr_set_length split: if_splits option.splits)

lemma tlb_miss_wf: "machine_wf m \<Longrightarrow> returns machine_wf (tlb_miss m)"
  unfolding tlb_miss_def returns_def
  by (auto simp: bindr_eq_Inr machine_wf_def regs_ok_def table_ok_def dest!: tlb_refill_length split: option.splits)

lemma fault_handler_wf: "machine_wf (mach s) \<Longrightarrow> returns (\<lambda>s'. machine_wf (mach s')) (fault_handler e s)"
  unfolding fault_handler_def
  by (auto simp: returns_split intro!: page_fault_wf returns_bind [OF tlb_miss_wf])

interpretation faults: trap_handler fault_handler
  by unfold_locales (auto simp: user_ok_wf dest: returnsD [OF fault_handler_wf])

section \<open>System calls keep the machine well formed\<close>

lemma ReadMem_wf: "access_size sz \<Longrightarrow> machine_wf (mach s) \<Longrightarrow> returns (\<lambda>p. machine_wf (mach (fst p))) (ReadMem fault_handler va sz s)"
  using faults.ReadMem_safe [of s sz va]
  by (auto simp: returns_def machine_wf_def regs_ok_def load_ok_def user_ok_def split: option.splits)

lemma WriteMem_wf: "access_size sz \<Longrightarrow> machine_wf (mach s) \<Longrightarrow> returns (\<lambda>p. machine_wf (mach (fst p))) (WriteMem fault_handler va sz v s)"
  using faults.WriteMem_safe [of s sz va v]
  by (auto simp: returns_def machine_wf_def regs_ok_def load_ok_def user_ok_def split: bool.splits)

lemma read_name_wf: "machine_wf (mach s) \<Longrightarrow> returns (\<lambda>p. machine_wf (mach (fst p))) (read_name stop a v i b s)"
proof (induction "length b - i" arbitrary: a v i b s rule: less_induct)
  case less
  show ?case
    by (subst read_name.simps, rule returns_bind [OF ReadMem_wf])
       (auto simp: returns_split Let_def less.prems intro!: less.hyps)
qed

lemma fetch_name_wf: "machine_wf (mach s) \<Longrightarrow> returns (\<lambda>p. machine_wf (mach (fst p))) (fetch_name a s)"
  unfolding fetch_name_def
  by (auto simp: returns_split intro!: pure_steps returns_pure [where r = "vla n w" for n w] returns_bind [OF read_name_wf]
      returns_pure [where r = "c_text t" for t])

lemma copy_out_wf: "machine_wf (mach s) \<Longrightarrow> returns (\<lambda>s'. machine_wf (mach s')) (copy_out bs a s)"
  by (induction bs arbitrary: a s) (auto simp: returns_split intro!: returns_bind [OF WriteMem_wf])

lemma copy_in_wf: "machine_wf (mach s) \<Longrightarrow> returns (\<lambda>p. machine_wf (mach (fst p))) (copy_in n a t s)"
proof (induction n arbitrary: a t s)
  case (Suc n)
  show ?case unfolding copy_in.simps Let_def
    by (auto simp: returns_split Suc.prems intro!: returns_bind [where P = "\<lambda>p. machine_wf (mach (fst p))"] ReadMem_wf Suc.IH)
qed simp

lemma advance_wf: "machine_wf (mach s) \<Longrightarrow> returns (\<lambda>s'. machine_wf (mach s')) (advance_pc s)"
  unfolding advance_pc_def returns_def
  by (auto simp: bindr_eq_Inr PCAdvance_def WriteRegister_def ASSERT_def machine_wf_def regs_ok_def)

lemma set_result_wf: "machine_wf (mach s) \<Longrightarrow> returns (\<lambda>s'. machine_wf (mach s')) (set_result v s)"
  unfolding set_result_def returns_def
  by (auto simp: bindr_eq_Inr WriteRegister_def ASSERT_def machine_wf_def regs_ok_def)

lemma file_calls_wf:
  assumes "machine_wf (mach s)"
  shows "returns (\<lambda>s'. machine_wf (mach s')) (sys_Create s)" "returns (\<lambda>s'. machine_wf (mach s')) (sys_Open s)"
    "returns (\<lambda>s'. machine_wf (mach s')) (sys_Read s)" "returns (\<lambda>s'. machine_wf (mach s')) (sys_Write s)"
    "returns (\<lambda>s'. machine_wf (mach s')) (sys_Close s)"
  using assms unfolding sys_Create_def sys_Open_def sys_Read_def sys_Write_def sys_Close_def Let_def alloc_file_def
  by (auto simp: returns_split intro!: pure_steps returns_bind [OF fetch_name_wf] returns_bind [OF wf.Create_stable]
      returns_bind [OF wf.Open_stable] returns_bind [OF wf.Read_Write_stable(1)] returns_bind [OF wf.Read_Write_stable(2)]
      returns_bind [OF wf.OpenFile_stable(2)] returns_bind [OF copy_out_wf] returns_bind [OF copy_in_wf] returns_bind [OF set_result_wf]
      advance_wf returns_pure [where r = "vla n w" for n w] returns_pure [where r = "get_file a w" for a w])

end
