(* ===== verification/Nachos_Large.thy ===== *)
theory Nachos_Large
  imports Nachos_FileSys
begin

text \<open>
  Creating files of more than 1024 bytes: the blocks behind the eighth are listed in an index block. The
  entries of the index block are read back as signed bytes, so this works while every block that
  the allocation takes has a number below 128; \<^verbatim>\<open>Find\<close> takes the lowest free sectors, and enough free
  sectors below 128 are a sufficient condition.
\<close>

section \<open>The sectors of a file\<close>

definition file_area :: "FileHeader \<Rightarrow> int list \<Rightarrow> nat set" where
  "file_area h B = nat ` set B \<union> (if numSectors h > 8 then {nat (dataSectors h ! 8)} else {})"

lemma ints_bytes_low:
  assumes "i < length zs" "0 \<le> zs ! i" "zs ! i < 128"
  shows "sint (ints_bytes zs ! (4 * i)) = zs ! i"
proof -
  have "index_entry (ints_bytes zs) (int i) = Inr (sint (ints_bytes zs ! (4 * i)))"
    using assms(1) by (simp add: index_entry_def mult.commute nat_mult_distrib)
  then have "sint (ints_bytes zs ! (4 * i)) = sint (ucast (word_of_int (zs ! i) :: u32) :: byte)"
    using index_entry_of_ints [OF assms(1)] by simp
  then show ?thesis using byte_of_sector [of "zs ! i"] assms(2,3) by (simp add: disk_consts)
qed

text \<open>The header and the index block that the allocation leaves describe the blocks it took.\<close>

lemma indirect_mapped:
  assumes h: "hdr_ok h" "numBytes h = n" "numSectors h = ns" "dataSectors h = ds" and sz: "0 \<le> n" "ns = divRoundUp n SectorSize" "9 \<le> ns" "ns \<le> 40"
    and ds: "length ds = 9" "length ks = nat (ns - 8)" "distinct (ds @ ks)" "\<forall>k \<in> set (ds @ ks). 0 \<le> k \<and> k < 128"
    and sec: "valid_sector (sectorNumber h)" "sectorNumber h \<notin> set (ds @ ks)"
    and img: "img (nat (ds ! 8)) = ints_bytes (ks @ junk)"
  shows "mapped img h (take 8 ds @ ks)" "int ` file_area h (take 8 ds @ ks) = set (ds @ ks)"
proof -
  have e: "sint (ints_bytes (ks @ junk) ! (4 * i)) = ks ! i" if "i < nat (ns - 8)" for i
    using ints_bytes_low [of i "ks @ junk"] that ds(2,4) by (simp add: nth_append)
  have l: "nat ns - 8 = nat (ns - 8)" by simp
  have "map (\<lambda>i. sint (ints_bytes (ks @ junk) ! (4 * i))) [0..<nat (ns - 8)] = ks"
    using e ds(2) by (intro nth_equalityI) simp_all
  then have d: "described img h = take 8 ds @ ks"
    using h(3,4) sz(3) img l by (simp add: described_def)
  have v: "valid_sector k" if "k \<in> set (ds @ ks)" for k
    using bspec [OF ds(4) that] by (simp add: valid_sector_def disk_consts)
  have sub: "set (take 8 ds @ ks) \<subseteq> set (ds @ ks)" using set_take_subset [of 8 ds] by auto
  have d8: "ds = take 8 ds @ [ds ! 8]" using ds(1) take_Suc_conv_app_nth [of 8 ds] by simp
  then have "distinct ((take 8 ds @ [ds ! 8]) @ ks)" using ds(3) by simp
  then have di: "distinct (take 8 ds @ ks)" "ds ! 8 \<notin> set (take 8 ds @ ks)" by auto
  have m8: "ds ! 8 \<in> set (ds @ ks)" using ds(1) by simp
  have "\<forall>k \<in> set (take 8 ds @ ks). valid_sector k" "sectorNumber h \<notin> set (take 8 ds @ ks)" "valid_sector (ds ! 8)"
    using sub v sec(2) m8 by blast+
  moreover have "ds ! 8 \<noteq> sectorNumber h" using sec(2) m8 by metis
  ultimately show "mapped img h (take 8 ds @ ks)" using h sz sec(1) d di unfolding mapped_def by simp
  have "set (ds @ ks) = insert (ds ! 8) (set (take 8 ds @ ks))" by (subst d8) auto
  moreover have "\<forall>k \<in> set (take 8 ds @ ks). 0 \<le> k" using ds(4) sub by blast
  then have "int ` nat ` set (take 8 ds @ ks) = set (take 8 ds @ ks)" unfolding image_image by (intro image_cong [THEN trans, OF refl _ image_ident]) simp
  moreover have "int (nat (ds ! 8)) = ds ! 8" using bspec [OF ds(4) m8] by simp
  ultimately show "int ` file_area h (take 8 ds @ ks) = set (ds @ ks)"
    using h(3,4) sz(3) by (simp add: file_area_def image_Un)
qed

text \<open>Enough free sectors below 128: the allocation stays below 128.\<close>

lemma low_sectors:
  fixes M :: "int set" and xs :: "int list"
  assumes "\<forall>k \<in> set xs. {0..<k} \<subseteq> M \<union> set xs" "card (M \<inter> {0..<128}) + length xs \<le> 128" "k \<in> set xs"
  shows "k < 128"
proof (rule ccontr)
  assume "\<not> k < 128"
  then have "{0..<128} \<subseteq> {0..<k}" by auto
  then have "{0..<128} \<subseteq> M \<union> set xs" using assms(1,3) by blast
  then have "{0..<128} \<subseteq> (M \<inter> {0..<128}) \<union> (set xs - {k})" using \<open>\<not> k < 128\<close> by auto
  then have "card {0..<128 :: int} \<le> card ((M \<inter> {0..<128}) \<union> (set xs - {k}))" by (intro card_mono) auto
  also have "\<dots> \<le> card (M \<inter> {0..<128}) + card (set xs - {k})" by (rule card_Un_le)
  also have "card (set xs - {k}) < card (set xs)" using assms(3) by (intro card_Diff1_less) auto
  then have "card (M \<inter> {0..<128}) + card (set xs - {k}) < card (M \<inter> {0..<128}) + length xs" using card_length [of xs] by linarith
  finally show False using assms(2) by simp
qed

lemma low_room:
  assumes "bm_wf bm" "numBits bm = 1024" "card (bm_marked bm \<inter> {0..<128}) + m \<le> 128"
  shows "m \<le> card (free_sectors bm)"
proof -
  have "{0..<128} - bm_marked bm \<inter> {0..<128} \<subseteq> free_sectors bm" using assms(2) by (auto simp: free_sectors_def)
  then have "card ({0..<128} - bm_marked bm \<inter> {0..<128}) \<le> card (free_sectors bm)" by (intro card_mono) (simp_all add: free_sectors_def)
  moreover have "card ({0..<128} - bm_marked bm \<inter> {0..<128}) = 128 - card (bm_marked bm \<inter> {0..<128})" by (subst card_Diff_subset) auto
  ultimately show ?thesis using assms(3) by linarith
qed

section \<open>Creating a large file\<close>

lemma create_large_file:
  assumes ok: "fsys_ok w" and sz: "1024 < n" "n \<le> 5120" and ns: "ns = divRoundUp n SectorSize"
    and nm: "length (drop (Suc (first_dot name)) name) \<le> 4"
    and bm: "bm_wf bm" "numBits bm = 1024" "bm_marked bm = insert sec (bm_marked (root_map w))"
    and sec: "0 \<le> sec" "sec < 1024" "sec \<notin> bm_marked (root_map w)"
    and low: "card (bm_marked (root_map w) \<inter> {0..<128}) + nat ns + 2 \<le> 128"
    and f: "file_ok (hdr f)" "same_layout (hdr (directoryFile w)) (hdr f)"
    and d: "dir_ok d" "length d = 10" "lookup d [46] = Some 1"
  shows "\<exists>w' f' h0 img ds ks junk. create_file name n sec d f bm w = Inr (w', f', True) \<and> creation sec h0 img (root_map w') w w' \<and> root_dir w' = d \<and>
    sectorNumber (hdr f') = 1 \<and> numBytes h0 = n \<and> numSectors h0 = ns \<and> dataSectors h0 = ds \<and>
    length ds = 9 \<and> length ks = nat (ns - 8) \<and> distinct (ds @ ks) \<and> (\<forall>k \<in> set (ds @ ks). 0 \<le> k \<and> k < 128) \<and>
    set (ds @ ks) \<inter> bm_marked bm = {} \<and> img = (image w)(nat (ds ! 8) := ints_bytes (ks @ junk)) \<and>
    bm_marked (root_map w') = bm_marked bm \<union> set (ds @ ks)"
proof -
  note D = fsys_okD [OF ok]
  have sd: "sd_ok w" and junk: "length (fresh_stack w) = 32" using D(1) by (simp_all add: fs_ok_def)
  have "n \<le> ns * 128" "ns * 128 < n + 128" using divRoundUp_bounds [of n 128] sz by (simp_all add: ns SectorSize_def)
  then have n9: "9 \<le> ns" "ns \<le> 40" using sz by linarith+
  have "card (bm_marked bm \<inter> {0..<128}) \<le> Suc (card (bm_marked (root_map w) \<inter> {0..<128}))"
    unfolding bm(3) by (simp add: Int_insert_left card_insert_if)
  then have low': "card (bm_marked bm \<inter> {0..<128}) + (nat ns + 1) \<le> 128" using low by linarith
  have en: "ns + 1 \<le> int (card (free_sectors bm))" using low_room [OF bm(1,2) low'] n9 by linarith
  have hl: "length (dataSectors (new_header w)) = nat NumDirect" using new_header_ok [of w] by (simp add: hdr_ok_def)
  obtain wa bm' ds ks where al: "Allocate (fresh_stack w) bm n (new_header w) w =
      Inr (wa, bm', (new_header w)\<lparr>numBytes := n, numSectors := ns, dataSectors := ds\<rparr>, True)" "sd_ok wa" "sd_frame w wa"
    "length ds = 9" "length ks = nat (ns - 8)" "distinct (ds @ ks)" "set (ds @ ks) \<subseteq> free_sectors bm" "bm_wf bm'" "numBits bm' = 1024"
    "bm_marked bm' = bm_marked bm \<union> set (ds @ ks)" "image wa = (image w)(nat (ds ! 8) := ints_bytes (ks @ drop (nat (ns - 8)) (fresh_stack w)))"
    "\<forall>k \<in> set (ds @ ks). {0..<k} \<subseteq> bm_marked bm'"
    using Allocate_indirect_ok [OF bm(1) _ hl junk ns n9 en sd] bm(2) by (auto simp: disk_consts)
  let ?h = "(new_header w)\<lparr>numBytes := n, numSectors := ns, dataSectors := ds\<rparr>"
  have range: "0 \<le> k" "k \<notin> bm_marked bm" if "k \<in> set (ds @ ks)" for k using al(7) that by (auto simp: free_sectors_def)
  have lw: "k < 128" if "k \<in> set (ds @ ks)" for k
    using low_sectors [of "ds @ ks" "bm_marked bm" k] al(10,12) low' al(4,5) n9 that by simp
  have m8: "ds ! 8 \<in> set (ds @ ks)" using al(4) by simp
  have "fits32 z" if "z \<in> set ds" for z using lw [of z] range(1) [of z] that by (simp add: fits32_def)
  then have hh: "hdr_ok ?h" "hdr_ok (?h\<lparr>sectorNumber := sec\<rparr>)"
    using new_header_ok [of w] al(4) sz n9 sec(1,2) by (simp_all add: hdr_ok_def NumDirect_def fits32_def)
  have chg: "int x \<notin> bm_marked (root_map w)" if "image wa x \<noteq> image w x" for x
    using that range [OF m8] bm(3) unfolding al(11) by (cases "x = nat (ds ! 8)") auto
  have sub: "bm_marked (root_map w) \<subseteq> bm_marked bm'" using al(10) bm(3) by auto
  obtain w' f' where c: "create_file name n sec d f bm w = Inr (w', f', True)" "creation sec ?h (image wa) bm' w w'" "root_dir w' = d"
    "sectorNumber (hdr f') = 1"
    using create_file_with [OF ok nm sec al(1,8,9) sub hh(2,1) al(2,3) chg f d] by blast
  have "root_map w' = bm'" using c(2) by (simp add: creation_def)
  then show ?thesis using c al(4-6,10,11) range lw
    by (intro exI [of _ w'] exI [of _ f'] exI [of _ ?h] exI [of _ "image wa"] exI [of _ ds] exI [of _ ks]
        exI [of _ "drop (nat (ns - 8)) (fresh_stack w)"]) auto
qed

text \<open>What a successful \<^verbatim>\<open>Create\<close> does, for files of any admissible size: a new file in sectors that were free, and no other sector outside the
  two system files is touched.\<close>

definition created :: "int \<Rightarrow> int \<Rightarrow> int list \<Rightarrow> 'a filesys_sim_scheme \<Rightarrow> 'a filesys_sim_scheme \<Rightarrow> bool" where
  "created n sec B w w' \<longleftrightarrow> (let h = bytes_hdr (image w' (nat sec)); S = insert (nat sec) (file_area h B) in
     fsys_ok w' \<and> mapped (image w') h B \<and> sectorNumber h = sec \<and> numBytes h = n \<and> 2 \<le> sec \<and> sec < 1024 \<and>
     int ` S \<inter> bm_marked (root_map w) = {} \<and> bm_marked (root_map w') = bm_marked (root_map w) \<union> int ` S \<and>
     (\<forall>x. x \<notin> S \<and> x \<notin> system_area w \<longrightarrow> image w' x = image w x) \<and> vis_num w' = vis_num w \<and>
     same_layout (hdr (freeMapFile w)) (hdr (freeMapFile w')) \<and> same_layout (hdr (directoryFile w)) (hdr (directoryFile w')))"

lemma Create_large:
  assumes ok: "fsys_ok w" and nm: "plain_name name" "length (drop (Suc (first_dot name)) name) \<le> 4" and sz: "1024 < n" "n \<le> 5120"
    and room: "lookup (root_dir w) (take 20 name) = None" "card (dom (lookup (root_dir w))) < 10"
    and low: "card (bm_marked (root_map w) \<inter> {0..<128}) + nat (divRoundUp n SectorSize) + 2 \<le> 128"
  shows "\<exists>w' sec B. Create name n w = Inr (w', True) \<and> created n sec B w w' \<and>
    lookup (root_dir w') = (lookup (root_dir w))(take 20 name \<mapsto> sec)"
proof -
  define ns where "ns = divRoundUp n SectorSize"
  have "n \<le> ns * 128" "ns * 128 < n + 128" using divRoundUp_bounds [of n 128] sz by (simp_all add: ns_def SectorSize_def)
  then have n9: "9 \<le> ns" "ns \<le> 40" using sz by linarith+
  have free: "bm_marked (root_map w) \<noteq> {0..<1024}"
  proof
    assume "bm_marked (root_map w) = {0..<1024}"
    then have "bm_marked (root_map w) \<inter> {0..<128} = {0..<128}" by auto
    then show False using low by simp
  qed
  define A where "A = (\<lambda>sec (h0 :: FileHeader) (img0 :: nat \<Rightarrow> sector) img bm. \<exists>ds ks junk. numBytes h0 = n \<and> numSectors h0 = ns \<and> dataSectors h0 = ds \<and>
    length ds = 9 \<and> length ks = nat (ns - 8) \<and> distinct (ds @ ks) \<and> (\<forall>k \<in> set (ds @ ks). 0 \<le> k \<and> k < 128) \<and>
    set (ds @ ks) \<inter> insert sec (bm_marked (root_map w)) = {} \<and> img = img0(nat (ds ! 8) := ints_bytes (ks @ junk)) \<and>
    bm_marked bm = insert sec (bm_marked (root_map w)) \<union> set (ds @ ks))"
  have step: "\<exists>v' f' h0 img. create_file name n sec d f bm v = Inr (v', f', True) \<and> creation sec h0 img (root_map v') v v' \<and> root_dir v' = d \<and>
       sectorNumber (hdr f') = 1 \<and> A sec h0 (image v) img (root_map v')"
    if v: "fsys_ok v" "root_map v = root_map w" "0 \<le> sec" "sec < 1024" "sec \<notin> bm_marked (root_map w)"
      "{0..<sec} \<subseteq> bm_marked (root_map w)" "bm_wf bm" "numBits bm = 1024" "bm_marked bm = insert sec (bm_marked (root_map w))"
      "file_ok (hdr f)" "same_layout (hdr (directoryFile v)) (hdr f)" "dir_ok d" "length d = 10" "lookup d [46] = Some 1" for v bm sec f d
  proof -
    have p: "bm_marked bm = insert sec (bm_marked (root_map v))" "sec \<notin> bm_marked (root_map v)"
      "card (bm_marked (root_map v) \<inter> {0..<128}) + nat ns + 2 \<le> 128" using v(2,5,9) low by (simp_all add: ns_def)
    from create_large_file [OF v(1) sz ns_def nm(2) v(7,8) p(1) v(3,4) p(2,3) v(10-14)]
    show ?thesis unfolding A_def v(9) by blast
  qed
  obtain w' sec h0 img0 img where c: "Create name n w = Inr (w', True)" "creation sec h0 img (root_map w') w w'"
    "lookup (root_dir w') = (lookup (root_dir w))(take 20 name \<mapsto> sec)" "A sec h0 img0 img (root_map w')"
    "\<forall>x. x \<noteq> 0 \<and> x \<noteq> 1 \<longrightarrow> img0 x = image w x" "2 \<le> sec" "sec < 1024" "sec \<notin> bm_marked (root_map w)"
    using Create_with [where A = A, OF ok nm(1) _ room free step] sz(1) by fastforce
  note C = c(2) [unfolded creation_def]
  obtain ds ks junk where A: "numBytes h0 = n" "numSectors h0 = ns" "dataSectors h0 = ds"
    "length ds = 9" "length ks = nat (ns - 8)" "distinct (ds @ ks)" "\<forall>k \<in> set (ds @ ks). 0 \<le> k \<and> k < 128"
    "set (ds @ ks) \<inter> insert sec (bm_marked (root_map w)) = {}" "img = img0(nat (ds ! 8) := ints_bytes (ks @ junk))"
    "bm_marked (root_map w') = insert sec (bm_marked (root_map w)) \<union> set (ds @ ks)" using c(4) unfolding A_def by blast
  define h where "h = bytes_hdr (image w' (nat sec))"
  define B where "B = take 8 ds @ ks"
  have lay: "same_layout (h0\<lparr>sectorNumber := sec\<rparr>) h" "hdr_ok h" using C by (simp_all add: h_def)
  then have hs: "numBytes h = n" "numSectors h = ns" "dataSectors h = ds" "sectorNumber h = sec" using A by (simp_all add: same_layout_def)
  have m8: "ds ! 8 \<in> set (ds @ ks)" using A(4) by simp
  then have r8: "0 \<le> ds ! 8" "ds ! 8 \<noteq> sec" "ds ! 8 \<notin> bm_marked (root_map w)" using A(7,8) by auto
  then have "nat (ds ! 8) \<noteq> nat sec" "nat (ds ! 8) \<notin> system_area w" using c(6) system_area_marked [OF ok, of "nat (ds ! 8)"] by auto
  then have i8: "image w' (nat (ds ! 8)) = ints_bytes (ks @ junk)" using C A(9) by simp
  have vs: "valid_sector (sectorNumber h)" using hs(4) c(6,7) by (simp add: valid_sector_def disk_consts)
  have ns0: "sectorNumber h \<notin> set (ds @ ks)" using hs(4) A(8) by auto
  note M = indirect_mapped [where img = "image w'", OF lay(2) hs(1-3) _ ns_def n9 A(4-7) vs ns0 i8, folded B_def]
  have m: "mapped (image w') h B" "int ` file_area h B = set (ds @ ks)" using M sz by simp_all
  let ?S = "insert (nat sec) (file_area h B)"
  have S: "int ` ?S = insert sec (set (ds @ ks))" using m(2) c(6) by simp
  have "image w' x = image w x" if "x \<notin> ?S" "x \<notin> system_area w" for x
  proof -
    have "int x \<notin> int ` ?S" using that(1) by auto
    then have "x \<noteq> nat (ds ! 8)" using S m8 r8(1) by auto
    moreover have "x \<noteq> 0" "x \<noteq> 1" using that(2) by (auto simp: system_area_def)
    ultimately show ?thesis using C A(9) c(5) that by simp
  qed
  then have "created n sec B w w'" using C m(1) hs c(6-8) A(8,10) S unfolding created_def Let_def h_def [symmetric] by auto
  then show ?thesis using c(1,3) by blast
qed

end
