(* ===== verification/Nachos_Swap.thy ===== *)
theory Nachos_Swap
  imports Nachos_Paging Nachos_Large
begin

text \<open>
  Demand paging. The pages of a program are in frames of main memory or in the file \<^verbatim>\<open>virtual_memory\<close>; a
  page fault moves one. Together they are one flat memory, which page faults do not change and which
  \<^verbatim>\<open>ReadMem\<close> and \<^verbatim>\<open>WriteMem\<close> read and write: the specification the paging code implements.
\<close>

section \<open>The swap file\<close>

text \<open>The file in the root directory with its header in sector \<open>sec\<close> and its blocks \<open>B\<close>, apart from the system's own sectors.\<close>

definition swap_hdr :: "int \<Rightarrow> 'a filesys_sim_scheme \<Rightarrow> FileHeader" where
  "swap_hdr sec s = bytes_hdr (image s (nat sec))"

definition swap_sectors :: "int \<Rightarrow> int list \<Rightarrow> 'a filesys_sim_scheme \<Rightarrow> nat set" where
  "swap_sectors sec B s = insert (nat sec) (file_area (swap_hdr sec s) B)"

definition swap_ok :: "int \<Rightarrow> int list \<Rightarrow> int \<Rightarrow> 'a filesys_sim_scheme \<Rightarrow> bool" where
  "swap_ok sec B n s \<longleftrightarrow> fsys_ok s \<and> lookup (root_dir s) vm_name = Some sec \<and> 2 \<le> sec \<and> sec < 1024 \<and>
     mapped (image s) (swap_hdr sec s) B \<and> sectorNumber (swap_hdr sec s) = sec \<and> numBytes (swap_hdr sec s) = n \<and>
     swap_sectors sec B s \<inter> system_area s = {}"

definition swap_bytes :: "int list \<Rightarrow> int \<Rightarrow> 'a filesys_sim_scheme \<Rightarrow> byte list" where
  "swap_bytes B n s = content (image s) B n"

lemma vm_name_plain: "plain_name vm_name" "take 20 vm_name = vm_name"
  by (simp_all add: vm_name_def plain_name_def slash_def)

lemma swap_okD:
  assumes "swap_ok sec B n s"
  shows "fsys_ok s" "fs_ok s" "mapped (image s) (swap_hdr sec s) B" "sectorNumber (swap_hdr sec s) = sec" "numBytes (swap_hdr sec s) = n"
    "2 \<le> sec" "sec < 1024" "length (vis_num s) = 1024" "nat sec \<notin> system_area s" "nat k \<in> system_area s \<Longrightarrow> k \<notin> set B"
    "8 < numSectors (swap_hdr sec s) \<Longrightarrow> nat (dataSectors (swap_hdr sec s) ! 8) \<notin> system_area s"
  using assms by (auto simp: swap_ok_def swap_sectors_def file_area_def fsys_ok_def)

text \<open>An access that changes only the header and the blocks of the file.\<close>

lemma swap_ok_access:
  assumes ok: "swap_ok sec B n s" and s': "fs_ok s'" "fs_frame s s'"
    and h': "mapped (image s') h' B" "same_layout (swap_hdr sec s) h'" "image s' (nat sec) = hdr_bytes h'"
    and img: "\<And>x. x \<noteq> nat sec \<Longrightarrow> x \<notin> nat ` set B \<Longrightarrow> image s' x = image s x"
  shows "swap_ok sec B n s' \<and> swap_hdr sec s' = h'"
proof -
  note D = swap_okD [OF ok]
  have hd: "swap_hdr sec s' = h'" using h'(3) bytes_hdr_bytes [OF mappedD(1) [OF h'(1)]] by (simp add: swap_hdr_def)
  have fr: "freeMapFile s' = freeMapFile s" "directoryFile s' = directoryFile s" "vis_num s' = vis_num s"
    using s'(2) more_filesys [of s' s] by (simp_all add: fs_frame_def)
  have area: "image s' x = image s x" if "x \<in> system_area s" for x
    using img [of x] that D(9) D(10) by (auto simp: image_iff)
  note F = fsys_okD [OF D(1)]
  have o: "fsys_ok s'" "root_map s' = root_map s" "root_dir s' = root_dir s"
    using fsys_ok_outside [OF D(1) s'(1)] fr D(8) F(4) file_okD(1) [OF F(6)] file_okD(1) [OF F(9)] area
    by (simp_all add: headers_ok_def system_area_def)
  have lay: "numSectors h' = numSectors (swap_hdr sec s)" "dataSectors h' = dataSectors (swap_hdr sec s)"
    "sectorNumber h' = sec" "numBytes h' = n" using h'(2) D(4,5) by (simp_all add: same_layout_def)
  then have "swap_sectors sec B s' = swap_sectors sec B s" by (simp add: swap_sectors_def file_area_def hd)
  then have "swap_ok sec B n s'"
    using ok o(1,3) h'(1) lay fr unfolding swap_ok_def hd system_area_def by metis
  then show ?thesis using hd by simp
qed

lemma swap_open:
  assumes "swap_ok sec B n s"
  shows "\<exists>s'. Open vm_name s = Inr (s', Some \<lparr>hdr = swap_hdr sec s, seekPosition = 0\<rparr>) \<and> swap_ok sec B n s' \<and>
    swap_hdr sec s' = swap_hdr sec s \<and> swap_bytes B n s' = swap_bytes B n s"
proof -
  note D = swap_okD [OF assms]
  have lk: "lookup (root_dir s) (take 20 vm_name) = Some sec" using assms vm_name_plain(2) by (simp add: swap_ok_def)
  obtain s' where o: "Open vm_name s = Inr (s', Some \<lparr>hdr = swap_hdr sec s, seekPosition = 0\<rparr>)" "fsys_ok s'" "kept s s'"
    using Open_at [OF D(1) vm_name_plain(1) lk _ D(6,7)] D(4) by (auto simp: swap_hdr_def)
  have k: "root_dir s' = root_dir s" "\<And>x. x \<noteq> 0 \<Longrightarrow> x \<noteq> 1 \<Longrightarrow> image s' x = image s x"
    "sectors_of (hdr (freeMapFile s')) = sectors_of (hdr (freeMapFile s))" "sectors_of (hdr (directoryFile s')) = sectors_of (hdr (directoryFile s))"
    using o(3) sectors_of_layout by (auto simp: kept_def)
  have img: "image s' x = image s x" if "x \<notin> system_area s" for x using k(2) that by (auto simp: system_area_def)
  have hd: "swap_hdr sec s' = swap_hdr sec s" using img [OF D(9)] by (simp add: swap_hdr_def)
  have m: "mapped (image s') (swap_hdr sec s) B" using D(3) img D(11) by (auto intro: mapped_image)
  have "swap_sectors sec B s' = swap_sectors sec B s" "system_area s' = system_area s"
    using hd k(3,4) by (simp_all add: swap_sectors_def file_area_def system_area_def)
  then have "swap_ok sec B n s'" using assms o(2) k(1) m hd unfolding swap_ok_def by metis
  moreover have "gbyte (image s') B p = gbyte (image s) B p" if "p < nat n" for p
  proof -
    have "p div 128 < length B" using byte_block [OF D(3)] that D(5) mappedD(8) [OF D(3)] by auto
    then have "nat (B ! (p div 128)) \<notin> system_area s" using D(10) nth_mem by blast
    then show ?thesis using img by (simp add: gbyte_def)
  qed
  then have "swap_bytes B n s' = swap_bytes B n s" by (simp add: swap_bytes_def content_def)
  ultimately show ?thesis using o(1) hd by blast
qed

lemma swap_read:
  assumes "swap_ok sec B n s" "hdr f = swap_hdr sec s" "0 \<le> p" "p + 128 \<le> n"
  shows "\<exists>s' f'. ReadAt PageSize p f s = Inr (s', f', take 128 (drop (nat p) (swap_bytes B n s))) \<and>
    swap_ok sec B n s' \<and> hdr f' = swap_hdr sec s' \<and> swap_bytes B n s' = swap_bytes B n s"
proof -
  note D = swap_okD [OF assms(1)]
  obtain s' f' where r: "ReadAt 128 p f s = Inr (s', f', take (nat 128) (drop (nat p) (content (image s) B n)))"
    "fs_ok s'" "fs_frame s s'" "mapped (image s') (hdr f') B" "same_file f f'"
    "content (image s') B (numBytes (hdr f')) = content (image s) B n" "image s' = (image s)(nat sec := hdr_bytes (hdr f'))"
    using ReadAt_mapped [of s f B 128 p] small_request [of "image s" "hdr f" B p 128] D assms(2-4) by auto
  have lay: "same_layout (swap_hdr sec s) (hdr f')" using r(5) assms(2) by (simp add: same_file_layout)
  have "swap_ok sec B n s' \<and> swap_hdr sec s' = hdr f'"
    by (rule swap_ok_access [OF assms(1) r(2-4) lay]) (simp_all add: r(7))
  moreover have "numBytes (hdr f') = n" using lay D(5) by (simp add: same_layout_def)
  ultimately show ?thesis using r(1,6) by (auto simp: swap_bytes_def machine_consts)
qed

lemma swap_write:
  assumes "swap_ok sec B n s" "hdr f = swap_hdr sec s" "0 \<le> p" "p + 128 \<le> n" "length bs = 128"
  shows "\<exists>s' f' k. WriteAt bs PageSize p f s = Inr (s', f', k) \<and> swap_ok sec B n s' \<and> hdr f' = swap_hdr sec s' \<and>
    swap_bytes B n s' = take (nat p) (swap_bytes B n s) @ bs @ drop (nat p + 128) (swap_bytes B n s)"
proof -
  note D = swap_okD [OF assms(1)]
  obtain s' f' where r: "WriteAt bs 128 p f s = Inr (s', f', 128)" "fs_ok s'" "fs_frame s s'" "mapped (image s') (hdr f') B" "same_file f f'"
    "content (image s') B (numBytes (hdr f')) = take (nat p) (content (image s) B n) @ bs @ drop (nat p + 128) (content (image s) B n)"
    "image s' (nat sec) = hdr_bytes (hdr f')" "\<forall>x. x \<noteq> nat sec \<and> x \<notin> nat ` set B \<longrightarrow> image s' x = image s x"
    using WriteAt_mapped [of s f B p 128 bs] D assms(2-5) by auto
  have lay: "same_layout (swap_hdr sec s) (hdr f')" using r(5) assms(2) by (simp add: same_file_layout)
  have "swap_ok sec B n s' \<and> swap_hdr sec s' = hdr f'"
    by (rule swap_ok_access [OF assms(1) r(2-4) lay]) (use r(7,8) in auto)
  moreover have "numBytes (hdr f') = n" using lay D(5) by (simp add: same_layout_def)
  ultimately show ?thesis using r(1,6) by (auto simp: swap_bytes_def machine_consts)
qed

lemma swap_close:
  assumes "swap_ok sec B n s" "hdr f = swap_hdr sec s"
  shows "\<exists>v. OpenFile_delete f s = Inr (s\<lparr>vis_num := v\<rparr>) \<and> length v = 1024"
  using swap_okD(4,6-8) [OF assms(1)] assms(2) by (auto simp: OpenFile_delete_def)

lemma swap_ok_view:
  assumes "swap_ok sec B n s" "fs_ok s'" "image s' = image s" "length (vis_num s') = 1024"
    "freeMapFile s' = freeMapFile s" "directoryFile s' = directoryFile s"
  shows "swap_ok sec B n s'"
proof -
  have r: "root_map s' = root_map s" "root_dir s' = root_dir s" "swap_hdr sec s' = swap_hdr sec s" "system_area s' = system_area s"
    using assms(3,5,6) by (simp_all add: root_map_def root_dir_def swap_hdr_def system_area_def)
  have "fsys_ok s'" using swap_okD(1) [OF assms(1)] assms(2-6) r unfolding fsys_ok_def files_ok_def headers_ok_def contents_ok_def by metis
  moreover have "swap_sectors sec B s' = swap_sectors sec B s" using r(3) by (simp add: swap_sectors_def file_area_def)
  ultimately show ?thesis using assms(1,3) r unfolding swap_ok_def by metis
qed

lemma fs_ok_frames:
  "fs_ok s \<Longrightarrow> fs_ok (s\<lparr>vis_num := v\<rparr>)" "fs_ok s \<Longrightarrow> regs_ok m \<Longrightarrow> fs_ok (s\<lparr>mach := m\<rparr>)"
  by (simp_all add: fs_ok_def sd_ok_def calm_def mach_ok_def clock_ok_def disk_ok_def)

lemma swap_frames:
  assumes "swap_ok sec B n s"
  shows "length v = 1024 \<Longrightarrow> swap_ok sec B n (s\<lparr>vis_num := v\<rparr>)" "regs_ok m \<Longrightarrow> swap_ok sec B n (s\<lparr>mach := m\<rparr>)"
  using swap_ok_view [OF assms, of "s\<lparr>vis_num := v\<rparr>"] swap_ok_view [OF assms, of "s\<lparr>mach := m\<rparr>"] fs_ok_frames swap_okD(2,8) [OF assms] by auto

lemma swap_bytes_frames [simp]:
  "swap_bytes B n (s\<lparr>vis_num := v\<rparr>) = swap_bytes B n s" "swap_bytes B n (s\<lparr>mach := m\<rparr>) = swap_bytes B n s"
  "swap_bytes B n (setStatus st s) = swap_bytes B n s" "length (swap_bytes B n s) = nat n"
  by (simp_all add: swap_bytes_def setStatus_def)

lemma swap_size: "swap_ok sec B (N * 128) s \<Longrightarrow> N \<le> 40"
  using mappedD(4,6) [OF swap_okD(3)] swap_okD(5) by (metis mult_le_cancel_right order_trans zero_less_numeral linorder_not_less)

section \<open>Frames and pages\<close>

text \<open>
  Entry \<open>i\<close> of the page table describes frame \<open>i\<close>. A frame in use holds one page of the program, no two
  frames hold the same one, and a page that has not been written since it came in agrees with the file.
\<close>

definition frames_map :: "int \<Rightarrow> machine \<Rightarrow> nat \<Rightarrow> TranslationEntry list \<Rightarrow> byte list \<Rightarrow> bool" where
  "frames_map N m p pt c \<longleftrightarrow>
     tlb m = None \<and> pageTable m = Some p \<and> tables m p = Some pt \<and> length pt = 64 \<and> frames_ok (frames m) \<and> uint (pageTableSize m) = N \<and>
     (\<forall>i < 64. physicalPage (pt ! i) = of_nat i \<and> \<not> readOnly (pt ! i) \<and> (virtualPage (pt ! i) = -1 \<longrightarrow> \<not> dirty (pt ! i)) \<and>
        (virtualPage (pt ! i) \<noteq> -1 \<longrightarrow> frames m ! i \<noteq> 0 \<and> uint (virtualPage (pt ! i)) < N \<and>
          (\<not> dirty (pt ! i) \<longrightarrow> (\<forall>k < 128. mainMemory m (i * 128 + k) = c ! (unat (virtualPage (pt ! i)) * 128 + k))))) \<and>
     (\<forall>i < 64. \<forall>j < 64. virtualPage (pt ! i) = virtualPage (pt ! j) \<longrightarrow> virtualPage (pt ! i) \<noteq> -1 \<longrightarrow> i = j)"

text \<open>The memory the program sees.\<close>

definition flat :: "TranslationEntry list \<Rightarrow> (nat \<Rightarrow> byte) \<Rightarrow> byte list \<Rightarrow> nat \<Rightarrow> byte" where
  "flat pt mem c a = (case lookup_last pt (of_nat (a div 128)) of Some i \<Rightarrow> mem (i * 128 + a mod 128) | None \<Rightarrow> c ! a)"

definition user_mem :: "int list \<Rightarrow> int \<Rightarrow> 'a filesys_sim_scheme \<Rightarrow> nat \<Rightarrow> byte" where
  "user_mem B N s = flat (current_table (mach s)) (mainMemory (mach s)) (swap_bytes B (N * 128) s)"

lemma resident_iff:
  assumes "frames_map N m p pt c" "v \<noteq> -1"
  shows "lookup_last pt v = Some i \<longleftrightarrow> i < 64 \<and> virtualPage (pt ! i) = v"
proof
  have len: "length pt = 64" using assms(1) by (simp add: frames_map_def)
  assume "lookup_last pt v = Some i"
  then show "i < 64 \<and> virtualPage (pt ! i) = v" using len by (auto simp: lookup_last_def dest!: find_Some_mem)
next
  assume i: "i < 64 \<and> virtualPage (pt ! i) = v"
  have len: "length pt = 64" using assms(1) by (simp add: frames_map_def)
  have "virtualPage (pt ! k) \<noteq> v" if "i < k" "k < 64" for k
    using assms i that unfolding frames_map_def by (metis less_irrefl)
  then show "lookup_last pt v = Some i" using i len by (intro lookup_last_Some) auto
qed

lemma uint_unused: "uint (-1 :: u32) = 4294967295"
proof -
  have m: "(-1 :: u32) = 4294967295" by simp
  have "uint (4294967295 :: u32) = 4294967295" by simp
  then show ?thesis by (simp only: m)
qed

lemma page_word:
  fixes N :: int
  assumes "a < nat (N * 128)" "N \<le> 64"
  shows "unat (of_nat (a div 128) :: u32) = a div 128" "(of_nat (a div 128) :: u32) \<noteq> -1"
proof -
  have l: "a div 128 < 64" using assms by linarith
  then show u: "unat (of_nat (a div 128) :: u32) = a div 128" by (simp add: unat_of_nat)
  then have "uint (of_nat (a div 128) :: u32) = int (a div 128)" by (simp add: uint_nat)
  then show "(of_nat (a div 128) :: u32) \<noteq> -1" using uint_unused l by auto
qed

lemma page_unused: "uint (v :: u32) < N \<Longrightarrow> N \<le> 64 \<Longrightarrow> v \<noteq> -1"
  using uint_unused by auto

text \<open>A page comes into frame \<open>pos\<close>; what the frame held before is safe in the file.\<close>

definition load_page :: "nat \<Rightarrow> u32 \<Rightarrow> TranslationEntry list \<Rightarrow> TranslationEntry list" where
  "load_page pos v pt = pt[pos := (pt ! pos)\<lparr>valid := True, virtualPage := v, use := False, dirty := False, readOnly := False\<rparr>]"

lemma load_page_nth:
  "pos < length pt \<Longrightarrow> i < length pt \<Longrightarrow> load_page pos v pt ! i =
     (if i = pos then (pt ! pos)\<lparr>valid := True, virtualPage := v, use := False, dirty := False, readOnly := False\<rparr> else pt ! i)"
  by (simp add: load_page_def)

definition page_in ::
  "int \<Rightarrow> machine \<Rightarrow> machine \<Rightarrow> nat \<Rightarrow> nat \<Rightarrow> TranslationEntry list \<Rightarrow> TranslationEntry list \<Rightarrow> byte list \<Rightarrow> byte list \<Rightarrow> u32 \<Rightarrow> bool" where
  "page_in N m m' p pos pt pt' c c' v \<longleftrightarrow>
     frames_map N m p pt c \<and> N \<le> 64 \<and> uint v < N \<and> lookup_last pt v = None \<and> pos < 64 \<and>
     tlb m' = None \<and> pageTable m' = Some p \<and> tables m' p = Some pt' \<and> pageTableSize m' = pageTableSize m \<and>
     length pt' = 64 \<and> (\<forall>i < 64. i \<noteq> pos \<longrightarrow> pt' ! i = pt ! i) \<and> virtualPage (pt' ! pos) = v \<and> physicalPage (pt' ! pos) = of_nat pos \<and>
     \<not> dirty (pt' ! pos) \<and> \<not> readOnly (pt' ! pos) \<and>
     frames_ok (frames m') \<and> frames m' ! pos \<noteq> 0 \<and> (\<forall>i < 64. frames m ! i \<noteq> 0 \<longrightarrow> frames m' ! i \<noteq> 0) \<and>
     (\<forall>a < nat (N * 128). a div 128 \<noteq> unat (virtualPage (pt ! pos)) \<longrightarrow> c' ! a = c ! a) \<and>
     (virtualPage (pt ! pos) \<noteq> -1 \<longrightarrow>
        (\<forall>k < 128. c' ! (unat (virtualPage (pt ! pos)) * 128 + k) = mainMemory m (pos * 128 + k))) \<and>
     (\<forall>i. mainMemory m' i = (if pos * 128 \<le> i \<and> i < pos * 128 + 128 then c' ! (unat v * 128 + (i - pos * 128)) else mainMemory m i))"

lemma page_inD:
  assumes "page_in N m m' p pos pt pt' c c' v"
  shows "frames_map N m p pt c" "N \<le> 64" "uint v < N" "lookup_last pt v = None" "pos < 64"
    "tlb m' = None" "pageTable m' = Some p" "tables m' p = Some pt'" "pageTableSize m' = pageTableSize m"
    "length pt' = 64" "\<And>i. i < 64 \<Longrightarrow> i \<noteq> pos \<Longrightarrow> pt' ! i = pt ! i" "virtualPage (pt' ! pos) = v" "physicalPage (pt' ! pos) = of_nat pos"
    "\<not> dirty (pt' ! pos)" "\<not> readOnly (pt' ! pos)"
    "frames_ok (frames m')" "frames m' ! pos \<noteq> 0" "\<And>i. i < 64 \<Longrightarrow> frames m ! i \<noteq> 0 \<Longrightarrow> frames m' ! i \<noteq> 0"
    "\<And>a. a < nat (N * 128) \<Longrightarrow> a div 128 \<noteq> unat (virtualPage (pt ! pos)) \<Longrightarrow> c' ! a = c ! a"
    "\<And>k. virtualPage (pt ! pos) \<noteq> -1 \<Longrightarrow> k < 128 \<Longrightarrow> c' ! (unat (virtualPage (pt ! pos)) * 128 + k) = mainMemory m (pos * 128 + k)"
    "\<And>i. mainMemory m' i = (if pos * 128 \<le> i \<and> i < pos * 128 + 128 then c' ! (unat v * 128 + (i - pos * 128)) else mainMemory m i)"
  using assms unfolding page_in_def by blast+

lemma page_bound:
  fixes w :: u32
  assumes "uint w < N" "k < 128"
  shows "unat w * 128 + k < nat (N * 128)"
proof -
  have "uint w * 128 + int k < N * 128" using assms by linarith
  moreover have "int (unat w * 128 + k) = uint w * 128 + int k" by simp
  ultimately show ?thesis by linarith
qed

lemma frame_entry:
  assumes "frames_map N m p pt c" "i < 64"
  shows "physicalPage (pt ! i) = of_nat i" "\<not> readOnly (pt ! i)" "virtualPage (pt ! i) = -1 \<Longrightarrow> \<not> dirty (pt ! i)"
    "virtualPage (pt ! i) \<noteq> -1 \<Longrightarrow> frames m ! i \<noteq> 0" "virtualPage (pt ! i) \<noteq> -1 \<Longrightarrow> uint (virtualPage (pt ! i)) < N"
    "virtualPage (pt ! i) \<noteq> -1 \<Longrightarrow> \<not> dirty (pt ! i) \<Longrightarrow> k < 128 \<Longrightarrow> mainMemory m (i * 128 + k) = c ! (unat (virtualPage (pt ! i)) * 128 + k)"
    "j < 64 \<Longrightarrow> virtualPage (pt ! i) = virtualPage (pt ! j) \<Longrightarrow> virtualPage (pt ! i) \<noteq> -1 \<Longrightarrow> i = j"
  using assms unfolding frames_map_def by blast+

lemma page_in_new:
  assumes "page_in N m m' p pos pt pt' c c' v"
  shows "v \<noteq> -1" "i < 64 \<Longrightarrow> virtualPage (pt ! i) \<noteq> v"
proof -
  note P = page_inD [OF assms]
  show nv: "v \<noteq> -1" using page_unused [OF P(3,2)] .
  show "i < 64 \<Longrightarrow> virtualPage (pt ! i) \<noteq> v" using resident_iff [OF P(1) nv, of i] P(4) by auto
qed

lemma page_in_frame:
  assumes "page_in N m m' p pos pt pt' c c' v" "i < 64" "i \<noteq> pos" "k < 128"
  shows "mainMemory m' (i * 128 + k) = mainMemory m (i * 128 + k)"
proof -
  have "\<not> (pos * 128 \<le> i * 128 + k \<and> i * 128 + k < pos * 128 + 128)" using assms(3,4) by linarith
  then show ?thesis unfolding page_inD(21) [OF assms(1)] by (simp only: if_False)
qed

lemma page_in_page:
  assumes "page_in N m m' p pos pt pt' c c' v" "i < 64" "i \<noteq> pos" "virtualPage (pt ! i) \<noteq> -1" "k < 128"
  shows "c' ! (unat (virtualPage (pt ! i)) * 128 + k) = c ! (unat (virtualPage (pt ! i)) * 128 + k)"
proof -
  note P = page_inD [OF assms(1)]
  have "virtualPage (pt ! i) \<noteq> virtualPage (pt ! pos)" using frame_entry(7) [OF P(1) assms(2) P(5)] assms by blast
  then have "unat (virtualPage (pt ! i)) \<noteq> unat (virtualPage (pt ! pos))" by (metis unsigned_word_eqI)
  moreover have "(unat (virtualPage (pt ! i)) * 128 + k) div 128 = unat (virtualPage (pt ! i))" using assms(5) by simp
  ultimately show ?thesis using P(19) page_bound [OF frame_entry(5) [OF P(1) assms(2,4)] assms(5)] by simp
qed

lemma page_in_map:
  assumes "page_in N m m' p pos pt pt' c c' v"
  shows "frames_map N m' p pt' c'"
proof -
  note P = page_inD [OF assms]
  have e: "physicalPage (pt' ! i) = of_nat i \<and> \<not> readOnly (pt' ! i) \<and> (virtualPage (pt' ! i) = -1 \<longrightarrow> \<not> dirty (pt' ! i)) \<and>
        (virtualPage (pt' ! i) \<noteq> -1 \<longrightarrow> frames m' ! i \<noteq> 0 \<and> uint (virtualPage (pt' ! i)) < N \<and>
          (\<not> dirty (pt' ! i) \<longrightarrow> (\<forall>k < 128. mainMemory m' (i * 128 + k) = c' ! (unat (virtualPage (pt' ! i)) * 128 + k))))" if i: "i < 64" for i
  proof (cases "i = pos")
    case True
    then show ?thesis using P(3,12-15,17) by (simp add: P(21))
  next
    case False
    then show ?thesis
      using frame_entry(1-6) [OF P(1) i] P(18) [OF i] page_in_frame [OF assms i False] page_in_page [OF assms i False] P(11) [OF i False] by auto
  qed
  have d: "i = j" if "i < 64" "j < 64" "virtualPage (pt' ! i) = virtualPage (pt' ! j)" "virtualPage (pt' ! i) \<noteq> -1" for i j
    using that P(11,12) page_in_new(2) [OF assms] frame_entry(7) [OF P(1), of i j] by metis
  have "uint (pageTableSize m') = N" using P(1,9) by (simp add: frames_map_def)
  then show ?thesis unfolding frames_map_def using P(6-8,10,16) e d by blast
qed

lemma page_in_resident:
  assumes "page_in N m m' p pos pt pt' c c' v"
  shows "lookup_last pt' v = Some pos"
  using resident_iff [OF page_in_map [OF assms] page_in_new(1) [OF assms]] page_inD(5,12) [OF assms] by simp

lemma page_in_flat:
  assumes "page_in N m m' p pos pt pt' c c' v" and a: "a < nat (N * 128)"
  shows "flat pt' (mainMemory m') c' a = flat pt (mainMemory m) c a"
proof -
  note P = page_inD [OF assms(1)]
  let ?w = "of_nat (a div 128) :: u32"
  note w = page_word [OF a P(2)]
  have ad: "unat ?w * 128 + a mod 128 = a" using w(1) by simp
  have am: "a mod 128 < 128" by simp
  note res = resident_iff [OF P(1) w(2)] and res' = resident_iff [OF page_in_map [OF assms(1)] w(2)]
  consider "?w = v" | "?w = virtualPage (pt ! pos)" "?w \<noteq> v" | "?w \<noteq> v" "?w \<noteq> virtualPage (pt ! pos)" by blast
  then show ?thesis
  proof cases
    case 1
    have "a div 128 \<noteq> unat (virtualPage (pt ! pos))" using page_in_new(2) [OF assms(1) P(5)] 1 w(1) by (metis unsigned_word_eqI)
    then have "c' ! a = c ! a" using P(19) [OF a] by blast
    moreover have "mainMemory m' (pos * 128 + a mod 128) = c' ! (unat ?w * 128 + a mod 128)"
      using P(21) [of "pos * 128 + a mod 128"] am 1 by simp
    ultimately show ?thesis unfolding flat_def 1 P(4) page_in_resident [OF assms(1)] using 1 ad by simp
  next
    case 2
    have "lookup_last pt ?w = Some pos" using res 2 P(5) by simp
    moreover have "lookup_last pt' ?w = None"
    proof (rule ccontr)
      assume "lookup_last pt' ?w \<noteq> None"
      then obtain i where "i < 64" "virtualPage (pt' ! i) = ?w" using res' by blast
      then show False using 2 P(11,12) frame_entry(7) [OF P(1), of i pos] P(5) w(2) by metis
    qed
    moreover have "c' ! a = mainMemory m (pos * 128 + a mod 128)" using P(20) [OF _ am] 2(1) w(2) ad by metis
    ultimately show ?thesis by (simp add: flat_def)
  next
    case 3
    have eq: "lookup_last pt' ?w = Some i \<longleftrightarrow> lookup_last pt ?w = Some i" for i
      unfolding res res' using 3 P(11,12) by metis
    have "a div 128 \<noteq> unat (virtualPage (pt ! pos))" using 3(2) w(1) by (metis unsigned_word_eqI)
    then have c: "c' ! a = c ! a" using P(19) [OF a] by blast
    show ?thesis
    proof (cases "lookup_last pt ?w")
      case None
      then have "lookup_last pt' ?w = None" using eq by (metis not_None_eq)
      with None c show ?thesis by (simp add: flat_def)
    next
      case (Some i)
      then have "i < 64 \<and> virtualPage (pt ! i) = ?w" using res by blast
      then have i: "i < 64" "i \<noteq> pos" using 3(2) by metis+
      have "lookup_last pt' ?w = Some i" using eq Some by blast
      with Some page_in_frame [OF assms(1) i am] show ?thesis by (simp add: flat_def)
    qed
  qed
qed

section \<open>Page faults\<close>

definition paged :: "int \<Rightarrow> int list \<Rightarrow> int \<Rightarrow> 'a filesys_sim_scheme \<Rightarrow> bool" where
  "paged sec B N s \<longleftrightarrow> swap_ok sec B (N * 128) s \<and>
     (\<exists>p. frames_map N (mach s) p (current_table (mach s)) (swap_bytes B (N * 128) s))"

lemma frames_map_table: "frames_map N m p pt c \<Longrightarrow> current_table m = pt"
  by (simp add: frames_map_def current_table_def)

lemma quiet_frames [simp]: "quiet (m\<lparr>frames := f\<rparr>) = quiet m" "quiet (m\<lparr>mainMemory := mm\<rparr>) = quiet m" "quiet (m\<lparr>tables := t\<rparr>) = quiet m"
  by (simp_all add: quiet_def)

lemma quiet_regs: "quiet m \<Longrightarrow> regs_ok m"
  by (simp add: quiet_def regs_ok_def)

text \<open>File operations on a quiet machine leave it as it is.\<close>

lemma quiet_ops:
  assumes "quiet (mach s)"
  shows "Open n s = Inr (s1, x) \<Longrightarrow> mach s1 = mach s" "ReadAt k q f s = Inr (s1, f1, bs) \<Longrightarrow> mach s1 = mach s"
    "WriteAt b k q f s = Inr (s1, f1, r) \<Longrightarrow> mach s1 = mach s"
  using returnsD [OF load_stable.Open_stable [OF quiet_stable [OF assms] refl]] returnsD [OF load_stable.ReadAt_stable [OF quiet_stable [OF assms] refl]]
    returnsD [OF load_stable.WriteAt_stable [OF quiet_stable [OF assms] refl]]
  by (metis fst_conv)+

lemma page_bytes_nth: "k < 128 \<Longrightarrow> page_bytes m 0 ! k = mainMemory m k" "length (page_bytes m 0) = 128"
  by (simp_all add: page_bytes_def machine_consts)

lemma find_victim_first:
  assumes "frames_map N m p pt c" "0 < N" "N \<le> 64"
  shows "find_victim (take (nat N) pt) 0 = (if dirty (pt ! 0) then Some 0 else None)"
proof -
  have "length pt = 64" using assms(1) by (simp add: frames_map_def)
  have none: "find_victim xs j = None" if "\<forall>e \<in> set xs. physicalPage e \<noteq> 0" for xs j
    using that by (induction xs j rule: find_victim.induct) auto
  have l: "length (take (nat N) pt) = nat N" using assms(2,3) \<open>length pt = 64\<close> by simp
  obtain e ys where y: "take (nat N) pt = e # ys" using l assms(2) by (cases "take (nat N) pt") auto
  have "take (nat N) pt ! 0 = pt ! 0" using assms(2) by simp
  then have ys: "take (nat N) pt = pt ! 0 # ys" "length ys = nat N - 1" using y l by simp_all
  have "\<forall>e \<in> set ys. physicalPage e \<noteq> 0"
  proof
    fix e assume "e \<in> set ys"
    then obtain i where i: "i < nat N - 1" "e = ys ! i" using ys(2) by (auto simp: in_set_conv_nth)
    then have "e = take (nat N) pt ! Suc i" using ys(1) by simp
    also have "\<dots> = pt ! Suc i" using i(1) by simp
    finally have "physicalPage e = of_nat (Suc i)" using frame_entry(1) [OF assms(1), of "Suc i"] i(1) assms(3) by simp
    moreover have "Suc i < 64" using i(1) assms(3) by linarith
    then have "unat (of_nat (Suc i) :: u32) = Suc i" by (simp add: unat_of_nat del: of_nat_Suc)
    ultimately show "physicalPage e \<noteq> 0" by (metis nat.distinct(1) unat_eq_zero)
  qed
  then show ?thesis using none [of ys] frame_entry(1) [OF assms(1), of 0] ys(1) by simp
qed

lemma page_pos:
  fixes v :: u32
  assumes "uint v < N" "N \<le> 64"
  shows "sint (v * word_of_int PageSize) = uint v * 128" "nat (uint v * 128) = unat v * 128"
proof -
  have b: "0 \<le> uint v" "uint v * 128 < 2 ^ 31" using assms by auto
  have "uint (v * 128) = uint v * 128 mod 2 ^ 32" by (simp add: uint_word_ariths)
  also have "\<dots> = uint v * 128" using b by (intro mod_pos_pos_trivial) auto
  finally have u: "uint (v * 128) = uint v * 128" .
  then have "sint (v * 128) = uint v * 128" using b(2) by (subst sint_eq_uint_small) simp_all
  then show "sint (v * word_of_int PageSize) = uint v * 128" by (simp add: machine_consts)
  show "nat (uint v * 128) = unat v * 128" by (simp add: nat_mult_distrib)
qed

definition safe_frame :: "int \<Rightarrow> nat \<Rightarrow> TranslationEntry list \<Rightarrow> machine \<Rightarrow> byte list \<Rightarrow> byte list \<Rightarrow> bool" where
  "safe_frame N pos pt m c c' \<longleftrightarrow> (\<forall>a < nat (N * 128). a div 128 \<noteq> unat (virtualPage (pt ! pos)) \<longrightarrow> c' ! a = c ! a) \<and>
     (virtualPage (pt ! pos) \<noteq> -1 \<longrightarrow> (\<forall>k < 128. c' ! (unat (virtualPage (pt ! pos)) * 128 + k) = mainMemory m (pos * 128 + k)))"

lemma clean_frame:
  "frames_map N m p pt c \<Longrightarrow> pos < 64 \<Longrightarrow> \<not> dirty (pt ! pos) \<Longrightarrow> safe_frame N pos pt m c c"
  using frame_entry(6) [of N m p pt c pos] by (auto simp: safe_frame_def)

lemma written_frame:
  fixes v :: u32
  assumes "uint v < N" "N \<le> 64" "length c = nat (N * 128)" "virtualPage (pt ! 0) = v"
  shows "safe_frame N 0 pt m c (take (unat v * 128) c @ page_bytes m 0 @ drop (unat v * 128 + 128) c)" (is "safe_frame N 0 pt m c ?c")
proof -
  have l: "unat v * 128 + 128 \<le> length c" using page_bound [OF assms(1), of 127] assms(3) by simp
  have "?c ! a = c ! a" if "a < nat (N * 128)" "a div 128 \<noteq> unat v" for a
  proof -
    have "a < unat v * 128 \<or> unat v * 128 + 128 \<le> a" using that(2) by linarith
    then show ?thesis using l that(1) assms(3) by (auto simp: nth_append page_bytes_nth(2) min_def)
  qed
  moreover have "?c ! (unat v * 128 + k) = mainMemory m k" if "k < 128" for k
    using l that by (simp add: nth_append page_bytes_nth min_def)
  ultimately show ?thesis using assms(4) by (simp add: safe_frame_def)
qed

lemma evict_safe:
  assumes sw: "swap_ok sec B (N * 128) s" and f: "hdr f = swap_hdr sec s" and q: "quiet (mach s)" and N: "0 < N"
    and fm: "frames_map N (mach s) p pt (swap_bytes B (N * 128) s)"
  shows "\<exists>s' f' pt'. evict f s = Inr (s', f') \<and> swap_ok sec B (N * 128) s' \<and> hdr f' = swap_hdr sec s' \<and>
    mach s' = (mach s)\<lparr>tables := (tables (mach s))(p \<mapsto> pt')\<rparr> \<and> (pt' = pt \<or> pt' = pt[0 := (pt ! 0)\<lparr>valid := False\<rparr>]) \<and>
    safe_frame N 0 pt (mach s) (swap_bytes B (N * 128) s) (swap_bytes B (N * 128) s')"
proof -
  let ?m = "mach s" and ?c = "swap_bytes B (N * 128) s"
  have N64: "N \<le> 64" using swap_size [OF sw] by simp
  have t: "get_table ?m = Inr (p, pt)" "length pt = 64" "uint (pageTableSize ?m) = N"
    using fm by (simp_all add: get_table_Inr frames_map_def)
  have u: "unat (pageTableSize ?m) = nat N" using t(3) by (simp add: unat_eq_nat_uint)
  note vic = find_victim_first [OF fm N N64]
  show ?thesis
  proof (cases "dirty (pt ! 0)")
    case False
    have "evict f s = Inr (s, f)" using t u N64 vic False by (simp add: evict_def)
    moreover have "(tables ?m)(p \<mapsto> pt) = tables ?m" using t(1) by (auto simp: get_table_Inr)
    then have "?m = ?m\<lparr>tables := (tables ?m)(p \<mapsto> pt)\<rparr>" by simp
    ultimately show ?thesis using sw f clean_frame [OF fm _ False] by (intro exI [of _ s] exI [of _ f] exI [of _ pt]) simp
  next
    case True
    define v where "v = virtualPage (pt ! 0)"
    have v: "uint v < N" using frame_entry(3,5) [OF fm, of 0] True by (auto simp: v_def)
    note pp = page_pos [OF v N64]
    have p0: "0 \<le> uint v * 128" "uint v * 128 + 128 \<le> N * 128" using v by auto
    obtain s1 f1 k where w: "WriteAt (page_bytes ?m 0) PageSize (uint v * 128) f s = Inr (s1, f1, k)" "swap_ok sec B (N * 128) s1"
      "hdr f1 = swap_hdr sec s1" "swap_bytes B (N * 128) s1 = take (unat v * 128) ?c @ page_bytes ?m 0 @ drop (unat v * 128 + 128) ?c"
      using swap_write [OF sw f p0 page_bytes_nth(2) [of ?m]] unfolding pp(2) by blast
    have m1: "mach s1 = ?m" using quiet_ops(3) [OF q w(1)] .
    let ?pt = "pt[0 := (pt ! 0)\<lparr>valid := False\<rparr>]"
    have "evict f s = Inr (set_table p ?pt s1, f1)"
      using t u N64 vic True w(1) m1 pp(1) by (simp add: evict_def v_def)
    moreover have "swap_ok sec B (N * 128) (set_table p ?pt s1)"
      using swap_frames(2) [OF w(2)] quiet_regs [OF q] m1 by (simp add: set_table_def regs_ok_def)
    moreover have "safe_frame N 0 pt ?m ?c (swap_bytes B (N * 128) s1)"
      unfolding w(4) by (rule written_frame [OF v N64]) (simp_all add: v_def)
    ultimately show ?thesis using w(3) m1
      by (intro exI [of _ "set_table p ?pt s1"] exI [of _ f1] exI [of _ ?pt]) (simp add: set_table_def swap_hdr_def)
  qed
qed

lemma find_frame:
  assumes "frames_ok fr"
  shows "\<exists>fr' found. Bitmap_find fr = Inr (fr', found) \<and> frames_ok fr' \<and>
    (found = -1 \<and> fr' = fr \<and> fr ! 0 \<noteq> 0 \<or> 0 \<le> found \<and> found < 64 \<and> fr ! nat found = 0 \<and> fr' = fr[nat found := 1])"
proof -
  consider "frames_used fr = {0..<NumPhysPages}" "bitmap_find_loop fr 0 = Inr (-1)"
    | k where "bitmap_find_loop fr 0 = Inr k" "0 \<le> k" "k < NumPhysPages" "k \<notin> frames_used fr"
    using bitmap_find_loop_ok [OF assms, of 0] by auto
  then show ?thesis
  proof cases
    case 1
    have "0 \<in> frames_used fr" unfolding 1(1) by (simp add: NumPhysPages_def)
    then show ?thesis using 1(2) assms by (simp add: Bitmap_find_def frames_used_def)
  next
    case 2
    then show ?thesis using assms by (auto simp: Bitmap_find_def frames_ok_def frames_used_def NumPhysPages_def)
  qed
qed

lemma frames_map_frames:
  assumes "frames_map N m p pt c" "frames_ok fr" "\<forall>i < 64. frames m ! i \<noteq> 0 \<longrightarrow> fr ! i \<noteq> 0"
  shows "frames_map N (m\<lparr>frames := fr\<rparr>) p pt c"
  using assms unfolding frames_map_def by auto

text \<open>The frame for the new page: a free one, or frame 0 after its page has been written back.\<close>

lemma take_frame:
  assumes sw: "swap_ok sec B (N * 128) s" and f: "hdr f = swap_hdr sec s" and q: "quiet (mach s)" and N: "0 < N"
    and fm: "frames_map N (mach s) p pt (swap_bytes B (N * 128) s)"
  shows "\<exists>fr found pos s' f' pt'. Bitmap_find (frames (mach s)) = Inr (fr, found) \<and> frames_ok fr \<and> pos < 64 \<and> int pos = (if found = -1 then 0 else found) \<and>
    (if found = -1 then evict f (s\<lparr>mach := (mach s)\<lparr>frames := fr\<rparr>\<rparr>) else Inr (s\<lparr>mach := (mach s)\<lparr>frames := fr\<rparr>\<rparr>, f)) = Inr (s', f') \<and>
    swap_ok sec B (N * 128) s' \<and> hdr f' = swap_hdr sec s' \<and> fr ! pos \<noteq> 0 \<and> (\<forall>i < 64. frames (mach s) ! i \<noteq> 0 \<longrightarrow> fr ! i \<noteq> 0) \<and>
    mach s' = (mach s)\<lparr>frames := fr, tables := (tables (mach s))(p \<mapsto> pt')\<rparr> \<and> (pt' = pt \<or> pos = 0 \<and> pt' = pt[0 := (pt ! 0)\<lparr>valid := False\<rparr>]) \<and>
    safe_frame N pos pt (mach s) (swap_bytes B (N * 128) s) (swap_bytes B (N * 128) s')"
proof -
  let ?m = "mach s"
  have t: "tables ?m p = Some pt" "frames_ok (frames ?m)" using fm by (simp_all add: frames_map_def)
  obtain fr found where fd: "Bitmap_find (frames ?m) = Inr (fr, found)" "frames_ok fr"
    "found = -1 \<and> fr = frames ?m \<and> frames ?m ! 0 \<noteq> 0 \<or> 0 \<le> found \<and> found < 64 \<and> frames ?m ! nat found = 0 \<and> fr = (frames ?m)[nat found := 1]"
    using find_frame [OF t(2)] by blast
  have len: "length (frames ?m) = 64" using t(2) by (simp add: frames_ok_def NumPhysPages_def)
  have "fr = frames ?m \<or> (\<exists>j < 64. fr = (frames ?m)[j := 1])" using fd(3) by (metis nat_less_iff of_nat_numeral)
  then have up: "\<forall>i < 64. frames ?m ! i \<noteq> 0 \<longrightarrow> fr ! i \<noteq> 0" using len by (metis nth_list_update one_neq_zero)
  let ?s = "s\<lparr>mach := ?m\<lparr>frames := fr\<rparr>\<rparr>"
  have sw': "swap_ok sec B (N * 128) ?s" "hdr f = swap_hdr sec ?s" "quiet (mach ?s)"
    using swap_frames(2) [OF sw] quiet_regs [OF q] f q by (simp_all add: regs_ok_def swap_hdr_def)
  show ?thesis
  proof (cases "found = -1")
    case True
    have fm': "frames_map N (mach ?s) p pt (swap_bytes B (N * 128) ?s)" using frames_map_frames [OF fm fd(2) up] by simp
    obtain s' f' pt' where e: "evict f ?s = Inr (s', f')" "swap_ok sec B (N * 128) s'" "hdr f' = swap_hdr sec s'"
      "mach s' = ?m\<lparr>frames := fr, tables := (tables ?m)(p \<mapsto> pt')\<rparr>" "pt' = pt \<or> pt' = pt[0 := (pt ! 0)\<lparr>valid := False\<rparr>]"
      "safe_frame N 0 pt ?m (swap_bytes B (N * 128) s) (swap_bytes B (N * 128) s')"
      using evict_safe [OF sw' N fm'] by (auto simp: safe_frame_def)
    show ?thesis
      by (intro exI [of _ fr] exI [of _ found] exI [of _ 0] exI [of _ s'] exI [of _ f'] exI [of _ pt'])
         (use True fd up e in auto)
  next
    case False
    then have k: "0 \<le> found" "nat found < 64" "frames ?m ! nat found = 0" "fr ! nat found \<noteq> 0"
      using fd(3) t(2) by (auto simp: frames_ok_def NumPhysPages_def)
    then have "\<not> dirty (pt ! nat found)" using frame_entry(3,4) [OF fm k(2)] by blast
    note safe = clean_frame [OF fm k(2) this]
    have "?m\<lparr>frames := fr\<rparr> = ?m\<lparr>frames := fr, tables := (tables ?m)(p \<mapsto> pt)\<rparr>" using t(1) by (auto simp: fun_upd_idem)
    then show ?thesis
      by (intro exI [of _ fr] exI [of _ found] exI [of _ "nat found"] exI [of _ ?s] exI [of _ f] exI [of _ pt])
         (use False fd(1,2) k up sw' safe in auto)
  qed
qed

lemma load_page_in:
  assumes fm: "frames_map N m p pt c" and v: "uint v < N" "N \<le> 64" "lookup_last pt v = None" and pos: "pos < 64"
    and fr: "frames_ok fr" "fr ! pos \<noteq> 0" "\<forall>i < 64. frames m ! i \<noteq> 0 \<longrightarrow> fr ! i \<noteq> 0"
    and m3: "m3 = m\<lparr>frames := fr, tables := (tables m)(p \<mapsto> pt3)\<rparr>" "pt3 = pt \<or> pos = 0 \<and> pt3 = pt[0 := (pt ! 0)\<lparr>valid := False\<rparr>]"
    and safe: "safe_frame N pos pt m c c'" and c': "length c' = nat (N * 128)"
  shows "\<exists>m'. map_page (int pos) v (fill_page (int pos) (take 128 (drop (unat v * 128) c')) m3) = Inr m' \<and> registers m' = registers m \<and>
    page_in N m m' p pos pt (load_page pos v pt3) c c' v"
proof -
  define bs where "bs = take 128 (drop (unat v * 128) c')"
  have "unat v * 128 + 128 \<le> length c'" using page_bound [OF v(1), of 127] c' by simp
  then have bs: "length bs = 128" "\<And>k. k < 128 \<Longrightarrow> bs ! k = c' ! (unat v * 128 + k)" by (auto simp: bs_def)
  have tb: "pageTable m = Some p" "tlb m = None" "length pt = 64" using fm by (simp_all add: frames_map_def)
  have lpt: "length pt3 = 64" "\<And>i. i \<noteq> pos \<Longrightarrow> pt3 ! i = pt ! i" "physicalPage (pt3 ! pos) = of_nat pos"
    using m3(2) tb(3) frame_entry(1) [OF fm pos] by (auto simp: nth_list_update)
  let ?m4 = "fill_page (int pos) bs m3" and ?pt = "load_page pos v pt3"
  have m4: "pageTable ?m4 = Some p" "tables ?m4 p = Some pt3" using tb(1) by (simp_all add: fill_page_def store_bytes_def m3(1))
  define m' where "m' = ?m4\<lparr>tables := (tables ?m4)(p \<mapsto> ?pt)\<rparr>"
  have "uint (word_of_int (int pos * 128) :: u32) = int pos * 128 mod 2 ^ 32" unfolding uint_word_of_int by simp
  also have "\<dots> = int (pos * 128)" using pos by (subst mod_pos_pos_trivial) auto
  finally have pu: "unat (word_of_int (int pos * 128) :: u32) = pos * 128" by (metis nat_int unat_eq_nat_uint)
  have f: "registers m' = registers m" "pageTable m' = Some p" "tables m' p = Some ?pt" "tlb m' = None" "frames m' = fr"
    "pageTableSize m' = pageTableSize m" using tb by (simp_all add: m'_def fill_page_def store_bytes_def m3(1))
  have "map_page (int pos) v ?m4 = Inr m'"
    using tb(1) lpt(1) pos m4 by (simp add: map_page_def get_table_def m'_def load_page_def)
  moreover have mem: "mainMemory m' i = (if pos * 128 \<le> i \<and> i < pos * 128 + 128 then c' ! (unat v * 128 + (i - pos * 128)) else mainMemory m i)" for i
  proof (cases "pos * 128 \<le> i \<and> i < pos * 128 + 128")
    case True
    then have "i - pos * 128 < 128" by linarith
    from bs(2) [OF this] True show ?thesis using bs(1) pu by (simp add: m'_def fill_page_def store_bytes_frame machine_consts m3(1))
  qed (use bs(1) pu in \<open>auto simp: m'_def fill_page_def store_bytes_frame machine_consts m3(1)\<close>)
  have e: "length ?pt = 64" "\<forall>i < 64. i \<noteq> pos \<longrightarrow> ?pt ! i = pt ! i" "virtualPage (?pt ! pos) = v" "physicalPage (?pt ! pos) = of_nat pos"
    "\<not> dirty (?pt ! pos)" "\<not> readOnly (?pt ! pos)" using lpt pos by (simp_all add: load_page_def)
  have fr': "frames_ok (frames m')" "frames m' ! pos \<noteq> 0" "\<forall>i < 64. frames m ! i \<noteq> 0 \<longrightarrow> frames m' ! i \<noteq> 0" using fr f(5) by simp_all
  have "page_in N m m' p pos pt ?pt c c' v"
    unfolding page_in_def
    by (intro conjI fm v pos f e fr' safe [unfolded safe_frame_def, THEN conjunct1] safe [unfolded safe_frame_def, THEN conjunct2])
       (rule allI, rule mem)
  ultimately show ?thesis using f(1) unfolding bs_def [symmetric] by blast
qed

lemma page_fault_paged:
  assumes pg: "paged sec B N s" and q: "quiet (mach s)" and va: "uint (registers (mach s) BadVAddrReg div 128) < N"
    and miss: "lookup_last (current_table (mach s)) (registers (mach s) BadVAddrReg div 128) = None"
  shows "\<exists>s'. page_fault s = Inr s' \<and> paged sec B N s' \<and> registers (mach s') = registers (mach s) \<and>
    lookup_last (current_table (mach s')) (registers (mach s) BadVAddrReg div 128) \<noteq> None \<and>
    (\<forall>a < nat (N * 128). user_mem B N s' a = user_mem B N s a)"
proof -
  let ?m = "mach s" and ?c = "swap_bytes B (N * 128)"
  define v where "v = registers ?m BadVAddrReg div 128"
  define pt where "pt = current_table ?m"
  obtain p where sw: "swap_ok sec B (N * 128) s" and fm: "frames_map N ?m p pt (?c s)" using pg by (auto simp: paged_def pt_def)
  have v: "uint v < N" "0 < N" "N \<le> 64" "lookup_last pt v = None"
    using va miss swap_size [OF sw] by (auto simp: v_def pt_def intro: le_less_trans [OF uint_ge_0])
  let ?f = "\<lparr>hdr = swap_hdr sec s, seekPosition = 0\<rparr>"
  obtain s1 where o: "Open vm_name s = Inr (s1, Some ?f)" "swap_ok sec B (N * 128) s1"
    "swap_hdr sec s1 = swap_hdr sec s" "?c s1 = ?c s" using swap_open [OF sw] by blast
  have m1: "mach s1 = ?m" using quiet_ops(1) [OF q o(1)] .
  have fm1: "frames_map N (mach s1) p pt (?c s1)" and hf: "hdr ?f = swap_hdr sec s1" using fm m1 o(3,4) by simp_all
  obtain fr found pos s3 f3 pt3 where t: "Bitmap_find (frames ?m) = Inr (fr, found)" "frames_ok fr" "pos < 64" "int pos = (if found = -1 then 0 else found)"
    "(if found = -1 then evict ?f (s1\<lparr>mach := ?m\<lparr>frames := fr\<rparr>\<rparr>) else Inr (s1\<lparr>mach := ?m\<lparr>frames := fr\<rparr>\<rparr>, ?f)) = Inr (s3, f3)"
    "swap_ok sec B (N * 128) s3" "hdr f3 = swap_hdr sec s3" "fr ! pos \<noteq> 0" "\<forall>i < 64. frames ?m ! i \<noteq> 0 \<longrightarrow> fr ! i \<noteq> 0"
    "mach s3 = ?m\<lparr>frames := fr, tables := (tables ?m)(p \<mapsto> pt3)\<rparr>" "pt3 = pt \<or> pos = 0 \<and> pt3 = pt[0 := (pt ! 0)\<lparr>valid := False\<rparr>]"
    "safe_frame N pos pt ?m (?c s) (?c s3)"
    using take_frame [OF o(2) hf q [folded m1] v(2) fm1] unfolding m1 o(4) by blast
  have q3: "quiet (mach s3)" using q by (simp add: t(10))
  note pp = page_pos [OF v(1,3)]
  have p0: "0 \<le> uint v * 128" "uint v * 128 + 128 \<le> N * 128" using v(1) by auto
  obtain s4 f4 where r: "ReadAt PageSize (uint v * 128) f3 s3 = Inr (s4, f4, take 128 (drop (unat v * 128) (?c s3)))"
    "swap_ok sec B (N * 128) s4" "hdr f4 = swap_hdr sec s4" "?c s4 = ?c s3"
    using swap_read [OF t(6,7) p0] unfolding pp(2) by blast
  have m4: "mach s4 = mach s3" using quiet_ops(2) [OF q3 r(1)] .
  obtain m' where m': "map_page (int pos) v (fill_page (int pos) (take 128 (drop (unat v * 128) (?c s3))) (mach s4)) = Inr m'"
    "registers m' = registers ?m" "page_in N ?m m' p pos pt (load_page pos v pt3) (?c s) (?c s3) v"
    using load_page_in [OF fm v(1,3,4) t(3,2,8,9,10,11,12)] m4 by auto
  have sw5: "swap_ok sec B (N * 128) (s4\<lparr>mach := m'\<rparr>)" "hdr f4 = swap_hdr sec (s4\<lparr>mach := m'\<rparr>)"
    using swap_frames(2) [OF r(2)] r(3) quiet_regs [OF q] m'(2) by (simp_all add: swap_hdr_def regs_ok_def)
  obtain vn where cl: "OpenFile_delete f4 (s4\<lparr>mach := m'\<rparr>) = Inr (s4\<lparr>mach := m', vis_num := vn\<rparr>)" "length vn = 1024" using swap_close [OF sw5] by auto
  let ?s' = "s4\<lparr>mach := m', vis_num := vn\<rparr>"
  have "page_fault s = Inr ?s'"
    using o(1) t(1,5) r(1) m'(1) cl(1) m1 pp(1) unfolding page_fault_def by (simp add: v_def [symmetric] machine_consts t(4) [symmetric])
  moreover note fm' = page_in_map [OF m'(3)] and tab = frames_map_table [OF page_in_map [OF m'(3)]]
  have "paged sec B N ?s'" using swap_frames(1) [OF sw5(1) cl(2)] fm' r(4) tab by (auto simp: paged_def)
  moreover have "user_mem B N ?s' a = user_mem B N s a" if "a < nat (N * 128)" for a
    using page_in_flat [OF m'(3) that] r(4) tab by (simp add: user_mem_def pt_def)
  ultimately show ?thesis using m'(2) page_in_resident [OF m'(3)] tab unfolding v_def [symmetric] by (intro exI [of _ ?s']) simp
qed

end
