(* ===== verification/Nachos_Demand.thy ===== *)
theory Nachos_Demand
  imports Nachos_Swap
begin

text \<open>
  Demand paging as a user program sees it: an access to a page in memory, an access that faults and is
  repeated, and the flat memory that both of them read and write.
\<close>

section \<open>Memory accesses\<close>

text \<open>An access to a resident page touches its entry and goes to its frame.\<close>

definition hit :: "nat \<Rightarrow> bool \<Rightarrow> TranslationEntry list \<Rightarrow> TranslationEntry list" where
  "hit i w pt = pt[i := (pt ! i)\<lparr>use := True, dirty := w \<or> dirty (pt ! i)\<rparr>]"

lemma hit_nth: "virtualPage (hit i w pt ! j) = virtualPage (pt ! j)" "physicalPage (hit i w pt ! j) = physicalPage (pt ! j)"
  "readOnly (hit i w pt ! j) = readOnly (pt ! j)" "length (hit i w pt) = length pt"
  "i < length pt \<Longrightarrow> dirty (hit i w pt ! j) = (j = i \<and> w \<or> dirty (pt ! j))"
proof -
  have n: "hit i w pt ! j = (if i < length pt \<and> j = i then (pt ! i)\<lparr>use := True, dirty := w \<or> dirty (pt ! i)\<rparr> else pt ! j)"
    by (auto simp: hit_def nth_list_update list_update_beyond not_less)
  show "virtualPage (hit i w pt ! j) = virtualPage (pt ! j)" "physicalPage (hit i w pt ! j) = physicalPage (pt ! j)"
    "readOnly (hit i w pt ! j) = readOnly (pt ! j)" "i < length pt \<Longrightarrow> dirty (hit i w pt ! j) = (j = i \<and> w \<or> dirty (pt ! j))"
    by (simp_all add: n)
  show "length (hit i w pt) = length pt" by (simp add: hit_def)
qed

lemma lookup_hit [simp]: "lookup_last (hit i w pt) v = lookup_last pt v"
  by (simp add: lookup_last_def hit_nth)

lemma flat_hit [simp]: "flat (hit i w pt) = flat pt"
  by (intro ext) (simp add: flat_def)

lemma frames_map_hit:
  assumes "frames_map N m p pt c" "i < 64" "w \<or> mm = mainMemory m"
    and "\<And>j k. j < 64 \<Longrightarrow> j \<noteq> i \<Longrightarrow> k < 128 \<Longrightarrow> mm (j * 128 + k) = mainMemory m (j * 128 + k)" and "w \<Longrightarrow> virtualPage (pt ! i) \<noteq> -1"
  shows "frames_map N (m\<lparr>tables := (tables m)(p \<mapsto> hit i w pt), mainMemory := mm\<rparr>) p (hit i w pt) c"
proof -
  have len: "length pt = 64" using assms(1) by (simp add: frames_map_def)
  have e: "physicalPage (hit i w pt ! j) = of_nat j \<and> \<not> readOnly (hit i w pt ! j) \<and> (virtualPage (hit i w pt ! j) = -1 \<longrightarrow> \<not> dirty (hit i w pt ! j)) \<and>
        (virtualPage (hit i w pt ! j) \<noteq> -1 \<longrightarrow> frames m ! j \<noteq> 0 \<and> uint (virtualPage (hit i w pt ! j)) < N \<and>
          (\<not> dirty (hit i w pt ! j) \<longrightarrow> (\<forall>k < 128. mm (j * 128 + k) = c ! (unat (virtualPage (hit i w pt ! j)) * 128 + k))))" if j: "j < 64" for j
  proof (cases "j = i")
    case True
    then show ?thesis using frame_entry(1-6) [OF assms(1) j] assms(2,3,5) len by (auto simp: hit_nth)
  next
    case False
    then show ?thesis using frame_entry(1-6) [OF assms(1) j] assms(2,4) j len by (simp add: hit_nth)
  qed
  show ?thesis using assms(1) e unfolding frames_map_def by (simp add: hit_nth)
qed

lemma Translate_resident:
  assumes fm: "frames_map N m p pt c" and N: "N \<le> 64" and va: "uint (va div 128) < N" "aligned va sz" "access_size sz"
    and i: "lookup_last pt (va div 128) = Some i"
  shows "\<exists>pa. Translate va sz w m = Inr (m\<lparr>tables := (tables m)(p \<mapsto> hit i w pt)\<rparr>, Phys pa) \<and> unat pa = i * 128 + unat va mod 128"
proof -
  have t: "tlb m = None" "pageTable m = Some p" "tables m p = Some pt" "length pt = nat NumPhysPages" "uint (pageTableSize m) = N"
    using fm by (simp_all add: frames_map_def NumPhysPages_def)
  have i64: "i < 64" using resident_iff [OF fm page_unused [OF va(1) N]] i by blast
  note e = frame_entry(1,2) [OF fm i64]
  have up: "uint (physicalPage (pt ! i)) = int i" unfolding e(1) using i64 by (simp add: unsigned_of_nat take_bit_nat_eq_self)
  have pa: "i * 128 + unat va mod 128 < 4294967296" 
  proof -
    have "unat va mod 128 < 128" by simp
    then show ?thesis using i64 by linarith
  qed
  have "translate_outcome (pt ! i) va w = Phys (word_of_int (int i * 128 + uint va mod 128))"
    using e(2) up i64 by (simp add: translate_outcome_def NumPhysPages_def)
  moreover have "int i * 128 + uint va mod 128 = int (i * 128 + unat va mod 128)" by (simp add: zmod_int)
  then have "unat (word_of_int (int i * 128 + uint va mod 128) :: u32) = i * 128 + unat va mod 128"
    using pa by (simp only: of_int_of_nat_eq unat_of_nat) simp
  moreover have "touched (pt ! i) w = (pt ! i)\<lparr>use := True, dirty := w \<or> dirty (pt ! i)\<rparr>"
    using e(2) up i64 by (simp add: touched_def NumPhysPages_def)
  moreover have "\<not> pageTableSize m \<le> va div 128" using va(1) t(5) by (simp add: word_le_def)
  ultimately show ?thesis using Translate_pt [OF t(1-4) va(3), of va w] va(2) i by (simp add: hit_def)
qed

text \<open>Aligned accesses stay within a page.\<close>

lemma same_page:
  fixes u k :: nat
  assumes "u mod 128 + k < 128"
  shows "(u + k) div 128 = u div 128" "(u + k) mod 128 = u mod 128 + k"
proof -
  have u: "u div 128 * 128 + u mod 128 = u" "(u + k) div 128 * 128 + (u + k) mod 128 = u + k" by (rule div_mult_mod_eq)+
  have "128 * (u div 128) \<le> u + k" "u + k < 128 * Suc (u div 128)" using u(1) assms unfolding mult_Suc_right by linarith+
  then show d: "(u + k) div 128 = u div 128" by (rule div_nat_eqI)
  show "(u + k) mod 128 = u mod 128 + k" using u unfolding d by linarith
qed

lemma within_page:
  fixes va :: u32
  assumes "aligned va sz" "access_size sz" "k < nat sz"
  shows "unat va mod 128 + k < 128"
proof -
  have s: "sz = 1 \<or> sz = 2 \<or> sz = 4" using assms(2) by (auto simp: access_size_def)
  have "int (unat va) mod sz = 0" using assms(1) by (simp add: aligned_def)
  moreover have "int (nat sz) = sz" using s by auto
  ultimately have "int (unat va mod nat sz) = 0" unfolding zmod_int by (simp only:)
  then have "unat va mod nat sz = 0" by (simp only: of_nat_eq_0_iff)
  moreover have "u mod 128 + k < 128" if "u mod 4 = 0" "k < 4" for u k :: nat using that by presburger
  moreover have "u mod 128 + k < 128" if "u mod 2 = 0" "k < 2" for u k :: nat using that by presburger
  moreover have "u mod 128 < (128 :: nat)" for u by simp
  ultimately show ?thesis using s assms(3) by auto
qed

text \<open>The program's memory, as a machine that holds it in one piece.\<close>

definition flat_machine :: "int list \<Rightarrow> int \<Rightarrow> 'a filesys_sim_scheme \<Rightarrow> machine" where
  "flat_machine B N s = (mach s)\<lparr>mainMemory := user_mem B N s\<rparr>"

text \<open>While the program runs the machine is in user mode; the kernel's invariant holds for the state its handler starts in.\<close>

definition user_paged :: "int \<Rightarrow> int list \<Rightarrow> int \<Rightarrow> 'a filesys_sim_scheme \<Rightarrow> bool" where
  "user_paged sec B N s \<longleftrightarrow> paged sec B N (setStatus SystemMode s)"

lemma setStatus_mach [simp]: "mach (setStatus st s) = mach s" "user_mem B N (setStatus st s) = user_mem B N s"
  by (simp_all add: setStatus_def user_mem_def swap_bytes_def)

lemma user_pagedD:
  assumes "user_paged sec B N s"
  shows "\<exists>p. frames_map N (mach s) p (current_table (mach s)) (swap_bytes B (N * 128) s)" "swap_ok sec B (N * 128) (setStatus SystemMode s)" "N \<le> 64"
  using assms swap_size [of sec B N "setStatus SystemMode s"] by (auto simp: user_paged_def paged_def)

lemma paged_user:
  assumes "paged sec B N s"
  shows "user_paged sec B N (setStatus UserMode s)"
proof -
  have "status (intr s) = SystemMode" using assms swap_okD(2) by (auto simp: paged_def fs_ok_def sd_ok_def calm_def)
  then have "setStatus SystemMode (setStatus UserMode s) = s" by (simp add: setStatus_def)
  then show ?thesis using assms by (simp add: user_paged_def)
qed

lemma user_paged_mach:
  assumes "user_paged sec B N s" "regs_ok m" "frames_map N m p pt (swap_bytes B (N * 128) s)"
  shows "user_paged sec B N (s\<lparr>mach := m\<rparr>)"
proof -
  have "setStatus SystemMode (s\<lparr>mach := m\<rparr>) = (setStatus SystemMode s)\<lparr>mach := m\<rparr>" by (simp add: setStatus_def)
  then show ?thesis
    using swap_frames(2) [OF user_pagedD(2) [OF assms(1)] assms(2)] assms(3) frames_map_table [OF assms(3)] by (auto simp: user_paged_def paged_def)
qed

lemma address_page:
  fixes va :: u32
  shows "uint (va div 128) = uint va div 128" "of_nat (unat va div 128) = va div 128" "unat (va div 128) = unat va div 128"
proof -
  show u: "uint (va div 128) = uint va div 128" by (simp add: uint_div)
  show "unat (va div 128) = unat va div 128" by (simp add: unat_div)
  moreover have "of_nat (unat (va div 128)) = va div 128" by simp
  ultimately show "of_nat (unat va div 128) = va div 128" by simp
qed

lemma flat_at:
  assumes "lookup_last pt (va div 128) = Some i" "unat va mod 128 + k < 128"
  shows "flat pt mem c (unat va + k) = mem (i * 128 + unat va mod 128 + k)"
  using assms address_page(2) [of va] by (simp add: flat_def same_page add.assoc)

text \<open>A resident page: reading.\<close>

lemma ReadMem_resident:
  assumes up: "user_paged sec B N s" and regs: "regs_ok (mach s)" and va: "uint va < N * 128" "aligned va sz" "access_size sz"
    and res: "lookup_last (current_table (mach s)) (va div 128) \<noteq> None"
  shows "\<exists>s' v. ReadMem K va sz s = Inr (s', Some v) \<and> load_phys (flat_machine B N s) va sz = Inr v \<and> user_paged sec B N s' \<and>
    registers (mach s') = registers (mach s) \<and> (\<forall>a < nat (N * 128). user_mem B N s' a = user_mem B N s a)"
proof -
  let ?m = "mach s" and ?pt = "current_table (mach s)" and ?c = "swap_bytes B (N * 128) s"
  obtain p where fm: "frames_map N ?m p ?pt ?c" using user_pagedD(1) [OF up] by blast
  note N = user_pagedD(3) [OF up]
  obtain i where i: "lookup_last ?pt (va div 128) = Some i" using res by blast
  have vp: "uint (va div 128) < N" using va(1) unfolding address_page(1) by (simp add: div_less_iff_less_mult)
  have i64: "i < 64" using resident_iff [OF fm page_unused [OF vp N]] i by blast
  obtain pa where t: "Translate va sz False ?m = Inr (?m\<lparr>tables := (tables ?m)(p \<mapsto> hit i False ?pt)\<rparr>, Phys pa)" "unat pa = i * 128 + unat va mod 128"
    using Translate_resident [OF fm N vp va(2,3) i] by blast
  let ?m' = "?m\<lparr>tables := (tables ?m)(p \<mapsto> hit i False ?pt)\<rparr>"
  have fm': "frames_map N ?m' p (hit i False ?pt) ?c" using frames_map_hit [OF fm i64, of False "mainMemory ?m"] by simp
  have mb: "mem_byte ?m' pa k = mem_byte (flat_machine B N s) va k" if "k < nat sz" for k
    using flat_at [OF i within_page [OF va(2,3) that]] t(2) by (simp add: mem_byte_def flat_machine_def user_mem_def)
  have "load_phys ?m' pa sz = load_phys (flat_machine B N s) va sz"
    using va(3) mb by (auto simp: load_phys_def access_size_def)
  moreover obtain v where "load_phys (flat_machine B N s) va sz = Inr v" using load_phys_safe [OF va(3)] by blast
  moreover have "user_paged sec B N (s\<lparr>mach := ?m'\<rparr>)"
    by (rule user_paged_mach [OF up _ fm']) (use regs in \<open>simp add: regs_ok_def\<close>)
  moreover have "user_mem B N (s\<lparr>mach := ?m'\<rparr>) = user_mem B N s" using frames_map_table [OF fm'] by (simp add: user_mem_def)
  ultimately show ?thesis using t(1) by (intro exI [of _ "s\<lparr>mach := ?m'\<rparr>"] exI [of _ v]) (simp add: ReadMem_def)
qed

definition stored :: "int \<Rightarrow> u32 \<Rightarrow> byte list" where
  "stored sz v = (if sz = 1 then [ucast (v AND 0xff)]
     else if sz = 2 then (let h = ShortToMachine False (ucast (v AND 0xffff)) in [ucast h, ucast (drop_bit 8 h)])
     else le32 (WordToMachine False v))"

lemma store_phys_bytes:
  assumes "access_size sz"
  shows "length (stored sz v) = nat sz" "store_phys m pa sz v = Inr (store_bytes m pa (stored sz v))"
  using assms by (auto simp: access_size_def store_phys_def stored_def Let_def)

text \<open>A store into frame \<open>i\<close> is a store into the flat memory.\<close>

lemma flat_store:
  assumes fm: "frames_map N m p pt c" and N: "N \<le> 64" and vp: "uint (va div 128) < N" and i: "lookup_last pt (va div 128) = Some i"
    and pa: "unat pa = i * 128 + unat va mod 128" and top: "unat va mod 128 + length bs \<le> 128" and a: "a < nat (N * 128)"
  shows "flat pt (mainMemory (store_bytes m pa bs)) c a =
    (if unat va \<le> a \<and> a < unat va + length bs then bs ! (a - unat va) else flat pt (mainMemory m) c a)"
proof (cases "unat va \<le> a \<and> a < unat va + length bs")
  case True
  define k where "k = a - unat va"
  have k: "a = unat va + k" "k < length bs" using True by (auto simp: k_def)
  then have "unat va mod 128 + k < 128" using top by linarith
  from flat_at [OF i this] have "flat pt (mainMemory (store_bytes m pa bs)) c a = mainMemory (store_bytes m pa bs) (unat pa + k)"
    unfolding k(1) pa .
  also have "\<dots> = bs ! k" using k(2) by (simp add: store_bytes_frame)
  finally show ?thesis using True by (simp add: k_def)
next
  case False
  let ?w = "of_nat (a div 128) :: u32"
  note w = page_word [OF a N]
  have v: "va div 128 \<noteq> -1" by (rule page_unused [OF vp N])
  have "mainMemory (store_bytes m pa bs) (j * 128 + a mod 128) = mainMemory m (j * 128 + a mod 128)" if j: "lookup_last pt ?w = Some j" for j
  proof (cases "j = i")
    case True
    have "?w = va div 128" using resident_iff [OF fm w(2), of j] resident_iff [OF fm v, of i] i j True by auto
    then have "a div 128 = unat va div 128" using w(1) address_page(3) [of va] by simp
    then have "a mod 128 < unat va mod 128 \<or> unat va mod 128 + length bs \<le> a mod 128"
      using False div_mult_mod_eq [of a 128] div_mult_mod_eq [of "unat va" 128] by linarith
    then have "\<not> (unat pa \<le> j * 128 + a mod 128 \<and> j * 128 + a mod 128 < unat pa + length bs)" unfolding pa True by linarith
    then show ?thesis unfolding store_bytes_frame by (simp only: if_False)
  next
    case ne: False
    have "a mod 128 < 128" by simp
    then have "\<not> (unat pa \<le> j * 128 + a mod 128 \<and> j * 128 + a mod 128 < unat pa + length bs)" unfolding pa using ne top by linarith
    then show ?thesis unfolding store_bytes_frame by (simp only: if_False)
  qed
  then show ?thesis using False by (auto simp: flat_def split: option.split)
qed

lemma WriteMem_resident:
  assumes up: "user_paged sec B N s" and regs: "regs_ok (mach s)" and va: "uint va < N * 128" "aligned va sz" "access_size sz"
    and res: "lookup_last (current_table (mach s)) (va div 128) \<noteq> None"
  shows "\<exists>s' m'. WriteMem K va sz v s = Inr (s', True) \<and> store_phys (flat_machine B N s) va sz v = Inr m' \<and> user_paged sec B N s' \<and>
    registers (mach s') = registers (mach s) \<and> (\<forall>a < nat (N * 128). user_mem B N s' a = mainMemory m' a)"
proof -
  let ?m = "mach s" and ?pt = "current_table (mach s)" and ?c = "swap_bytes B (N * 128) s"
  obtain p where fm: "frames_map N ?m p ?pt ?c" using user_pagedD(1) [OF up] by blast
  note N = user_pagedD(3) [OF up]
  obtain i where i: "lookup_last ?pt (va div 128) = Some i" using res by blast
  have vp: "uint (va div 128) < N" using va(1) unfolding address_page(1) by (simp add: div_less_iff_less_mult)
  have i64: "i < 64" and vi: "virtualPage (?pt ! i) = va div 128" using resident_iff [OF fm page_unused [OF vp N]] i by blast+
  obtain pa where t: "Translate va sz True ?m = Inr (?m\<lparr>tables := (tables ?m)(p \<mapsto> hit i True ?pt)\<rparr>, Phys pa)" "unat pa = i * 128 + unat va mod 128"
    using Translate_resident [OF fm N vp va(2,3) i] by blast
  define bs where "bs = stored sz v"
  have bs: "length bs = nat sz" "\<And>m pa. store_phys m pa sz v = Inr (store_bytes m pa bs)" using store_phys_bytes [OF va(3)] by (simp_all add: bs_def)
  let ?mm = "mainMemory (store_bytes ?m pa bs)"
  let ?m' = "?m\<lparr>tables := (tables ?m)(p \<mapsto> hit i True ?pt), mainMemory := ?mm\<rparr>"
  have "0 < nat sz" using va(3) by (auto simp: access_size_def)
  then have "unat va mod 128 + (nat sz - 1) < 128" using within_page [OF va(2,3), of "nat sz - 1"] by simp
  then have top: "unat va mod 128 + nat sz \<le> 128" using \<open>0 < nat sz\<close> by linarith
  have oth: "?mm (j * 128 + k) = mainMemory ?m (j * 128 + k)" if "j \<noteq> i" "k < 128" for j k
  proof -
    have "\<not> (i * 128 + unat va mod 128 \<le> j * 128 + k \<and> j * 128 + k < i * 128 + unat va mod 128 + nat sz)" using that top by linarith
    then show ?thesis unfolding store_bytes_frame t(2) bs(1) by (simp only: if_False)
  qed
  have fm': "frames_map N ?m' p (hit i True ?pt) ?c"
    using frames_map_hit [OF fm i64, of True ?mm] oth page_unused [OF vp N] vi by simp
  have "store_phys (?m\<lparr>tables := (tables ?m)(p \<mapsto> hit i True ?pt)\<rparr>) pa sz v = Inr ?m'" unfolding bs(2) by (simp add: store_bytes_def cong: if_cong)
  moreover have "user_paged sec B N (s\<lparr>mach := ?m'\<rparr>)"
    by (rule user_paged_mach [OF up _ fm']) (use regs in \<open>simp add: regs_ok_def\<close>)
  moreover have "user_mem B N (s\<lparr>mach := ?m'\<rparr>) a = mainMemory (store_bytes (flat_machine B N s) va bs) a" if "a < nat (N * 128)" for a
    using flat_store [OF fm N vp i t(2) _ that, of bs] top bs(1) frames_map_table [OF fm']
    by (simp add: user_mem_def store_bytes_frame [of "flat_machine B N s"]) (simp add: flat_machine_def user_mem_def)
  ultimately show ?thesis using t(1) bs(2)
    by (intro exI [of _ "s\<lparr>mach := ?m'\<rparr>"] exI [of _ "store_bytes (flat_machine B N s) va bs"]) (simp add: WriteMem_def)
qed

text \<open>A missing page: the fault brings it in.\<close>

lemma fault_brings_page:
  assumes up: "user_paged sec B N s" and regs: "regs_ok (mach s)" and va: "uint va < N * 128"
    and miss: "lookup_last (current_table (mach s)) (va div 128) = None"
  shows "\<exists>s'. RaiseException fault_handler PageFaultException va s = Inr s' \<and> user_paged sec B N s' \<and> regs_ok (mach s') \<and>
    lookup_last (current_table (mach s')) (va div 128) \<noteq> None \<and> (\<forall>a < nat (N * 128). user_mem B N s' a = user_mem B N s a)"
proof -
  let ?m0 = "(mach s)\<lparr>registers := (registers (mach s))(BadVAddrReg := va)\<rparr>"
  define rf where "rf = (registers ?m0)(unat (registers ?m0 LoadReg) := registers ?m0 LoadValueReg, LoadReg := 0, LoadValueReg := 0, 0 := 0)"
  have "regs_ok ?m0" using regs by (simp add: regs_ok_def)
  then have dl: "DelayedLoad 0 0 ?m0 = Inr (?m0\<lparr>registers := rf\<rparr>)" using DelayedLoad_ok [of ?m0 0 0] by (simp add: rf_def)
  have lr: "unat (registers (mach s) LoadReg) \<noteq> 39" using regs unfolding regs_ok_def unat_eq_nat_uint by linarith
  have bad: "rf BadVAddrReg = va" using lr unfolding rf_def by (simp add: fun_upd_apply)
  let ?m = "?m0\<lparr>registers := rf\<rparr>"
  let ?s = "setStatus SystemMode (s\<lparr>mach := ?m\<rparr>)"
  have q: "quiet (mach ?s)" by (simp add: quiet_def rf_def)
  obtain p where fm: "frames_map N (mach s) p (current_table (mach s)) (swap_bytes B (N * 128) s)" using user_pagedD(1) [OF up] by blast
  have fm': "frames_map N ?m p (current_table (mach s)) (swap_bytes B (N * 128) s)" using fm by (simp add: frames_map_def)
  note tab = frames_map_table [OF fm']
  have "user_paged sec B N (s\<lparr>mach := ?m\<rparr>)" using user_paged_mach [OF up quiet_regs fm'] q by simp
  then have pg: "paged sec B N ?s" by (simp add: user_paged_def)
  have vp: "uint (va div 128) < N" using va unfolding address_page(1) by (simp add: div_less_iff_less_mult)
  obtain s' where s': "page_fault ?s = Inr s'" "paged sec B N s'" "registers (mach s') = rf"
    "lookup_last (current_table (mach s')) (va div 128) \<noteq> None" "\<forall>a < nat (N * 128). user_mem B N s' a = user_mem B N ?s a"
    using page_fault_paged [OF pg q] bad vp miss tab by auto
  have tl: "tlb (mach ?s) = None" using fm by (simp add: frames_map_def)
  have "RaiseException fault_handler PageFaultException va s = Inr (setStatus UserMode s')"
    using dl s'(1) tl by (simp add: RaiseException_def fault_handler_def)
  moreover have "user_paged sec B N (setStatus UserMode s')" by (rule paged_user [OF s'(2)])
  moreover have "user_mem B N ?s = user_mem B N s" using tab by (simp add: user_mem_def)
  moreover have "regs_ok (mach s')" using s'(3) by (simp add: regs_ok_def rf_def)
  ultimately show ?thesis using s'(4,5) by (intro exI [of _ "setStatus UserMode s'"]) simp
qed

text \<open>The instruction whose access faulted is executed again.\<close>

definition read_retry :: "u32 \<Rightarrow> int \<Rightarrow> 'a filesys_sim_scheme \<Rightarrow> ('a filesys_sim_scheme \<times> u32 option) result" where
  "read_retry va sz s = bindr (ReadMem fault_handler va sz s) (\<lambda>(s1, r). case r of Some v \<Rightarrow> Inr (s1, Some v) | None \<Rightarrow> ReadMem fault_handler va sz s1)"

definition write_retry :: "u32 \<Rightarrow> int \<Rightarrow> u32 \<Rightarrow> 'a filesys_sim_scheme \<Rightarrow> ('a filesys_sim_scheme \<times> bool) result" where
  "write_retry va sz v s = bindr (WriteMem fault_handler va sz v s) (\<lambda>(s1, r). if r then Inr (s1, True) else WriteMem fault_handler va sz v s1)"

lemma access_fault:
  assumes up: "user_paged sec B N s" and va: "uint va < N * 128" "aligned va sz" "access_size sz"
    and miss: "lookup_last (current_table (mach s)) (va div 128) = None"
  shows "Translate va sz w (mach s) = Inr (mach s, Trap PageFaultException)"
proof -
  obtain p where fm: "frames_map N (mach s) p (current_table (mach s)) (swap_bytes B (N * 128) s)" using user_pagedD(1) [OF up] by blast
  then have t: "tlb (mach s) = None" "pageTable (mach s) = Some p" "tables (mach s) p = Some (current_table (mach s))"
    "length (current_table (mach s)) = nat NumPhysPages" "uint (pageTableSize (mach s)) = N" by (simp_all add: frames_map_def NumPhysPages_def)
  have "uint (va div 128) < N" using va(1) unfolding address_page(1) by (simp add: div_less_iff_less_mult)
  then have "\<not> pageTableSize (mach s) \<le> va div 128" using t(5) by (simp add: word_le_def)
  then show ?thesis using Translate_pt [OF t(1-4) va(3), of va w] va(2) miss by simp
qed


lemma same_on_access:
  assumes "uint va < N * 128" "aligned va sz" "access_size sz" "k < nat sz"
  shows "unat va + k < nat (N * 128)"
proof -
  have p: "uint (va div 128) < N" using assms(1) unfolding address_page(1) by (simp add: div_less_iff_less_mult)
  have "unat va mod 128 + k < 128" using within_page [OF assms(2-4)] .
  then have "unat va + k < (unat va div 128) * 128 + 128" using div_mult_mod_eq [of "unat va" 128] by linarith
  moreover have "unat va div 128 < nat N" using p unfolding address_page(1) by (simp add: zless_nat_eq_int_zless zdiv_int)
  then have "unat va div 128 * 128 + 128 \<le> nat N * 128" by linarith
  moreover have "nat (N * 128) = nat N * 128" using p by (simp add: nat_mult_distrib)
  ultimately show ?thesis by linarith
qed

lemma load_phys_same:
  assumes "access_size sz" "\<And>k. k < nat sz \<Longrightarrow> mainMemory m' (unat va + k) = mainMemory m (unat va + k)"
  shows "load_phys m' va sz = load_phys m va sz"
  using assms(1) assms(2) [of 0] assms(2) [of 1] assms(2) [of 2] assms(2) [of 3]
  by (auto simp: access_size_def load_phys_def mem_byte_def)

lemma demand_read:
  assumes up: "user_paged sec B N s" and regs: "regs_ok (mach s)" and va: "uint va < N * 128" "aligned va sz" "access_size sz"
  shows "\<exists>s' v. read_retry va sz s = Inr (s', Some v) \<and> load_phys (flat_machine B N s) va sz = Inr v \<and> user_paged sec B N s' \<and>
    regs_ok (mach s') \<and> (\<forall>a < nat (N * 128). user_mem B N s' a = user_mem B N s a)"
proof (cases "lookup_last (current_table (mach s)) (va div 128)")
  case (Some i)
  then obtain s' v where "ReadMem fault_handler va sz s = Inr (s', Some v)" "load_phys (flat_machine B N s) va sz = Inr v" "user_paged sec B N s'"
    "registers (mach s') = registers (mach s)" "\<forall>a < nat (N * 128). user_mem B N s' a = user_mem B N s a"
    using ReadMem_resident [OF assms, of fault_handler] by auto
  then show ?thesis using regs by (intro exI [of _ s'] exI [of _ v]) (simp add: read_retry_def regs_ok_def)
next
  case None
  obtain s1 where s1: "RaiseException fault_handler PageFaultException va s = Inr s1" "user_paged sec B N s1" "regs_ok (mach s1)"
    "lookup_last (current_table (mach s1)) (va div 128) \<noteq> None" "\<forall>a < nat (N * 128). user_mem B N s1 a = user_mem B N s a"
    using fault_brings_page [OF up regs va(1) None] by blast
  obtain s' v where s': "ReadMem fault_handler va sz s1 = Inr (s', Some v)" "load_phys (flat_machine B N s1) va sz = Inr v" "user_paged sec B N s'"
    "registers (mach s') = registers (mach s1)" "\<forall>a < nat (N * 128). user_mem B N s' a = user_mem B N s1 a"
    using ReadMem_resident [OF s1(2,3) va s1(4), of fault_handler] by blast
  have "ReadMem fault_handler va sz s = Inr (s1, None)"
    using access_fault [OF up va None, of False] s1(1) by (simp add: ReadMem_def)
  moreover have "load_phys (flat_machine B N s1) va sz = load_phys (flat_machine B N s) va sz"
    using load_phys_same [OF va(3), of "flat_machine B N s1" va "flat_machine B N s"] s1(5) same_on_access [OF va]
    by (simp add: flat_machine_def)
  ultimately show ?thesis using s' s1(3,5) by (intro exI [of _ s'] exI [of _ v]) (simp add: read_retry_def regs_ok_def)
qed

lemma store_same:
  assumes "access_size sz" "store_phys m va sz v = Inr m1" "store_phys m' va sz v = Inr m1'" "mainMemory m' a = mainMemory m a"
  shows "mainMemory m1' a = mainMemory m1 a"
  using assms store_phys_bytes(2) [OF assms(1), of _ va v] by (auto simp: store_bytes_frame)

lemma demand_write:
  assumes up: "user_paged sec B N s" and regs: "regs_ok (mach s)" and va: "uint va < N * 128" "aligned va sz" "access_size sz"
  shows "\<exists>s' m'. write_retry va sz v s = Inr (s', True) \<and> store_phys (flat_machine B N s) va sz v = Inr m' \<and> user_paged sec B N s' \<and>
    regs_ok (mach s') \<and> (\<forall>a < nat (N * 128). user_mem B N s' a = mainMemory m' a)"
proof (cases "lookup_last (current_table (mach s)) (va div 128)")
  case (Some i)
  then obtain s' m' where "WriteMem fault_handler va sz v s = Inr (s', True)" "store_phys (flat_machine B N s) va sz v = Inr m'" "user_paged sec B N s'"
    "registers (mach s') = registers (mach s)" "\<forall>a < nat (N * 128). user_mem B N s' a = mainMemory m' a"
    using WriteMem_resident [OF assms, of fault_handler v] by auto
  then show ?thesis using regs by (intro exI [of _ s'] exI [of _ m']) (simp add: write_retry_def regs_ok_def)
next
  case None
  obtain s1 where s1: "RaiseException fault_handler PageFaultException va s = Inr s1" "user_paged sec B N s1" "regs_ok (mach s1)"
    "lookup_last (current_table (mach s1)) (va div 128) \<noteq> None" "\<forall>a < nat (N * 128). user_mem B N s1 a = user_mem B N s a"
    using fault_brings_page [OF up regs va(1) None] by blast
  obtain s' m1 where s': "WriteMem fault_handler va sz v s1 = Inr (s', True)" "store_phys (flat_machine B N s1) va sz v = Inr m1" "user_paged sec B N s'"
    "registers (mach s') = registers (mach s1)" "\<forall>a < nat (N * 128). user_mem B N s' a = mainMemory m1 a"
    using WriteMem_resident [OF s1(2,3) va s1(4), of fault_handler] by blast
  obtain m' where m': "store_phys (flat_machine B N s) va sz v = Inr m'" using store_phys_bytes(2) [OF va(3)] by blast
  have "WriteMem fault_handler va sz v s = Inr (s1, False)"
    using access_fault [OF up va None, of True] s1(1) by (simp add: WriteMem_def)
  moreover have "\<forall>a < nat (N * 128). mainMemory m1 a = mainMemory m' a"
    using store_same [OF va(3) m' s'(2)] s1(5) by (simp add: flat_machine_def)
  ultimately show ?thesis using s' s1(3) m' by (intro exI [of _ s'] exI [of _ m']) (simp add: write_retry_def regs_ok_def)
qed


section \<open>Starting with an empty memory\<close>

text \<open>After \<^verbatim>\<open>Create\<close> the file \<^verbatim>\<open>virtual_memory\<close> is a swap file; the table the constructor sets up maps no page.\<close>

lemma created_swap:
  assumes ok: "fsys_ok w" and sz: "0 < n" "n \<le> 1024" and room: "lookup (root_dir w) vm_name = None" "card (dom (lookup (root_dir w))) < 10"
    and run: "0 \<le> k" "k + divRoundUp n SectorSize + 1 \<le> 1024" "{k..<k + divRoundUp n SectorSize + 1} \<inter> bm_marked (root_map w) = {}"
  shows "\<exists>w' sec B. Create vm_name n w = Inr (w', True) \<and> swap_ok sec B n w'"
proof -
  have nm: "length (drop (Suc (first_dot vm_name)) vm_name) \<le> 4" by (simp add: vm_name_def first_dot_def)
  obtain w1 sec h where c: "Create vm_name n w = Inr (w1, True)" "fsys_ok w1" "lookup (root_dir w1) = (lookup (root_dir w))(vm_name \<mapsto> sec)"
    "new_file w1 sec n h" "int ` insert (nat sec) (sectors_of h) \<inter> bm_marked (root_map w) = {}" "0 \<le> sec" "sec < 1024"
    "same_layout (hdr (freeMapFile w)) (hdr (freeMapFile w1))" "same_layout (hdr (directoryFile w)) (hdr (directoryFile w1))"
    using Create_ok [OF ok vm_name_plain(1) nm sz _ room(2) run] room(1) unfolding vm_name_plain(2) by blast
  let ?S = "{0, 1} \<union> sectors_of (hdr (freeMapFile w)) \<union> sectors_of (hdr (directoryFile w))"
  have sys: "int ` ?S \<subseteq> bm_marked (root_map w)" using fsys_okD(5) [OF ok] by (simp add: contents_ok_def)
  have "int ` insert (nat sec) (sectors_of h) \<inter> int ` ?S = {}" using sys c(5) by blast
  then have dis: "insert (nat sec) (sectors_of h) \<inter> system_area w1 = {}"
    unfolding system_area_def sectors_of_layout [OF c(8)] sectors_of_layout [OF c(9)]
    by (simp only: image_Int [OF inj_of_nat, symmetric] image_is_empty)
  then have s2: "2 \<le> sec" using c(6) by (auto simp: system_area_def) 
  have h: "swap_hdr sec w1 = h" "file_ok h" "sectorNumber h = sec" "numBytes h = n" using c(4) by (simp_all add: new_file_def swap_hdr_def)
  define B where "B = take (nat (numSectors h)) (dataSectors h)"
  have m: "mapped (image w1) h B" using file_ok_mapped [OF h(2)] by (simp add: B_def)
  have "swap_sectors sec B w1 = insert (nat sec) (sectors_of h)"
    using file_okD(6) [OF h(2)] by (simp add: swap_sectors_def file_area_def h(1) B_def sectors_of_def)
  then have "swap_ok sec B n w1" using c(2,3,7) s2 m h dis by (simp add: swap_ok_def)
  then show ?thesis using c(1) by blast
qed

lemma initial_table_map:
  assumes "tlb m = None" "pageTable m = Some p" "tables m p = Some (initial_table mem)" "frames_ok (frames m)" "uint (pageTableSize m) = N"
  shows "frames_map N m p (initial_table mem) c"
  using assms by (simp add: frames_map_def initial_table_def NumPhysPages_def)

text \<open>A formatted disk with a swap file of two pages, and a machine with no page in memory.\<close>

definition idle_machine :: machine where
  "idle_machine = \<lparr>registers = (\<lambda>_. 0)(BadVAddrReg := 132), mainMemory = (\<lambda>_. 0), tlb = None,
     tables = [0 \<mapsto> initial_table (replicate 64 \<lparr>virtualPage = 0, physicalPage = 0, valid = False, readOnly = False, use = False, dirty = False, cnt = 0\<rparr>)],
     pageTable = Some 0, pageTableSize = 2, TLBhit = 0, TLBmiss = 0, frames = Bitmap_new, singleStep = False, runUntilTime = 0\<rparr>"

lemma idle_machine_map:
  "regs_ok idle_machine" "quiet idle_machine" "frames_map 2 idle_machine 0 (current_table idle_machine) c" "registers idle_machine BadVAddrReg = 132"
proof -
  have "frames_map 2 idle_machine 0 (initial_table (replicate 64 \<lparr>virtualPage = 0, physicalPage = 0, valid = False, readOnly = False, use = False, dirty = False, cnt = 0\<rparr>)) c"
    by (rule initial_table_map) (simp_all add: idle_machine_def frames_ok_def Bitmap_new_def)
  then show "frames_map 2 idle_machine 0 (current_table idle_machine) c" by (simp add: frames_map_table)
qed (simp_all add: idle_machine_def regs_ok_def quiet_def)

lemma idle_lookup:
  assumes "uint v < 2"
  shows "lookup_last (current_table idle_machine) v = None"
proof (rule ccontr)
  assume "lookup_last (current_table idle_machine) v \<noteq> None"
  then obtain i where "i < 64" "virtualPage (current_table idle_machine ! i) = v"
    using resident_iff [OF idle_machine_map(3) page_unused [OF assms]] by auto
  moreover from this(1) have "virtualPage (current_table idle_machine ! i) = -1"
    by (simp add: idle_machine_def current_table_def initial_table_def NumPhysPages_def)
  ultimately show False using page_unused [OF assms] by simp
qed

lemma sample_paged:
  "\<exists>w s sec B. FileSystem_new True fresh_disk = Inr w \<and> Create vm_name 256 w = Inr (s, True) \<and> paged sec B 2 (s\<lparr>mach := idle_machine\<rparr>)"
proof -
  obtain w j where w: "FileSystem_new True fresh_disk = Inr w" "fsys_ok w" "card (dom (lookup (root_dir w))) < 10"
    "0 \<le> j" "j + divRoundUp 200 SectorSize + 1 \<le> 1024" "{j..<j + divRoundUp 200 SectorSize + 1} \<inter> bm_marked (root_map w) = {}"
    using formatted by blast
  have "lookup (root_dir w) = [[46, 46] \<mapsto> 1, [46] \<mapsto> 1]" using format_ok [OF fresh_disk_ok] w(1) by (auto simp: FileSystem_new_def)
  then have n: "lookup (root_dir w) vm_name = None" by (simp add: vm_name_def)
  have d: "divRoundUp 200 SectorSize = divRoundUp 256 SectorSize" by (simp add: divRoundUp_nonneg SectorSize_def)
  obtain s sec B where s: "Create vm_name 256 w = Inr (s, True)" "swap_ok sec B 256 s"
    using created_swap [OF w(2) _ _ n w(3,4), of 256] w(5,6) unfolding d by auto
  have "paged sec B 2 (s\<lparr>mach := idle_machine\<rparr>)"
    using swap_frames(2) [OF s(2) idle_machine_map(1)] idle_machine_map(3) by (auto simp: paged_def)
  then show ?thesis using w(1) s(1) by blast
qed

section \<open>Properties of demand paging\<close>

text \<open>
  (C15) The page fault handler implements the flat memory. When the program touches a page that is not in
  memory, the handler returns; afterwards that page is in a frame, the machine's registers are as they
  were, the invariant of frames and pages holds (every frame has one page, a clean page agrees with the
  file), and every byte of the program's memory is the same as before the fault. This includes the case in
  which all frames are taken and the page in frame 0 is written back first.
\<close>

theorem page_fault_transparent:
  assumes "paged sec B N s" "quiet (mach s)" "uint (registers (mach s) BadVAddrReg div 128) < N"
    and "lookup_last (current_table (mach s)) (registers (mach s) BadVAddrReg div 128) = None"
  shows "\<exists>s'. page_fault s = Inr s' \<and> paged sec B N s' \<and> registers (mach s') = registers (mach s) \<and>
    lookup_last (current_table (mach s')) (registers (mach s) BadVAddrReg div 128) \<noteq> None \<and>
    (\<forall>a < nat (N * 128). user_mem B N s' a = user_mem B N s a)"
  by (rule page_fault_paged [OF assms])

theorem page_fault_transparent_witness:
  "\<exists>w s s'. FileSystem_new True fresh_disk = Inr w \<and> Create vm_name 256 w = Inr (s, True) \<and> page_fault (s\<lparr>mach := idle_machine\<rparr>) = Inr s' \<and>
    lookup_last (current_table idle_machine) 1 = None \<and> lookup_last (current_table (mach s')) 1 \<noteq> None"
proof -
  obtain w s sec B where s: "FileSystem_new True fresh_disk = Inr w" "Create vm_name 256 w = Inr (s, True)" "paged sec B 2 (s\<lparr>mach := idle_machine\<rparr>)"
    using sample_paged by blast
  have b: "registers idle_machine BadVAddrReg div 128 = (1 :: u32)" unfolding idle_machine_map(4) by simp
  show ?thesis using page_fault_transparent [OF s(3)] s(1,2) idle_machine_map(2) idle_lookup [of 1] by (simp add: b) blast
qed

text \<open>
  (C2) A user program reads its memory whether or not the page is there. For every aligned access of 1, 2 or 4
  bytes inside the address space, the access, repeated once if it raised a page fault, succeeds, and the
  value is the one that a machine with the whole program in a flat memory reads at that address. The
  memory of the program does not change and the invariant of the paging code holds again.
\<close>

theorem demand_paged_read:
  assumes "user_paged sec B N s" "regs_ok (mach s)" "uint va < N * 128" "aligned va sz" "access_size sz"
  shows "\<exists>s' v. read_retry va sz s = Inr (s', Some v) \<and> load_phys (flat_machine B N s) va sz = Inr v \<and> user_paged sec B N s' \<and>
    regs_ok (mach s') \<and> (\<forall>a < nat (N * 128). user_mem B N s' a = user_mem B N s a)"
  by (rule demand_read [OF assms])

theorem demand_paged_read_witness:
  "\<exists>w s s' v. FileSystem_new True fresh_disk = Inr w \<and> Create vm_name 256 w = Inr (s, True) \<and>
    read_retry 132 4 (setStatus UserMode (s\<lparr>mach := idle_machine\<rparr>)) = Inr (s', Some v)"
proof -
  obtain w s sec B where s: "FileSystem_new True fresh_disk = Inr w" "Create vm_name 256 w = Inr (s, True)" "paged sec B 2 (s\<lparr>mach := idle_machine\<rparr>)"
    using sample_paged by blast
  have "user_paged sec B 2 (setStatus UserMode (s\<lparr>mach := idle_machine\<rparr>))" by (rule paged_user [OF s(3)])
  from demand_paged_read [OF this, of 132 4] show ?thesis using s(1,2) idle_machine_map(1) by (simp add: aligned_def access_size_def) blast
qed

text \<open>
  (C3) A user program writes its memory whether or not the page is there: the access, repeated once if it
  raised a page fault, succeeds, and afterwards the memory of the program is the one that a machine with
  the whole program in a flat memory has after the same store. The invariant of the paging code holds
  again, so that the written page is not lost when its frame is given to another one.
\<close>

theorem demand_paged_write:
  assumes "user_paged sec B N s" "regs_ok (mach s)" "uint va < N * 128" "aligned va sz" "access_size sz"
  shows "\<exists>s' m'. write_retry va sz v s = Inr (s', True) \<and> store_phys (flat_machine B N s) va sz v = Inr m' \<and> user_paged sec B N s' \<and>
    regs_ok (mach s') \<and> (\<forall>a < nat (N * 128). user_mem B N s' a = mainMemory m' a)"
  by (rule demand_write [OF assms])

theorem demand_paged_write_witness:
  "\<exists>w s s' B. FileSystem_new True fresh_disk = Inr w \<and> Create vm_name 256 w = Inr (s, True) \<and>
    write_retry 132 1 7 (setStatus UserMode (s\<lparr>mach := idle_machine\<rparr>)) = Inr (s', True) \<and> user_mem B 2 s' 132 = 7"
proof -
  obtain w s sec B where s: "FileSystem_new True fresh_disk = Inr w" "Create vm_name 256 w = Inr (s, True)" "paged sec B 2 (s\<lparr>mach := idle_machine\<rparr>)"
    using sample_paged by blast
  let ?s = "setStatus UserMode (s\<lparr>mach := idle_machine\<rparr>)"
  have "user_paged sec B 2 ?s" by (rule paged_user [OF s(3)])
  moreover have "access_size 1" by (simp add: access_size_def)
  ultimately obtain s' m' where "write_retry 132 1 7 ?s = Inr (s', True)" "store_phys (flat_machine B 2 ?s) 132 1 7 = Inr m'"
    "\<forall>a < nat (2 * 128). user_mem B 2 s' a = mainMemory m' a"
    using demand_paged_write [of sec B 2 ?s 132 1 7] idle_machine_map(1) by (auto simp: aligned_def)
  moreover from this(2) have "mainMemory m' 132 = 7" using store_phys_bytes(2) [OF \<open>access_size 1\<close>]
    by (auto simp: store_bytes_frame stored_def)
  ultimately show ?thesis using s(1,2) by (intro exI [of _ w] exI [of _ s] exI [of _ s'] exI [of _ B]) simp
qed

end
