(* ===== verification/Nachos_Loading.thy ===== *)
theory Nachos_Loading
  imports Nachos_Demand
begin

text \<open>
  Loading a program: \<^verbatim>\<open>AddrSpace::AddrSpace\<close> copies the code and the initialised data of an object file into the file
  \<^verbatim>\<open>virtual_memory\<close>, byte by byte. Together with demand paging this gives the memory a program starts with.
\<close>

section \<open>The object file and the swap file side by side\<close>

definition exe_area :: "OpenFile \<Rightarrow> int list \<Rightarrow> nat set" where
  "exe_area f E = insert (nat (sectorNumber (hdr f))) (file_area (hdr f) E)"

text \<open>\<open>f\<close> is the open object file with blocks \<open>E\<close> and bytes \<open>X\<close>, \<open>g\<close> the open swap file; they have no sector in common.\<close>

definition loading :: "int \<Rightarrow> int list \<Rightarrow> int \<Rightarrow> OpenFile \<Rightarrow> OpenFile \<Rightarrow> int list \<Rightarrow> byte list \<Rightarrow> 'a filesys_sim_scheme \<Rightarrow> bool" where
  "loading sec B n g f E X s \<longleftrightarrow> swap_ok sec B n s \<and> hdr g = swap_hdr sec s \<and> mapped (image s) (hdr f) E \<and>
     content (image s) E (numBytes (hdr f)) = X \<and> exe_area f E \<inter> (swap_sectors sec B s \<union> system_area s) = {} \<and> quiet (mach s)"

lemma content_image:
  assumes "mapped img h B" "\<And>x. x \<in> nat ` set B \<Longrightarrow> img' x = img x"
  shows "content img' B (numBytes h) = content img B (numBytes h)"
proof -
  have "gbyte img' B p = gbyte img B p" if "p < nat (numBytes h)" for p
  proof -
    have "p div 128 < length B" using byte_block [OF assms(1) that] mappedD(8) [OF assms(1)] by simp
    then show ?thesis using assms(2) by (simp add: gbyte_def)
  qed
  then show ?thesis by (simp add: content_def)
qed

lemma area_parts:
  "x \<in> nat ` set B \<Longrightarrow> x \<in> file_area h B" "8 < numSectors h \<Longrightarrow> nat (dataSectors h ! 8) \<in> file_area h B"
  by (simp_all add: file_area_def)

lemma system_area_layout:
  "same_layout (hdr (freeMapFile w)) (hdr (freeMapFile w')) \<Longrightarrow> same_layout (hdr (directoryFile w)) (hdr (directoryFile w')) \<Longrightarrow>
   system_area w' = system_area w"
  by (simp add: system_area_def sectors_of_layout)

lemma swap_ok_other:
  assumes ok: "swap_ok sec B n s" and s': "fs_ok s'" "length (vis_num s') = 1024"
    and lay: "same_layout (hdr (freeMapFile s)) (hdr (freeMapFile s'))" "hdr_ok (hdr (freeMapFile s'))"
      "same_layout (hdr (directoryFile s)) (hdr (directoryFile s'))" "hdr_ok (hdr (directoryFile s'))"
    and img: "\<And>x. x \<in> swap_sectors sec B s \<union> system_area s \<Longrightarrow> image s' x = image s x"
  shows "swap_ok sec B n s'" "swap_hdr sec s' = swap_hdr sec s" "swap_bytes B n s' = swap_bytes B n s"
    "swap_sectors sec B s' = swap_sectors sec B s" "system_area s' = system_area s"
proof -
  note D = swap_okD [OF ok] and F = fsys_okD [OF swap_okD(1) [OF ok]]
  have area: "nat sec \<in> swap_sectors sec B s" "file_area (swap_hdr sec s) B \<subseteq> swap_sectors sec B s" by (auto simp: swap_sectors_def)
  show hd: "swap_hdr sec s' = swap_hdr sec s" using img area(1) by (simp add: swap_hdr_def)
  have i: "image s' 0 = image s 0" "image s' 1 = image s 1" by (rule img, simp add: system_area_def)+
  have o: "fsys_ok s'" "root_map s' = root_map s" "root_dir s' = root_dir s"
    using fsys_ok_outside [OF D(1) s' lay] F(4) i img by (simp_all add: headers_ok_def system_area_def)
  show sw: "swap_sectors sec B s' = swap_sectors sec B s" using hd by (simp add: swap_sectors_def)
  show sa: "system_area s' = system_area s" by (rule system_area_layout [OF lay(1,3)])
  have "mapped (image s') (swap_hdr sec s) B"
    by (rule mapped_image [OF D(3)]) (use img area(2) area_parts(2) in blast)
  then show "swap_ok sec B n s'" using ok o sw sa hd unfolding swap_ok_def by metis
  have "content (image s') B (numBytes (swap_hdr sec s)) = content (image s) B (numBytes (swap_hdr sec s))"
    by (rule content_image [OF D(3)]) (use img area(2) area_parts(1) in blast)
  then show "swap_bytes B n s' = swap_bytes B n s" using D(5) by (simp add: swap_bytes_def)
qed

lemma swap_ok_frame:
  assumes ok: "swap_ok sec B n s" and s': "fs_ok s'" "fs_frame s s'"
    and img: "\<And>x. x \<in> swap_sectors sec B s \<union> system_area s \<Longrightarrow> image s' x = image s x"
  shows "swap_ok sec B n s'" "swap_hdr sec s' = swap_hdr sec s" "swap_bytes B n s' = swap_bytes B n s"
    "swap_sectors sec B s' = swap_sectors sec B s" "system_area s' = system_area s"
proof -
  note F = fsys_okD [OF swap_okD(1) [OF ok]]
  have fr: "freeMapFile s' = freeMapFile s" "directoryFile s' = directoryFile s" "vis_num s' = vis_num s"
    using s'(2) more_filesys [of s' s] by (simp_all add: fs_frame_def)
  have "length (vis_num s') = 1024" "same_layout (hdr (freeMapFile s)) (hdr (freeMapFile s'))" "hdr_ok (hdr (freeMapFile s'))"
      "same_layout (hdr (directoryFile s)) (hdr (directoryFile s'))" "hdr_ok (hdr (directoryFile s'))"
    using fr swap_okD(8) [OF ok] file_okD(1) [OF F(6)] file_okD(1) [OF F(9)] by simp_all
  from swap_ok_other [OF ok s'(1) this img]
  show "swap_ok sec B n s'" "swap_hdr sec s' = swap_hdr sec s" "swap_bytes B n s' = swap_bytes B n s"
    "swap_sectors sec B s' = swap_sectors sec B s" "system_area s' = system_area s" by blast+
qed

lemma exe_other:
  assumes "mapped img (hdr f) E" "\<And>x. x \<in> file_area (hdr f) E \<Longrightarrow> img' x = img x"
  shows "mapped img' (hdr f) E" "content img' E (numBytes (hdr f)) = content img E (numBytes (hdr f))"
  using mapped_image [OF assms(1), of img'] content_image [OF assms(1), of img'] assms(2) area_parts by blast+

lemma same_file_area: "same_file f f' \<Longrightarrow> exe_area f' E = exe_area f E"
  by (simp add: same_file_def exe_area_def file_area_def)

section \<open>Copying\<close>

lemma loadingD:
  assumes "loading sec B n g f E X s"
  shows "swap_ok sec B n s" "hdr g = swap_hdr sec s" "mapped (image s) (hdr f) E" "content (image s) E (numBytes (hdr f)) = X"
    "exe_area f E \<inter> (swap_sectors sec B s \<union> system_area s) = {}" "quiet (mach s)" "fs_ok s" "length X = nat (numBytes (hdr f))"
    "length X \<le> 5120" "n \<le> 5120"
proof -
  show L: "swap_ok sec B n s" "hdr g = swap_hdr sec s" "mapped (image s) (hdr f) E" "content (image s) E (numBytes (hdr f)) = X"
    "exe_area f E \<inter> (swap_sectors sec B s \<union> system_area s) = {}" "quiet (mach s)" using assms by (simp_all add: loading_def)
  show "fs_ok s" using swap_okD(2) [OF L(1)] .
  show "length X = nat (numBytes (hdr f))" unfolding L(4) [symmetric] by simp
  then show "length X \<le> 5120" "n \<le> 5120"
    using mappedD(3,4,6) [OF L(3)] mappedD(4,6) [OF swap_okD(3) [OF L(1)]] swap_okD(5) [OF L(1)] by linarith+
qed

lemma loading_read:
  assumes l: "loading sec B n g f E X s" and p: "0 \<le> p" "nat p < length X"
  shows "\<exists>s' f'. ReadAt 1 p f s = Inr (s', f', [X ! nat p]) \<and> loading sec B n g f' E X s' \<and> swap_bytes B n s' = swap_bytes B n s \<and> mach s' = mach s"
proof -
  note L = loadingD [OF l]
  have pn: "p < numBytes (hdr f)" using p L(8) by linarith
  obtain s' f' where r: "ReadAt 1 p f s = Inr (s', f', take 1 (drop (nat p) X))" "fs_ok s'" "fs_frame s s'" "mapped (image s') (hdr f') E"
    "same_file f f'" "content (image s') E (numBytes (hdr f')) = X" "image s' = (image s)(nat (sectorNumber (hdr f)) := hdr_bytes (hdr f'))"
    using ReadAt_mapped [OF L(3,7) _ p(1) pn, of 1] small_request [OF L(3) p(1), of 1] pn unfolding L(4) by auto
  have "nat (sectorNumber (hdr f)) \<in> exe_area f E" by (simp add: exe_area_def)
  then have "image s' x = image s x" if "x \<in> swap_sectors sec B s \<union> system_area s" for x using that L(5) unfolding r(7) by auto
  note F = swap_ok_frame [OF L(1) r(2,3) this]
  have m: "mach s' = mach s" using quiet_ops(2) [OF L(6) r(1)] .
  have "loading sec B n g f' E X s'" using L F r(4,6) same_file_area [OF r(5)] m unfolding loading_def by simp
  moreover have "take 1 (drop (nat p) X) = [X ! nat p]" using Cons_nth_drop_Suc [OF p(2)] by (metis One_nat_def take0 take_Suc_Cons)
  ultimately show ?thesis using r(1) F(3) m by auto
qed

lemma loading_write:
  assumes l: "loading sec B n g f E X s" and p: "0 \<le> p" "p < n"
  shows "\<exists>s' g' k. WriteAt [c] 1 p g s = Inr (s', g', k) \<and> loading sec B n g' f E X s' \<and>
    swap_bytes B n s' = (swap_bytes B n s)[nat p := c] \<and> mach s' = mach s"
proof -
  note L = loadingD [OF l] and D = swap_okD [OF loadingD(1) [OF l]]
  obtain s' g' where r: "WriteAt [c] 1 p g s = Inr (s', g', 1)" "fs_ok s'" "fs_frame s s'" "mapped (image s') (hdr g') B" "same_file g g'"
    "content (image s') B (numBytes (hdr g')) = take (nat p) (swap_bytes B n s) @ [c] @ drop (nat p + 1) (swap_bytes B n s)"
    "image s' (nat sec) = hdr_bytes (hdr g')" "\<forall>x. x \<noteq> nat sec \<and> x \<notin> nat ` set B \<longrightarrow> image s' x = image s x"
    using WriteAt_mapped [of s g B p 1 "[c]"] D(2-5) L(2) p by (auto simp: swap_bytes_def)
  have lay: "same_layout (swap_hdr sec s) (hdr g')" using r(5) L(2) by (simp add: same_file_layout)
  have sw: "swap_ok sec B n s'" "swap_hdr sec s' = hdr g'"
    using swap_ok_access [OF L(1) r(2-4) lay r(7)] r(8) by blast+
  have nb: "numBytes (hdr g') = n" using lay D(5) by (simp add: same_layout_def)
  have ss: "swap_sectors sec B s' = swap_sectors sec B s" using sw(2) lay by (simp add: swap_sectors_def file_area_def same_layout_def)
  have sa: "system_area s' = system_area s" using r(3) more_filesys [of s' s] by (simp add: fs_frame_def system_area_def)
  have sub: "insert (nat sec) (nat ` set B) \<subseteq> swap_sectors sec B s" by (auto simp: swap_sectors_def file_area_def)
  have "image s' x = image s x" if "x \<in> file_area (hdr f) E" for x
  proof -
    have "x \<in> exe_area f E" using that by (simp add: exe_area_def)
    then have "x \<notin> insert (nat sec) (nat ` set B)" using L(5) sub by auto
    then show ?thesis using r(8) by simp
  qed
  note X = exe_other [OF L(3) this]
  have m: "mach s' = mach s" using quiet_ops(3) [OF L(6) r(1)] .
  have "loading sec B n g' f E X s'"
    unfolding loading_def ss sa m using sw(1) sw(2) [symmetric] X(1) trans [OF X(2) L(4)] L(5,6) by (intro conjI)
  moreover have "nat p < length (swap_bytes B n s)" using p by (simp add: swap_bytes_def)
  then have "swap_bytes B n s' = (swap_bytes B n s)[nat p := c]" using r(6) nb upd_conv_take_nth_drop [of "nat p" "swap_bytes B n s" c]
    by (simp add: swap_bytes_def)
  ultimately show ?thesis using r(1) m by blast
qed

text \<open>Bytes laid over a list from a position on.\<close>

primrec overlay :: "byte list \<Rightarrow> nat \<Rightarrow> byte list \<Rightarrow> byte list" where
  "overlay xs p [] = xs"
| "overlay xs p (y # ys) = overlay (xs[p := y]) (Suc p) ys"

lemma overlay_nth: "i < length xs \<Longrightarrow> overlay xs p ys ! i = (if p \<le> i \<and> i < p + length ys then ys ! (i - p) else xs ! i)"
proof (induction ys arbitrary: xs p)
  case (Cons y ys)
  then show ?case using Cons.IH [of "xs[p := y]" "Suc p"] by (auto simp: nth_list_update nth_Cons')
qed auto

lemma length_overlay [simp]: "length (overlay xs p ys) = length xs"
  by (induction ys arbitrary: xs p) simp_all

lemma small_pos:
  fixes a :: u32
  assumes "unat a < 1073741824"
  shows "sint a = int (unat a)" "unat (a + 1) = Suc (unat a)"
proof -
  have "int (unat a) < 1073741824" using assms by linarith
  then have "uint a < 2 ^ 31" by simp
  then show "sint a = int (unat a)" using sint_eq_uint_small [of a] by simp
  show "unat (a + 1) = Suc (unat a)" using assms by (subst unat_plus_simple [THEN iffD1]) (auto simp: no_olen_add_nat)
qed

lemma copy_bytes_ok:
  assumes "loading sec B n g f E X s" "unat pos1 + k \<le> length X" "unat pos2 + k \<le> nat n"
  shows "\<exists>s' f' g'. copy_bytes k pos1 pos2 ch f g s = Inr (s', f', g') \<and> loading sec B n g' f' E X s' \<and>
    swap_bytes B n s' = overlay (swap_bytes B n s) (unat pos2) (take k (drop (unat pos1) X)) \<and> mach s' = mach s"
  using assms
proof (induction k arbitrary: pos1 pos2 ch f g s)
  case (Suc k)
  note b = loadingD(9,10) [OF Suc.prems(1)]
  have "unat pos1 < 1073741824" "unat pos2 < 1073741824" using Suc.prems(2,3) b by linarith+
  note P = small_pos [OF this(1)] small_pos [OF this(2)]
  have r1: "0 \<le> sint pos1" "nat (sint pos1) < length X" "0 \<le> sint pos2" "sint pos2 < n" using P Suc.prems(2,3) by linarith+
  obtain s1 f1 where s1: "ReadAt 1 (sint pos1) f s = Inr (s1, f1, [X ! unat pos1])" "loading sec B n g f1 E X s1"
    "swap_bytes B n s1 = swap_bytes B n s" "mach s1 = mach s"
    using loading_read [OF Suc.prems(1) r1(1,2)] P(1) by auto
  obtain s2 g2 j where s2: "WriteAt [X ! unat pos1] 1 (sint pos2) g s1 = Inr (s2, g2, j)" "loading sec B n g2 f1 E X s2"
    "swap_bytes B n s2 = (swap_bytes B n s)[unat pos2 := X ! unat pos1]" "mach s2 = mach s"
    using loading_write [OF s1(2) r1(3,4), of "X ! unat pos1"] P(3) s1(3,4) by auto
  obtain s' f' g' where i: "copy_bytes k (pos1 + 1) (pos2 + 1) (X ! unat pos1) f1 g2 s2 = Inr (s', f', g')" "loading sec B n g' f' E X s'"
    "swap_bytes B n s' = overlay (swap_bytes B n s2) (unat (pos2 + 1)) (take k (drop (unat (pos1 + 1)) X))" "mach s' = mach s2"
    using Suc.IH [OF s2(2), of "pos1 + 1" "pos2 + 1" "X ! unat pos1"] Suc.prems(2,3) P by auto
  have "take (Suc k) (drop (unat pos1) X) = X ! unat pos1 # take k (drop (Suc (unat pos1)) X)"
    using Suc.prems(2) Cons_nth_drop_Suc [of "unat pos1" X] by (metis add_Suc_right less_le_trans take_Suc_Cons zero_less_Suc less_add_Suc1)
  then show ?case using s1(1) s2(1,3,4) i P by simp
qed simp

lemma copy_segment_ok:
  assumes "loading sec B n g f E X s" "unat (inFileAddr seg) + unat (seg_size seg) \<le> length X" "unat (virtualAddr seg) + unat (seg_size seg) \<le> nat n"
  shows "\<exists>s' f' g'. copy_segment seg ch f g s = Inr (s', f', g') \<and> loading sec B n g' f' E X s' \<and>
    swap_bytes B n s' = overlay (swap_bytes B n s) (unat (virtualAddr seg)) (take (unat (seg_size seg)) (drop (unat (inFileAddr seg)) X)) \<and>
    mach s' = mach s"
proof -
  note b = loadingD(9) [OF assms(1)]
  then have sz: "sint (seg_size seg) = int (unat (seg_size seg))" using assms(2) by (intro small_pos) linarith
  show ?thesis
  proof (cases "unat (seg_size seg) = 0")
    case True
    then show ?thesis using assms(1) sz by (auto simp: copy_segment_def)
  next
    case False
    then have "0 < sint (seg_size seg)" "nat (sint (seg_size seg)) = unat (seg_size seg)" using sz by linarith+
    then show ?thesis using copy_bytes_ok [OF assms] by (simp add: copy_segment_def)
  qed
qed


section \<open>The constructor of an address space\<close>

definition executable :: "OpenFile \<Rightarrow> int list \<Rightarrow> byte list \<Rightarrow> 'a filesys_sim_scheme \<Rightarrow> bool" where
  "executable f E X w \<longleftrightarrow> mapped (image w) (hdr f) E \<and> content (image w) E (numBytes (hdr f)) = X \<and> 40 \<le> length X \<and>
     int ` exe_area f E \<subseteq> bm_marked (root_map w) \<and> exe_area f E \<inter> system_area w = {}"

definition seg_fits :: "Segment \<Rightarrow> byte list \<Rightarrow> int \<Rightarrow> bool" where
  "seg_fits seg X n \<longleftrightarrow> unat (inFileAddr seg) + unat (seg_size seg) \<le> length X \<and> unat (virtualAddr seg) + unat (seg_size seg) \<le> nat n"

definition seg_bytes :: "Segment \<Rightarrow> byte list \<Rightarrow> byte list" where
  "seg_bytes seg X = take (unat (seg_size seg)) (drop (unat (inFileAddr seg)) X)"

lemma fsys_ok_mach:
  assumes "fsys_ok w" "regs_ok m"
  shows "fsys_ok (w\<lparr>mach := m\<rparr>)" "root_map (w\<lparr>mach := m\<rparr>) = root_map w" "root_dir (w\<lparr>mach := m\<rparr>) = root_dir w"
    "system_area (w\<lparr>mach := m\<rparr>) = system_area w"
proof -
  show r: "root_map (w\<lparr>mach := m\<rparr>) = root_map w" "root_dir (w\<lparr>mach := m\<rparr>) = root_dir w" "system_area (w\<lparr>mach := m\<rparr>) = system_area w"
    by (simp_all add: root_map_def root_dir_def system_area_def)
  have "fs_ok (w\<lparr>mach := m\<rparr>)" by (rule fs_ok_frames(2) [OF fsys_okD(1) [OF assms(1)] assms(2)])
  then show "fsys_ok (w\<lparr>mach := m\<rparr>)" using assms(1) r by (simp add: fsys_ok_def files_ok_def headers_ok_def contents_ok_def)
qed

text \<open>Reading the header of the object file.\<close>

lemma executable_read:
  assumes ok: "fsys_ok w" and ex: "executable f E X w" and q: "quiet (mach w)"
  shows "\<exists>w' f'. ReadAt 40 0 f w = Inr (w', f', take 40 X) \<and> fsys_ok w' \<and> executable f' E X w' \<and> mach w' = mach w \<and>
    root_map w' = root_map w \<and> root_dir w' = root_dir w"
proof -
  note D = fsys_okD [OF ok] and X = ex [unfolded executable_def]
  have len: "length X = nat (numBytes (hdr f))" using X by (metis length_content)
  have nb: "0 < numBytes (hdr f)" using len X by linarith
  obtain w' f' where r: "ReadAt 40 0 f w = Inr (w', f', take 40 X)" "fs_ok w'" "fs_frame w w'" "mapped (image w') (hdr f') E"
    "same_file f f'" "content (image w') E (numBytes (hdr f')) = X" "image w' = (image w)(nat (sectorNumber (hdr f)) := hdr_bytes (hdr f'))"
    using ReadAt_mapped [of w f E 40 0] X D(1) nb by (auto simp: fits32_def)
  have fr: "freeMapFile w' = freeMapFile w" "directoryFile w' = directoryFile w" "vis_num w' = vis_num w"
    using r(3) more_filesys [of w' w] by (simp_all add: fs_frame_def)
  have sa: "system_area w' = system_area w" using fr by (simp add: system_area_def)
  have "nat (sectorNumber (hdr f)) \<in> exe_area f E" by (simp add: exe_area_def)
  then have img: "image w' x = image w x" if "x \<in> system_area w" for x using that X unfolding r(7) by auto
  have i: "image w' 0 = image w 0" "image w' 1 = image w 1" by (rule img, simp add: system_area_def)+
  have o: "fsys_ok w'" "root_map w' = root_map w" "root_dir w' = root_dir w"
    using fsys_ok_outside [OF ok r(2)] fr D(2,4) file_okD(1) [OF D(6)] file_okD(1) [OF D(9)] i img
    by (simp_all add: headers_ok_def system_area_def)
  have "executable f' E X w'" unfolding executable_def same_file_area [OF r(5)] sa o(2) using X r(4,6) by blast
  then show ?thesis using r(1) o quiet_ops(2) [OF q r(1)] by blast
qed

text \<open>Creating and opening the swap file beside it.\<close>

lemma created_loading:
  assumes ok: "fsys_ok w" and ex: "executable f E X w" and q: "quiet (mach w)" and sz: "1024 < n" "n \<le> 5120"
    and room: "lookup (root_dir w) vm_name = None" "card (dom (lookup (root_dir w))) < 10"
    and low: "card (bm_marked (root_map w) \<inter> {0..<128}) + nat (divRoundUp n SectorSize) + 2 \<le> 128"
  shows "\<exists>w1 w2 sec B g. Create vm_name n w = Inr (w1, True) \<and> Open vm_name w1 = Inr (w2, Some g) \<and> loading sec B n g f E X w2 \<and> mach w2 = mach w"
proof -
  note X = ex [unfolded executable_def]
  have nm: "length (drop (Suc (first_dot vm_name)) vm_name) \<le> 4" by (simp add: vm_name_def first_dot_def)
  obtain w1 sec B where c: "Create vm_name n w = Inr (w1, True)" "created n sec B w w1" "lookup (root_dir w1) = (lookup (root_dir w))(vm_name \<mapsto> sec)"
    using Create_large [OF ok vm_name_plain(1) nm sz _ room(2) low] room(1) unfolding vm_name_plain(2) by blast
  note C = c(2) [unfolded created_def Let_def]
  have sa1: "system_area w1 = system_area w" using C by (intro system_area_layout) blast+
  have ss: "swap_sectors sec B w1 = insert (nat sec) (file_area (bytes_hdr (image w1 (nat sec))) B)" by (simp add: swap_sectors_def swap_hdr_def)
  have apart: "swap_sectors sec B w1 \<inter> {x. int x \<in> bm_marked (root_map w)} = {}" using C unfolding ss by auto
  have sys: "system_area w \<subseteq> {x. int x \<in> bm_marked (root_map w)}" using system_area_marked [OF ok] by blast
  have exe: "exe_area f E \<subseteq> {x. int x \<in> bm_marked (root_map w)}" using X by auto
  have dj: "swap_sectors sec B w1 \<inter> system_area w1 = {}" using apart sys unfolding sa1 by blast
  have lk: "lookup (root_dir w1) vm_name = Some sec" using c(3) by simp
  have "swap_ok sec B n w1" unfolding swap_ok_def using C lk dj unfolding swap_hdr_def by (intro conjI) blast+
  then obtain w2 where o: "Open vm_name w1 = Inr (w2, Some \<lparr>hdr = swap_hdr sec w1, seekPosition = 0\<rparr>)" "swap_ok sec B n w2"
    "swap_hdr sec w2 = swap_hdr sec w1" using swap_open by blast
  have k: "kept w1 w2"
    using Open_at [OF swap_okD(1) [OF \<open>swap_ok sec B n w1\<close>] vm_name_plain(1), of sec "swap_hdr sec w1"] vm_name_plain(2) c(3) C o(1) by (auto simp: swap_hdr_def)
  have sa2: "system_area w2 = system_area w" using k sa1 system_area_layout [of w1 w2] by (simp add: kept_def)
  have ss2: "swap_sectors sec B w2 = swap_sectors sec B w1" using o(3) by (simp add: swap_sectors_def)
  have img: "image w2 x = image w x" if "x \<in> exe_area f E" for x
  proof -
    have "x \<notin> system_area w" "x \<notin> swap_sectors sec B w1" using that X exe apart by auto
    moreover from this have "x \<noteq> 0" "x \<noteq> 1" by (auto simp: system_area_def)
    ultimately show ?thesis using C k unfolding ss kept_def by simp
  qed
  have "mapped (image w2) (hdr f) E" "content (image w2) E (numBytes (hdr f)) = X"
    using exe_other [of "image w" f E "image w2"] X img by (simp_all add: exe_area_def)
  moreover have m: "mach w2 = mach w"
  proof -
    have "mach w1 = mach w" using returnsD [OF load_stable.Create_stable [OF quiet_stable [OF q] refl] c(1)] by simp
    then show ?thesis using quiet_ops(1) [OF _ o(1)] q by simp
  qed
  moreover have "exe_area f E \<inter> (swap_sectors sec B w2 \<union> system_area w2) = {}" unfolding ss2 sa2 using X exe apart by auto
  ultimately have "loading sec B n \<lparr>hdr = swap_hdr sec w1, seekPosition = 0\<rparr> f E X w2"
    using o(2,3) q unfolding loading_def by simp
  then show ?thesis using c(1) o(1) m by blast
qed

lemma AddrSpace_new_ok:
  assumes ok: "fsys_ok w" and ex: "executable f E X w" and q: "quiet (mach w)" and mem: "length hdr_mem = 40"
    and H: "noff_header False (take 40 X) = Inr H" and N: "N = uint (space_pages H)" "9 \<le> N" "N \<le> 40"
    and segs: "seg_fits (noff_code H) X (N * 128)" "seg_fits (initData H) X (N * 128)"
    and room: "lookup (root_dir w) vm_name = None" "card (dom (lookup (root_dir w))) < 10"
    and low: "card (bm_marked (root_map w) \<inter> {0..<128}) + nat N + 2 \<le> 128"
  shows "\<exists>w' f' sec B X0. AddrSpace_new p hdr_mem pt_mem ch f w = Inr (w', f', \<lparr>space_table = p, numPages = space_pages H\<rparr>) \<and>
    swap_ok sec B (N * 128) w' \<and> mach w' = (mach w)\<lparr>tables := (tables (mach w))(p \<mapsto> initial_table pt_mem)\<rparr> \<and> length X0 = nat (N * 128) \<and>
    swap_bytes B (N * 128) w' = overlay (overlay X0 (unat (virtualAddr (noff_code H))) (seg_bytes (noff_code H) X))
      (unat (virtualAddr (initData H))) (seg_bytes (initData H) X)"
proof -
  obtain w1 f1 where r: "ReadAt 40 0 f w = Inr (w1, f1, take 40 X)" "fsys_ok w1" "executable f1 E X w1" "mach w1 = mach w"
    "root_map w1 = root_map w" "root_dir w1 = root_dir w" using executable_read [OF ok ex q] by blast
  have "length (take 40 X) = 40" using ex by (simp add: executable_def)
  then have pa: "patch hdr_mem 0 (take 40 X) = Inr (take 40 X)" using mem by (intro patch_whole) simp
  let ?w = "set_table p (initial_table pt_mem) w1" and ?m = "(mach w)\<lparr>tables := (tables (mach w))(p \<mapsto> initial_table pt_mem)\<rparr>"
  have rm: "regs_ok ?m" using quiet_regs [OF q] by (simp add: regs_ok_def)
  have W: "?w = w1\<lparr>mach := ?m\<rparr>" using r(4) by (simp add: set_table_def)
  note M = fsys_ok_mach [OF r(2) rm, folded W]
  have ex': "executable f1 E X ?w" using r(3) M(2,4) unfolding W by (simp add: executable_def)
  have q': "quiet (mach ?w)" using q unfolding W by (simp add: quiet_def)
  have dr: "divRoundUp (N * 128) SectorSize = N" using N(2) by (simp add: divRoundUp_nonneg SectorSize_def)
  have sz: "sint (space_pages H * word_of_int PageSize) = N * 128" using page_pos(1) [of "space_pages H" 64] N by simp
  obtain w2 w3 sec B g where c: "Create vm_name (N * 128) ?w = Inr (w2, True)" "Open vm_name w2 = Inr (w3, Some g)"
    "loading sec B (N * 128) g f1 E X w3" "mach w3 = mach ?w"
    using created_loading [OF M(1) ex' q', of "N * 128"] room low N(2,3) dr r(5,6) M(2,3) by auto
  obtain w4 f4 g4 where s4: "copy_segment (noff_code H) ch f1 g w3 = Inr (w4, f4, g4)" "loading sec B (N * 128) g4 f4 E X w4"
    "swap_bytes B (N * 128) w4 = overlay (swap_bytes B (N * 128) w3) (unat (virtualAddr (noff_code H))) (seg_bytes (noff_code H) X)" "mach w4 = mach w3"
    using copy_segment_ok [OF c(3), of "noff_code H" ch] segs(1) by (auto simp: seg_fits_def seg_bytes_def)
  obtain w5 f5 g5 where s5: "copy_segment (initData H) ch f4 g4 w4 = Inr (w5, f5, g5)" "loading sec B (N * 128) g5 f5 E X w5"
    "swap_bytes B (N * 128) w5 = overlay (swap_bytes B (N * 128) w4) (unat (virtualAddr (initData H))) (seg_bytes (initData H) X)" "mach w5 = mach w4"
    using copy_segment_ok [OF s4(2), of "initData H" ch] segs(2) by (auto simp: seg_fits_def seg_bytes_def)
  note L = loadingD [OF s5(2)]
  obtain v where v: "OpenFile_delete g5 w5 = Inr (w5\<lparr>vis_num := v\<rparr>)" "length v = 1024" using swap_close [OF L(1,2)] by blast
  have "AddrSpace_new p hdr_mem pt_mem ch f w = Inr (w5\<lparr>vis_num := v\<rparr>, f5, \<lparr>space_table = p, numPages = space_pages H\<rparr>)"
    using r(1) pa H N(1,3) sz c(1,2) s4(1) s5(1) v(1) by (simp add: AddrSpace_new_def Let_def NumPhysPages_def)
  moreover have "swap_ok sec B (N * 128) (w5\<lparr>vis_num := v\<rparr>)" by (rule swap_frames(1) [OF L(1) v(2)])
  moreover have "mach (w5\<lparr>vis_num := v\<rparr>) = ?m" using s5(4) s4(4) c(4) W by simp
  ultimately show ?thesis using s5(3) s4(3)
    by (intro exI [of _ "w5\<lparr>vis_num := v\<rparr>"] exI [of _ f5] exI [of _ sec] exI [of _ B] exI [of _ "swap_bytes B (N * 128) w3"]) simp
qed


section \<open>The memory a program starts with\<close>

lemma zero_registers_ok:
  "n \<le> NumTotalRegs \<Longrightarrow> zero_registers n m = Inr (m\<lparr>registers := (\<lambda>i. if i < n then 0 else registers m i)\<rparr>)"
  by (induction n) (auto simp: WriteRegister_def fun_eq_iff intro!: arg_cong [where f = "\<lambda>r. registers_update (\<lambda>_. r) m"])

lemma InitRegisters_ok:
  "\<exists>r. InitRegisters sp m = Inr (m\<lparr>registers := r\<rparr>) \<and> r PCReg = 0 \<and> r NextPCReg = 4 \<and> r StackReg = numPages sp * 128 - 16 \<and>
     (\<forall>i < NumTotalRegs. i \<noteq> PCReg \<and> i \<noteq> NextPCReg \<and> i \<noteq> StackReg \<longrightarrow> r i = 0)"
  by (rule exI [of _ "(\<lambda>i. if i < NumTotalRegs then 0 else registers m i)(PCReg := 0, NextPCReg := 4, StackReg := numPages sp * 128 - 16)"])
     (simp add: InitRegisters_def zero_registers_ok WriteRegister_def machine_consts)

lemma initial_lookup:
  assumes "frames_map N m p (initial_table mem) c" "v \<noteq> -1"
  shows "lookup_last (initial_table mem) v = None"
proof (rule ccontr)
  assume "lookup_last (initial_table mem) v \<noteq> None"
  then obtain i where "i < 64" "virtualPage (initial_table mem ! i) = v" using resident_iff [OF assms] by auto
  then show False using assms(2) by (simp add: initial_table_def NumPhysPages_def)
qed

lemma start_paged:
  assumes sw: "swap_ok sec B (N * 128) w" and m: "tlb (mach w) = None" "frames_ok (frames (mach w))" "tables (mach w) p = Some (initial_table mem)"
    and sp: "sp = \<lparr>space_table = p, numPages = n\<rparr>" "uint n = N"
  shows "\<exists>m'. InitRegisters sp (mach w) = Inr m' \<and> user_paged sec B N (setStatus UserMode (w\<lparr>mach := RestoreState sp m'\<rparr>)) \<and>
    regs_ok (RestoreState sp m') \<and> registers m' PCReg = 0 \<and> registers m' NextPCReg = 4 \<and> registers m' StackReg = n * 128 - 16 \<and>
    (\<forall>a < nat (N * 128). user_mem B N (setStatus UserMode (w\<lparr>mach := RestoreState sp m'\<rparr>)) a = swap_bytes B (N * 128) w ! a)"
proof -
  obtain r where r: "InitRegisters sp (mach w) = Inr ((mach w)\<lparr>registers := r\<rparr>)" "r PCReg = 0" "r NextPCReg = 4" "r StackReg = n * 128 - 16"
    "\<forall>i < NumTotalRegs. i \<noteq> PCReg \<and> i \<noteq> NextPCReg \<and> i \<noteq> StackReg \<longrightarrow> r i = 0" using InitRegisters_ok [of sp "mach w"] sp(1) by auto
  let ?m = "RestoreState sp ((mach w)\<lparr>registers := r\<rparr>)" and ?c = "swap_bytes B (N * 128) w"
  have ro: "regs_ok ?m" using r(5) by (simp add: RestoreState_def regs_ok_def machine_consts)
  have fm: "frames_map N ?m p (initial_table mem) ?c" using m sp by (intro initial_table_map) (simp_all add: RestoreState_def)
  note tab = frames_map_table [OF fm]
  have "swap_ok sec B (N * 128) (w\<lparr>mach := ?m\<rparr>)" by (rule swap_frames(2) [OF sw ro])
  then have "paged sec B N (w\<lparr>mach := ?m\<rparr>)" using fm tab by (auto simp: paged_def)
  note up = paged_user [OF this]
  have "user_mem B N (setStatus UserMode (w\<lparr>mach := ?m\<rparr>)) a = ?c ! a" if a: "a < nat (N * 128)" for a
  proof -
    have "(of_nat (a div 128) :: u32) \<noteq> -1" using page_word(2) [OF a] swap_size [OF sw] by simp
    then show ?thesis using initial_lookup [OF fm] tab by (simp add: user_mem_def flat_def)
  qed
  then show ?thesis using r(1-4) ro up by (intro exI [of _ "(mach w)\<lparr>registers := r\<rparr>"]) simp
qed


text \<open>
  Everything \<^verbatim>\<open>StartProcess\<close> needs of the disk, the object file and the machine; for the swap file, free sectors with numbers below 128.
\<close>

definition startable :: "OpenFile \<Rightarrow> int list \<Rightarrow> byte list \<Rightarrow> NoffHeader \<Rightarrow> int \<Rightarrow> 'a filesys_sim_scheme \<Rightarrow> bool" where
  "startable f E X H N w \<longleftrightarrow> fsys_ok w \<and> executable f E X w \<and> noff_header False (take 40 X) = Inr H \<and>
     N = uint (space_pages H) \<and> 9 \<le> N \<and> N \<le> 40 \<and> seg_fits (noff_code H) X (N * 128) \<and> seg_fits (initData H) X (N * 128) \<and>
     lookup (root_dir w) vm_name = None \<and> card (dom (lookup (root_dir w))) < 10 \<and>
     card (bm_marked (root_map w) \<inter> {0..<128}) + nat N + 2 \<le> 128 \<and>
     quiet (mach w) \<and> tlb (mach w) = None \<and> frames_ok (frames (mach w))"

definition seg_covers :: "Segment \<Rightarrow> nat \<Rightarrow> bool" where
  "seg_covers seg a \<longleftrightarrow> unat (virtualAddr seg) \<le> a \<and> a < unat (virtualAddr seg) + unat (seg_size seg)"

lemma overlay_seg:
  assumes "seg_fits seg X n" "a < nat n" "length xs = nat n"
  shows "overlay xs (unat (virtualAddr seg)) (seg_bytes seg X) ! a =
    (if seg_covers seg a then X ! (unat (inFileAddr seg) + (a - unat (virtualAddr seg))) else xs ! a)"
proof -
  have "length (seg_bytes seg X) = unat (seg_size seg)" using assms(1) unfolding seg_fits_def seg_bytes_def length_take length_drop by linarith
  then show ?thesis using overlay_nth [of a xs "unat (virtualAddr seg)" "seg_bytes seg X"] assms
    by (auto simp: seg_covers_def seg_bytes_def seg_fits_def)
qed

lemma program_start:
  assumes st: "startable f E X H N w" and mem: "length hdr_mem = 40"
  shows "\<exists>w' f' sp m' sec B. AddrSpace_new p hdr_mem pt_mem ch f w = Inr (w', f', sp) \<and> InitRegisters sp (mach w') = Inr m' \<and>
    user_paged sec B N (setStatus UserMode (w'\<lparr>mach := RestoreState sp m'\<rparr>)) \<and> regs_ok (RestoreState sp m') \<and>
    registers m' PCReg = 0 \<and> registers m' NextPCReg = 4 \<and> registers m' StackReg = space_pages H * 128 - 16 \<and>
    (\<forall>a < nat (N * 128). seg_covers (initData H) a \<longrightarrow> user_mem B N (setStatus UserMode (w'\<lparr>mach := RestoreState sp m'\<rparr>)) a =
       X ! (unat (inFileAddr (initData H)) + (a - unat (virtualAddr (initData H))))) \<and>
    (\<forall>a < nat (N * 128). seg_covers (noff_code H) a \<and> \<not> seg_covers (initData H) a \<longrightarrow>
       user_mem B N (setStatus UserMode (w'\<lparr>mach := RestoreState sp m'\<rparr>)) a =
       X ! (unat (inFileAddr (noff_code H)) + (a - unat (virtualAddr (noff_code H)))))"
proof -
  have S: "fsys_ok w" "executable f E X w" "quiet (mach w)" "noff_header False (take 40 X) = Inr H" "N = uint (space_pages H)" "9 \<le> N" "N \<le> 40"
    and fits: "seg_fits (noff_code H) X (N * 128)" "seg_fits (initData H) X (N * 128)"
    and room: "lookup (root_dir w) vm_name = None" "card (dom (lookup (root_dir w))) < 10" "card (bm_marked (root_map w) \<inter> {0..<128}) + nat N + 2 \<le> 128"
    and mc: "tlb (mach w) = None" "frames_ok (frames (mach w))" using st unfolding startable_def by blast+
  obtain w' f' sec B X0 where l: "AddrSpace_new p hdr_mem pt_mem ch f w = Inr (w', f', \<lparr>space_table = p, numPages = space_pages H\<rparr>)"
    "swap_ok sec B (N * 128) w'" "mach w' = (mach w)\<lparr>tables := (tables (mach w))(p \<mapsto> initial_table pt_mem)\<rparr>" "length X0 = nat (N * 128)"
    "swap_bytes B (N * 128) w' = overlay (overlay X0 (unat (virtualAddr (noff_code H))) (seg_bytes (noff_code H) X))
      (unat (virtualAddr (initData H))) (seg_bytes (initData H) X)"
    using AddrSpace_new_ok [OF S(1-3) mem S(4-7) fits room, of p pt_mem ch] by blast
  let ?sp = "\<lparr>space_table = p, numPages = space_pages H\<rparr>"
  have m: "tlb (mach w') = None" "frames_ok (frames (mach w'))" "tables (mach w') p = Some (initial_table pt_mem)" using mc l(3) by simp_all
  have n: "uint (space_pages H) = N" using S(5) by simp
  obtain m' where m': "InitRegisters ?sp (mach w') = Inr m'" "user_paged sec B N (setStatus UserMode (w'\<lparr>mach := RestoreState ?sp m'\<rparr>))"
    "regs_ok (RestoreState ?sp m')" "registers m' PCReg = 0" "registers m' NextPCReg = 4" "registers m' StackReg = space_pages H * 128 - 16"
    "\<forall>a < nat (N * 128). user_mem B N (setStatus UserMode (w'\<lparr>mach := RestoreState ?sp m'\<rparr>)) a = swap_bytes B (N * 128) w' ! a"
    using start_paged [OF l(2) m refl n] by blast
  have "swap_bytes B (N * 128) w' ! a = (if seg_covers (initData H) a then X ! (unat (inFileAddr (initData H)) + (a - unat (virtualAddr (initData H))))
      else if seg_covers (noff_code H) a then X ! (unat (inFileAddr (noff_code H)) + (a - unat (virtualAddr (noff_code H)))) else X0 ! a)"
    if "a < nat (N * 128)" for a
    using overlay_seg [OF fits(1) that l(4)] overlay_seg [OF fits(2) that] l(4,5) by simp
  then show ?thesis using l(1) m' by (intro exI [of _ w'] exI [of _ f'] exI [of _ ?sp] exI [of _ m'] exI [of _ sec] exI [of _ B]) simp
qed


section \<open>An example program\<close>

text \<open>A file that was just created, filled with the bytes of an object file.\<close>

lemma executable_write:
  assumes ok: "fsys_ok w" and ex: "executable f E X w" and bs: "length bs = length X"
  shows "\<exists>w' f' k. WriteAt bs (int (length bs)) 0 f w = Inr (w', f', k) \<and> fsys_ok w' \<and> executable f' E bs w' \<and>
    root_map w' = root_map w \<and> root_dir w' = root_dir w"
proof -
  note D = fsys_okD [OF ok] and X = ex [unfolded executable_def]
  have len: "length X = nat (numBytes (hdr f))" using X by (metis length_content)
  have nb: "0 < numBytes (hdr f)" "int (length bs) = numBytes (hdr f)" using len X bs by linarith+
  obtain w' f' where r: "WriteAt bs (int (length bs)) 0 f w = Inr (w', f', int (length bs))" "fs_ok w'" "fs_frame w w'" "mapped (image w') (hdr f') E"
    "same_file f f'" "content (image w') E (numBytes (hdr f')) = bs"
    "\<forall>x. x \<noteq> nat (sectorNumber (hdr f)) \<and> x \<notin> nat ` set E \<longrightarrow> image w' x = image w x"
    using WriteAt_mapped [of w f E 0 "int (length bs)" bs] X D(1) nb bs len by auto
  have fr: "freeMapFile w' = freeMapFile w" "directoryFile w' = directoryFile w" "vis_num w' = vis_num w"
    using r(3) more_filesys [of w' w] by (simp_all add: fs_frame_def)
  have sa: "system_area w' = system_area w" using fr by (simp add: system_area_def)
  have sub: "insert (nat (sectorNumber (hdr f))) (nat ` set E) \<subseteq> exe_area f E" by (auto simp: exe_area_def file_area_def)
  have img: "image w' x = image w x" if "x \<in> system_area w" for x
  proof -
    have "x \<notin> insert (nat (sectorNumber (hdr f))) (nat ` set E)" using that sub X by blast
    then show ?thesis using r(7) by simp
  qed
  have i: "image w' 0 = image w 0" "image w' 1 = image w 1" by (rule img, simp add: system_area_def)+
  have o: "fsys_ok w'" "root_map w' = root_map w" "root_dir w' = root_dir w"
    using fsys_ok_outside [OF ok r(2)] fr D(2,4) file_okD(1) [OF D(6)] file_okD(1) [OF D(9)] i img
    by (simp_all add: headers_ok_def system_area_def)
  have "executable f' E bs w'" unfolding executable_def same_file_area [OF r(5)] sa o(2) using X r(4,6) bs by auto
  then show ?thesis using r(1) o by blast
qed

lemma new_file_executable:
  assumes ok: "fsys_ok w" and nf: "new_file w sec n h" "40 \<le> n" and dj: "insert (nat sec) (sectors_of h) \<inter> system_area w = {}"
  shows "executable \<lparr>hdr = h, seekPosition = 0\<rparr> (take (nat (numSectors h)) (dataSectors h)) (file_bytes (image w) h) w"
proof -
  have f: "file_ok h" "sectorNumber h = sec" "numBytes h = n" "int ` insert (nat sec) (sectors_of h) \<subseteq> bm_marked (root_map w)"
    using nf(1) by (simp_all add: new_file_def)
  have a: "exe_area \<lparr>hdr = h, seekPosition = 0\<rparr> (take (nat (numSectors h)) (dataSectors h)) = insert (nat sec) (sectors_of h)"
    using f(2) file_okD(6) [OF f(1)] by (simp add: exe_area_def file_area_def sectors_of_def)
  have "length (file_bytes (image w) h) = nat n" using f(3) by (simp add: file_bytes_def)
  then show ?thesis using file_ok_mapped [OF f(1)] f(4) dj nf(2) unfolding executable_def a by auto
qed

definition sample_program :: "byte list" where
  "sample_program = le32 NOFFMAGIC @ le32 0 @ le32 40 @ le32 160 @ concat (replicate 6 (le32 0)) @ replicate 160 7"

definition sample_noff :: NoffHeader where
  "sample_noff = \<lparr>noffMagic = NOFFMAGIC, noff_code = \<lparr>virtualAddr = 0, inFileAddr = 40, seg_size = 160\<rparr>,
     initData = \<lparr>virtualAddr = 0, inFileAddr = 0, seg_size = 0\<rparr>, uninitData = \<lparr>virtualAddr = 0, inFileAddr = 0, seg_size = 0\<rparr>\<rparr>"

lemma sample_program_noff:
  "length sample_program = 200" "noff_header False (take 40 sample_program) = Inr sample_noff" "space_pages sample_noff = 10"
  "sample_program ! 40 = 7"
  by code_simp+

lemma sample_startable:
  "\<exists>(w :: filesys_sim) f E. startable f E sample_program sample_noff 10 w"
proof -
  obtain w k k' where w: "FileSystem_format fresh_disk = Inr w" "fsys_ok w" "lookup (root_dir w) = [[46, 46] \<mapsto> 1, [46] \<mapsto> 1]"
    "bm_marked (root_map w) = {0, 1, k} \<union> {k'..<k' + 3}" using format_ok [OF fresh_disk_ok] by blast
  have dr: "divRoundUp 200 SectorSize = 2" by (simp add: divRoundUp_nonneg SectorSize_def)
  obtain j where j: "0 \<le> j" "j + 2 + 1 \<le> 1024" "{j..<j + 2 + 1} \<inter> bm_marked (root_map w) = {}"
    using formatted_room [of k k'] unfolding w(4) by blast
  have cd: "card (dom (lookup (root_dir w))) < 10" unfolding w(3) by (simp add: card_insert_if)
  obtain w1 :: filesys_sim and sec h where c: "fsys_ok w1" "lookup (root_dir w1) = (lookup (root_dir w))([97] \<mapsto> sec)" "new_file w1 sec 200 h"
    "bm_marked (root_map w1) = bm_marked (root_map w) \<union> int ` insert (nat sec) (sectors_of h)"
    "int ` insert (nat sec) (sectors_of h) \<inter> bm_marked (root_map w) = {}"
    "same_layout (hdr (freeMapFile w)) (hdr (freeMapFile w1))" "same_layout (hdr (directoryFile w)) (hdr (directoryFile w1))"
  proof -
    have a: "plain_name [97]" "length (drop (Suc (first_dot [97])) [97]) \<le> 4" "take 20 [97 :: byte] = [97]" "(0 :: int) < 200" "(200 :: int) \<le> 1024"
      "lookup (root_dir w) (take 20 [97]) = None" using w(3) by (simp_all add: plain_name_def slash_def)
    from Create_ok [OF w(2) a(1,2,4,5,6) cd j(1), unfolded dr a(3), OF j(2,3)] show thesis by (elim exE conjE) (rule that; assumption)
  qed
  have "insert (nat sec) (sectors_of h) \<inter> system_area w1 = {}"
    using system_area_marked [OF w(2)] c(5) unfolding system_area_layout [OF c(6,7)] by blast
  note ex = new_file_executable [OF c(1,3) _ this]
  have h: "file_ok h" "numBytes h = 200" using c(3) by (simp_all add: new_file_def)
  obtain w2 :: filesys_sim and f E where w2: "fsys_ok w2" "executable f E sample_program w2" "root_map w2 = root_map w1" "root_dir w2 = root_dir w1"
    using executable_write [OF c(1) ex, of sample_program] sample_program_noff(1) h(2) by (auto simp: file_bytes_def)
  let ?w = "w2\<lparr>mach := idle_machine\<rparr>"
  note M = fsys_ok_mach [OF w2(1) idle_machine_map(1)]
  have "executable f E sample_program ?w" using w2(2) M(2,4) by (simp add: executable_def)
  moreover have "lookup (root_dir ?w) vm_name = None" using M(3) w2(4) c(2) w(3) by (simp add: vm_name_def)
  moreover have "card (dom (lookup (root_dir ?w))) < 10" using M(3) w2(4) c(2) w(3) by (simp add: card_insert_if)
  moreover have "card (bm_marked (root_map ?w) \<inter> {0..<128}) + nat 10 + 2 \<le> 128"
  proof -
    have ns: "numSectors h = 2" using h dr by (simp add: file_ok_def)
    have "card (sectors_of h) \<le> length (take (nat (numSectors h)) (dataSectors h))" unfolding sectors_of_def
      by (rule le_trans [OF card_image_le card_length]) simp
    then have "card (sectors_of h) \<le> 2" using ns by simp
    then have "card (insert (nat sec) (sectors_of h)) \<le> 3" using card_insert_le_m1 [of 3] by (simp add: card_insert_if)
    then have "card (int ` insert (nat sec) (sectors_of h)) \<le> 3" using card_image_le [of "insert (nat sec) (sectors_of h)" int] by (auto simp: sectors_of_def)
    moreover have "card (bm_marked (root_map w)) \<le> card {0, 1, k} + card {k'..<k' + 3}" unfolding w(4) by (rule card_Un_le)
    moreover have "card {0, 1, k} \<le> 3" by (simp add: card_insert_if)
    ultimately have "card (bm_marked (root_map w1)) \<le> 9" using card_Un_le [of "bm_marked (root_map w)" "int ` insert (nat sec) (sectors_of h)"] unfolding c(4) by simp
    moreover have "card (bm_marked (root_map w1) \<inter> {0..<128}) \<le> card (bm_marked (root_map w1))"
      by (rule card_mono) (auto simp: c(4) w(4) sectors_of_def)
    ultimately show ?thesis using M(2) w2(3) by simp
  qed
  moreover have "seg_fits (noff_code sample_noff) sample_program (10 * 128)" "seg_fits (initData sample_noff) sample_program (10 * 128)"
    using sample_program_noff(1) by (simp_all add: seg_fits_def sample_noff_def)
  ultimately have "startable f E sample_program sample_noff 10 ?w"
    using M(1) sample_program_noff(2,3) idle_machine_map(2) by (simp add: startable_def idle_machine_def frames_ok_def Bitmap_new_def)
  then show ?thesis by blast
qed

section \<open>Property of loading\<close>

text \<open>
  (C1) A program starts with the memory its object file describes, under the conditions of \<open>startable\<close>: the object file has a valid header
  and its segments fit; the program has 9 to 40 pages (the limit of the file system's index block); there is no file \<^verbatim>\<open>virtual_memory\<close>
  yet and a free directory entry for it; and among the sectors 0 to 127 as many are free as the program has pages, and two more. (\<^verbatim>\<open>ByteToSector\<close> reads the index block as signed bytes, so a swap file with sectors from 128 on is read wrongly.) Then the constructor of the address space
  returns; after \<^verbatim>\<open>InitRegisters\<close> and \<^verbatim>\<open>RestoreState\<close> the program counter is 0, the next one 4, the stack
  pointer 16 bytes below the end of the address space, the invariant of demand paging holds, and the flat memory
  the program will read contains every byte of the initialised data at its virtual address, and every byte of the code at its
  virtual address except where the initialised data, which is copied after it, overlaps it.
\<close>

theorem program_loaded:
  assumes "startable f E X H N w" "length hdr_mem = 40"
  shows "\<exists>w' f' sp m' sec B. AddrSpace_new p hdr_mem pt_mem ch f w = Inr (w', f', sp) \<and> InitRegisters sp (mach w') = Inr m' \<and>
    user_paged sec B N (setStatus UserMode (w'\<lparr>mach := RestoreState sp m'\<rparr>)) \<and> regs_ok (RestoreState sp m') \<and>
    registers m' PCReg = 0 \<and> registers m' NextPCReg = 4 \<and> registers m' StackReg = space_pages H * 128 - 16 \<and>
    (\<forall>a < nat (N * 128). seg_covers (initData H) a \<longrightarrow> user_mem B N (setStatus UserMode (w'\<lparr>mach := RestoreState sp m'\<rparr>)) a =
       X ! (unat (inFileAddr (initData H)) + (a - unat (virtualAddr (initData H))))) \<and>
    (\<forall>a < nat (N * 128). seg_covers (noff_code H) a \<and> \<not> seg_covers (initData H) a \<longrightarrow>
       user_mem B N (setStatus UserMode (w'\<lparr>mach := RestoreState sp m'\<rparr>)) a =
       X ! (unat (inFileAddr (noff_code H)) + (a - unat (virtualAddr (noff_code H)))))"
  by (rule program_start [OF assms])

theorem program_loaded_witness:
  "\<exists>(w :: filesys_sim) f w' f' sp m' B. AddrSpace_new 5 (replicate 40 0) [] 0 f w = Inr (w', f', sp) \<and> InitRegisters sp (mach w') = Inr m' \<and>
    user_mem B 10 (setStatus UserMode (w'\<lparr>mach := RestoreState sp m'\<rparr>)) 0 = 7"
proof -
  obtain w :: filesys_sim and f E where st: "startable f E sample_program sample_noff 10 w" using sample_startable by blast
  have seg: "seg_covers (noff_code sample_noff) 0" "\<not> seg_covers (initData sample_noff) 0" by (simp_all add: seg_covers_def sample_noff_def)
  have at: "unat (inFileAddr (noff_code sample_noff)) + (0 - unat (virtualAddr (noff_code sample_noff))) = 40" by (simp add: sample_noff_def)
  obtain w' f' sp m' sec B where "AddrSpace_new 5 (replicate 40 0) [] 0 f w = Inr (w', f', sp)" "InitRegisters sp (mach w') = Inr m'"
    and code: "\<forall>a < nat (10 * 128). seg_covers (noff_code sample_noff) a \<and> \<not> seg_covers (initData sample_noff) a \<longrightarrow>
       user_mem B 10 (setStatus UserMode (w'\<lparr>mach := RestoreState sp m'\<rparr>)) a =
       sample_program ! (unat (inFileAddr (noff_code sample_noff)) + (a - unat (virtualAddr (noff_code sample_noff))))"
    using program_loaded [OF st length_replicate [of 40 0], of 5 "[]" 0] by blast
  moreover have "user_mem B 10 (setStatus UserMode (w'\<lparr>mach := RestoreState sp m'\<rparr>)) 0 = sample_program ! 40"
    using code [rule_format, of 0] seg unfolding at by simp
  ultimately show ?thesis unfolding sample_program_noff(4) by blast
qed

end
