(* ===== verification/Nachos_UserRun.thy ===== *)
theory Nachos_UserRun
  imports Nachos_Paging
begin

text \<open>
  Running user programs: \<^verbatim>\<open>Machine::Run\<close> with the kernel's \<^verbatim>\<open>ExceptionHandler\<close>, the clock tick after each instruction
  and the single-step debugger of \<^verbatim>\<open>machine/machine.cc\<close>. Whatever the program does, the machine stays well formed.
\<close>

section \<open>The debugger\<close>

text \<open>
  \<^verbatim>\<open>sscanf(buf, "%d", &num)\<close>: blanks, a sign, digits. A number that does not fit makes the call undefined.
\<close>

definition isspace :: "byte \<Rightarrow> bool" where
  "isspace b \<longleftrightarrow> b = 32 \<or> 9 \<le> b \<and> b \<le> 13"

definition isdigit :: "byte \<Rightarrow> bool" where
  "isdigit b \<longleftrightarrow> 48 \<le> b \<and> b \<le> 57"

definition digits_value :: "byte list \<Rightarrow> int" where
  "digits_value = foldl (\<lambda>n b. 10 * n + (uint b - 48)) 0"

definition scan_int :: "byte list \<Rightarrow> int option" where
  "scan_int buf =
     (let t = dropWhile isspace buf;
          neg = (t \<noteq> [] \<and> hd t = 45);
          u = (if t \<noteq> [] \<and> (hd t = 45 \<or> hd t = 43) then tl t else t);
          ds = takeWhile isdigit u
      in if ds = [] then None else Some (if neg then - digits_value ds else digits_value ds))"

text \<open>\<open>buf\<close> is the line that was typed; the rest of the routine prints.\<close>

definition Debugger :: "byte list \<Rightarrow> 'a sim_scheme \<Rightarrow> 'a sim_scheme result" where
  "Debugger buf s =
     (case scan_int buf of
        Some num \<Rightarrow> if fits32 num then Inr (s\<lparr>mach := (mach s)\<lparr>runUntilTime := num\<rparr>\<rparr>) else Inl UndefinedOp
      | None \<Rightarrow>
          let m = (mach s)\<lparr>runUntilTime := 0\<rparr>
          in Inr (s\<lparr>mach := if buf \<noteq> [] \<and> hd buf = 99 then m\<lparr>singleStep := False\<rparr> else m\<rparr>))"

lemma Debugger_wf:
  assumes "machine_wf (mach s)" "Debugger buf s = Inr s'"
  shows "machine_wf (mach s')"
proof -
  have e: "machine_wf (m\<lparr>runUntilTime := n\<rparr>) = machine_wf m" "machine_wf (m\<lparr>singleStep := b\<rparr>) = machine_wf m" for m n b
    by (auto simp: machine_wf_def regs_ok_def table_ok_def split: option.splits)
  show ?thesis using assms by (auto simp: Debugger_def Let_def e split: option.splits if_splits)
qed

section \<open>The handler\<close>

lemma ExceptionHandler_wf:
  assumes tc: "\<And>c t t'. machine_wf (mach t) \<Longrightarrow> thread_call c t = Inr t' \<Longrightarrow> machine_wf (mach t')" and s: "machine_wf (mach s)"
  shows "returns (\<lambda>s'. machine_wf (mach s')) (ExceptionHandler thread_call e s)"
proof -
  have "returns (\<lambda>s'. machine_wf (mach s')) (thread_call c s)" for c using tc [OF s] by (auto simp: returns_def)
  then show ?thesis unfolding ExceptionHandler_def
    using file_calls_wf [OF s] fault_handler_wf [OF s] by (auto simp: Halt_def returns_split split: option.split syscall.split)
qed

lemma tick_wf: "machine_wf (mach s) \<Longrightarrow> returns (\<lambda>s'. machine_wf (mach s')) (OneTick sd_handlers no_yield s)"
  by (rule wf.OneTick_stable [OF wf.kept_handlers(3) wf.kept_handlers(2)])

section \<open>Running a program\<close>

text \<open>
  Why the round that starts in state \<open>s\<close> stops with \<open>f\<close>: the instruction stopped, for one of the three causes of
  \<open>instruction_fault\<close>; the instruction was executed and the clock tick after it stopped; or both returned, and the number typed at the debugger, which
  single-stepping then calls, does not fit.
\<close>

definition stop_reason ::
  "(ExceptionType \<Rightarrow> 'a synch_sim_scheme \<Rightarrow> 'a synch_sim_scheme result) \<Rightarrow> ('a synch_sim_scheme \<Rightarrow> 'a synch_sim_scheme result)
     \<Rightarrow> fault \<Rightarrow> 'a synch_sim_scheme \<Rightarrow> bool" where
  "stop_reason K dbg f s \<longleftrightarrow>
     OneInstruction K s = Inl f \<and> instruction_fault K f s \<or>
     (\<exists>s1. OneInstruction K s = Inr s1 \<and> OneTick sd_handlers no_yield s1 = Inl f) \<or>
     (\<exists>s1 s2 buf num. OneInstruction K s = Inr s1 \<and> OneTick sd_handlers no_yield s1 = Inr s2 \<and>
        singleStep (mach s2) \<and> runUntilTime (mach s2) \<le> totalTicks (stats s2) \<and>
        dbg s2 = Debugger buf s2 \<and> scan_int buf = Some num \<and> \<not> fits32 num \<and> f = UndefinedOp)"

lemma instruction_step:
  assumes "\<And>e t t'. machine_wf (mach t) \<Longrightarrow> K e t = Inr t' \<Longrightarrow> machine_wf (mach t')" and "machine_wf (mach s)"
  shows "case OneInstruction K s of Inr s' \<Rightarrow> machine_wf (mach s') | Inl f \<Rightarrow> instruction_fault K f s"
  using instruction_safe [of K s] assms unfolding user_ok_wf by blast

lemma Debugger_fails:
  assumes "Debugger buf s = Inl f"
  shows "\<exists>num. scan_int buf = Some num \<and> \<not> fits32 num \<and> f = UndefinedOp"
  using assms by (auto simp: Debugger_def Let_def split: option.splits if_splits)

lemma run_rounds_wf:
  fixes s :: "'a synch_sim_scheme"
  assumes K: "\<And>e t t'. machine_wf (mach t) \<Longrightarrow> K e t = Inr t' \<Longrightarrow> machine_wf (mach t')"
    and dbg: "\<And>t. \<exists>buf. dbg t = Debugger buf t" and s: "machine_wf (mach s)"
  shows "case run_rounds K (OneTick sd_handlers no_yield) dbg n s of Inr s' \<Rightarrow> machine_wf (mach s')
    | Inl f \<Rightarrow> \<exists>k < n. \<exists>sk. run_rounds K (OneTick sd_handlers no_yield) dbg k s = Inr sk \<and> machine_wf (mach sk) \<and> stop_reason K dbg f sk"
  using s
proof (induction n arbitrary: s)
  case (Suc n)
  note step1 = instruction_step [of K, OF K Suc.prems]
  let ?tick = "OneTick sd_handlers no_yield" and ?run = "run_rounds K (OneTick sd_handlers no_yield) dbg"
  have first: ?case if "?run (Suc n) s = Inl f" "stop_reason K dbg f s" for f
    using that Suc.prems by (auto intro!: exI [of _ 0])
  show ?case
  proof (cases "OneInstruction K s")
    case (Inl f)
    then have "stop_reason K dbg f s" using step1 unfolding stop_reason_def by auto
    then show ?thesis using Inl by (intro first) simp_all
  next
    case s1: (Inr s1)
    have w1: "machine_wf (mach s1)" using step1 s1 by simp
    show ?thesis
    proof (cases "?tick s1")
      case (Inl f)
      then have "stop_reason K dbg f s" using s1 unfolding stop_reason_def by blast
      then show ?thesis using s1 Inl by (intro first) simp_all
    next
      case s2: (Inr s2)
      have w2: "machine_wf (mach s2)" using returnsD [OF tick_wf [OF w1] s2] .
      define stop where "stop \<longleftrightarrow> singleStep (mach s2) \<and> runUntilTime (mach s2) \<le> totalTicks (stats s2)"
      obtain buf where buf: "dbg s2 = Debugger buf s2" using dbg by blast
      show ?thesis
      proof (cases "if stop then dbg s2 else Inr s2")
        case (Inl f)
        then have d: "stop" "Debugger buf s2 = Inl f" using buf by (auto split: if_splits)
        then have "stop_reason K dbg f s" using Debugger_fails [OF d(2)] s1 s2 buf unfolding stop_reason_def stop_def by blast
        then show ?thesis using s1 s2 Inl by (intro first) (simp_all add: stop_def)
      next
        case s3: (Inr s3)
        have w3: "machine_wf (mach s3)" using s3 w2 buf Debugger_wf [OF w2] by (auto split: if_splits)
        have step: "?run (Suc k) s = ?run k s3" for k using s1 s2 s3 by (simp add: stop_def)
        show ?thesis
        proof (cases "?run n s3")
          case (Inl f)
          then obtain k sk where "k < n" "?run k s3 = Inr sk" "machine_wf (mach sk)" "stop_reason K dbg f sk" using Suc.IH [OF w3] by auto
          then show ?thesis using step Inl by (auto intro!: exI [of _ "Suc k"])
        next
          case (Inr s')
          then show ?thesis using Suc.IH [OF w3] step by simp
        qed
      qed
    qed
  qed
qed simp

section \<open>Refilling the TLB\<close>

lemma free_slot_spec:
  "case free_slot es i of None \<Rightarrow> \<forall>e \<in> set es. valid e | Some j \<Rightarrow> i \<le> j \<and> j < i + length es \<and> \<not> valid (es ! (j - i))"
proof (induction es i rule: free_slot.induct)
  case (2 e es i)
  then show ?case by (auto simp: nth_Cons' not_less_eq_eq split: option.splits)
qed simp

lemma oldest_spec:
  "((\<forall>e \<in> set es. sint (cnt e) \<le> mc) \<and> oldest es i mc mi = mi) \<or>
   (\<exists>k < length es. oldest es i mc mi = i + int k \<and> mc < sint (cnt (es ! k)) \<and> (\<forall>e \<in> set es. sint (cnt e) \<le> sint (cnt (es ! k))))"
proof (induction es arbitrary: i mc mi)
  case (Cons e es)
  show ?case
  proof (cases "sint (cnt e) > mc")
    case True
    then show ?thesis using Cons.IH [of "sint (cnt e)" "i + 1" i] by (auto intro: exI [of _ 0] exI [of _ "Suc _"])
  next
    case False
    then show ?thesis using Cons.IH [of mc "i + 1" mi] by (auto intro: exI [of _ "Suc _"])
  qed
qed simp

text \<open>The slot that a miss fills: a free one, or the one with the largest age.\<close>

definition victim_slot :: "TranslationEntry list \<Rightarrow> nat \<Rightarrow> bool" where
  "victim_slot t i \<longleftrightarrow> i < length t \<and> (\<not> valid (t ! i) \<or> (\<forall>e \<in> set t. valid e \<and> sint (cnt e) \<le> sint (cnt (t ! i))))"

definition older :: "TranslationEntry \<Rightarrow> TranslationEntry" where
  "older e = (if valid e then e\<lparr>cnt := cnt e + 1\<rparr> else e)"

lemma older_simps [simp]: "valid (older e) = valid e" "cnt (older e) = (if valid e then cnt e + 1 else cnt e)"
  by (simp_all add: older_def)

definition ages_ok :: "TranslationEntry list \<Rightarrow> bool" where
  "ages_ok t \<longleftrightarrow> (\<forall>e \<in> set t. valid e \<longrightarrow> 0 \<le> sint (cnt e) \<and> sint (cnt e) < 2 ^ 31 - 1)"

lemma sint_Suc: "0 \<le> sint (x :: u32) \<Longrightarrow> sint x < 2 ^ 31 - 1 \<Longrightarrow> sint (x + 1) = sint x + 1"
  by (simp add: sint_word_ariths signed_take_bit_int_eq_self)

lemma refill_ages:
  assumes "length t = nat TLBSize" "ages_ok t"
  shows "\<exists>i t'. tlb_refill entry t = Inr t' \<and> victim_slot t i \<and> length t' = length t \<and> valid (t' ! i) \<and> cnt (t' ! i) = 0 \<and>
    virtualPage (t' ! i) = virtualPage entry \<and> physicalPage (t' ! i) = physicalPage entry \<and> readOnly (t' ! i) = readOnly entry \<and>
    (\<forall>j < length t. j \<noteq> i \<longrightarrow> t' ! j = older (t ! j))"
proof -
  let ?t = "map older t"
  have m: "map (\<lambda>e. if valid e then e\<lparr>cnt := cnt e + 1\<rparr> else e) t = ?t" by (simp add: older_def)
  have age: "sint (cnt (older e)) = sint (cnt e) + 1" if "e \<in> set t" "valid e" for e
    using that assms(2) by (simp add: ages_ok_def sint_Suc)
  show ?thesis
  proof (cases "free_slot ?t 0")
    case (Some i)
    then have i: "i < length t" "\<not> valid (t ! i)" using free_slot_spec [of ?t 0] by auto
    have "tlb_refill entry t = Inr (?t[i := (tlb_load entry (?t ! i))\<lparr>valid := True\<rparr>])"
      unfolding tlb_refill_def Let_def m using assms(1) Some by simp
    then show ?thesis using i by (intro exI [of _ i] exI) (auto simp: victim_slot_def tlb_load_def)
  next
    case None
    then have v: "\<forall>e \<in> set t. valid e" using free_slot_spec [of ?t 0] by auto
    have "t \<noteq> []" using assms(1) by (auto simp: TLBSize_def)
    then have t0: "t ! 0 \<in> set t" by simp
    then have "0 < sint (cnt (older (t ! 0)))" using assms(2) v age [of "t ! 0"] by (auto simp: ages_ok_def)
    moreover have "older (t ! 0) \<in> set ?t" using t0 by simp
    ultimately have "\<not> (\<forall>e \<in> set ?t. sint (cnt e) \<le> 0)" by (metis leD)
    then obtain i where i: "i < length t" "oldest ?t 0 0 (-1) = int i" "\<forall>e \<in> set ?t. sint (cnt e) \<le> sint (cnt (?t ! i))"
      using oldest_spec [of ?t 0 0 "-1"] by auto
    have "\<forall>e \<in> set t. sint (cnt e) \<le> sint (cnt (t ! i))"
    proof
      fix e assume e: "e \<in> set t"
      then have "sint (cnt (older e)) \<le> sint (cnt (older (t ! i)))" using i(1,3) by simp
      then show "sint (cnt e) \<le> sint (cnt (t ! i))" using age [OF e] age [OF nth_mem [OF i(1)]] v e nth_mem [OF i(1)] by simp
    qed
    moreover have "tlb_refill entry t = Inr (?t[i := tlb_load entry (?t ! i)])"
      unfolding tlb_refill_def Let_def m using assms(1) None i(1,2) by (simp add: arr_get_def arr_set_def TLBSize_def)
    ultimately show ?thesis using i(1) v by (intro exI [of _ i] exI) (auto simp: victim_slot_def tlb_load_def)
  qed
qed

text \<open>Without the bound: when every age is the largest int, all of them wrap and the index -1 is used.\<close>

lemma refill_wraps:
  assumes "length t = nat TLBSize" "\<forall>e \<in> set t. valid e \<and> cnt e = 2 ^ 31 - 1"
  shows "tlb_refill entry t = Inl OutOfBounds"
proof -
  let ?t = "map older t"
  have m: "map (\<lambda>e. if valid e then e\<lparr>cnt := cnt e + 1\<rparr> else e) t = ?t" by (simp add: older_def)
  have "free_slot ?t 0 = None" using free_slot_spec [of ?t 0] assms(2) by (auto split: option.splits)
  moreover have "sint (cnt e) \<le> 0" if "e \<in> set ?t" for e using that assms(2) by auto
  then have "oldest ?t 0 0 (-1) = -1" using oldest_spec [of ?t 0 0 "-1"] nth_mem [of _ ?t] by (metis not_le)
  ultimately show ?thesis unfolding tlb_refill_def Let_def m using assms(1) by (simp add: arr_get_def)
qed

section \<open>Property of user programs\<close>

text \<open>
  (C13) A user program cannot corrupt the machine. Run any number of rounds of \<^verbatim>\<open>Machine::Run\<close> with the kernel's own
  handler (page faults and the system calls on files as modelled; the calls on threads may do what they like as long
  as they keep the machine well formed), the clock tick and the debugger: either the machine is well formed
  (register 0 is zero, the pending load names a general register, the table has its size), or the run stopped in round \<open>k + 1\<close>,
  which began in a well-formed state, for a reason that lies in this very round: its instruction called the handler and that call stopped, its
  partial-word access was unaligned, its division overflowed, the clock tick after it stopped, or the number
  typed at the debugger after the tick did not fit.
\<close>

theorem user_program_safe:
  fixes s :: "'a user_sim_scheme"
  assumes "\<And>c t t'. machine_wf (mach t) \<Longrightarrow> thread_call c t = Inr t' \<Longrightarrow> machine_wf (mach t')"
    and "\<And>t. \<exists>buf. dbg t = Debugger buf t" and "machine_wf (mach s)"
  shows "case Run (ExceptionHandler thread_call) (OneTick sd_handlers no_yield) dbg n s of Inr s' \<Rightarrow> machine_wf (mach s')
    | Inl f \<Rightarrow> \<exists>k < n. \<exists>sk. Run (ExceptionHandler thread_call) (OneTick sd_handlers no_yield) dbg k s = Inr sk \<and>
        machine_wf (mach sk) \<and> stop_reason (ExceptionHandler thread_call) dbg f sk"
  unfolding Run_def
proof (rule run_rounds_wf)
  show "\<And>t. \<exists>buf. dbg t = Debugger buf t" by (rule assms(2))
  show "machine_wf (mach (setStatus UserMode s))" using assms(3) by (simp add: setStatus_def)
  fix e t t' assume "machine_wf (mach t)" "ExceptionHandler thread_call e t = Inr t'"
  then show "machine_wf (mach t')" using returnsD [OF ExceptionHandler_wf] assms(1) by blast
qed


definition sample_user :: user_sim where
  "sample_user = filesys_sim.extend (fresh_disk\<lparr>mach := blank_machine\<rparr>) (user_sim.fields (\<lambda>_. None) (\<lambda>_. 0) 0 0 (\<lambda>_. 0) 0)"

lemma sample_user_wf: "machine_wf (mach sample_user)"
  using blank_user_ok by (simp add: user_ok_wf sample_user_def filesys_sim.defs user_sim.defs blank_sim_def fresh_disk_def fs_sim.defs)

theorem user_program_safe_witness:
  "case Run (ExceptionHandler (\<lambda>_. Inr)) (OneTick sd_handlers no_yield) (Debugger []) 1 sample_user of Inr s' \<Rightarrow> machine_wf (mach s')
    | Inl f \<Rightarrow> stop_reason (ExceptionHandler (\<lambda>_. Inr)) (Debugger []) f (setStatus UserMode sample_user)"
proof -
  have "case Run (ExceptionHandler (\<lambda>_. Inr)) (OneTick sd_handlers no_yield) (Debugger []) 1 sample_user of Inr s' \<Rightarrow> machine_wf (mach s')
    | Inl f \<Rightarrow> \<exists>k < 1. \<exists>sk. Run (ExceptionHandler (\<lambda>_. Inr)) (OneTick sd_handlers no_yield) (Debugger []) k sample_user = Inr sk \<and>
        machine_wf (mach sk) \<and> stop_reason (ExceptionHandler (\<lambda>_. Inr)) (Debugger []) f sk"
    by (rule user_program_safe) (auto intro: sample_user_wf)
  then show ?thesis by (auto simp: Run_def split: sum.splits)
qed


text \<open>
  (C39) A TLB miss replaces the entry with the largest age. When the age of every valid entry lies between 0 and the largest
  int less one, refilling returns: it takes a free entry if there is one, and otherwise the valid entry with the largest
  age; that entry then is valid and holds the page and frame of the page table entry with its age at
  0, and every other valid entry has its age one higher and is otherwise unchanged. When all entries are valid and all ages are at the largest int, they wrap and the handler writes \<^verbatim>\<open>tlb[-1]\<close>.
\<close>

theorem tlb_refill_replaces_oldest:
  assumes "length t = nat TLBSize"
  shows "(ages_ok t \<longrightarrow> (\<exists>i t'. tlb_refill entry t = Inr t' \<and> victim_slot t i \<and> length t' = length t \<and> valid (t' ! i) \<and> cnt (t' ! i) = 0 \<and>
    virtualPage (t' ! i) = virtualPage entry \<and> physicalPage (t' ! i) = physicalPage entry \<and> readOnly (t' ! i) = readOnly entry \<and>
    (\<forall>j < length t. j \<noteq> i \<longrightarrow> t' ! j = older (t ! j)))) \<and>
    ((\<forall>e \<in> set t. valid e \<and> cnt e = 2 ^ 31 - 1) \<longrightarrow> tlb_refill entry t = Inl OutOfBounds)"
  using refill_ages [OF assms, of entry] refill_wraps [OF assms, of entry] by blast

definition sample_entry :: "u32 \<Rightarrow> u32 \<Rightarrow> TranslationEntry" where
  "sample_entry v c = \<lparr>virtualPage = v, physicalPage = v, valid = True, readOnly = False, use = False, dirty = False, cnt = c\<rparr>"

theorem tlb_refill_replaces_oldest_witness:
  "(\<exists>t'. tlb_refill (sample_entry 9 0) [sample_entry 1 3, sample_entry 2 5, sample_entry 3 0, sample_entry 4 1] = Inr t' \<and> virtualPage (t' ! 1) = 9) \<and>
   tlb_refill (sample_entry 9 0) (replicate 4 (sample_entry 1 (2 ^ 31 - 1))) = Inl OutOfBounds"
proof
  let ?t = "[sample_entry 1 3, sample_entry 2 5, sample_entry 3 0, sample_entry 4 1]"
  have "length ?t = nat TLBSize" "ages_ok ?t" by (simp_all add: TLBSize_def sample_entry_def ages_ok_def)
  then obtain i t' where r: "tlb_refill (sample_entry 9 0) ?t = Inr t'" "victim_slot ?t i" "virtualPage (t' ! i) = virtualPage (sample_entry 9 0)"
    using tlb_refill_replaces_oldest [of ?t "sample_entry 9 0"] by blast
  have "i < 4" using r(2) by (simp add: victim_slot_def)
  then have "i = 1" using r(2) by (auto simp: victim_slot_def sample_entry_def less_Suc_eq numeral_eq_Suc)
  then show "\<exists>t'. tlb_refill (sample_entry 9 0) ?t = Inr t' \<and> virtualPage (t' ! 1) = 9" using r by (auto simp: sample_entry_def)
  show "tlb_refill (sample_entry 9 0) (replicate 4 (sample_entry 1 (2 ^ 31 - 1))) = Inl OutOfBounds"
    using tlb_refill_replaces_oldest [of "replicate 4 (sample_entry 1 (2 ^ 31 - 1))" "sample_entry 9 0"]
    by (simp add: TLBSize_def) (simp add: sample_entry_def)
qed

end
