(* ===== verification/Nachos_Coff.thy ===== *)
theory Nachos_Coff
  imports Nachos_AddrSpace
begin

text \<open>
  The conversion of object files (\<^verbatim>\<open>bin/coff2noff.c\<close>, \<^verbatim>\<open>bin/coff.h\<close>): the tool reads a MIPS COFF file and writes the
  NOFF file that \<^verbatim>\<open>AddrSpace::AddrSpace\<close> loads. Files are lists of bytes; the host is little endian, its \<^verbatim>\<open>int\<close> and
  \<^verbatim>\<open>long\<close> have 32 bits. Every \<^verbatim>\<open>exit(1)\<close> is an error value. The NOFF header lives on the stack: the fields of absent
  segments keep what the stack held, the argument \<open>junk\<close>. A section size with the sign bit set makes \<^verbatim>\<open>malloc\<close> and
  \<^verbatim>\<open>read\<close> fail in ways that depend on the host: the model stops there with \<open>HostDependent\<close>.
\<close>

section \<open>COFF headers\<close>

datatype coff_error = Usage | CannotOpen | TooShort | CannotWrite | NotMIPSEL | NotOMAGIC | BothData | BothBss | UnknownSegment | HostDependent

definition un_le16 :: "byte list \<Rightarrow> u16" where
  "un_le16 bs = (case bs of [a, b] \<Rightarrow> ucast a OR push_bit 8 (ucast b) | _ \<Rightarrow> 0)"

definition MIPSELMAGIC :: u16 where "MIPSELMAGIC = 0x0162"
definition OMAGIC :: u16 where "OMAGIC = 263"

record filehdr =
  f_magic :: u16
  f_nscns :: u16
  f_timdat :: u32
  f_symptr :: u32
  f_nsyms :: u32
  f_opthdr :: u16
  f_flags :: u16

record aouthdr =
  magic :: u16
  vstamp :: u16
  tsize :: u32
  dsize :: u32
  bsize :: u32
  entry :: u32
  text_start :: u32
  data_start :: u32
  bss_start :: u32
  gprmask :: u32
  cprmask :: "u32 list"
  gp_value :: u32

record scnhdr =
  s_name :: "byte list"
  s_paddr :: u32
  s_vaddr :: u32
  s_size :: u32
  s_scnptr :: u32
  s_relptr :: u32
  s_lnnoptr :: u32
  s_nreloc :: u16
  s_nlnno :: u16
  s_flags :: u32

text \<open>The structures as they lie in the bytes of a file.\<close>

definition u16_at :: "nat \<Rightarrow> byte list \<Rightarrow> u16" where "u16_at i bs = un_le16 (take 2 (drop i bs))"
definition u32_at :: "nat \<Rightarrow> byte list \<Rightarrow> u32" where "u32_at i bs = un_le32 (take 4 (drop i bs))"

definition bytes_filehdr :: "byte list \<Rightarrow> filehdr" where
  "bytes_filehdr bs = \<lparr>f_magic = u16_at 0 bs, f_nscns = u16_at 2 bs, f_timdat = u32_at 4 bs, f_symptr = u32_at 8 bs,
     f_nsyms = u32_at 12 bs, f_opthdr = u16_at 16 bs, f_flags = u16_at 18 bs\<rparr>"

definition bytes_aouthdr :: "byte list \<Rightarrow> aouthdr" where
  "bytes_aouthdr bs = \<lparr>magic = u16_at 0 bs, vstamp = u16_at 2 bs, tsize = u32_at 4 bs, dsize = u32_at 8 bs, bsize = u32_at 12 bs,
     entry = u32_at 16 bs, text_start = u32_at 20 bs, data_start = u32_at 24 bs, bss_start = u32_at 28 bs, gprmask = u32_at 32 bs,
     cprmask = map (\<lambda>i. u32_at (36 + 4 * i) bs) [0..<4], gp_value = u32_at 52 bs\<rparr>"

definition bytes_scnhdr :: "byte list \<Rightarrow> scnhdr" where
  "bytes_scnhdr bs = \<lparr>s_name = take 8 bs, s_paddr = u32_at 8 bs, s_vaddr = u32_at 12 bs, s_size = u32_at 16 bs,
     s_scnptr = u32_at 20 bs, s_relptr = u32_at 24 bs, s_lnnoptr = u32_at 28 bs, s_nreloc = u16_at 32 bs, s_nlnno = u16_at 34 bs,
     s_flags = u32_at 36 bs\<rparr>"

fun bytes_scnhdrs :: "nat \<Rightarrow> byte list \<Rightarrow> scnhdr list" where
  "bytes_scnhdrs 0 bs = []"
| "bytes_scnhdrs (Suc n) bs = bytes_scnhdr (take 40 bs) # bytes_scnhdrs n (drop 40 bs)"

section \<open>The conversion\<close>

text \<open>\<^verbatim>\<open>Read\<close> takes bytes at the file position, \<^verbatim>\<open>lseek\<close> leaves the position alone when the offset is negative.\<close>

definition coff_Read :: "byte list \<Rightarrow> nat \<Rightarrow> u32 \<Rightarrow> coff_error + (nat \<times> byte list)" where
  "coff_Read inp pos n =
     (if sint n < 0 then Inl HostDependent
      else if length (take (unat n) (drop pos inp)) \<noteq> unat n then Inl TooShort
      else Inr (pos + unat n, take (unat n) (drop pos inp)))"

definition lseek :: "nat \<Rightarrow> u32 \<Rightarrow> nat" where
  "lseek pos off = (if sint off < 0 then pos else unat off)"

text \<open>The output: \<open>fdOut\<close> is whether the file could be opened, which the program does not test.\<close>

definition coff_Write :: "bool \<Rightarrow> byte list \<Rightarrow> byte list \<Rightarrow> coff_error + byte list" where
  "coff_Write fdOut body bs = (if fdOut then Inr (body @ bs) else Inl CannotWrite)"

definition strcmp_eq :: "byte list \<Rightarrow> byte list \<Rightarrow> bool" where
  "strcmp_eq s_nm lit \<longleftrightarrow> take (Suc (length lit)) s_nm = lit @ [0]"

definition text_name :: "byte list" where "text_name = [46, 116, 101, 120, 116]"
definition data_name :: "byte list" where "data_name = [46, 100, 97, 116, 97]"
definition rdata_name :: "byte list" where "rdata_name = [46, 114, 100, 97, 116, 97]"
definition bss_name :: "byte list" where "bss_name = [46, 98, 115, 115]"
definition sbss_name :: "byte list" where "sbss_name = [46, 115, 98, 115, 115]"

text \<open>What the loop over the sections keeps: the position in the input, the header, the bytes after the header, \<open>inNoffFile\<close>.\<close>

record conv =
  cv_pos :: nat
  noffH :: NoffHeader
  cv_body :: "byte list"
  inNoffFile :: u32

definition copy_section :: "bool \<Rightarrow> byte list \<Rightarrow> scnhdr \<Rightarrow> conv \<Rightarrow> coff_error + conv" where
  "copy_section fdOut inp sec cv =
     bindr (coff_Read inp (lseek (cv_pos cv) (s_scnptr sec)) (s_size sec)) (\<lambda>(pos, buffer).
     bindr (coff_Write fdOut (cv_body cv) buffer) (\<lambda>body.
       Inr (cv\<lparr>cv_pos := pos, cv_body := body, inNoffFile := inNoffFile cv + s_size sec\<rparr>)))"

definition convert_section :: "bool \<Rightarrow> byte list \<Rightarrow> scnhdr \<Rightarrow> conv \<Rightarrow> coff_error + conv" where
  "convert_section fdOut inp sec cv =
     (let h = noffH cv; here = \<lparr>virtualAddr = s_paddr sec, inFileAddr = inNoffFile cv, seg_size = s_size sec\<rparr> in
      if s_size sec = 0 then Inr cv
      else if strcmp_eq (s_name sec) text_name then
        copy_section fdOut inp sec (cv\<lparr>noffH := h\<lparr>noff_code := here\<rparr>\<rparr>)
      else if strcmp_eq (s_name sec) data_name \<or> strcmp_eq (s_name sec) rdata_name then
        (if seg_size (initData h) \<noteq> 0 then Inl BothData
         else copy_section fdOut inp sec (cv\<lparr>noffH := h\<lparr>initData := here\<rparr>\<rparr>))
      else if strcmp_eq (s_name sec) bss_name \<or> strcmp_eq (s_name sec) sbss_name then
        (if seg_size (uninitData h) \<noteq> 0 then
           if s_paddr sec = virtualAddr (uninitData h) + seg_size (uninitData h) then Inl BothBss
           else Inr (cv\<lparr>noffH := h\<lparr>uninitData := (uninitData h)\<lparr>seg_size := seg_size (uninitData h) + s_size sec\<rparr>\<rparr>\<rparr>)
         else Inr (cv\<lparr>noffH := h\<lparr>uninitData := (uninitData h)\<lparr>virtualAddr := s_paddr sec, seg_size := s_size sec\<rparr>\<rparr>\<rparr>))
      else Inl UnknownSegment)"

fun convert_sections :: "bool \<Rightarrow> byte list \<Rightarrow> scnhdr list \<Rightarrow> conv \<Rightarrow> coff_error + conv" where
  "convert_sections fdOut inp [] cv = Inr cv"
| "convert_sections fdOut inp (sec # secs) cv = bindr (convert_section fdOut inp sec cv) (convert_sections fdOut inp secs)"

definition segment_bytes :: "Segment \<Rightarrow> byte list" where
  "segment_bytes s = le32 (virtualAddr s) @ le32 (inFileAddr s) @ le32 (seg_size s)"

definition noff_bytes :: "NoffHeader \<Rightarrow> byte list" where
  "noff_bytes h = le32 (noffMagic h) @ segment_bytes (noff_code h) @ segment_bytes (initData h) @ segment_bytes (uninitData h)"

definition init_noff :: "NoffHeader \<Rightarrow> NoffHeader" where
  "init_noff junk = \<lparr>noffMagic = NOFFMAGIC, noff_code = (noff_code junk)\<lparr>seg_size := 0\<rparr>, initData = (initData junk)\<lparr>seg_size := 0\<rparr>,
     uninitData = (uninitData junk)\<lparr>seg_size := 0\<rparr>\<rparr>"

text \<open>The headers, and the position behind the section table.\<close>

definition coff_headers :: "byte list \<Rightarrow> coff_error + (nat \<times> scnhdr list)" where
  "coff_headers inp =
     bindr (coff_Read inp 0 20) (\<lambda>(pos, bs).
     let fileh = bytes_filehdr bs in
     if f_magic fileh \<noteq> MIPSELMAGIC then Inl NotMIPSEL else
     bindr (coff_Read inp pos 56) (\<lambda>(pos, bs).
     let systemh = bytes_aouthdr bs in
     if magic systemh \<noteq> OMAGIC then Inl NotOMAGIC else
     let numsections = unat (f_nscns fileh) in
     bindr (coff_Read inp pos (of_nat (numsections * 40))) (\<lambda>(pos, bs).
       Inr (pos, bytes_scnhdrs numsections bs))))"

text \<open>\<open>fdIn\<close> is the content of the COFF file, when it can be opened.\<close>

definition coff2noff :: "int \<Rightarrow> byte list option \<Rightarrow> bool \<Rightarrow> NoffHeader \<Rightarrow> coff_error + byte list" where
  "coff2noff argc fdIn fdOut junk =
     (if argc < 2 then Inl Usage else
      case fdIn of None \<Rightarrow> Inl CannotOpen
      | Some inp \<Rightarrow>
        bindr (coff_headers inp) (\<lambda>(pos, sections).
        bindr (convert_sections fdOut inp sections \<lparr>cv_pos = pos, noffH = init_noff junk, cv_body = [], inNoffFile = 40\<rparr>) (\<lambda>cv.
        bindr (coff_Write fdOut [] (noff_bytes (noffH cv))) (\<lambda>header.
          Inr (header @ cv_body cv)))))"

text \<open>
  \<^verbatim>\<open>bin/coff2flat.c\<close> writes the sections one after the other and a zero word where the stack ends; the positions between
  are holes, which read as zero. \<open>top\<close> is a signed integer.
\<close>

definition StackSize :: u32 where "StackSize = 1024"

record flat_conv =
  fl_pos :: nat
  fl_body :: "byte list"
  fl_top :: u32

definition flat_section :: "bool \<Rightarrow> byte list \<Rightarrow> scnhdr \<Rightarrow> flat_conv \<Rightarrow> coff_error + flat_conv" where
  "flat_section fdOut inp sec fl =
     (let end = s_paddr sec + s_size sec;
          fl1 = (if sint end > sint (fl_top fl) then fl\<lparr>fl_top := end\<rparr> else fl) in
      if \<not> strcmp_eq (s_name sec) bss_name \<and> \<not> strcmp_eq (s_name sec) sbss_name then
        bindr (coff_Read inp (lseek (fl_pos fl1) (s_scnptr sec)) (s_size sec)) (\<lambda>(pos, buffer).
        bindr (coff_Write fdOut (fl_body fl1) buffer) (\<lambda>body. Inr (fl1\<lparr>fl_pos := pos, fl_body := body\<rparr>)))
      else Inr fl1)"

fun flat_sections :: "bool \<Rightarrow> byte list \<Rightarrow> scnhdr list \<Rightarrow> flat_conv \<Rightarrow> coff_error + flat_conv" where
  "flat_sections fdOut inp [] fl = Inr fl"
| "flat_sections fdOut inp (sec # secs) fl = bindr (flat_section fdOut inp sec fl) (flat_sections fdOut inp secs)"

definition write_at :: "byte list \<Rightarrow> nat \<Rightarrow> byte list \<Rightarrow> byte list" where
  "write_at file pos bs = take pos (file @ replicate (pos - length file) 0) @ bs @ drop (pos + length bs) file"

definition coff2flat :: "int \<Rightarrow> byte list option \<Rightarrow> bool \<Rightarrow> coff_error + byte list" where
  "coff2flat argc fdIn fdOut =
     (if argc < 2 then Inl Usage else
      case fdIn of None \<Rightarrow> Inl CannotOpen
      | Some inp \<Rightarrow>
        bindr (coff_headers inp) (\<lambda>(pos, sections).
        bindr (flat_sections fdOut inp sections \<lparr>fl_pos = pos, fl_body = [], fl_top = 0\<rparr>) (\<lambda>fl.
        bindr (coff_Write fdOut [] (le32 0)) (\<lambda>tmp.
          Inr (write_at (fl_body fl) (lseek (length (fl_body fl)) (fl_top fl + StackSize - 4)) tmp)))))"

section \<open>What a converted file contains\<close>

datatype seg_kind = Code | InitData | UninitData

definition section_kind :: "scnhdr \<Rightarrow> seg_kind option" where
  "section_kind sec =
     (if strcmp_eq (s_name sec) text_name then Some Code
      else if strcmp_eq (s_name sec) data_name \<or> strcmp_eq (s_name sec) rdata_name then Some InitData
      else if strcmp_eq (s_name sec) bss_name \<or> strcmp_eq (s_name sec) sbss_name then Some UninitData else None)"

definition kind_segment :: "seg_kind \<Rightarrow> NoffHeader \<Rightarrow> Segment" where
  "kind_segment k h = (case k of Code \<Rightarrow> noff_code h | InitData \<Rightarrow> initData h | UninitData \<Rightarrow> uninitData h)"

definition section_bytes :: "byte list \<Rightarrow> scnhdr \<Rightarrow> byte list" where
  "section_bytes inp sec = take (unat (s_size sec)) (drop (unat (s_scnptr sec)) inp)"

definition is_copied :: "scnhdr \<Rightarrow> bool" where
  "is_copied sec \<longleftrightarrow> s_size sec \<noteq> 0 \<and> section_kind sec \<noteq> Some UninitData"

definition coff_sections :: "byte list \<Rightarrow> scnhdr list" where
  "coff_sections inp = bytes_scnhdrs (unat (u16_at 2 inp)) (take (unat (u16_at 2 inp) * 40) (drop 76 inp))"

text \<open>
  The files the tool is meant for: the magic numbers are right, the section table is complete, and of the
  sections that are not empty there is at most one of each kind, with its bytes inside the file.
\<close>

definition coff_section_ok :: "byte list \<Rightarrow> scnhdr \<Rightarrow> bool" where
  "coff_section_ok inp sec \<longleftrightarrow> s_size sec = 0 \<or> section_kind sec = Some UninitData \<or>
     section_kind sec \<noteq> None \<and> 0 \<le> sint (s_size sec) \<and> 0 \<le> sint (s_scnptr sec) \<and> unat (s_scnptr sec) + unat (s_size sec) \<le> length inp"

definition coff_ok :: "byte list \<Rightarrow> bool" where
  "coff_ok inp \<longleftrightarrow> u16_at 0 inp = MIPSELMAGIC \<and> u16_at 20 inp = OMAGIC \<and> 76 + unat (u16_at 2 inp) * 40 \<le> length inp \<and>
     (\<forall>sec \<in> set (coff_sections inp). coff_section_ok inp sec) \<and>
     distinct (map section_kind (filter (\<lambda>sec. s_size sec \<noteq> 0) (coff_sections inp))) \<and>
     (\<Sum>sec \<leftarrow> filter is_copied (coff_sections inp). unat (s_size sec)) < 2147483000"

text \<open>A segment of the header describes a section: address, size, and where its bytes are in the output.\<close>

definition describes :: "byte list \<Rightarrow> scnhdr \<Rightarrow> Segment \<Rightarrow> byte list \<Rightarrow> bool" where
  "describes inp sec seg body \<longleftrightarrow> virtualAddr seg = s_paddr sec \<and> seg_size seg = s_size sec \<and>
     (is_copied sec \<longrightarrow> 40 \<le> unat (inFileAddr seg) \<and> unat (inFileAddr seg) - 40 + unat (s_size sec) \<le> length body \<and>
        take (unat (s_size sec)) (drop (unat (inFileAddr seg) - 40) body) = section_bytes inp sec)"

definition converted :: "byte list \<Rightarrow> scnhdr list \<Rightarrow> conv \<Rightarrow> bool" where
  "converted inp done cv \<longleftrightarrow> noffMagic (noffH cv) = NOFFMAGIC \<and> inNoffFile cv = of_nat (40 + length (cv_body cv)) \<and>
     length (cv_body cv) = (\<Sum>sec \<leftarrow> filter is_copied done. unat (s_size sec)) \<and>
     (\<forall>sec \<in> set done. \<forall>k. s_size sec \<noteq> 0 \<and> section_kind sec = Some k \<longrightarrow> describes inp sec (kind_segment k (noffH cv)) (cv_body cv)) \<and>
     (\<forall>k. (\<forall>sec \<in> set done. s_size sec \<noteq> 0 \<longrightarrow> section_kind sec \<noteq> Some k) \<longrightarrow> seg_size (kind_segment k (noffH cv)) = 0)"

lemma unat_of_small: "n < 4294967296 \<Longrightarrow> unat (of_nat n :: u32) = n"
  by (simp add: unsigned_of_nat take_bit_nat_eq_self)

lemma describes_append: "describes inp sec seg body \<Longrightarrow> describes inp sec seg (body @ bs)"
  by (auto simp: describes_def)

lemma copy_section_ok:
  assumes "coff_section_ok inp sec" "is_copied sec"
  shows "copy_section True inp sec cv = Inr (cv\<lparr>cv_pos := unat (s_scnptr sec) + unat (s_size sec),
    cv_body := cv_body cv @ section_bytes inp sec, inNoffFile := inNoffFile cv + s_size sec\<rparr>)"
    "length (section_bytes inp sec) = unat (s_size sec)"
proof -
  have a: "0 \<le> sint (s_size sec)" "0 \<le> sint (s_scnptr sec)" "unat (s_scnptr sec) + unat (s_size sec) \<le> length inp"
    using assms by (auto simp: coff_section_ok_def is_copied_def)
  show l: "length (section_bytes inp sec) = unat (s_size sec)" unfolding section_bytes_def length_take length_drop using a(3) by linarith
  show "copy_section True inp sec cv = Inr (cv\<lparr>cv_pos := unat (s_scnptr sec) + unat (s_size sec),
    cv_body := cv_body cv @ section_bytes inp sec, inNoffFile := inNoffFile cv + s_size sec\<rparr>)"
    using a l by (simp add: copy_section_def lseek_def coff_Read_def coff_Write_def section_bytes_def not_less)
qed

text \<open>The header after a section of a kind that has not occurred yet.\<close>

definition put_segment :: "seg_kind \<Rightarrow> scnhdr \<Rightarrow> conv \<Rightarrow> NoffHeader" where
  "put_segment k sec cv = (let here = \<lparr>virtualAddr = s_paddr sec, inFileAddr = inNoffFile cv, seg_size = s_size sec\<rparr>; h = noffH cv in
     case k of Code \<Rightarrow> h\<lparr>noff_code := here\<rparr> | InitData \<Rightarrow> h\<lparr>initData := here\<rparr>
     | UninitData \<Rightarrow> h\<lparr>uninitData := (uninitData h)\<lparr>virtualAddr := s_paddr sec, seg_size := s_size sec\<rparr>\<rparr>)"

lemma kind_put_segment:
  "k \<noteq> k' \<Longrightarrow> kind_segment k (put_segment k' sec cv) = kind_segment k (noffH cv)"
  "noffMagic (put_segment k sec cv) = noffMagic (noffH cv)"
  "virtualAddr (kind_segment k (put_segment k sec cv)) = s_paddr sec" "seg_size (kind_segment k (put_segment k sec cv)) = s_size sec"
  "k \<noteq> UninitData \<Longrightarrow> inFileAddr (kind_segment k (put_segment k sec cv)) = inNoffFile cv"
  by (auto simp: kind_segment_def put_segment_def Let_def split: seg_kind.splits)

lemma convert_section_new:
  assumes "coff_section_ok inp sec" "s_size sec \<noteq> 0" "section_kind sec = Some k" "seg_size (kind_segment k (noffH cv)) = 0"
  shows "convert_section True inp sec cv = (if k = UninitData then Inr (cv\<lparr>noffH := put_segment k sec cv\<rparr>)
    else copy_section True inp sec (cv\<lparr>noffH := put_segment k sec cv\<rparr>))"
  using assms
  by (auto simp: convert_section_def section_kind_def put_segment_def kind_segment_def Let_def split: if_splits seg_kind.splits)

lemma converted_keep:
  assumes "converted inp done cv" "s_size sec = 0"
  shows "converted inp (done @ [sec]) cv"
  using assms by (auto simp: converted_def is_copied_def)

lemma converted_add:
  assumes inv: "converted inp done cv" and k: "section_kind sec = Some k" "s_size sec \<noteq> 0"
    and other: "\<forall>sec' \<in> set done. s_size sec' \<noteq> 0 \<longrightarrow> section_kind sec' \<noteq> Some k"
    and d: "describes inp sec (kind_segment k (put_segment k sec cv)) (cv_body cv @ bs)"
    and bs: "length bs = (if is_copied sec then unat (s_size sec) else 0)"
    and cv': "noffH cv' = put_segment k sec cv" "cv_body cv' = cv_body cv @ bs" "inNoffFile cv' = inNoffFile cv + of_nat (length bs)"
  shows "converted inp (done @ [sec]) cv'"
proof -
  have "describes inp s (kind_segment j (noffH cv')) (cv_body cv')" if "s \<in> set (done @ [sec])" "s_size s \<noteq> 0" "section_kind s = Some j" for s j
  proof (cases "s \<in> set done")
    case True
    then have "j \<noteq> k" using other that by auto
    moreover have "describes inp s (kind_segment j (noffH cv)) (cv_body cv)" using inv True that unfolding converted_def by blast
    ultimately show ?thesis using describes_append unfolding cv' by (simp add: kind_put_segment(1))
  next
    case False
    then have "s = sec" "j = k" using that k by auto
    then show ?thesis using d unfolding cv' by simp
  qed
  moreover have "seg_size (kind_segment j (noffH cv')) = 0" if "\<forall>s \<in> set (done @ [sec]). s_size s \<noteq> 0 \<longrightarrow> section_kind s \<noteq> Some j" for j
  proof -
    have "j \<noteq> k" using that k by auto
    moreover have "seg_size (kind_segment j (noffH cv)) = 0" using inv that unfolding converted_def by auto
    ultimately show ?thesis unfolding cv' by (simp add: kind_put_segment(1))
  qed
  moreover have "noffMagic (noffH cv') = NOFFMAGIC" "inNoffFile cv' = of_nat (40 + length (cv_body cv'))"
    "length (cv_body cv') = (\<Sum>sec \<leftarrow> filter is_copied (done @ [sec]). unat (s_size sec))"
    using inv bs unfolding cv' converted_def by (simp_all add: kind_put_segment)
  ultimately show ?thesis unfolding converted_def by blast
qed

lemma converted_step:
  assumes inv: "converted inp done cv" and ok: "coff_section_ok inp sec"
    and new: "s_size sec \<noteq> 0 \<Longrightarrow> \<forall>sec' \<in> set done. s_size sec' \<noteq> 0 \<longrightarrow> section_kind sec' \<noteq> section_kind sec"
    and room: "(\<Sum>sec \<leftarrow> filter is_copied (done @ [sec]). unat (s_size sec)) < 2147483000"
  shows "\<exists>cv'. convert_section True inp sec cv = Inr cv' \<and> converted inp (done @ [sec]) cv'"
proof (cases "s_size sec = 0")
  case True
  then show ?thesis using converted_keep [OF inv] by (auto simp: convert_section_def)
next
  case False
  obtain k where k: "section_kind sec = Some k" using ok False by (auto simp: coff_section_ok_def)
  have z: "seg_size (kind_segment k (noffH cv)) = 0" using inv new [OF False] unfolding k converted_def by blast
  note step = convert_section_new [OF ok False k z]
  have other: "\<forall>sec' \<in> set done. s_size sec' \<noteq> 0 \<longrightarrow> section_kind sec' \<noteq> Some k" using new [OF False] k by simp
  note add = converted_add [OF inv k False other]
  show ?thesis
  proof (cases "k = UninitData")
    case True
    have c: "\<not> is_copied sec" using True k by (simp add: is_copied_def)
    have "converted inp (done @ [sec]) (cv\<lparr>noffH := put_segment k sec cv\<rparr>)"
      by (rule add [of "[]"]) (simp_all add: c describes_def kind_put_segment)
    then show ?thesis unfolding step using True by simp
  next
    case uncopied: False
    have c: "is_copied sec" using uncopied k False by (simp add: is_copied_def)
    note cp = copy_section_ok [OF ok c]
    let ?cv = "cv\<lparr>noffH := put_segment k sec cv\<rparr>"
    have "length (cv_body cv) < 2147483000" using inv room unfolding converted_def filter_append map_append sum_list_append by linarith
    then have "40 + length (cv_body cv) < 4294967296" by simp
    then have p: "unat (inNoffFile cv) = 40 + length (cv_body cv)" using inv unfolding converted_def by (metis unat_of_small)
    have d: "describes inp sec (kind_segment k (put_segment k sec cv)) (cv_body cv @ section_bytes inp sec)"
      using p uncopied cp(2) by (simp add: describes_def kind_put_segment)
    have "converted inp (done @ [sec]) (?cv\<lparr>cv_pos := unat (s_scnptr sec) + unat (s_size sec),
      cv_body := cv_body ?cv @ section_bytes inp sec, inNoffFile := inNoffFile ?cv + s_size sec\<rparr>)"
      by (rule add [OF d]) (simp_all add: c cp(2))
    then show ?thesis unfolding step cp(1) using uncopied by simp
  qed
qed

lemma convert_sections_ok:
  assumes "converted inp done cv" "\<forall>sec \<in> set secs. coff_section_ok inp sec"
    "distinct (map section_kind (filter (\<lambda>sec. s_size sec \<noteq> 0) (done @ secs)))"
    "(\<Sum>sec \<leftarrow> filter is_copied (done @ secs). unat (s_size sec)) < 2147483000"
  shows "\<exists>cv'. convert_sections True inp secs cv = Inr cv' \<and> converted inp (done @ secs) cv'"
  using assms
proof (induction secs arbitrary: "done" cv)
  case (Cons sec secs)
  obtain cv1 where c: "convert_section True inp sec cv = Inr cv1" "converted inp (done @ [sec]) cv1"
  proof -
    have "coff_section_ok inp sec" using Cons.prems(2) by simp
    moreover have "\<forall>sec' \<in> set done. s_size sec' \<noteq> 0 \<longrightarrow> section_kind sec' \<noteq> section_kind sec" if "s_size sec \<noteq> 0"
      using Cons.prems(3) that by (auto simp: image_iff)
    moreover have "(\<Sum>sec \<leftarrow> filter is_copied (done @ [sec]). unat (s_size sec)) < 2147483000"
      using Cons.prems(4) by (cases "is_copied sec") simp_all
    ultimately show thesis using converted_step [OF Cons.prems(1)] that by blast
  qed
  then show ?case using Cons.IH [OF c(2)] Cons.prems(2-4) by simp
qed simp

lemma bytes_noff_bytes: "length rest = 0 \<Longrightarrow> bytes_noff (noff_bytes h @ rest) = h"
  by (simp add: bytes_noff_def noff_bytes_def bytes_segment_def segment_bytes_def)

lemma noff_bytes_header:
  assumes "noffMagic h = NOFFMAGIC"
  shows "length (noff_bytes h) = 40" "noff_header False (noff_bytes h) = Inr h"
  using assms bytes_noff_bytes [of "[]" h] by (simp_all add: noff_bytes_def segment_bytes_def noff_header_def)

lemma u_at_take: "i + 2 \<le> n \<Longrightarrow> u16_at i (take n bs) = u16_at i bs" "u16_at i (drop n bs) = u16_at (n + i) bs"
  by (simp_all add: u16_at_def drop_take add.commute min_def)

lemma coff_headers_ok:
  assumes "u16_at 0 inp = MIPSELMAGIC" "u16_at 20 inp = OMAGIC" "76 + unat (u16_at 2 inp) * 40 \<le> length inp"
  shows "coff_headers inp = Inr (76 + unat (u16_at 2 inp) * 40, coff_sections inp)"
proof -
  define n where "n = unat (u16_at 2 inp)"
  have n: "n < 65536" "76 + n * 40 \<le> length inp" using unsigned_less [of "u16_at 2 inp"] assms(3) by (simp_all add: n_def)
  have sz: "unat (of_nat (n * 40) :: u32) = n * 40" by (rule unat_of_small) (use n(1) in simp)
  have nn: "\<not> sint (of_nat (n * 40) :: u32) < 0" using sz n(1) sint_eq_uint_small [of "of_nat (n * 40) :: u32"] by (simp add: uint_nat)
  have r: "coff_Read inp 0 20 = Inr (20, take 20 inp)" "coff_Read inp 20 56 = Inr (76, take 56 (drop 20 inp))"
    "coff_Read inp 76 (of_nat (n * 40)) = Inr (76 + n * 40, take (n * 40) (drop 76 inp))"
    using n nn sz by (simp_all add: coff_Read_def)
  have m: "f_magic (bytes_filehdr (take 20 inp)) = MIPSELMAGIC" "f_nscns (bytes_filehdr (take 20 inp)) = u16_at 2 inp"
    "magic (bytes_aouthdr (take 56 (drop 20 inp))) = OMAGIC"
    using assms by (simp_all add: bytes_filehdr_def bytes_aouthdr_def u_at_take)
  show ?thesis by (simp add: coff_headers_def r m n_def [symmetric] coff_sections_def del: of_nat_mult)
qed

lemma coff2noff_ok:
  assumes ok: "coff_ok inp" and argc: "2 \<le> argc"
  shows "\<exists>cv. coff2noff argc (Some inp) True junk = Inr (noff_bytes (noffH cv) @ cv_body cv) \<and> converted inp (coff_sections inp) cv"
proof -
  let ?cv0 = "\<lparr>cv_pos = 76 + unat (u16_at 2 inp) * 40, noffH = init_noff junk, cv_body = [], inNoffFile = 40\<rparr>"
  have "converted inp [] ?cv0" by (simp add: converted_def init_noff_def kind_segment_def split: seg_kind.splits)
  from convert_sections_ok [OF this, of "coff_sections inp"] ok
  obtain cv where c: "convert_sections True inp (coff_sections inp) ?cv0 = Inr cv" "converted inp (coff_sections inp) cv"
    by (auto simp: coff_ok_def)
  have "coff_headers inp = Inr (76 + unat (u16_at 2 inp) * 40, coff_sections inp)" using coff_headers_ok ok by (simp add: coff_ok_def)
  then have "coff2noff argc (Some inp) True junk = Inr (noff_bytes (noffH cv) @ cv_body cv)"
    using argc c(1) by (simp add: coff2noff_def coff_Write_def)
  then show ?thesis using c(2) by blast
qed

lemma describes_file:
  assumes "describes inp sec seg body" "length hb = 40" "is_copied sec"
  shows "take (unat (s_size sec)) (drop (unat (inFileAddr seg)) (hb @ body)) = section_bytes inp sec"
    "unat (inFileAddr seg) + unat (s_size sec) \<le> length (hb @ body)"
  using assms unfolding describes_def length_append by (simp, linarith)

text \<open>
  The check meant to make sure that \<^verbatim>\<open>.bss\<close> and \<^verbatim>\<open>.sbss\<close> are contiguous accepts exactly the pairs that are not: a
  section that starts where the uninitialised data ends is refused, any other is added to its size.
\<close>

lemma bss_check_inverted:
  assumes "s_size sec \<noteq> 0" "section_kind sec = Some UninitData" "seg_size (uninitData (noffH cv)) \<noteq> 0"
  shows "convert_section fdOut inp sec cv =
    (if s_paddr sec = virtualAddr (uninitData (noffH cv)) + seg_size (uninitData (noffH cv)) then Inl BothBss
     else Inr (cv\<lparr>noffH := (noffH cv)\<lparr>uninitData := (uninitData (noffH cv))\<lparr>seg_size := seg_size (uninitData (noffH cv)) + s_size sec\<rparr>\<rparr>\<rparr>))"
  using assms by (auto simp: convert_section_def section_kind_def Let_def split: if_splits)

text \<open>
  The flat file is the memory image only when the sections follow each other without a gap, in the order of the
  section table: the sections are not put at their addresses.
\<close>

definition flat_ok :: "byte list \<Rightarrow> nat \<Rightarrow> scnhdr \<Rightarrow> bool" where
  "flat_ok inp at sec \<longleftrightarrow> section_kind sec \<noteq> Some UninitData \<longrightarrow>
     unat (s_paddr sec) = at \<and> at + unat (s_size sec) < 1073741824 \<and> 0 \<le> sint (s_scnptr sec) \<and>
     unat (s_scnptr sec) + unat (s_size sec) \<le> length inp"

fun flat_layout :: "byte list \<Rightarrow> nat \<Rightarrow> scnhdr list \<Rightarrow> bool" where
  "flat_layout inp at [] = True"
| "flat_layout inp at (sec # secs) \<longleftrightarrow> flat_ok inp at sec \<and>
     flat_layout inp (if section_kind sec = Some UninitData then at else at + unat (s_size sec)) secs"

lemma flat_copied:
  "(\<not> strcmp_eq (s_name sec) bss_name \<and> \<not> strcmp_eq (s_name sec) sbss_name) \<longleftrightarrow> section_kind sec \<noteq> Some UninitData"
proof -
  have "strcmp_eq nm bss_name \<Longrightarrow> \<not> strcmp_eq nm text_name \<and> \<not> strcmp_eq nm data_name \<and> \<not> strcmp_eq nm rdata_name" for nm
    by (cases nm; cases "tl nm") (auto simp: strcmp_eq_def text_name_def data_name_def rdata_name_def bss_name_def)
  moreover have "strcmp_eq nm sbss_name \<Longrightarrow> \<not> strcmp_eq nm text_name \<and> \<not> strcmp_eq nm data_name \<and> \<not> strcmp_eq nm rdata_name" for nm
    by (cases nm; cases "tl nm") (auto simp: strcmp_eq_def text_name_def data_name_def rdata_name_def sbss_name_def)
  ultimately show ?thesis by (auto simp: section_kind_def)
qed

lemma sint_small: "unat (x :: u32) < 2147483648 \<Longrightarrow> sint x = int (unat x)"
proof -
  assume "unat x < 2147483648"
  then have "int (unat x) < 2147483648" by linarith
  then show ?thesis using sint_eq_uint_small [of x] by simp
qed

lemma sint_nonneg: "0 \<le> sint (x :: u32) \<Longrightarrow> sint x = int (unat x) \<and> unat x < 2147483648"
proof -
  assume x: "0 \<le> sint x"
  have lt: "sint x < 2147483648" using fits32_sint [of x] by (simp add: fits32_def)
  have "uint (word_of_int z :: u32) = z mod 4294967296" for z by (simp add: uint_word_of_int)
  from this [of "sint x"] have "uint x = sint x" using x lt by simp
  then have "int (unat x) = sint x" by simp
  then show ?thesis using lt by linarith
qed

definition flat_holds :: "byte list \<Rightarrow> byte list \<Rightarrow> scnhdr \<Rightarrow> bool" where
  "flat_holds inp file sec \<longleftrightarrow> section_kind sec \<noteq> Some UninitData \<longrightarrow>
     unat (s_paddr sec) + unat (s_size sec) \<le> length file \<and> take (unat (s_size sec)) (drop (unat (s_paddr sec)) file) = section_bytes inp sec"

lemma flat_holds_append: "flat_holds inp file sec \<Longrightarrow> flat_holds inp (file @ rest) sec"
  by (auto simp: flat_holds_def)

lemma flat_section_ok:
  assumes "flat_ok inp (length (fl_body fl)) sec" "int (length (fl_body fl)) \<le> sint (fl_top fl)"
  shows "\<exists>fl'. flat_section True inp sec fl = Inr fl' \<and> flat_holds inp (fl_body fl') sec \<and> int (length (fl_body fl')) \<le> sint (fl_top fl') \<and>
    (\<exists>bs. fl_body fl' = fl_body fl @ bs \<and> length bs = (if section_kind sec = Some UninitData then 0 else unat (s_size sec)))"
proof (cases "section_kind sec = Some UninitData")
  case True
  then show ?thesis using assms(2) flat_copied [of sec] by (auto simp: flat_section_def Let_def flat_holds_def)
next
  case False
  let ?n = "length (fl_body fl)"
  have f: "unat (s_paddr sec) = ?n" "?n + unat (s_size sec) < 1073741824" "0 \<le> sint (s_scnptr sec)"
    "unat (s_scnptr sec) + unat (s_size sec) \<le> length inp" using assms(1) False by (simp_all add: flat_ok_def)
  have len: "length (section_bytes inp sec) = unat (s_size sec)" unfolding section_bytes_def length_take length_drop using f(4) by linarith
  have "unat (s_paddr sec + s_size sec) = ?n + unat (s_size sec)"
    using f(1,2) unat_plus_simple [THEN iffD1, of "s_paddr sec" "s_size sec"] by (simp add: no_olen_add_nat)
  then have e: "sint (s_paddr sec + s_size sec) = int (?n + unat (s_size sec))" using sint_small [of "s_paddr sec + s_size sec"] f(2) by linarith
  have sz: "\<not> sint (s_size sec) < 0" using sint_small [of "s_size sec"] f(2) by linarith
  have r: "coff_Read inp (lseek q (s_scnptr sec)) (s_size sec) = Inr (unat (s_scnptr sec) + unat (s_size sec), section_bytes inp sec)" for q
    using f(3) len sz by (simp add: coff_Read_def lseek_def section_bytes_def)
  define fl1 where "fl1 = (if sint (s_paddr sec + s_size sec) > sint (fl_top fl) then fl\<lparr>fl_top := s_paddr sec + s_size sec\<rparr> else fl)"
  have fl1: "fl_body fl1 = fl_body fl" "int (?n + unat (s_size sec)) \<le> sint (fl_top fl1)" using e by (simp_all add: fl1_def)
  have "flat_section True inp sec fl = Inr (fl1\<lparr>fl_pos := unat (s_scnptr sec) + unat (s_size sec), fl_body := fl_body fl @ section_bytes inp sec\<rparr>)"
    unfolding flat_section_def Let_def fl1_def [symmetric] using False flat_copied [of sec] r fl1(1) by (simp add: coff_Write_def)
  then show ?thesis using fl1 len f(1) False by (simp add: flat_holds_def)
qed

lemma flat_sections_ok:
  assumes "flat_layout inp (length (fl_body fl)) secs" "int (length (fl_body fl)) \<le> sint (fl_top fl)"
  shows "\<exists>fl'. flat_sections True inp secs fl = Inr fl' \<and> (\<forall>sec \<in> set secs. flat_holds inp (fl_body fl') sec) \<and>
    int (length (fl_body fl')) \<le> sint (fl_top fl') \<and> (\<exists>bs. fl_body fl' = fl_body fl @ bs)"
  using assms
proof (induction secs arbitrary: fl)
  case (Cons sec secs)
  obtain fl1 bs where s1: "flat_section True inp sec fl = Inr fl1" "flat_holds inp (fl_body fl1) sec" "int (length (fl_body fl1)) \<le> sint (fl_top fl1)"
    "fl_body fl1 = fl_body fl @ bs" "length bs = (if section_kind sec = Some UninitData then 0 else unat (s_size sec))"
    using flat_section_ok [of inp fl sec] Cons.prems by auto
  have "flat_layout inp (length (fl_body fl1)) secs" using Cons.prems(1) s1(4,5) by (auto split: if_splits)
  from Cons.IH [OF this s1(3)] obtain fl2 bs2 where s2: "flat_sections True inp secs fl1 = Inr fl2" "\<forall>sec \<in> set secs. flat_holds inp (fl_body fl2) sec"
    "int (length (fl_body fl2)) \<le> sint (fl_top fl2)" "fl_body fl2 = fl_body fl1 @ bs2" by blast
  have "flat_holds inp (fl_body fl2) sec" using flat_holds_append [OF s1(2)] s2(4) by simp
  then show ?case using s1(1,4) s2 by auto
qed auto

lemma coff2flat_image:
  assumes "u16_at 0 inp = MIPSELMAGIC" "u16_at 20 inp = OMAGIC" "76 + unat (u16_at 2 inp) * 40 \<le> length inp"
    and lay: "flat_layout inp 0 (coff_sections inp)" and argc: "2 \<le> argc"
  shows "\<exists>out. coff2flat argc (Some inp) True = Inr out \<and> (\<forall>sec \<in> set (coff_sections inp). flat_holds inp out sec)"
proof -
  let ?fl0 = "\<lparr>fl_pos = 76 + unat (u16_at 2 inp) * 40, fl_body = [], fl_top = 0\<rparr>"
  obtain fl where fl: "flat_sections True inp (coff_sections inp) ?fl0 = Inr fl" "\<forall>sec \<in> set (coff_sections inp). flat_holds inp (fl_body fl) sec"
    "int (length (fl_body fl)) \<le> sint (fl_top fl)" using flat_sections_ok [of inp ?fl0 "coff_sections inp"] lay by auto
  let ?pos = "lseek (length (fl_body fl)) (fl_top fl + StackSize - 4)"
  have p: "length (fl_body fl) \<le> ?pos"
  proof (cases "sint (fl_top fl + StackSize - 4) < 0")
    case False
    have u: "sint (fl_top fl) = int (unat (fl_top fl))" "unat (fl_top fl) < 2147483648"
      using fl(3) sint_nonneg [of "fl_top fl"] by linarith+
    have "unat (fl_top fl + 1020) = unat (fl_top fl) + 1020" using u(2) by (simp add: unat_word_ariths)
    moreover have e: "fl_top fl + StackSize - 4 = fl_top fl + 1020" by (simp add: StackSize_def)
    ultimately have "length (fl_body fl) \<le> unat (fl_top fl + 1020)" using fl(3) u(1) by linarith
    then show ?thesis using False unfolding e by (simp add: lseek_def)
  qed (simp add: lseek_def)
  have "coff2flat argc (Some inp) True = Inr (write_at (fl_body fl) ?pos (le32 0))"
    using argc coff_headers_ok [OF assms(1-3)] fl(1) by (simp add: coff2flat_def coff_Write_def)
  moreover have "write_at (fl_body fl) ?pos (le32 0) = fl_body fl @ replicate (?pos - length (fl_body fl)) 0 @ le32 0"
    using p by (simp add: write_at_def)
  ultimately show ?thesis using fl(2) flat_holds_append by auto
qed

section \<open>Property of the conversion\<close>

text \<open>
  (C7) A well-formed COFF file is converted, and the NOFF file says the same program: its first 40 bytes are a header
  that the loader accepts, every section that is not empty has its segment there with the section's address and
  size, the bytes of the code and of the initialised data lie in the file where the header says, unchanged, and
  a segment without a section has size 0, whatever was on the stack.
\<close>

theorem coff2noff_faithful:
  assumes "coff_ok inp" "2 \<le> argc"
  shows "\<exists>out H. coff2noff argc (Some inp) True junk = Inr out \<and> noff_header False (take 40 out) = Inr H \<and>
    (\<forall>sec \<in> set (coff_sections inp). \<forall>k. s_size sec \<noteq> 0 \<and> section_kind sec = Some k \<longrightarrow>
       virtualAddr (kind_segment k H) = s_paddr sec \<and> seg_size (kind_segment k H) = s_size sec \<and>
       (k \<noteq> UninitData \<longrightarrow> unat (inFileAddr (kind_segment k H)) + unat (s_size sec) \<le> length out \<and>
          take (unat (s_size sec)) (drop (unat (inFileAddr (kind_segment k H))) out) = section_bytes inp sec)) \<and>
    (\<forall>k. (\<forall>sec \<in> set (coff_sections inp). s_size sec \<noteq> 0 \<longrightarrow> section_kind sec \<noteq> Some k) \<longrightarrow> seg_size (kind_segment k H) = 0)"
proof -
  obtain cv where c: "coff2noff argc (Some inp) True junk = Inr (noff_bytes (noffH cv) @ cv_body cv)" and inv: "converted inp (coff_sections inp) cv"
    using coff2noff_ok [OF assms] by blast
  let ?H = "noffH cv" and ?out = "noff_bytes (noffH cv) @ cv_body cv"
  note h = noff_bytes_header [of ?H]
  have m: "noffMagic ?H = NOFFMAGIC" and z: "\<forall>k. (\<forall>sec \<in> set (coff_sections inp). s_size sec \<noteq> 0 \<longrightarrow> section_kind sec \<noteq> Some k) \<longrightarrow> seg_size (kind_segment k ?H) = 0"
    using inv unfolding converted_def by blast+
  have "noff_header False (take 40 ?out) = Inr ?H" using h [OF m] by simp
  moreover have "virtualAddr (kind_segment k ?H) = s_paddr sec \<and> seg_size (kind_segment k ?H) = s_size sec \<and>
       (k \<noteq> UninitData \<longrightarrow> unat (inFileAddr (kind_segment k ?H)) + unat (s_size sec) \<le> length ?out \<and>
          take (unat (s_size sec)) (drop (unat (inFileAddr (kind_segment k ?H))) ?out) = section_bytes inp sec)"
    if "sec \<in> set (coff_sections inp)" "s_size sec \<noteq> 0 \<and> section_kind sec = Some k" for sec k
  proof -
    have d: "describes inp sec (kind_segment k ?H) (cv_body cv)" using inv that unfolding converted_def by blast
    have "k \<noteq> UninitData \<Longrightarrow> is_copied sec" using that by (simp add: is_copied_def)
    then show ?thesis using d describes_file [OF d h(1) [OF m]] unfolding describes_def by blast
  qed
  ultimately show ?thesis using c z by blast
qed

definition sample_coff :: "byte list" where
  "sample_coff = [0x62, 1, 2, 0] @ replicate 16 0 @ [7, 1] @ replicate 54 0 @
     [46, 116, 101, 120, 116, 0, 0, 0] @ concat (map le32 [0, 0, 4, 156, 0, 0, 0, 0]) @
     [46, 98, 115, 115, 0, 0, 0, 0] @ concat (map le32 [256, 0, 8, 0, 0, 0, 0, 0]) @ [1, 2, 3, 4]"

lemma sample_coff_parts:
  "u16_at 0 sample_coff = MIPSELMAGIC" "u16_at 20 sample_coff = OMAGIC" "76 + unat (u16_at 2 sample_coff) * 40 \<le> length sample_coff"
  "\<forall>sec \<in> set (coff_sections sample_coff). coff_section_ok sample_coff sec"
  "distinct (map section_kind (filter (\<lambda>sec. s_size sec \<noteq> 0) (coff_sections sample_coff)))"
  "(\<Sum>sec \<leftarrow> filter is_copied (coff_sections sample_coff). unat (s_size sec)) = 4"
  by code_simp+

lemma sample_coff_ok: "coff_ok sample_coff"
  unfolding coff_ok_def using sample_coff_parts by simp

definition sample_junk :: NoffHeader where
  "sample_junk = (let seg = \<lparr>virtualAddr = 7, inFileAddr = 7, seg_size = 7\<rparr> in \<lparr>noffMagic = 7, noff_code = seg, initData = seg, uninitData = seg\<rparr>)"

theorem coff2noff_faithful_witness:
  "\<exists>out H. coff2noff 3 (Some sample_coff) True sample_junk = Inr out \<and> noff_header False (take 40 out) = Inr H \<and>
    take 4 (drop (unat (inFileAddr (noff_code H))) out) = [1, 2, 3, 4] \<and> seg_size (uninitData H) = 8 \<and> seg_size (initData H) = 0"
proof -
  let ?t = "coff_sections sample_coff ! 0" and ?b = "coff_sections sample_coff ! 1"
  have k: "?t \<in> set (coff_sections sample_coff)" "s_size ?t = 4" "section_kind ?t = Some Code" "section_bytes sample_coff ?t = [1, 2, 3, 4]"
    "?b \<in> set (coff_sections sample_coff)" "s_size ?b = 8" "section_kind ?b = Some UninitData" by code_simp+
  have e: "\<forall>sec \<in> set (coff_sections sample_coff). s_size sec \<noteq> 0 \<longrightarrow> section_kind sec \<noteq> Some InitData" by code_simp
  have argc: "2 \<le> (3 :: int)" by simp
  obtain out H where o: "coff2noff 3 (Some sample_coff) True sample_junk = Inr out" "noff_header False (take 40 out) = Inr H"
    and c: "\<forall>sec \<in> set (coff_sections sample_coff). \<forall>k. s_size sec \<noteq> 0 \<and> section_kind sec = Some k \<longrightarrow>
       virtualAddr (kind_segment k H) = s_paddr sec \<and> seg_size (kind_segment k H) = s_size sec \<and>
       (k \<noteq> UninitData \<longrightarrow> unat (inFileAddr (kind_segment k H)) + unat (s_size sec) \<le> length out \<and>
          take (unat (s_size sec)) (drop (unat (inFileAddr (kind_segment k H))) out) = section_bytes sample_coff sec)"
    and z: "\<forall>k. (\<forall>sec \<in> set (coff_sections sample_coff). s_size sec \<noteq> 0 \<longrightarrow> section_kind sec \<noteq> Some k) \<longrightarrow> seg_size (kind_segment k H) = 0"
    using coff2noff_faithful [OF sample_coff_ok argc, of sample_junk] by (elim exE conjE) (rule that; assumption)
  have "take 4 (drop (unat (inFileAddr (noff_code H))) out) = [1, 2, 3, 4]"
    using c [rule_format, OF k(1), of Code] k(2,3,4) by (simp add: kind_segment_def)
  moreover have "seg_size (uninitData H) = 8" using c [rule_format, OF k(5), of UninitData] k(6,7) by (simp add: kind_segment_def)
  moreover have "seg_size (initData H) = 0" using z e by (metis kind_segment_def seg_kind.simps(8))
  ultimately show ?thesis using o by blast
qed

end
