(* ===== verification/Nachos_Network.thy ===== *)
theory Nachos_Network
  imports Nachos_Interrupt Complex_Main
begin

text \<open>
  The network device (\<^verbatim>\<open>machine/network.h\<close>, \<^verbatim>\<open>network.cc\<close>) and the UNIX datagram sockets it is simulated with
  (\<^verbatim>\<open>machine/sysdep.cc\<close>): a socket that has been given a name is a queue of datagrams, kept by the host for all the
  simulated machines. The socket named \<^verbatim>\<open>SOCKET_n\<close> is written \<open>n\<close>. The reliability, a \<^verbatim>\<open>double\<close>, is a rational number;
  what \<^verbatim>\<open>Random()\<close> returned is an argument, and so is what a freshly allocated buffer contains.
\<close>

section \<open>Packets\<close>

definition MaxWireSize :: nat where "MaxWireSize = 64"
definition MaxPacketSize :: nat where "MaxPacketSize = MaxWireSize - 12"

record PacketHeader =
  pkt_to :: u32
  pkt_from :: u32
  pkt_length :: u32

definition pkt_bytes :: "PacketHeader \<Rightarrow> byte list" where
  "pkt_bytes h = le32 (pkt_to h) @ le32 (pkt_from h) @ le32 (pkt_length h)"

definition bytes_pkt :: "byte list \<Rightarrow> PacketHeader" where
  "bytes_pkt bs = \<lparr>pkt_to = un_le32 (take 4 bs), pkt_from = un_le32 (take 4 (drop 4 bs)), pkt_length = un_le32 (take 4 (drop 8 bs))\<rparr>"

lemma pkt_bytes_round [simp]: "bytes_pkt (pkt_bytes h) = h" "length (pkt_bytes h) = 12"
  by (simp_all add: bytes_pkt_def pkt_bytes_def)

lemma packet_sizes: "MaxWireSize = 64" "MaxPacketSize = 52"
  by (simp_all add: MaxPacketSize_def MaxWireSize_def)

section \<open>The device\<close>

record net_sim = sim +
  ident :: u32
  chanceToWork :: rat
  sendBusy :: bool
  inHdr :: PacketHeader
  inbox :: "byte list"
  sockets :: "u32 \<Rightarrow> byte list list option"

text \<open>\<^verbatim>\<open>bcopy\<close> of the first bytes of a buffer to the beginning of another one.\<close>

definition bcopy :: "byte list \<Rightarrow> nat \<Rightarrow> byte list \<Rightarrow> byte list result" where
  "bcopy src n dst = (if n \<le> length src \<and> n \<le> length dst then Inr (take n src @ drop n dst) else Inl OutOfBounds)"

definition AssignNameToSocket :: "u32 \<Rightarrow> 'a net_sim_scheme \<Rightarrow> 'a net_sim_scheme" where
  "AssignNameToSocket name s = s\<lparr>sockets := (sockets s)(name \<mapsto> [])\<rparr>"

definition DeAssignNameToSocket :: "u32 \<Rightarrow> 'a net_sim_scheme \<Rightarrow> 'a net_sim_scheme" where
  "DeAssignNameToSocket name s = s\<lparr>sockets := (sockets s)(name := None)\<rparr>"

definition PollSocket :: "u32 \<Rightarrow> 'a net_sim_scheme \<Rightarrow> bool" where
  "PollSocket name s = (case sockets s name of None \<Rightarrow> False | Some q \<Rightarrow> q \<noteq> [])"

definition ReadFromSocket :: "u32 \<Rightarrow> nat \<Rightarrow> 'a net_sim_scheme \<Rightarrow> ('a net_sim_scheme \<times> byte list) result" where
  "ReadFromSocket name packetSize s =
     (case sockets s name of
        Some (p # q) \<Rightarrow> bindr (ASSERT (length p = packetSize)) (\<lambda>_. Inr (s\<lparr>sockets := (sockets s)(name \<mapsto> q)\<rparr>, p))
      | _ \<Rightarrow> Inl AssertFailed)"

definition SendToSocket :: "byte list \<Rightarrow> u32 \<Rightarrow> 'a net_sim_scheme \<Rightarrow> 'a net_sim_scheme result" where
  "SendToSocket buffer name s =
     (case sockets s name of None \<Rightarrow> Inl AssertFailed | Some q \<Rightarrow> Inr (s\<lparr>sockets := (sockets s)(name \<mapsto> q @ [buffer])\<rparr>))"

definition Network_new :: "u32 \<Rightarrow> rat \<Rightarrow> int \<Rightarrow> 'a net_sim_scheme \<Rightarrow> 'a net_sim_scheme result" where
  "Network_new addr reliability this s =
     Schedule NetworkReadPoll this NetworkTime NetworkRecvInt
       (AssignNameToSocket addr (s\<lparr>ident := addr,
          chanceToWork := (if reliability < 0 then 0 else if reliability > 1 then 1 else reliability),
          sendBusy := False, inHdr := (inHdr s)\<lparr>pkt_length := 0\<rparr>\<rparr>))"

definition Network_delete :: "'a net_sim_scheme \<Rightarrow> 'a net_sim_scheme" where
  "Network_delete s = DeAssignNameToSocket (ident s) s"

definition CheckPktAvail :: "('a net_sim_scheme \<Rightarrow> 'a net_sim_scheme result) \<Rightarrow> int \<Rightarrow> 'a net_sim_scheme \<Rightarrow> 'a net_sim_scheme result" where
  "CheckPktAvail readHandler this s =
     bindr (Schedule NetworkReadPoll this NetworkTime NetworkRecvInt s) (\<lambda>s1.
       if pkt_length (inHdr s1) \<noteq> 0 then Inr s1
       else if \<not> PollSocket (ident s1) s1 then Inr s1
       else bindr (ReadFromSocket (ident s1) MaxWireSize s1) (\<lambda>(s2, buffer).
         let h = bytes_pkt (take 12 buffer); s3 = s2\<lparr>inHdr := h\<rparr> in
         bindr (ASSERT (pkt_to h = ident s3 \<and> unat (pkt_length h) \<le> MaxPacketSize)) (\<lambda>_.
         bindr (bcopy (drop 12 buffer) (unat (pkt_length h)) (inbox s3)) (\<lambda>box.
           readHandler (s3\<lparr>inbox := box, stats := (stats s3)\<lparr>numPacketsRecvd := numPacketsRecvd (stats s3) + 1\<rparr>\<rparr>)))))"

definition SendDone :: "('a net_sim_scheme \<Rightarrow> 'a net_sim_scheme result) \<Rightarrow> 'a net_sim_scheme \<Rightarrow> 'a net_sim_scheme result" where
  "SendDone writeHandler s =
     writeHandler (s\<lparr>sendBusy := False, stats := (stats s)\<lparr>numPacketsSent := numPacketsSent (stats s) + 1\<rparr>\<rparr>)"

definition packet_lost :: "nat \<Rightarrow> rat \<Rightarrow> bool" where
  "packet_lost random chance \<longleftrightarrow> of_nat (random mod 100) \<ge> chance * 100"

definition Network_Send :: "nat \<Rightarrow> byte list \<Rightarrow> int \<Rightarrow> PacketHeader \<Rightarrow> byte list \<Rightarrow> 'a net_sim_scheme \<Rightarrow> 'a net_sim_scheme result" where
  "Network_Send random mem this h data s =
     bindr (ASSERT (sendBusy s = False \<and> unat (pkt_length h) > 0 \<and> unat (pkt_length h) \<le> MaxPacketSize \<and> pkt_from h = ident s)) (\<lambda>_.
     bindr (Schedule NetworkSendDone this NetworkTime NetworkSendInt s) (\<lambda>s1.
       if packet_lost random (chanceToWork s1) then Inr s1
       else bindr (bcopy (pkt_bytes h) 12 mem) (\<lambda>buffer.
         bindr (bcopy data (unat (pkt_length h)) (drop 12 buffer)) (\<lambda>payload.
           SendToSocket (take 12 buffer @ payload) (pkt_to h) s1))))"

definition Network_Receive :: "byte list \<Rightarrow> 'a net_sim_scheme \<Rightarrow> ('a net_sim_scheme \<times> PacketHeader \<times> byte list) result" where
  "Network_Receive data s =
     (let h = inHdr s; s1 = s\<lparr>inHdr := (inHdr s)\<lparr>pkt_length := 0\<rparr>\<rparr> in
      if pkt_length h \<noteq> 0 then bindr (bcopy (inbox s1) (unat (pkt_length h)) data) (\<lambda>data'. Inr (s1, h, data'))
      else Inr (s1, h, data))"

section \<open>What the operations of the device do\<close>

definition poll_entry :: "handler_fn \<Rightarrow> int \<Rightarrow> IntType \<Rightarrow> 'a sim_scheme \<Rightarrow> 'a sim_scheme" where
  "poll_entry h this k s = s\<lparr>intr := (intr s)\<lparr>pending := kl_sorted_insert (PendingInterrupt_new h this (totalTicks (stats s) + NetworkTime) k)
     (totalTicks (stats s) + NetworkTime) (pending (intr s))\<rparr>\<rparr>"

lemma Schedule_network: "Schedule h this NetworkTime k s = Inr (poll_entry h this k s)"
  by (simp add: Schedule_def poll_entry_def NetworkTime_def Let_def)

lemma poll_entry_frame [simp]:
  "ident (poll_entry h this k s) = ident s" "chanceToWork (poll_entry h this k s) = chanceToWork s" "sendBusy (poll_entry h this k s) = sendBusy s"
  "inHdr (poll_entry h this k s) = inHdr s" "inbox (poll_entry h this k s) = inbox s" "sockets (poll_entry h this k s) = sockets s"
  "net_sim.more (poll_entry h this k s) = net_sim.more s"
  by (simp_all add: poll_entry_def)

lemma poll_entry_sim [simp]:
  "stats (poll_entry h this k s) = stats s" "mach (poll_entry h this k s) = mach s" "machine_on (poll_entry h this k s) = machine_on s"
  "status (intr (poll_entry h this k s)) = status (intr s)" "level (intr (poll_entry h this k s)) = level (intr s)"
  by (simp_all add: poll_entry_def)

text \<open>A packet that is not lost arrives in the socket of its destination as the header, the data and padding.\<close>

lemma Network_Send_ok:
  assumes "\<not> sendBusy s" "0 < unat (pkt_length h)" "unat (pkt_length h) \<le> 52" "pkt_from h = ident s"
    and "length data = 52" "length mem = 64" "sockets s (pkt_to h) = Some q"
  shows "Network_Send random mem this h data s =
    (let s1 = poll_entry NetworkSendDone this NetworkSendInt s in
     if packet_lost random (chanceToWork s) then Inr s1
     else Inr (s1\<lparr>sockets := (sockets s)(pkt_to h \<mapsto> q @ [pkt_bytes h @ take (unat (pkt_length h)) data @ drop (12 + unat (pkt_length h)) mem])\<rparr>))"
  using assms by (simp add: Network_Send_def Schedule_network bcopy_def SendToSocket_def packet_sizes Let_def add.commute)

text \<open>A packet is taken off the socket only when the buffer of the device is free.\<close>

lemma CheckPktAvail_cases:
  assumes "sockets s (ident s) = Some q"
    and "q \<noteq> [] \<Longrightarrow> length (hd q) = 64 \<and> pkt_to (bytes_pkt (take 12 (hd q))) = ident s \<and> unat (pkt_length (bytes_pkt (take 12 (hd q)))) \<le> 52"
    and "length (inbox s) = 52"
  shows "CheckPktAvail rh this s =
    (let s1 = poll_entry NetworkReadPoll this NetworkRecvInt s; h = bytes_pkt (take 12 (hd q)); n = unat (pkt_length h) in
     if pkt_length (inHdr s) \<noteq> 0 \<or> q = [] then Inr s1
     else rh (s1\<lparr>sockets := (sockets s)(ident s \<mapsto> tl q), inHdr := h, inbox := take n (drop 12 (hd q)) @ drop n (inbox s),
       stats := (stats s)\<lparr>numPacketsRecvd := numPacketsRecvd (stats s) + 1\<rparr>\<rparr>))"
proof (cases q)
  case Nil
  then show ?thesis using assms(1) by (simp add: CheckPktAvail_def Schedule_network PollSocket_def)
next
  case (Cons p ps)
  then show ?thesis using assms
    by (simp add: CheckPktAvail_def Schedule_network PollSocket_def ReadFromSocket_def packet_sizes bcopy_def Let_def)
qed

end
