(* ===== verification/Nachos_Post.thy ===== *)
theory Nachos_Post
  imports Nachos_Network "HOL-Library.Sublist"
begin

text \<open>
  The post office (\<^verbatim>\<open>network/post.h\<close>, \<^verbatim>\<open>post.cc\<close>): mailboxes, the postal worker, sending and receiving messages. A
  machine is one state; the threads that use its post office are in \<open>clients\<close> and the postal worker is \<open>worker\<close>, each
  with the place where it stands. A thread that waits for a semaphore, a lock or a mailbox is a thread whose next
  operation is not enabled: semaphores are their values, \<open>sendLock\<close> is its holder, a mailbox is the list its \<^verbatim>\<open>SynchList\<close>
  guards (\<open>Nachos_Synch\<close> models their implementation). Between two such operations threads and interrupts
  interleave freely; in particular between \<^verbatim>\<open>Network::Receive\<close> and the moment at which \<^verbatim>\<open>MailBox::Put\<close>, which takes the lock of
  the mailbox first, appends the message.
\<close>

section \<open>Mail\<close>

definition MaxMailSize :: nat where "MaxMailSize = MaxPacketSize - 12"

record MailHeader =
  mail_to :: u32
  mail_from :: u32
  mail_length :: u32

record Mail =
  pktHdr :: PacketHeader
  mailHdr :: MailHeader
  mail_data :: "byte list"

definition mailhdr_bytes :: "MailHeader \<Rightarrow> byte list" where
  "mailhdr_bytes h = le32 (mail_to h) @ le32 (mail_from h) @ le32 (mail_length h)"

definition bytes_mailhdr :: "byte list \<Rightarrow> MailHeader" where
  "bytes_mailhdr bs = \<lparr>mail_to = un_le32 (take 4 bs), mail_from = un_le32 (take 4 (drop 4 bs)), mail_length = un_le32 (take 4 (drop 8 bs))\<rparr>"

lemma mailhdr_bytes_round [simp]: "bytes_mailhdr (mailhdr_bytes h) = h" "length (mailhdr_bytes h) = 12"
  by (simp_all add: bytes_mailhdr_def mailhdr_bytes_def)

text \<open>Of the array \<open>data\<close> of a mail, the bytes behind its length are never written and never read.\<close>

definition Mail_new :: "PacketHeader \<Rightarrow> MailHeader \<Rightarrow> byte list \<Rightarrow> Mail result" where
  "Mail_new pktH mailH msgData =
     bindr (ASSERT (unat (mail_length mailH) \<le> MaxMailSize)) (\<lambda>_.
       if unat (mail_length mailH) \<le> length msgData
       then Inr \<lparr>pktHdr = pktH, mailHdr = mailH, mail_data = take (unat (mail_length mailH)) msgData\<rparr>
       else Inl OutOfBounds)"

section \<open>The post office\<close>

text \<open>
  The postal worker waits for \<^verbatim>\<open>messageAvailable\<close>, has got it, or is inside \<^verbatim>\<open>Put\<close> for a box, with a message that is not
  in the box yet.
\<close>

datatype worker_state = AwaitMessage | HasMessage | Putting nat Mail

datatype client_state = Outside | Sending PacketHeader "byte list" | Locked PacketHeader "byte list" | AwaitSent | Unlocking

record post_sim = net_sim +
  netAddr :: u32
  numBoxes :: int
  boxes :: "Mail list list"
  messageAvailable :: int
  messageSent :: int
  sendLock :: "nat option"
  worker :: worker_state
  wbuffer :: "byte list"
  clients :: "nat \<Rightarrow> client_state"

definition PostOffice_new :: "u32 \<Rightarrow> rat \<Rightarrow> int \<Rightarrow> int \<Rightarrow> 'a post_sim_scheme \<Rightarrow> 'a post_sim_scheme result" where
  "PostOffice_new addr reliability nBoxes this s =
     bindr (Network_new addr reliability this (s\<lparr>messageAvailable := 0, messageSent := 0, sendLock := None,
       netAddr := addr, numBoxes := nBoxes, boxes := replicate (nat nBoxes) []\<rparr>)) (\<lambda>s1.
     Inr (s1\<lparr>worker := AwaitMessage\<rparr>))"

definition PostOffice_delete :: "'a post_sim_scheme \<Rightarrow> 'a post_sim_scheme" where
  "PostOffice_delete s = (Network_delete s)\<lparr>boxes := []\<rparr>"

text \<open>\<^verbatim>\<open>Put\<close> makes a \<open>Mail\<close> (\<open>Mail_new\<close>) and then appends it, under the lock of the mailbox.\<close>

definition MailBox_Put :: "nat \<Rightarrow> Mail \<Rightarrow> 'a post_sim_scheme \<Rightarrow> 'a post_sim_scheme result" where
  "MailBox_Put b mail s =
     (if b < length (boxes s) then Inr (s\<lparr>boxes := (boxes s)[b := boxes s ! b @ [mail]]\<rparr>) else Inl OutOfBounds)"

text \<open>\<^verbatim>\<open>Get\<close> on a mailbox that is not empty; the caller's buffer receives the data.\<close>

definition MailBox_Get :: "nat \<Rightarrow> byte list \<Rightarrow> 'a post_sim_scheme \<Rightarrow> ('a post_sim_scheme \<times> PacketHeader \<times> MailHeader \<times> byte list) result" where
  "MailBox_Get b data s =
     (if b < length (boxes s) then
        case boxes s ! b of
          [] \<Rightarrow> Inl Diverges
        | mail # mails \<Rightarrow>
            bindr (bcopy (mail_data mail) (unat (mail_length (mailHdr mail))) data) (\<lambda>data'.
              Inr (s\<lparr>boxes := (boxes s)[b := mails]\<rparr>, pktHdr mail, mailHdr mail, data'))
      else Inl OutOfBounds)"

definition IncomingPacket :: "'a post_sim_scheme \<Rightarrow> 'a post_sim_scheme result" where
  "IncomingPacket s = Inr (s\<lparr>messageAvailable := messageAvailable s + 1\<rparr>)"

definition PacketSent :: "'a post_sim_scheme \<Rightarrow> 'a post_sim_scheme result" where
  "PacketSent s = Inr (s\<lparr>messageSent := messageSent s + 1\<rparr>)"

definition po_handlers :: "handler_fn \<Rightarrow> int \<Rightarrow> 'a post_sim_scheme \<Rightarrow> 'a post_sim_scheme result" where
  "po_handlers h this s =
     (case h of NetworkReadPoll \<Rightarrow> CheckPktAvail IncomingPacket this s
      | NetworkSendDone \<Rightarrow> SendDone PacketSent s
      | _ \<Rightarrow> Inl BadPointer)"

text \<open>
  The postal worker: \<^verbatim>\<open>messageAvailable->P()\<close>; the loop up to the lock of the mailbox; and the append.
\<close>

definition worker_P :: "'a post_sim_scheme \<Rightarrow> 'a post_sim_scheme" where
  "worker_P s = s\<lparr>messageAvailable := messageAvailable s - 1, worker := HasMessage\<rparr>"

definition PostalDelivery_receive :: "'a post_sim_scheme \<Rightarrow> 'a post_sim_scheme result" where
  "PostalDelivery_receive s =
     bindr (Network_Receive (wbuffer s) s) (\<lambda>(s1, pktH, buffer).
     let mailH = bytes_mailhdr (take 12 buffer) in
     bindr (ASSERT (0 \<le> sint (mail_to mailH) \<and> sint (mail_to mailH) < numBoxes s1)) (\<lambda>_.
     bindr (ASSERT (unat (mail_length mailH) \<le> MaxMailSize)) (\<lambda>_.
     bindr (Mail_new pktH mailH (drop 12 buffer)) (\<lambda>mail.
       Inr (s1\<lparr>wbuffer := buffer, worker := Putting (nat (sint (mail_to mailH))) mail\<rparr>)))))"

definition PostalDelivery_put :: "nat \<Rightarrow> Mail \<Rightarrow> 'a post_sim_scheme \<Rightarrow> 'a post_sim_scheme result" where
  "PostalDelivery_put b mail s = bindr (MailBox_Put b mail s) (\<lambda>s1. Inr (s1\<lparr>worker := AwaitMessage\<rparr>))"

text \<open>\<^verbatim>\<open>Send\<close> up to \<^verbatim>\<open>sendLock->Acquire()\<close>, then its waits and the calls between them; \<open>mem\<close> is the fresh buffer.\<close>

definition PostOffice_Send ::
  "nat \<Rightarrow> byte list \<Rightarrow> PacketHeader \<Rightarrow> MailHeader \<Rightarrow> byte list \<Rightarrow> 'a post_sim_scheme \<Rightarrow> 'a post_sim_scheme result" where
  "PostOffice_Send t mem pktH mailH data s =
     bindr (ASSERT (unat (mail_length mailH) \<le> MaxMailSize)) (\<lambda>_.
     bindr (ASSERT (0 \<le> sint (mail_to mailH) \<and> sint (mail_to mailH) < numBoxes s)) (\<lambda>_.
     let pktH' = pktH\<lparr>pkt_from := netAddr s, pkt_length := mail_length mailH + 12\<rparr> in
     bindr (bcopy (mailhdr_bytes mailH) 12 mem) (\<lambda>buffer.
     bindr (bcopy data (unat (mail_length mailH)) (drop 12 buffer)) (\<lambda>rest.
       Inr (s\<lparr>clients := (clients s)(t := Sending pktH' (take 12 buffer @ rest))\<rparr>)))))"

definition send_Acquire :: "nat \<Rightarrow> PacketHeader \<Rightarrow> byte list \<Rightarrow> 'a post_sim_scheme \<Rightarrow> 'a post_sim_scheme" where
  "send_Acquire t pktH buffer s = s\<lparr>sendLock := Some t, clients := (clients s)(t := Locked pktH buffer)\<rparr>"

definition send_network :: "nat \<Rightarrow> byte list \<Rightarrow> int \<Rightarrow> nat \<Rightarrow> PacketHeader \<Rightarrow> byte list \<Rightarrow> 'a post_sim_scheme \<Rightarrow> 'a post_sim_scheme result" where
  "send_network random mem this t pktH buffer s =
     bindr (Network_Send random mem this pktH buffer s) (\<lambda>s1. Inr (s1\<lparr>clients := (clients s1)(t := AwaitSent)\<rparr>))"

definition send_P :: "nat \<Rightarrow> 'a post_sim_scheme \<Rightarrow> 'a post_sim_scheme" where
  "send_P t s = s\<lparr>messageSent := messageSent s - 1, clients := (clients s)(t := Unlocking)\<rparr>"

definition send_Release :: "nat \<Rightarrow> 'a post_sim_scheme \<Rightarrow> 'a post_sim_scheme" where
  "send_Release t s = s\<lparr>sendLock := None, clients := (clients s)(t := Outside)\<rparr>"

definition PostOffice_Receive ::
  "int \<Rightarrow> byte list \<Rightarrow> 'a post_sim_scheme \<Rightarrow> ('a post_sim_scheme \<times> PacketHeader \<times> MailHeader \<times> byte list) result" where
  "PostOffice_Receive box data s =
     bindr (ASSERT (box \<ge> 0 \<and> box < numBoxes s)) (\<lambda>_.
     bindr (MailBox_Get (nat box) data s) (\<lambda>(s1, pktH, mailH, data').
     bindr (ASSERT (unat (mail_length mailH) \<le> MaxMailSize)) (\<lambda>_.
       Inr (s1, pktH, mailH, data'))))"

section \<open>Machines connected by the network\<close>

text \<open>
  The machines that run, by their network address, and the sockets of the host. The rest records what happened:
  the message each thread is sending (\<open>intent\<close>), the messages handed to the network for a machine, in order
  (\<open>sent\<close>), those of them that were not lost (\<open>carried\<close>), and what \<^verbatim>\<open>Receive\<close> has returned for each box (\<open>got\<close>).
\<close>

record world =
  nodes :: "u32 \<Rightarrow> post_sim option"
  wires :: "u32 \<Rightarrow> byte list list option"
  intent :: "u32 \<Rightarrow> nat \<Rightarrow> Mail"
  sent :: "u32 \<Rightarrow> Mail list"
  carried :: "u32 \<Rightarrow> Mail list"
  got :: "u32 \<Rightarrow> nat \<Rightarrow> Mail list"

definition at_node :: "world \<Rightarrow> u32 \<Rightarrow> post_sim \<Rightarrow> bool" where
  "at_node w a n \<longleftrightarrow> (\<exists>m. nodes w a = Some m \<and> n = m\<lparr>sockets := wires w\<rparr>)"

definition put_node :: "u32 \<Rightarrow> post_sim \<Rightarrow> world \<Rightarrow> world" where
  "put_node a n w = w\<lparr>nodes := (nodes w)(a \<mapsto> n), wires := sockets n\<rparr>"

definition no_world :: "(u32 \<Rightarrow> nat \<Rightarrow> Mail) \<Rightarrow> world" where
  "no_world i = \<lparr>nodes = (\<lambda>_. None), wires = (\<lambda>_. None), intent = i, sent = (\<lambda>_. []), carried = (\<lambda>_. []), got = (\<lambda>_ _. [])\<rparr>"

text \<open>A machine before it creates its post office: a clock, no pending interrupts, buffers of the right size.\<close>

definition booted :: "post_sim \<Rightarrow> bool" where
  "booted s \<longleftrightarrow> intr s = Interrupt_new \<and> stats s = Statistics_new \<and> \<not> machine_on s \<and> length (inbox s) = 52 \<and> length (wbuffer s) = 52 \<and>
     (\<forall>t. clients s t = Outside)"

text \<open>The mail a call of \<^verbatim>\<open>Send\<close> means.\<close>

definition mail_for :: "u32 \<Rightarrow> PacketHeader \<Rightarrow> MailHeader \<Rightarrow> byte list \<Rightarrow> Mail" where
  "mail_for a pktH mailH data = \<lparr>pktHdr = pktH\<lparr>pkt_from := a, pkt_length := mail_length mailH + 12\<rparr>, mailHdr = mailH,
     mail_data = take (unat (mail_length mailH)) data\<rparr>"

text \<open>
  All machines have \<open>nb\<close> mailboxes, and a thread writes only to machines that run: a datagram for a name that no
  socket has makes \<^verbatim>\<open>SendToSocket\<close> abort.
\<close>

inductive po_step :: "nat \<Rightarrow> world \<Rightarrow> world \<Rightarrow> bool" for nb where
  start: "nodes w a = None \<Longrightarrow> booted s \<Longrightarrow>
    PostOffice_new a reliability (int nb) this (s\<lparr>sockets := wires w\<rparr>) = Inr n \<Longrightarrow> po_step nb w (put_node a n w)"
| tick: "at_node w a n \<Longrightarrow> tick_and_fire po_handlers n = Inr n' \<Longrightarrow> po_step nb w (put_node a n' w)"
| idle: "at_node w a n \<Longrightarrow> Idle po_handlers (ChangeLevel IntOff n) = Inr n' \<Longrightarrow> po_step nb w (put_node a n' w)"
| call: "at_node w a n \<Longrightarrow> clients n t = Outside \<Longrightarrow> wires w (pkt_to pktH) \<noteq> None \<Longrightarrow> length mem = 52 \<Longrightarrow>
    PostOffice_Send t mem pktH mailH data n = Inr n' \<Longrightarrow>
    po_step nb w ((put_node a n' w)\<lparr>intent := (intent w)(a := (intent w a)(t := mail_for a pktH mailH data))\<rparr>)"
| acquire: "at_node w a n \<Longrightarrow> clients n t = Sending pktH buffer \<Longrightarrow> sendLock n = None \<Longrightarrow> po_step nb w (put_node a (send_Acquire t pktH buffer n) w)"
| transmit: "at_node w a n \<Longrightarrow> clients n t = Locked pktH buffer \<Longrightarrow> length mem = 64 \<Longrightarrow>
    send_network random mem this t pktH buffer n = Inr n' \<Longrightarrow> d = pkt_to pktH \<Longrightarrow>
    po_step nb w ((put_node a n' w)\<lparr>sent := (sent w)(d := sent w d @ [intent w a t]),
      carried := (if packet_lost random (chanceToWork n) then carried w else (carried w)(d := carried w d @ [intent w a t]))\<rparr>)"
| sent_P: "at_node w a n \<Longrightarrow> clients n t = AwaitSent \<Longrightarrow> messageSent n > 0 \<Longrightarrow> po_step nb w (put_node a (send_P t n) w)"
| release: "at_node w a n \<Longrightarrow> clients n t = Unlocking \<Longrightarrow> po_step nb w (put_node a (send_Release t n) w)"
| available_P: "at_node w a n \<Longrightarrow> worker n = AwaitMessage \<Longrightarrow> messageAvailable n > 0 \<Longrightarrow> po_step nb w (put_node a (worker_P n) w)"
| deliver: "at_node w a n \<Longrightarrow> worker n = HasMessage \<Longrightarrow> PostalDelivery_receive n = Inr n' \<Longrightarrow> po_step nb w (put_node a n' w)"
| deposit: "at_node w a n \<Longrightarrow> worker n = Putting b mail \<Longrightarrow> PostalDelivery_put b mail n = Inr n' \<Longrightarrow> po_step nb w (put_node a n' w)"
| receive: "at_node w a n \<Longrightarrow> clients n t = Outside \<Longrightarrow> length buf = MaxMailSize \<Longrightarrow> PostOffice_Receive box buf n = Inr (n', pktH, mailH, data) \<Longrightarrow>
    po_step nb w ((put_node a n' w)\<lparr>got := (got w)(a := (got w a)(nat box := got w a (nat box) @
      [\<lparr>pktHdr = pktH, mailHdr = mailH, mail_data = take (unat (mail_length mailH)) data\<rparr>]))\<rparr>)"

inductive po_reach :: "nat \<Rightarrow> world \<Rightarrow> bool" for nb where
  init: "po_reach nb (no_world i)"
| step: "po_reach nb w \<Longrightarrow> po_step nb w w' \<Longrightarrow> po_reach nb w'"

section \<open>Messages on their way\<close>

text \<open>A packet whose header is \<open>h\<close> and whose data begins with the bytes \<open>payload\<close>, as mail.\<close>

definition decode :: "PacketHeader \<Rightarrow> byte list \<Rightarrow> Mail" where
  "decode h payload = (let m = bytes_mailhdr (take 12 payload) in
     \<lparr>pktHdr = h, mailHdr = m, mail_data = take (unat (mail_length m)) (drop 12 payload)\<rparr>)"

definition packet_ok :: "nat \<Rightarrow> u32 \<Rightarrow> PacketHeader \<Rightarrow> byte list \<Rightarrow> bool" where
  "packet_ok nb d h payload \<longleftrightarrow> (let m = bytes_mailhdr (take 12 payload) in
     pkt_to h = d \<and> 52 \<le> length payload \<and> unat (mail_length m) \<le> 40 \<and> unat (pkt_length h) = 12 + unat (mail_length m) \<and>
     0 \<le> sint (mail_to m) \<and> sint (mail_to m) < int nb)"

definition wire_mail :: "byte list \<Rightarrow> Mail" where
  "wire_mail p = decode (bytes_pkt (take 12 p)) (drop 12 p)"

definition wire_ok :: "nat \<Rightarrow> u32 \<Rightarrow> byte list \<Rightarrow> bool" where
  "wire_ok nb d p \<longleftrightarrow> length p = 64 \<and> packet_ok nb d (bytes_pkt (take 12 p)) (drop 12 p)"

definition in_box :: "nat \<Rightarrow> Mail \<Rightarrow> bool" where
  "in_box b m \<longleftrightarrow> nat (sint (mail_to (mailHdr m))) = b"

text \<open>Only the bytes the header counts matter: the rest of a buffer may hold anything.\<close>

lemma packet_prefix:
  assumes "packet_ok nb d h payload" "52 \<le> length payload'" "take (unat (pkt_length h)) payload' = take (unat (pkt_length h)) payload"
  shows "packet_ok nb d h payload'" "decode h payload' = decode h payload"
proof -
  let ?n = "unat (pkt_length h)"
  have n: "12 \<le> ?n" "?n = 12 + unat (mail_length (bytes_mailhdr (take 12 payload)))" using assms(1) by (simp_all add: packet_ok_def Let_def)
  have "take 12 (take ?n payload') = take 12 (take ?n payload)" by (simp add: assms(3))
  then have h: "take 12 payload' = take 12 payload" using n(1) by (simp add: min_absorb1)
  have "drop 12 (take ?n payload') = drop 12 (take ?n payload)" by (simp add: assms(3))
  then have d: "take (?n - 12) (drop 12 payload') = take (?n - 12) (drop 12 payload)" by (simp add: drop_take)
  show "packet_ok nb d h payload'" using assms(1,2) h by (simp add: packet_ok_def Let_def)
  show "decode h payload' = decode h payload" using d n(2) by (simp add: decode_def h Let_def)
qed

text \<open>The mail the buffer of the device holds.\<close>

definition buffered :: "'a net_sim_scheme \<Rightarrow> Mail list" where
  "buffered s = (if pkt_length (inHdr s) = 0 then [] else [decode (inHdr s) (inbox s)])"

text \<open>The mail the postal worker is about to append to a box.\<close>

definition mail_in_hand :: "worker_state \<Rightarrow> Mail list" where
  "mail_in_hand w = (case w of Putting b mail \<Rightarrow> [mail] | _ \<Rightarrow> [])"

lemma mail_in_hand_simps [simp]: "mail_in_hand AwaitMessage = []" "mail_in_hand HasMessage = []" "mail_in_hand (Putting b mail) = [mail]"
  by (simp_all add: mail_in_hand_def)

definition held_mail :: "'a post_sim_scheme \<Rightarrow> Mail list" where
  "held_mail s = mail_in_hand (worker s)"

text \<open>
  The state of the machine with address \<open>d\<close>: the worker's semaphore counts the packet in the buffer, and for each
  box, what was received, what lies in the box, and what is still on its way is what the network carried for it.
\<close>

definition transit :: "nat \<Rightarrow> u32 \<Rightarrow> Mail list \<Rightarrow> (nat \<Rightarrow> Mail list) \<Rightarrow> byte list list \<Rightarrow> 'a post_sim_scheme \<Rightarrow> bool" where
  "transit nb d C G q s \<longleftrightarrow> (\<forall>p \<in> set q. wire_ok nb d p) \<and> (pkt_length (inHdr s) \<noteq> 0 \<longrightarrow> packet_ok nb d (inHdr s) (inbox s)) \<and>
     (\<forall>b < nb. G b @ boxes s ! b @ filter (in_box b) (held_mail s @ buffered s @ map wire_mail q) = filter (in_box b) C) \<and>
     (\<forall>b < nb. \<forall>m \<in> set (boxes s ! b). length (mail_data m) = unat (mail_length (mailHdr m)) \<and> unat (mail_length (mailHdr m)) \<le> 40)"

definition worker_fits :: "worker_state \<Rightarrow> PacketHeader \<Rightarrow> nat \<Rightarrow> bool" where
  "worker_fits w h nb = (case w of AwaitMessage \<Rightarrow> True | HasMessage \<Rightarrow> pkt_length h \<noteq> 0
      | Putting b mail \<Rightarrow> b < nb \<and> in_box b mail \<and> length (mail_data mail) = unat (mail_length (mailHdr mail)) \<and>
          unat (mail_length (mailHdr mail)) \<le> 40)"

lemma worker_fits_simps [simp]:
  "worker_fits AwaitMessage h nb" "worker_fits HasMessage h nb \<longleftrightarrow> pkt_length h \<noteq> 0"
  "worker_fits (Putting b mail) h nb \<longleftrightarrow> b < nb \<and> in_box b mail \<and> length (mail_data mail) = unat (mail_length (mailHdr mail)) \<and>
     unat (mail_length (mailHdr mail)) \<le> 40"
  by (simp_all add: worker_fits_def)

lemma worker_fits_header: "worker_fits w h nb \<Longrightarrow> pkt_length h' \<noteq> 0 \<Longrightarrow> worker_fits w h' nb"
  by (cases w) simp_all

definition worker_ok :: "'a post_sim_scheme \<Rightarrow> bool" where
  "worker_ok s \<longleftrightarrow> messageAvailable s = (if pkt_length (inHdr s) \<noteq> 0 \<and> worker s \<noteq> HasMessage then 1 else 0) \<and>
     worker_fits (worker s) (inHdr s) (length (boxes s))"

definition shape :: "nat \<Rightarrow> u32 \<Rightarrow> 'a post_sim_scheme \<Rightarrow> bool" where
  "shape nb d s \<longleftrightarrow> ident s = d \<and> netAddr s = d \<and> numBoxes s = int nb \<and> length (boxes s) = nb \<and> \<not> sendBusy s \<and>
     length (inbox s) = 52 \<and> length (wbuffer s) = 52"

definition node_ok :: "nat \<Rightarrow> u32 \<Rightarrow> Mail list \<Rightarrow> (nat \<Rightarrow> Mail list) \<Rightarrow> 'a post_sim_scheme \<Rightarrow> bool" where
  "node_ok nb d C G s \<longleftrightarrow> shape nb d s \<and> worker_ok s \<and> (\<exists>q. sockets s d = Some q \<and> transit nb d C G q s)"

text \<open>What the interrupt handlers leave alone.\<close>

type_synonym others = "(u32 \<Rightarrow> byte list list option) \<times> (nat \<Rightarrow> client_state) \<times> rat \<times> nat option"

definition others_of :: "u32 \<Rightarrow> 'a post_sim_scheme \<Rightarrow> others" where
  "others_of d s = ((sockets s)(d := None), clients s, chanceToWork s, sendLock s)"

lemma node_frames [simp]:
  fixes s :: "'a post_sim_scheme"
  shows "node_ok nb d C G (s\<lparr>intr := i\<rparr>) = node_ok nb d C G s" "node_ok nb d C G (s\<lparr>mach := m\<rparr>) = node_ok nb d C G s"
  "node_ok nb d C G (s\<lparr>stats := x\<rparr>) = node_ok nb d C G s" "node_ok nb d C G (s\<lparr>clients := cl\<rparr>) = node_ok nb d C G s"
  "node_ok nb d C G (s\<lparr>sendLock := l\<rparr>) = node_ok nb d C G s" "node_ok nb d C G (s\<lparr>messageSent := z\<rparr>) = node_ok nb d C G s"
  "others_of d (s\<lparr>intr := i\<rparr>) = others_of d s" "others_of d (s\<lparr>mach := m\<rparr>) = others_of d s" "others_of d (s\<lparr>stats := x\<rparr>) = others_of d s"
  by (simp_all add: node_ok_def shape_def worker_ok_def transit_def buffered_def held_mail_def others_of_def)

lemma node_poll_entry [simp]:
  fixes s :: "'a post_sim_scheme"
  shows "node_ok nb d C G (poll_entry h this k s) = node_ok nb d C G s" "others_of d (poll_entry h this k s) = others_of d s"
  unfolding poll_entry_def by (rule node_frames)+

section \<open>The interrupt handlers\<close>

lemma SendDone_node:
  assumes ok: "node_ok nb d C G s"
  shows "\<exists>s'. SendDone PacketSent s = Inr s' \<and> node_ok nb d C G s' \<and> others_of d s' = others_of d s \<and>
    intr s' = intr s \<and> same_clock s s' \<and> mach s' = mach s \<and> machine_on s' = machine_on s"
proof -
  have "s\<lparr>sendBusy := False\<rparr> = s" using ok by (cases s) (simp add: node_ok_def shape_def)
  then show ?thesis using ok by (simp add: SendDone_def PacketSent_def same_clock_def others_of_def)
qed

lemma CheckPktAvail_node:
  assumes ok: "node_ok nb d C G s"
  shows "\<exists>s'. CheckPktAvail IncomingPacket this s = Inr s' \<and> node_ok nb d C G s' \<and> others_of d s' = others_of d s \<and>
    intr s' = intr (poll_entry NetworkReadPoll this NetworkRecvInt s) \<and> same_clock s s' \<and> mach s' = mach s \<and> machine_on s' = machine_on s"
proof -
  obtain q where q: "sockets s d = Some q" "transit nb d C G q s" "shape nb d s" "worker_ok s" using ok by (auto simp: node_ok_def)
  have id: "ident s = d" "length (inbox s) = 52" using q(3) by (simp_all add: shape_def)
  have hd: "length (hd q) = 64 \<and> pkt_to (bytes_pkt (take 12 (hd q))) = d \<and> unat (pkt_length (bytes_pkt (take 12 (hd q)))) \<le> 52" if "q \<noteq> []"
    using q(2) hd_in_set [OF that] by (auto simp: transit_def wire_ok_def packet_ok_def Let_def)
  note c = CheckPktAvail_cases [of s q IncomingPacket this, unfolded id, OF q(1) hd refl]
  show ?thesis
  proof (cases "pkt_length (inHdr s) \<noteq> 0 \<or> q = []")
    case True
    then show ?thesis using c ok by (simp add: same_clock_def Let_def)
  next
    case False
    then obtain p ps where p: "q = p # ps" "pkt_length (inHdr s) = 0" by (cases q) auto
    let ?h = "bytes_pkt (take 12 p)"
    let ?n = "unat (pkt_length ?h)"
    let ?b = "take ?n (drop 12 p) @ drop ?n (inbox s)"
    let ?s = "(poll_entry NetworkReadPoll this NetworkRecvInt s)\<lparr>sockets := (sockets s)(d \<mapsto> ps), inHdr := ?h, inbox := ?b,
       stats := (stats s)\<lparr>numPacketsRecvd := numPacketsRecvd (stats s) + 1\<rparr>, messageAvailable := messageAvailable s + 1\<rparr>"
    have r: "CheckPktAvail IncomingPacket this s = Inr ?s" using c p by (simp add: IncomingPacket_def Let_def poll_entry_def)
    have ok1: "packet_ok nb d ?h (drop 12 p)" "length p = 64" using q(2) p by (simp_all add: transit_def wire_ok_def)
    have n: "?n \<le> 52" "0 < ?n" using ok1 by (auto simp: packet_ok_def Let_def)
    have lb: "length ?b = 52" using n(1) ok1(2) id(2) by simp
    note pf = packet_prefix [OF ok1(1), of ?b]
    have pk: "packet_ok nb d ?h ?b" "decode ?h ?b = wire_mail p" using pf lb n ok1(2) by (simp_all add: wire_mail_def)
    have nz: "pkt_length ?h \<noteq> 0" using n(2) by auto
    have "transit nb d C G ps ?s" using q(2) p pk nz by (auto simp: transit_def buffered_def held_mail_def poll_entry_def)
    moreover have "shape nb d ?s" using q(3) lb by (simp add: shape_def poll_entry_def)
    moreover have "worker_ok ?s" using q(4) p(2) nz worker_fits_header [of "worker s" "inHdr s" _ ?h] by (auto simp: worker_ok_def poll_entry_def)
    ultimately have "node_ok nb d C G ?s" by (auto simp: node_ok_def)
    moreover have "others_of d ?s = others_of d s" by (simp add: others_of_def poll_entry_def)
    moreover have "intr ?s = intr (poll_entry NetworkReadPoll this NetworkRecvInt s)" "same_clock s ?s" "mach ?s = mach s" "machine_on ?s = machine_on s"
      by (simp_all add: poll_entry_def same_clock_def)
    ultimately show ?thesis using r by blast
  qed
qed

definition network_handler :: "handler_fn \<Rightarrow> bool" where
  "network_handler h \<longleftrightarrow> h = NetworkReadPoll \<or> h = NetworkSendDone"

lemma due_now_poll_entry: "due_now (poll_entry h this k s) = due_now s"
  by (simp add: due_now_def poll_entry_def NetworkTime_def filter_sorted_insert_later)

lemma only_pending_poll_entry: "only_pending R s \<Longrightarrow> R h \<Longrightarrow> only_pending R (poll_entry h this k s)"
  by (auto simp: only_pending_def poll_entry_def PendingInterrupt_new_def)

lemma poll_entry_effect:
  assumes "intr s' = intr (poll_entry h this k s)" "same_clock s s'" "mach s' = mach s" "machine_on s' = machine_on s"
  shows "handler_effect s s'" "only_pending R s \<Longrightarrow> R h \<Longrightarrow> only_pending R s'"
proof -
  have t: "totalTicks (stats s') = totalTicks (stats s)" using assms(2) by (rule same_clock_total)
  have "due_now s' = due_now (poll_entry h this k s)" by (simp add: due_now_def assms(1) t)
  then show "handler_effect s s'" using assms
    by (simp add: handler_effect_def due_now_poll_entry) (simp add: poll_entry_def kl_sorted_insert_sorted)
  show "only_pending R s' " if "only_pending R s" "R h"
    using only_pending_poll_entry [OF that, of this k] by (simp add: only_pending_def assms(1))
qed

lemma kept_effect:
  assumes "intr s' = intr s" "same_clock s s'" "mach s' = mach s" "machine_on s' = machine_on s"
  shows "handler_effect s s'" "only_pending R s \<Longrightarrow> only_pending R s'"
  using assms by (simp_all add: handler_effect_def due_now_def same_clock_total only_pending_def)

text \<open>The network's handlers meet the contract of the interrupt controller, and deliver nothing twice and lose nothing.\<close>

interpretation net: interrupt_handlers po_handlers network_handler "\<lambda>s. node_ok nb d C G s \<and> others_of d s = X" for nb d C G X
proof (unfold_locales, goal_cases)
  case (4 h s a)
  then have n: "node_ok nb d C G s" "others_of d s = X" by simp_all
  show ?case
  proof (cases "h = NetworkReadPoll")
    case True
    obtain s' where s': "CheckPktAvail IncomingPacket a s = Inr s'" "node_ok nb d C G s'" "others_of d s' = others_of d s"
      "intr s' = intr (poll_entry NetworkReadPoll a NetworkRecvInt s)" "same_clock s s'" "mach s' = mach s" "machine_on s' = machine_on s"
      using CheckPktAvail_node [OF n(1), of a] by blast
    show ?thesis using True s' n 4(5) poll_entry_effect [OF s'(4-7)] by (simp add: po_handlers_def network_handler_def)
  next
    case False
    then have h: "h = NetworkSendDone" using 4(1) by (simp add: network_handler_def)
    obtain s' where s': "SendDone PacketSent s = Inr s'" "node_ok nb d C G s'" "others_of d s' = others_of d s"
      "intr s' = intr s" "same_clock s s'" "mach s' = mach s" "machine_on s' = machine_on s"
      using SendDone_node [OF n(1)] by blast
    show ?thesis using h s' n 4(5) kept_effect [OF s'(4-7)] by (simp add: po_handlers_def)
  qed
qed simp_all

section \<open>The threads\<close>

lemma packet_for_receiver:
  assumes "packet_ok nb d h payload" "length buf = 52" "length payload = 52"
  shows "packet_ok nb d h (take (unat (pkt_length h)) payload @ drop (unat (pkt_length h)) buf)"
    "decode h (take (unat (pkt_length h)) payload @ drop (unat (pkt_length h)) buf) = decode h payload"
proof -
  have "unat (pkt_length h) \<le> 52" using assms(1) by (simp add: packet_ok_def Let_def)
  then show "packet_ok nb d h (take (unat (pkt_length h)) payload @ drop (unat (pkt_length h)) buf)"
    "decode h (take (unat (pkt_length h)) payload @ drop (unat (pkt_length h)) buf) = decode h payload"
    using packet_prefix [OF assms(1), of "take (unat (pkt_length h)) payload @ drop (unat (pkt_length h)) buf"] assms(2,3) by simp_all
qed

lemma PostalDelivery_node:
  assumes ok: "node_ok nb d C G s" and has: "worker s = HasMessage"
  shows "\<exists>s'. PostalDelivery_receive s = Inr s' \<and> node_ok nb d C G s' \<and> others_of d s' = others_of d s \<and>
    intr s' = intr s \<and> stats s' = stats s \<and> mach s' = mach s \<and> machine_on s' = machine_on s"
proof -
  obtain q where q: "sockets s d = Some q" "transit nb d C G q s" "shape nb d s" "worker_ok s" using ok by (auto simp: node_ok_def)
  have nz: "pkt_length (inHdr s) \<noteq> 0" using q(4) has by (simp add: worker_ok_def)
  let ?h = "inHdr s"
  let ?n = "unat (pkt_length ?h)"
  define buf where "buf = take ?n (inbox s) @ drop ?n (wbuffer s)"
  define m where "m = bytes_mailhdr (take 12 buf)"
  define b where "b = nat (sint (mail_to m))"
  define mail where "mail = decode ?h (inbox s)"
  have l: "length (inbox s) = 52" "length (wbuffer s) = 52" "length (boxes s) = nb" "numBoxes s = int nb" using q(3) by (simp_all add: shape_def)
  have pk: "packet_ok nb d ?h (inbox s)" using q(2) nz by (simp add: transit_def)
  note P = packet_for_receiver [OF pk l(2,1), folded buf_def, folded mail_def]
  have n: "?n \<le> 52" using pk by (simp add: packet_ok_def Let_def)
  have m: "unat (mail_length m) \<le> 40" "0 \<le> sint (mail_to m)" "sint (mail_to m) < int nb"
    using P(1) unfolding packet_ok_def Let_def m_def by blast+
  have mail: "mail = \<lparr>pktHdr = ?h, mailHdr = m, mail_data = take (unat (mail_length m)) (drop 12 buf)\<rparr>"
    unfolding P(2) [symmetric] by (simp add: decode_def Let_def m_def)
  have lb: "length buf = 52" using n l by (simp add: buf_def)
  let ?s = "s\<lparr>inHdr := ?h\<lparr>pkt_length := 0\<rparr>, wbuffer := buf, worker := Putting b mail\<rparr>"
  have recv: "Network_Receive (wbuffer s) s = Inr (s\<lparr>inHdr := ?h\<lparr>pkt_length := 0\<rparr>\<rparr>, ?h, buf)"
    using nz n l by (simp add: Network_Receive_def bcopy_def Let_def buf_def)
  have "Mail_new ?h m (drop 12 buf) = Inr mail" using m(1) lb unfolding mail by (simp add: Mail_new_def MaxMailSize_def packet_sizes)
  then have r: "PostalDelivery_receive s = Inr ?s"
    unfolding PostalDelivery_receive_def recv using m l by (simp add: MaxMailSize_def packet_sizes Let_def m_def [symmetric] b_def)
  have b: "b < nb" using m(2,3) by (auto simp: b_def)
  have only: "in_box c mail \<longleftrightarrow> c = b" for c unfolding mail by (auto simp: in_box_def b_def)
  have len: "length (mail_data mail) = unat (mail_length (mailHdr mail))" "unat (mail_length (mailHdr mail)) \<le> 40"
    using m(1) lb unfolding mail by simp_all
  have "transit nb d C G q ?s"
    using q(2) nz has by (auto simp: transit_def buffered_def held_mail_def mail_def [symmetric])
  moreover have "shape nb d ?s" using q(3) lb by (simp add: shape_def)
  moreover have "worker_ok ?s" using q(4) has b only len l(3) by (simp add: worker_ok_def)
  ultimately have "node_ok nb d C G ?s" using q(1) by (simp add: node_ok_def)
  moreover have "others_of d ?s = others_of d s" by (simp add: others_of_def)
  ultimately show ?thesis using r by simp
qed

lemma PostalDelivery_put_node:
  assumes ok: "node_ok nb d C G s" and has: "worker s = Putting b mail"
  shows "\<exists>s'. PostalDelivery_put b mail s = Inr s' \<and> node_ok nb d C G s' \<and> others_of d s' = others_of d s \<and>
    intr s' = intr s \<and> stats s' = stats s \<and> mach s' = mach s \<and> machine_on s' = machine_on s"
proof -
  obtain q where q: "sockets s d = Some q" "transit nb d C G q s" "shape nb d s" "worker_ok s" using ok by (auto simp: node_ok_def)
  have m: "b < length (boxes s)" "in_box b mail" "length (mail_data mail) = unat (mail_length (mailHdr mail))" "unat (mail_length (mailHdr mail)) \<le> 40"
    using q(4) has by (simp_all add: worker_ok_def)
  have l: "length (boxes s) = nb" using q(3) by (simp add: shape_def)
  have only: "in_box c mail \<longleftrightarrow> c = b" for c using m(2) by (auto simp: in_box_def)
  let ?s = "s\<lparr>boxes := (boxes s)[b := boxes s ! b @ [mail]], worker := AwaitMessage\<rparr>"
  have r: "PostalDelivery_put b mail s = Inr ?s" using m(1) by (simp add: PostalDelivery_put_def MailBox_Put_def)
  have "transit nb d C G q ?s"
    using q(2) has only m l by (auto simp: transit_def buffered_def held_mail_def nth_list_update)
  moreover have "shape nb d ?s" using q(3) by (simp add: shape_def)
  moreover have "worker_ok ?s" using q(4) has by (simp add: worker_ok_def)
  ultimately have "node_ok nb d C G ?s" using q(1) by (simp add: node_ok_def)
  then show ?thesis using r by (simp add: others_of_def)
qed

lemma worker_P_node:
  assumes "node_ok nb d C G s" "worker s = AwaitMessage" "messageAvailable s > 0"
  shows "node_ok nb d C G (worker_P s)"
proof -
  have "transit nb d C G q (worker_P s) = transit nb d C G q s" for q using assms(2) by (simp add: transit_def worker_P_def buffered_def held_mail_def)
  moreover have "worker_ok (worker_P s)" using assms by (auto simp: node_ok_def worker_ok_def worker_P_def split: if_splits)
  ultimately show ?thesis using assms(1) by (simp add: node_ok_def shape_def) (simp add: worker_P_def)
qed

text \<open>\<^verbatim>\<open>Receive\<close> returns the first message of the box.\<close>

lemma Receive_node:
  assumes ok: "node_ok nb d C G s" and box: "0 \<le> box" "box < int nb" and ne: "boxes s ! nat box = mail # mails" and buf: "length buf = 40"
  shows "\<exists>s' data. PostOffice_Receive box buf s = Inr (s', pktHdr mail, mailHdr mail, data) \<and>
    take (unat (mail_length (mailHdr mail))) data = mail_data mail \<and> node_ok nb d C (G(nat box := G (nat box) @ [mail])) s' \<and>
    others_of d s' = others_of d s \<and> sockets s' = sockets s \<and> intr s' = intr s \<and> stats s' = stats s \<and> mach s' = mach s \<and> machine_on s' = machine_on s"
proof -
  obtain q where q: "sockets s d = Some q" "transit nb d C G q s" "shape nb d s" "worker_ok s" using ok by (auto simp: node_ok_def)
  have l: "length (boxes s) = nb" "numBoxes s = int nb" using q(3) by (simp_all add: shape_def)
  have b: "nat box < nb" using box by simp
  then have m: "length (mail_data mail) = unat (mail_length (mailHdr mail))" "unat (mail_length (mailHdr mail)) \<le> 40"
    using q(2) ne unfolding transit_def by (auto simp: ne)
  let ?s = "s\<lparr>boxes := (boxes s)[nat box := mails]\<rparr>"
  let ?data = "mail_data mail @ drop (unat (mail_length (mailHdr mail))) buf"
  have r: "PostOffice_Receive box buf s = Inr (?s, pktHdr mail, mailHdr mail, ?data)"
    using box b l ne m buf by (simp add: PostOffice_Receive_def MailBox_Get_def bcopy_def MaxMailSize_def packet_sizes)
  have "transit nb d C (G(nat box := G (nat box) @ [mail])) q ?s"
    using q(2) b ne l(1) unfolding transit_def by (auto simp: nth_list_update buffered_def held_mail_def)
  then have "node_ok nb d C (G(nat box := G (nat box) @ [mail])) ?s" using q by (simp add: node_ok_def shape_def worker_ok_def split: worker_state.splits)
  then show ?thesis using r m(1) by (simp add: others_of_def)
qed

lemma Receive_cases:
  assumes ok: "node_ok nb d C G s" and buf: "length buf = 40" and r: "PostOffice_Receive box buf s = Inr (s', pktH, mailH, data)"
  shows "node_ok nb d C (G(nat box := G (nat box) @ [\<lparr>pktHdr = pktH, mailHdr = mailH, mail_data = take (unat (mail_length mailH)) data\<rparr>])) s'"
    "others_of d s' = others_of d s" "sockets s' = sockets s" "intr s' = intr s" "stats s' = stats s" "mach s' = mach s" "machine_on s' = machine_on s"
proof -
  have box: "0 \<le> box" "box < int nb" using r ok by (auto simp: PostOffice_Receive_def node_ok_def shape_def bindr_eq_Inr)
  obtain mail mails where ne: "boxes s ! nat box = mail # mails"
    using r by (cases "boxes s ! nat box") (auto simp: PostOffice_Receive_def MailBox_Get_def bindr_eq_Inr split: if_splits)
  obtain s1 data1 where s1: "PostOffice_Receive box buf s = Inr (s1, pktHdr mail, mailHdr mail, data1)"
    "take (unat (mail_length (mailHdr mail))) data1 = mail_data mail" "node_ok nb d C (G(nat box := G (nat box) @ [mail])) s1"
    "others_of d s1 = others_of d s" "sockets s1 = sockets s" "intr s1 = intr s" "stats s1 = stats s" "mach s1 = mach s" "machine_on s1 = machine_on s"
    using Receive_node [OF ok box ne buf] by blast
  have e: "s' = s1" "pktH = pktHdr mail" "mailH = mailHdr mail" "data = data1" using r s1(1) by simp_all
  have "\<lparr>pktHdr = pktH, mailHdr = mailH, mail_data = take (unat (mail_length mailH)) data\<rparr> = mail" by (simp add: e s1(2))
  then show "node_ok nb d C (G(nat box := G (nat box) @ [\<lparr>pktHdr = pktH, mailHdr = mailH, mail_data = take (unat (mail_length mailH)) data\<rparr>])) s'"
    "others_of d s' = others_of d s" "sockets s' = sockets s" "intr s' = intr s" "stats s' = stats s" "mach s' = mach s" "machine_on s' = machine_on s"
    using s1 unfolding e(1) by simp_all
qed

lemma PostOffice_new_node:
  assumes "booted s"
  shows "\<exists>n. PostOffice_new a reliability (int nb) this (s\<lparr>sockets := W\<rparr>) = Inr n \<and> node_ok nb a [] (\<lambda>_. []) n \<and>
    sockets n = W(a \<mapsto> []) \<and> intr_ok n \<and> only_pending network_handler n \<and> status (intr n) = SystemMode \<and> (\<forall>t. clients n t = Outside) \<and> sendLock n = None"
proof -
  have b: "intr s = Interrupt_new" "stats s = Statistics_new" "\<not> machine_on s" "length (inbox s) = 52" "length (wbuffer s) = 52" "\<forall>t. clients s t = Outside"
    using assms by (simp_all add: booted_def)
  show ?thesis
    unfolding PostOffice_new_def Network_new_def Schedule_network AssignNameToSocket_def
    using b by (simp add: node_ok_def shape_def worker_ok_def transit_def buffered_def held_mail_def poll_entry_def intr_ok_def only_pending_def
        kl_sorted_def mach_ok_def clock_ok_def Statistics_new_def Interrupt_new_def PendingInterrupt_new_def network_handler_def)
qed

end
