(* ===== verification/Nachos_Post_Delivery.thy ===== *)
theory Nachos_Post_Delivery
  imports Nachos_Post
begin

text \<open>
  Any number of machines connected by the network: the invariant of the interleaving model of \<open>Nachos_Post\<close>, and what it
  gives, that messages arrive unchanged and in order and that no assertion of the network or the post office fails.
\<close>

section \<open>The invariant of all machines\<close>

text \<open>The message a thread holds is the one it was called with, and its destination runs.\<close>

definition client_ok :: "nat \<Rightarrow> (u32 \<Rightarrow> byte list list option) \<Rightarrow> u32 \<Rightarrow> Mail \<Rightarrow> client_state \<Rightarrow> bool" where
  "client_ok nb W a mail cs = (case cs of
       Sending h buf \<Rightarrow> W (pkt_to h) \<noteq> None \<and> pkt_from h = a \<and> length buf = 52 \<and> packet_ok nb (pkt_to h) h buf \<and> decode h buf = mail
     | Locked h buf \<Rightarrow> W (pkt_to h) \<noteq> None \<and> pkt_from h = a \<and> length buf = 52 \<and> packet_ok nb (pkt_to h) h buf \<and> decode h buf = mail
     | _ \<Rightarrow> True)"

definition in_send :: "client_state \<Rightarrow> bool" where
  "in_send cs = (case cs of Locked h buf \<Rightarrow> True | AwaitSent \<Rightarrow> True | Unlocking \<Rightarrow> True | _ \<Rightarrow> False)"

definition control_ok :: "post_sim \<Rightarrow> bool" where
  "control_ok n \<longleftrightarrow> intr_ok n \<and> only_pending network_handler n \<and> status (intr n) = SystemMode"

definition machine_ok :: "nat \<Rightarrow> (nat \<Rightarrow> Mail) \<Rightarrow> u32 \<Rightarrow> Mail list \<Rightarrow> (nat \<Rightarrow> Mail list) \<Rightarrow> post_sim \<Rightarrow> bool" where
  "machine_ok nb i a C G n \<longleftrightarrow> node_ok nb a C G n \<and> control_ok n \<and> (\<forall>t. client_ok nb (sockets n) a (i t) (clients n t)) \<and>
     (\<forall>t. in_send (clients n t) \<longleftrightarrow> sendLock n = Some t)"

definition world_ok :: "nat \<Rightarrow> world \<Rightarrow> bool" where
  "world_ok nb w \<longleftrightarrow>
     (\<forall>a. nodes w a = None \<longrightarrow> wires w a = None \<and> sent w a = [] \<and> carried w a = [] \<and> got w a = (\<lambda>_. [])) \<and>
     (\<forall>a n. at_node w a n \<longrightarrow> machine_ok nb (intent w a) a (carried w a) (got w a) n) \<and>
     (\<forall>d. subseq (carried w d) (sent w d)) \<and>
     ((\<forall>a n. nodes w a = Some n \<longrightarrow> 1 \<le> chanceToWork n) \<longrightarrow> carried w = sent w)"

lemma at_put_node:
  "at_node ((put_node a n w)\<lparr>got := g, intent := i, sent := x, carried := y\<rparr>) b m \<longleftrightarrow>
   (if b = a then m = n else \<exists>m0. nodes w b = Some m0 \<and> m = m0\<lparr>sockets := sockets n\<rparr>)"
  by (auto simp: at_node_def put_node_def)

lemma buffered_sockets [simp]: "buffered (s\<lparr>sockets := f\<rparr>) = buffered s" "held_mail (r\<lparr>sockets := f\<rparr>) = held_mail r"
  by (simp_all add: buffered_def held_mail_def)

lemma sockets_frames [simp]:
  fixes s :: "'a post_sim_scheme"
  shows "shape nb d (s\<lparr>sockets := f\<rparr>) = shape nb d s" "worker_ok (s\<lparr>sockets := f\<rparr>) = worker_ok s" "transit nb d C G q (s\<lparr>sockets := f\<rparr>) = transit nb d C G q s"
    "intr_ok (s\<lparr>sockets := f\<rparr>) = intr_ok s" "only_pending R (s\<lparr>sockets := f\<rparr>) = only_pending R s"
  by (simp_all add: shape_def worker_ok_def transit_def buffered_def held_mail_def intr_ok_def mach_ok_def clock_ok_def only_pending_def)

lemma control_frames [simp]:
  "control_ok (n\<lparr>sockets := f\<rparr>) = control_ok n" "control_ok (n\<lparr>clients := c\<rparr>) = control_ok n" "control_ok (n\<lparr>sendLock := l\<rparr>) = control_ok n"
  "control_ok (n\<lparr>messageSent := z\<rparr>) = control_ok n" "control_ok (worker_P n) = control_ok n"
  by (simp_all add: control_ok_def intr_ok_def mach_ok_def clock_ok_def only_pending_def worker_P_def)

lemma machine_ok_sockets:
  assumes "machine_ok nb i b C G (m\<lparr>sockets := f\<rparr>)" "f' b = f b" "\<And>e. f e \<noteq> None \<Longrightarrow> f' e \<noteq> None"
  shows "machine_ok nb i b C G (m\<lparr>sockets := f'\<rparr>)"
proof -
  have "client_ok nb f' b (i t) cs" if "client_ok nb f b (i t) cs" for t cs
    using that assms(3) unfolding client_ok_def by (cases cs) auto
  then show ?thesis using assms(1,2)
    by (simp add: machine_ok_def node_ok_def)
qed

text \<open>A step of one machine that at most takes packets off its own socket.\<close>

lemma world_local:
  assumes w: "world_ok nb w" and n: "at_node w a n"
    and n': "machine_ok nb j a (carried w a) G n'" "(sockets n')(a := None) = (wires w)(a := None)" "chanceToWork n' = chanceToWork n"
  shows "world_ok nb ((put_node a n' w)\<lparr>got := (got w)(a := G), intent := (intent w)(a := j), sent := sent w, carried := carried w\<rparr>)"
    (is "world_ok nb ?w")
proof -
  obtain n0 where n0: "nodes w a = Some n0" "n = n0\<lparr>sockets := wires w\<rparr>" using n by (auto simp: at_node_def)
  have sock: "sockets n' e = wires w e" if "e \<noteq> a" for e using fun_cong [OF n'(2), of e] that by simp
  have own: "sockets n' a \<noteq> None" using n'(1) by (auto simp: machine_ok_def node_ok_def)
  have dom: "sockets n' e \<noteq> None" if "wires w e \<noteq> None" for e using sock own that by (metis)
  have "machine_ok nb (intent ?w b) b (carried ?w b) (got ?w b) m" if m: "at_node ?w b m" for b m
  proof (cases "b = a")
    case True
    then show ?thesis using m n'(1) unfolding at_put_node by simp
  next
    case False
    then obtain m0 where m0: "nodes w b = Some m0" "m = m0\<lparr>sockets := sockets n'\<rparr>" using m unfolding at_put_node by auto
    have "machine_ok nb (intent w b) b (carried w b) (got w b) (m0\<lparr>sockets := wires w\<rparr>)"
      using w m0(1) unfolding world_ok_def at_node_def by blast
    from machine_ok_sockets [where f' = "sockets n'", OF this sock [OF False] dom] show ?thesis using False by (simp add: m0(2))
  qed
  moreover have "(\<forall>b. nodes ?w b = None \<longrightarrow> wires ?w b = None \<and> sent ?w b = [] \<and> carried ?w b = [] \<and> got ?w b = (\<lambda>_. []))"
    using w sock by (auto simp: world_ok_def put_node_def)
  moreover have "\<forall>d. subseq (carried ?w d) (sent ?w d)" using w by (simp add: world_ok_def)
  moreover have "(\<forall>b m. nodes ?w b = Some m \<longrightarrow> 1 \<le> chanceToWork m) \<longrightarrow> carried ?w = sent ?w"
  proof
    assume r: "\<forall>b m. nodes ?w b = Some m \<longrightarrow> 1 \<le> chanceToWork m"
    have "1 \<le> chanceToWork m" if "nodes w b = Some m" for b m
      using r [rule_format, of b] that n0 n'(3) by (cases "b = a") (auto simp: put_node_def)
    then show "carried ?w = sent ?w" using w unfolding world_ok_def by simp
  qed
  ultimately show ?thesis unfolding world_ok_def by blast
qed

lemma put_node_same: "(put_node a n w)\<lparr>got := (got w)(a := got w a), intent := (intent w)(a := intent w a), sent := sent w, carried := carried w\<rparr> = put_node a n w"
  by (cases w) (simp add: put_node_def)

lemmas world_local_same = world_local [where G = "got w a" and j = "intent w a" and a = a and w = w for w a, unfolded put_node_same]

lemma client_ok_dom: "client_ok nb W a m cs \<Longrightarrow> (\<And>e. W e \<noteq> None \<Longrightarrow> W' e \<noteq> None) \<Longrightarrow> client_ok nb W' a m cs"
  unfolding client_ok_def by (cases cs) auto

lemma machine_others:
  assumes m: "machine_ok nb i a C G n" and n': "node_ok nb a C G' n'" "control_ok n'" "others_of a n' = others_of a n"
  shows "machine_ok nb i a C G' n'" "(sockets n')(a := None) = (sockets n)(a := None)" "chanceToWork n' = chanceToWork n"
proof -
  show o: "(sockets n')(a := None) = (sockets n)(a := None)" "chanceToWork n' = chanceToWork n" using n'(3) by (simp_all add: others_of_def)
  have c: "clients n' = clients n" "sendLock n' = sendLock n" using n'(3) by (simp_all add: others_of_def)
  have "sockets n' e \<noteq> None" if "sockets n e \<noteq> None" for e
  proof (cases "e = a")
    case True
    then show ?thesis using n'(1) by (auto simp: node_ok_def)
  next
    case False
    then show ?thesis using fun_cong [OF o(1), of e] that by simp
  qed
  then have "client_ok nb (sockets n') a (i t) (clients n' t)" for t using m client_ok_dom unfolding machine_ok_def c by blast
  then show "machine_ok nb i a C G' n'" using m n'(1,2) by (simp add: machine_ok_def c)
qed

lemma world_node:
  assumes "world_ok nb w" "at_node w a n"
  shows "machine_ok nb (intent w a) a (carried w a) (got w a) n" "sockets n = wires w"
    "node_ok nb a (carried w a) (got w a) n" "control_ok n"
  using assms by (auto simp: world_ok_def at_node_def machine_ok_def)

lemma world_quiet:
  assumes w: "world_ok nb w" "at_node w a n"
    and n': "node_ok nb a (carried w a) (got w a) n'" "control_ok n'" "others_of a n' = others_of a n"
  shows "world_ok nb (put_node a n' w)"
proof -
  note M = machine_others [OF world_node(1) [OF w] n']
  show ?thesis by (rule world_local_same [OF w M(1) _ M(3)]) (use M(2) world_node(2) [OF w] in simp)
qed

lemma tick_world:
  assumes w: "world_ok nb w" "at_node w a n" and t: "tick_and_fire po_handlers n = Inr n'"
  shows "world_ok nb (put_node a n' w)"
proof -
  note N = world_node [OF w]
  have c: "intr_ok n" "only_pending network_handler n" "status (intr n) = SystemMode" using N(4) by (simp_all add: control_ok_def)
  have i: "status (intr n) \<noteq> IdleMode" using c(3) by simp
  have I: "node_ok nb a (carried w a) (got w a) n \<and> others_of a n = others_of a n" using N(3) by simp
  from net.tick_and_fire_ok [OF I c(1) i c(2)] t
  have "node_ok nb a (carried w a) (got w a) n'" "others_of a n' = others_of a n" "control_ok n'" using c(3) by (auto simp: control_ok_def)
  then show ?thesis using world_quiet [OF w] by blast
qed

lemma idle_world:
  assumes w: "world_ok nb w" "at_node w a n" and t: "Idle po_handlers (ChangeLevel IntOff n) = Inr n'"
  shows "world_ok nb (put_node a n' w)"
proof -
  note N = world_node [OF w]
  let ?n = "ChangeLevel IntOff n"
  have c: "intr_ok ?n" "only_pending network_handler ?n" "level (intr ?n) = IntOff"
    using N(4) by (simp_all add: control_ok_def ChangeLevel_def intr_ok_def only_pending_def)
  have I: "node_ok nb a (carried w a) (got w a) ?n \<and> others_of a ?n = others_of a n" using N(3) by (simp add: ChangeLevel_def)
  have "pending (intr ?n) \<noteq> [] \<and> \<not> (\<exists>k p. pending (intr ?n) = [(k, p)] \<and> int_type p = TimerInt)"
    using net.Idle_halts [OF c(3)] t by (metis Inl_Inr_False)
  then obtain k p rest where p: "pending (intr ?n) = (k, p) # rest" "\<not> (int_type p = TimerInt \<and> rest = [])" by (cases "pending (intr ?n)") auto
  from net.Idle_resumes [OF I c(1,3,2) p] t
  have "node_ok nb a (carried w a) (got w a) n'" "others_of a n' = others_of a n" "control_ok n'" by (auto simp: control_ok_def)
  then show ?thesis using world_quiet [OF w] by blast
qed

lemma put_node_parts:
  "(put_node a n w)\<lparr>got := (got w)(a := got w a), intent := i, sent := sent w, carried := carried w\<rparr> = (put_node a n w)\<lparr>intent := i\<rparr>"
  "(put_node a n w)\<lparr>got := g, intent := (intent w)(a := intent w a), sent := sent w, carried := carried w\<rparr> = (put_node a n w)\<lparr>got := g\<rparr>"
  "(put_node a n w)\<lparr>intent := (intent w)(a := (intent w a)(t := intent w a t))\<rparr> = put_node a n w"
  by (cases w; simp add: put_node_def)+

text \<open>A thread moves on inside \<^verbatim>\<open>Send\<close>.\<close>

lemma client_world:
  assumes w: "world_ok nb w" "at_node w a n"
    and n': "n' = n\<lparr>clients := (clients n)(t := cs), sendLock := l, messageSent := z\<rparr>"
    and cs: "client_ok nb (wires w) a mail cs" "\<And>u. in_send (((clients n)(t := cs)) u) \<longleftrightarrow> l = Some u"
  shows "world_ok nb ((put_node a n' w)\<lparr>intent := (intent w)(a := (intent w a)(t := mail))\<rparr>)"
proof -
  note N = world_node [OF w]
  have "machine_ok nb ((intent w a)(t := mail)) a (carried w a) (got w a) n'"
    using N cs unfolding n' machine_ok_def by simp
  from world_local [OF w this] show ?thesis unfolding put_node_parts using N(2) n' by simp
qed

lemma world_locks:
  assumes w: "world_ok nb w" "at_node w a n"
  shows "in_send (clients n u) \<longleftrightarrow> sendLock n = Some u" "client_ok nb (wires w) a (intent w a u) (clients n u)"
  using world_node [OF w] by (auto simp: machine_ok_def)

lemma call_world:
  assumes w: "world_ok nb w" "at_node w a n" and o: "clients n t = Outside" "wires w (pkt_to pktH) \<noteq> None" "length mem = 52"
    and c: "PostOffice_Send t mem pktH mailH data n = Inr n'"
  shows "world_ok nb ((put_node a n' w)\<lparr>intent := (intent w)(a := (intent w a)(t := mail_for a pktH mailH data))\<rparr>)"
proof -
  let ?h = "pktH\<lparr>pkt_from := a, pkt_length := mail_length mailH + 12\<rparr>"
  let ?l = "unat (mail_length mailH)"
  let ?buf = "mailhdr_bytes mailH @ take ?l data @ drop (12 + ?l) mem"
  have sh: "netAddr n = a" "numBoxes n = int nb" using world_node(3) [OF w] by (simp_all add: node_ok_def shape_def)
  have g: "?l \<le> 40" "0 \<le> sint (mail_to mailH)" "sint (mail_to mailH) < int nb" "?l \<le> length data"
    and n': "n' = n\<lparr>clients := (clients n)(t := Sending ?h ?buf)\<rparr>"
    using c sh o(3) by (auto simp: PostOffice_Send_def Let_def bindr_eq_Inr bcopy_def MaxMailSize_def packet_sizes add.commute split: if_splits)
  have "unat (mail_length mailH + 12) = ?l + 12" using g(1) by (simp add: unat_word_ariths)
  then have pk: "packet_ok nb (pkt_to ?h) ?h ?buf" "decode ?h ?buf = mail_for a pktH mailH data" "length ?buf = 52"
    using g o(3) by (simp_all add: packet_ok_def decode_def mail_for_def Let_def)
  have "world_ok nb ((put_node a n' w)\<lparr>intent := (intent w)(a := (intent w a)(t := mail_for a pktH mailH data))\<rparr>)"
  proof (rule client_world [OF w, where cs = "Sending ?h ?buf" and l = "sendLock n" and z = "messageSent n"])
    show "n' = n\<lparr>clients := (clients n)(t := Sending ?h ?buf), sendLock := sendLock n, messageSent := messageSent n\<rparr>" by (simp add: n')
    show "client_ok nb (wires w) a (mail_for a pktH mailH data) (Sending ?h ?buf)" using pk o(2) by (simp add: client_ok_def)
    show "in_send (((clients n)(t := Sending ?h ?buf)) u) \<longleftrightarrow> sendLock n = Some u" for u
      using world_locks(1) [OF w, of u] o(1) by (auto simp: in_send_def)
  qed
  then show ?thesis .
qed

lemma moves_world:
  assumes w: "world_ok nb w" "at_node w a n"
  shows "clients n t = Sending h buf \<Longrightarrow> sendLock n = None \<Longrightarrow> world_ok nb (put_node a (send_Acquire t h buf n) w)"
    "clients n t = AwaitSent \<Longrightarrow> world_ok nb (put_node a (send_P t n) w)"
    "clients n t = Unlocking \<Longrightarrow> world_ok nb (put_node a (send_Release t n) w)"
proof -
  note C = client_world [OF w, where t = t and mail = "intent w a t", unfolded put_node_parts]
  note L = world_locks [OF w]
  show "world_ok nb (put_node a (send_Acquire t h buf n) w)" if a: "clients n t = Sending h buf" "sendLock n = None"
  proof (rule C [where cs = "Locked h buf" and l = "Some t" and z = "messageSent n"])
    show "client_ok nb (wires w) a (intent w a t) (Locked h buf)" using L(2) [of t] a(1) by (simp add: client_ok_def)
    show "in_send (((clients n)(t := Locked h buf)) u) \<longleftrightarrow> Some t = Some u" for u using L(1) [of u] a(2) by (auto simp: in_send_def)
  qed (simp add: send_Acquire_def)
  show "world_ok nb (put_node a (send_P t n) w)" if a: "clients n t = AwaitSent"
  proof (rule C [where cs = Unlocking and l = "sendLock n" and z = "messageSent n - 1"])
    show "in_send (((clients n)(t := Unlocking)) u) \<longleftrightarrow> sendLock n = Some u" for u using L(1) [of u] a by (auto simp: in_send_def)
  qed (simp_all add: send_P_def client_ok_def)
  show "world_ok nb (put_node a (send_Release t n) w)" if a: "clients n t = Unlocking"
  proof (rule C [where cs = Outside and l = None and z = "messageSent n"])
    have "sendLock n = Some t" using L(1) [of t] a by (simp add: in_send_def)
    then show "in_send (((clients n)(t := Outside)) u) \<longleftrightarrow> None = Some u" for u using L(1) [of u] by (auto simp: in_send_def)
  qed (simp_all add: send_Release_def client_ok_def)
qed

lemma worker_world:
  assumes w: "world_ok nb w" "at_node w a n"
  shows "worker n = AwaitMessage \<Longrightarrow> messageAvailable n > 0 \<Longrightarrow> world_ok nb (put_node a (worker_P n) w)"
    "worker n = HasMessage \<Longrightarrow> PostalDelivery_receive n = Inr n' \<Longrightarrow> world_ok nb (put_node a n' w)"
    "worker n = Putting b mail \<Longrightarrow> PostalDelivery_put b mail n = Inr n' \<Longrightarrow> world_ok nb (put_node a n' w)"
proof -
  note N = world_node [OF w]
  have quiet: "world_ok nb (put_node a n' w)" if "node_ok nb a (carried w a) (got w a) n'" "others_of a n' = others_of a n" "intr n' = intr n"
    "stats n' = stats n" "mach n' = mach n" "machine_on n' = machine_on n" for n'
    using that world_quiet [OF w] N(4) by (simp add: control_ok_def intr_ok_def mach_ok_def clock_ok_def only_pending_def)
  show "world_ok nb (put_node a (worker_P n) w)" if "worker n = AwaitMessage" "messageAvailable n > 0"
    by (rule quiet [OF worker_P_node [OF N(3) that]]) (simp_all add: others_of_def worker_P_def)
  show "world_ok nb (put_node a n' w)" if "worker n = HasMessage" "PostalDelivery_receive n = Inr n'"
    using quiet [of n'] PostalDelivery_node [OF N(3) that(1)] that(2) by auto
  show "world_ok nb (put_node a n' w)" if "worker n = Putting b mail" "PostalDelivery_put b mail n = Inr n'"
    using quiet [of n'] PostalDelivery_put_node [OF N(3) that(1)] that(2) by auto
qed

lemma receive_world:
  assumes w: "world_ok nb w" "at_node w a n" and buf: "length buf = 40" and r: "PostOffice_Receive box buf n = Inr (n', pktH, mailH, data)"
  shows "world_ok nb ((put_node a n' w)\<lparr>got := (got w)(a := (got w a)(nat box := got w a (nat box) @
      [\<lparr>pktHdr = pktH, mailHdr = mailH, mail_data = take (unat (mail_length mailH)) data\<rparr>]))\<rparr>)"
proof -
  note N = world_node [OF w]
  note R = Receive_cases [OF N(3) buf r]
  have "control_ok n'" using N(4) R(4-7) by (simp add: control_ok_def intr_ok_def mach_ok_def clock_ok_def only_pending_def)
  note M = machine_others [OF N(1) R(1) this R(2)]
  have "(sockets n')(a := None) = (wires w)(a := None)" using R(3) N(2) by simp
  from world_local [OF w M(1) this M(3)] show ?thesis unfolding put_node_parts .
qed

lemma start_world:
  assumes w: "world_ok nb w" and a: "nodes w a = None" and b: "booted s"
    and n: "PostOffice_new a reliability (int nb) this (s\<lparr>sockets := wires w\<rparr>) = Inr n"
  shows "world_ok nb (put_node a n w)"
proof -
  have N: "node_ok nb a [] (\<lambda>_. []) n" "sockets n = (wires w)(a \<mapsto> [])" "intr_ok n" "only_pending network_handler n"
    "status (intr n) = SystemMode" "\<forall>t. clients n t = Outside" "sendLock n = None"
    using PostOffice_new_node [OF b, of a reliability nb this "wires w"] n by auto
  have g: "carried w a = []" "got w a = (\<lambda>_. [])" "wires w a = None" using w a by (auto simp: world_ok_def)
  have own: "machine_ok nb (intent w a) a (carried w a) (got w a) n" using N g by (simp add: machine_ok_def control_ok_def client_ok_def in_send_def)
  have other: "machine_ok nb (intent w b) b (carried w b) (got w b) (m0\<lparr>sockets := sockets n\<rparr>)" if "nodes w b = Some m0" for b m0
  proof -
    have "machine_ok nb (intent w b) b (carried w b) (got w b) (m0\<lparr>sockets := wires w\<rparr>)" using w that unfolding world_ok_def at_node_def by blast
    moreover have "b \<noteq> a" using that a by auto
    ultimately show ?thesis using machine_ok_sockets [where f' = "sockets n" and f = "wires w"] unfolding N(2) by (metis fun_upd_apply option.distinct(1))
  qed
  let ?w = "put_node a n w"
  have "machine_ok nb (intent ?w b) b (carried ?w b) (got ?w b) m" if "at_node ?w b m" for b m
    using that own other by (cases "b = a") (auto simp: at_node_def put_node_def)
  moreover have "wires ?w b = None \<and> sent ?w b = [] \<and> carried ?w b = [] \<and> got ?w b = (\<lambda>_. [])" if "nodes ?w b = None" for b
    using that w unfolding world_ok_def by (auto simp: put_node_def N(2) split: if_splits)
  moreover have "\<forall>d. subseq (carried ?w d) (sent ?w d)" using w by (simp add: world_ok_def put_node_def)
  moreover have "carried ?w = sent ?w" if "\<forall>b m. nodes ?w b = Some m \<longrightarrow> 1 \<le> chanceToWork m"
  proof -
    have "1 \<le> chanceToWork m" if "nodes w b = Some m" for b m
    proof -
      have "b \<noteq> a" using that a by auto
      then have "nodes ?w b = Some m" using that by (simp add: put_node_def)
      then show ?thesis using \<open>\<forall>b m. nodes ?w b = Some m \<longrightarrow> 1 \<le> chanceToWork m\<close> by blast
    qed
    then show ?thesis using w by (simp add: world_ok_def put_node_def)
  qed
  ultimately show ?thesis unfolding world_ok_def by blast
qed

text \<open>A packet put on the wire.\<close>

lemma node_ok_carry:
  assumes "node_ok nb d C G m" "sockets m d = Some q" "f d = Some (q @ [p])" "wire_ok nb d p"
  shows "node_ok nb d (C @ [wire_mail p]) G (m\<lparr>sockets := f\<rparr>)"
  using assms by (auto simp: node_ok_def transit_def)

lemma packet_not_lost: "1 \<le> c \<Longrightarrow> \<not> packet_lost r c"
proof -
  assume c: "1 \<le> c"
  have "of_nat (r mod 100) < (100 :: rat)" by (metis mod_less_divisor of_nat_less_iff of_nat_numeral zero_less_numeral)
  then show ?thesis using c by (simp add: packet_lost_def)
qed

lemma sent_packet:
  assumes "packet_ok nb (pkt_to h) h buf" "length buf = 52" "length mem = 64"
  defines "p \<equiv> pkt_bytes h @ take (unat (pkt_length h)) buf @ drop (12 + unat (pkt_length h)) mem"
  shows "wire_ok nb (pkt_to h) p" "wire_mail p = decode h buf"
proof -
  have n: "unat (pkt_length h) \<le> 52" using assms(1) by (simp add: packet_ok_def Let_def)
  have pl: "52 \<le> length (drop 12 p)" "take (unat (pkt_length h)) (drop 12 p) = take (unat (pkt_length h)) buf"
    using n assms(2,3) by (simp_all add: p_def)
  have h: "bytes_pkt (take 12 p) = h" "length p = 64" using n assms(2,3) by (simp_all add: p_def)
  show "wire_ok nb (pkt_to h) p" "wire_mail p = decode h buf"
    using packet_prefix [OF assms(1) pl] h by (simp_all add: wire_ok_def wire_mail_def)
qed

lemma machine_carry:
  assumes m: "machine_ok nb i b C G v" "sockets v = W" and p: "W d = Some q" "wire_ok nb d p"
  shows "machine_ok nb i b (if b = d then C @ [wire_mail p] else C) G (v\<lparr>sockets := W(d \<mapsto> q @ [p])\<rparr>)"
proof (cases "b = d")
  case True
  have "node_ok nb b (C @ [wire_mail p]) G (v\<lparr>sockets := W(d \<mapsto> q @ [p])\<rparr>)"
    using node_ok_carry [of nb b C G v q _ p] m p True by (simp add: machine_ok_def)
  moreover have "client_ok nb (W(d \<mapsto> q @ [p])) b (i t) (clients v t)" for t
    using client_ok_dom [of nb W b "i t" "clients v t" "W(d \<mapsto> q @ [p])"] m by (auto simp: machine_ok_def)
  ultimately show ?thesis using m(1) True by (simp add: machine_ok_def)
next
  case False
  then show ?thesis using machine_ok_sockets [where m = v and f = W and f' = "W(d \<mapsto> q @ [p])"] m by auto
qed

lemma poll_entry_sorted: "kl_sorted (pending (intr s)) \<Longrightarrow> kl_sorted (pending (intr (poll_entry h this k s)))"
  by (simp add: poll_entry_def kl_sorted_insert_sorted)

lemma control_poll_entry: "control_ok n \<Longrightarrow> network_handler h \<Longrightarrow> control_ok (poll_entry h this k n)"
  by (auto simp: control_ok_def intr_ok_def mach_ok_def clock_ok_def intro: only_pending_poll_entry poll_entry_sorted)

lemma transmit_world:
  assumes w: "world_ok nb w" "at_node w a n" and t: "clients n t = Locked h buf" "length mem = 64"
    and r: "send_network random mem this t h buf n = Inr n'" and d: "d = pkt_to h"
  shows "world_ok nb ((put_node a n' w)\<lparr>sent := (sent w)(d := sent w d @ [intent w a t]),
      carried := (if packet_lost random (chanceToWork n) then carried w else (carried w)(d := carried w d @ [intent w a t]))\<rparr>)"
    (is "world_ok nb ?w")
proof -
  note N = world_node [OF w] and L = world_locks [OF w]
  have c: "wires w d \<noteq> None" "pkt_from h = a" "length buf = 52" "packet_ok nb d h buf" "decode h buf = intent w a t"
    using L(2) [of t] t(1) by (simp_all add: client_ok_def d)
  obtain q where q: "wires w d = Some q" using c(1) by blast
  define n1 where "n1 = (poll_entry NetworkSendDone this NetworkSendInt n)\<lparr>clients := (clients n)(t := AwaitSent)\<rparr>"
  define p where "p = pkt_bytes h @ take (unat (pkt_length h)) buf @ drop (12 + unat (pkt_length h)) mem"
  define f where "f = (if packet_lost random (chanceToWork n) then wires w else (wires w)(d \<mapsto> q @ [p]))"
  define C where "C = carried ?w"
  have P: "wire_ok nb d p" "wire_mail p = intent w a t" using sent_packet [OF c(4) [unfolded d] c(3) t(2)] c(5) by (simp_all add: p_def d)
  have n': "n' = n1\<lparr>sockets := f\<rparr>"
  proof -
    have sh: "\<not> sendBusy n" "ident n = a" using N(3) by (simp_all add: node_ok_def shape_def)
    have len: "0 < unat (pkt_length h)" "unat (pkt_length h) \<le> 52" using c(4) by (auto simp: packet_ok_def Let_def)
    have so: "sockets n (pkt_to h) = Some q" using q N(2) d by simp
    note S = Network_Send_ok [OF sh(1) len _ c(3) t(2) so, of random this, folded p_def]
    have e: "(poll_entry NetworkSendDone this NetworkSendInt n)\<lparr>sockets := wires w\<rparr> = poll_entry NetworkSendDone this NetworkSendInt n"
      using N(2) by (cases n) (simp add: poll_entry_def)
    show ?thesis using r S c(2) sh(2) N(2) d e
      by (auto simp: send_network_def n1_def f_def Let_def poll_entry_def split: if_splits)
  qed
  have n1: "machine_ok nb (intent w a) a (carried w a) (got w a) n1" "sockets n1 = wires w" "chanceToWork n1 = chanceToWork n"
  proof -
    have "control_ok n1" using control_poll_entry [OF N(4), of NetworkSendDone this NetworkSendInt] by (simp add: n1_def network_handler_def)
    moreover have "in_send (((clients n)(t := AwaitSent)) u) \<longleftrightarrow> sendLock n = Some u" for u using L(1) [of u] t(1) by (auto simp: in_send_def)
    moreover have "client_ok nb (wires w) a (intent w a u) (((clients n)(t := AwaitSent)) u)" for u using L(2) [of u] by (simp add: client_ok_def)
    ultimately show "machine_ok nb (intent w a) a (carried w a) (got w a) n1" "sockets n1 = wires w" "chanceToWork n1 = chanceToWork n"
      using N(2,3) by (simp_all add: machine_ok_def n1_def) (simp_all add: poll_entry_def)
  qed
  have keep: "machine_ok nb (intent w b) b (C b) (got w b) (v\<lparr>sockets := f\<rparr>)"
    if "machine_ok nb (intent w b) b (carried w b) (got w b) v" "sockets v = wires w" for b v
  proof (cases "packet_lost random (chanceToWork n)")
    case True
    have "v\<lparr>sockets := wires w\<rparr> = v" using that(2) by (cases v) simp
    then show ?thesis using True that(1) by (simp add: C_def f_def)
  next
    case False
    then have "C b = (if b = d then carried w b @ [wire_mail p] else carried w b)" by (simp add: C_def P(2))
    then show ?thesis using machine_carry [OF that q P(1)] False by (simp add: f_def)
  qed
  have run: "nodes w d \<noteq> None" using w(1) c(1) by (auto simp: world_ok_def)
  have "machine_ok nb (intent ?w b) b (carried ?w b) (got ?w b) m" if m: "at_node ?w b m" for b m
  proof (cases "b = a")
    case True
    then have "m = n1\<lparr>sockets := f\<rparr>" using m by (auto simp: at_node_def put_node_def n')
    then show ?thesis using keep [OF _ n1(2), of b] n1(1) True C_def by (simp add: put_node_def)
  next
    case False
    then obtain m0 where m0: "nodes w b = Some m0" "m = m0\<lparr>sockets := f\<rparr>" using m by (auto simp: at_node_def put_node_def n')
    have "machine_ok nb (intent w b) b (carried w b) (got w b) (m0\<lparr>sockets := wires w\<rparr>)" using w(1) m0(1) unfolding world_ok_def at_node_def by blast
    from keep [OF this] show ?thesis by (simp add: m0(2) C_def put_node_def)
  qed
  moreover have "wires ?w b = None \<and> sent ?w b = [] \<and> carried ?w b = [] \<and> got ?w b = (\<lambda>_. [])" if "nodes ?w b = None" for b
  proof -
    have "b \<noteq> a" "nodes w b = None" "b \<noteq> d" using that run by (auto simp: put_node_def split: if_splits)
    then show ?thesis using w(1) unfolding world_ok_def by (simp add: put_node_def n' f_def)
  qed
  moreover have "subseq (carried ?w e) (sent ?w e)" for e
    using w(1) by (simp add: world_ok_def put_node_def list_emb_prefix)
  moreover have "carried ?w = sent ?w" if rel: "\<forall>b m. nodes ?w b = Some m \<longrightarrow> 1 \<le> chanceToWork m"
  proof -
    have ch: "1 \<le> chanceToWork n" using rel [rule_format, of a n'] n1(3) by (simp add: put_node_def n')
    have "1 \<le> chanceToWork m" if "nodes w b = Some m" for b m
      using rel [rule_format, of b m] that ch w(2) by (cases "b = a") (auto simp: put_node_def at_node_def)
    then have "carried w = sent w" using w(1) unfolding world_ok_def by blast
    then show ?thesis using packet_not_lost [OF ch] by simp
  qed
  ultimately show ?thesis unfolding world_ok_def by blast
qed

lemma po_step_ok:
  assumes "po_step nb w w'" "world_ok nb w"
  shows "world_ok nb w'"
  using assms
proof (induction rule: po_step.induct)
  case (start w a s reliability this n)
  then show ?case using start_world by blast
next
  case (tick w a n n')
  then show ?case using tick_world by blast
next
  case (idle w a n n')
  then show ?case using idle_world by blast
next
  case (call w a n t pktH mem mailH data n')
  then show ?case using call_world by blast
next
  case (acquire w a n t pktH buffer)
  then show ?case using moves_world(1) by blast
next
  case (transmit w a n t pktH buffer mem random this n' d)
  then show ?case using transmit_world by blast
next
  case (sent_P w a n t)
  then show ?case using moves_world(2) by blast
next
  case (release w a n t)
  then show ?case using moves_world(3) by blast
next
  case (available_P w a n)
  then show ?case using worker_world(1) by blast
next
  case (deliver w a n n')
  then show ?case using worker_world(2) by blast
next
  case (deposit w a n b mail n')
  then show ?case using worker_world(3) by blast
next
  case (receive w a n t buf box n' pktH mailH data)
  have "length buf = 40" using receive.hyps(3) by (simp add: MaxMailSize_def packet_sizes)
  then show ?case using receive_world [OF receive.prems receive.hyps(1)] receive.hyps(4) by blast
qed

lemma po_reach_ok: "po_reach nb w \<Longrightarrow> world_ok nb w"
proof (induction rule: po_reach.induct)
  case (init i)
  then show ?case by (simp add: world_ok_def no_world_def at_node_def)
next
  case (step w w')
  then show ?case using po_step_ok by blast
qed

section \<open>A run of one machine that writes to itself\<close>

definition sample_node :: "machine \<Rightarrow> post_sim" where
  "sample_node m = \<lparr>stats = Statistics_new, intr = Interrupt_new, machine_on = False, mach = m, ident = 0, chanceToWork = 0, sendBusy = False,
     inHdr = \<lparr>pkt_to = 0, pkt_from = 0, pkt_length = 0\<rparr>, inbox = replicate 52 0, sockets = (\<lambda>_. None), netAddr = 0, numBoxes = 0, boxes = [],
     messageAvailable = 0, messageSent = 0, sendLock = None, worker = AwaitMessage, wbuffer = replicate 52 0, clients = (\<lambda>_. Outside)\<rparr>"

definition sample_pkt :: PacketHeader where "sample_pkt = \<lparr>pkt_to = 0, pkt_from = 0, pkt_length = 0\<rparr>"
definition sample_mail :: MailHeader where "sample_mail = \<lparr>mail_to = 0, mail_from = 1, mail_length = 3\<rparr>"

definition sample_packet_hdr :: PacketHeader where "sample_packet_hdr = sample_pkt\<lparr>pkt_length := 15\<rparr>"
definition sample_buffer :: "byte list" where "sample_buffer = mailhdr_bytes sample_mail @ [1, 2, 3] @ replicate 37 9"

definition run1 :: "machine \<Rightarrow> post_sim" where "run1 m = projr (PostOffice_new 0 1 1 7 (sample_node m))"
definition run2 :: "machine \<Rightarrow> post_sim" where "run2 m = projr (PostOffice_Send 5 (replicate 52 9) sample_pkt sample_mail [1, 2, 3] (run1 m))"
definition run3 :: "machine \<Rightarrow> post_sim" where "run3 m = send_Acquire 5 sample_packet_hdr sample_buffer (run2 m)"
definition run4 :: "machine \<Rightarrow> post_sim" where "run4 m = projr (send_network 0 (replicate 64 8) 7 5 sample_packet_hdr sample_buffer (run3 m))"
definition run5 :: "machine \<Rightarrow> post_sim" where "run5 m = projr (Idle po_handlers (ChangeLevel IntOff (run4 m)))"
definition run6 :: "machine \<Rightarrow> post_sim" where "run6 m = worker_P (run5 m)"
definition run7 :: "machine \<Rightarrow> post_sim" where "run7 m = projr (PostalDelivery_receive (run6 m))"
definition sample_arrived :: Mail where "sample_arrived = \<lparr>pktHdr = sample_packet_hdr, mailHdr = sample_mail, mail_data = [1, 2, 3]\<rparr>"
definition run8 :: "machine \<Rightarrow> post_sim" where "run8 m = projr (PostalDelivery_put 0 sample_arrived (run7 m))"

lemma projr_Inr: "\<not> isl r \<Longrightarrow> r = Inr (projr r)"
  by (cases r) auto

lemma run_returns:
  "PostOffice_new 0 1 1 7 (sample_node m) = Inr (run1 m)"
  "PostOffice_Send 5 (replicate 52 9) sample_pkt sample_mail [1, 2, 3] (run1 m) = Inr (run2 m)"
  "send_network 0 (replicate 64 8) 7 5 sample_packet_hdr sample_buffer (run3 m) = Inr (run4 m)"
  "Idle po_handlers (ChangeLevel IntOff (run4 m)) = Inr (run5 m)"
  "PostalDelivery_receive (run6 m) = Inr (run7 m)"
  "PostalDelivery_put 0 sample_arrived (run7 m) = Inr (run8 m)"
  unfolding run1_def run2_def run4_def run5_def run7_def run8_def by (rule projr_Inr, code_simp)+

lemma run_received:
  "\<exists>n. PostOffice_Receive 0 (replicate 40 0) (run8 m) = Inr (n, sample_packet_hdr, sample_mail, [1, 2, 3] @ replicate 37 0)"
proof -
  have "snd (projr (PostOffice_Receive 0 (replicate 40 0) (run8 m))) = (sample_packet_hdr, sample_mail, [1, 2, 3] @ replicate 37 0)"
    "\<not> isl (PostOffice_Receive 0 (replicate 40 0) (run8 m))" by code_simp+
  then show ?thesis by (metis prod.collapse projr_Inr)
qed

lemma run_states:
  "clients (run1 m) 5 = Outside" "sockets (run1 m) 0 = Some []" "clients (run2 m) 5 = Sending sample_packet_hdr sample_buffer" "sendLock (run2 m) = None"
  "clients (run3 m) 5 = Locked sample_packet_hdr sample_buffer" "worker (run5 m) = AwaitMessage" "messageAvailable (run5 m) = 1" "worker (run6 m) = HasMessage"
  "worker (run7 m) = Putting 0 sample_arrived"
  "clients (run8 m) 6 = Outside"
  by code_simp+

lemma at_put [simp]:
  "at_node (put_node a n w) a n" "at_node ((put_node a n w)\<lparr>intent := i\<rparr>) a n" "at_node ((put_node a n w)\<lparr>got := g\<rparr>) a n"
  "at_node ((put_node a n w)\<lparr>sent := x, carried := y\<rparr>) a n"
  by (simp_all add: at_node_def put_node_def)

lemma got_put [simp]:
  "got (put_node a n w) = got w" "sent (put_node a n w) = sent w" "wires (put_node a n w) = sockets n" "intent (put_node a n w) = intent w"
  by (simp_all add: put_node_def)

lemma sample_run:
  "\<exists>w n. po_reach 1 w \<and> at_node w 0 n \<and> got w 0 0 = [mail_for 0 sample_pkt sample_mail [1, 2, 3]]"
proof -
  fix m :: machine and i
  define w1 where "w1 = put_node 0 (run1 m) (no_world i)"
  define w2 where "w2 = (put_node 0 (run2 m) w1)\<lparr>intent := (intent w1)(0 := (intent w1 0)(5 := mail_for 0 sample_pkt sample_mail [1, 2, 3]))\<rparr>"
  define w3 where "w3 = put_node 0 (run3 m) w2"
  define w4 where "w4 = (put_node 0 (run4 m) w3)\<lparr>sent := (sent w3)(0 := sent w3 0 @ [intent w3 0 5]),
      carried := (if packet_lost 0 (chanceToWork (run3 m)) then carried w3 else (carried w3)(0 := carried w3 0 @ [intent w3 0 5]))\<rparr>"
  define w5 where "w5 = put_node 0 (run5 m) w4"
  define w6 where "w6 = put_node 0 (run6 m) w5"
  define w7 where "w7 = put_node 0 (run7 m) w6"
  define w8 where "w8 = put_node 0 (run8 m) w7"
  note S = run_states [of m] and R = run_returns [of m]
  have b: "booted (sample_node m)" by (simp add: booted_def sample_node_def)
  have e: "(sample_node m)\<lparr>sockets := wires (no_world i)\<rparr> = sample_node m" by (simp add: sample_node_def no_world_def)
  have "po_step 1 (no_world i) w1" unfolding w1_def
    by (rule po_step.start [OF _ b, where reliability = 1 and this = 7]) (use R(1) e in \<open>simp_all add: no_world_def\<close>)
  then have r1: "po_reach 1 w1" by (rule po_reach.step [OF po_reach.init])
  have "po_step 1 w1 w2" unfolding w2_def
    by (rule po_step.call [where n = "run1 m" and mem = "replicate 52 9"]) (use S(1,2) R(2) in \<open>simp_all add: w1_def sample_pkt_def\<close>)
  then have r2: "po_reach 1 w2" by (rule po_reach.step [OF r1])
  have "po_step 1 w2 w3" unfolding w3_def run3_def
    by (rule po_step.acquire) (use S(3,4) in \<open>simp_all add: w2_def\<close>)
  then have r3: "po_reach 1 w3" by (rule po_reach.step [OF r2])
  have "po_step 1 w3 w4" unfolding w4_def
    by (rule po_step.transmit [where n = "run3 m" and mem = "replicate 64 8", OF _ S(5) _ R(3)]) (simp_all add: w3_def sample_packet_hdr_def sample_pkt_def)
  then have r4: "po_reach 1 w4" by (rule po_reach.step [OF r3])
  have "po_step 1 w4 w5" unfolding w5_def
    by (rule po_step.idle [OF _ R(4)]) (simp add: w4_def)
  then have r5: "po_reach 1 w5" by (rule po_reach.step [OF r4])
  have "po_step 1 w5 w6" unfolding w6_def run6_def
    by (rule po_step.available_P [OF _ S(6)]) (use S(7) in \<open>simp_all add: w5_def\<close>)
  then have r6: "po_reach 1 w6" by (rule po_reach.step [OF r5])
  have "po_step 1 w6 w7" unfolding w7_def
    by (rule po_step.deliver [OF _ S(8) R(5)]) (simp add: w6_def)
  then have r7: "po_reach 1 w7" by (rule po_reach.step [OF r6])
  have "po_step 1 w7 w8" unfolding w8_def
    by (rule po_step.deposit [OF _ S(9) R(6)]) (simp add: w7_def)
  then have r8: "po_reach 1 w8" by (rule po_reach.step [OF r7])
  obtain n where n: "PostOffice_Receive 0 (replicate 40 0) (run8 m) = Inr (n, sample_packet_hdr, sample_mail, [1, 2, 3] @ replicate 37 0)"
    using run_received by blast
  let ?w = "(put_node 0 n w8)\<lparr>got := (got w8)(0 := (got w8 0)(nat 0 := got w8 0 (nat 0) @
      [\<lparr>pktHdr = sample_packet_hdr, mailHdr = sample_mail, mail_data = take (unat (mail_length sample_mail)) ([1, 2, 3] @ replicate 37 0)\<rparr>]))\<rparr>"
  have "po_step 1 w8 ?w"
    by (rule po_step.receive [OF _ S(10) _ n]) (simp_all add: w8_def MaxMailSize_def packet_sizes)
  then have r9: "po_reach 1 ?w" by (rule po_reach.step [OF r8])
  have "got w8 0 0 = []" by (simp add: w8_def w7_def w6_def w5_def w4_def w3_def w2_def w1_def no_world_def)
  then have "got ?w 0 0 = [mail_for 0 sample_pkt sample_mail [1, 2, 3]]"
    by (simp add: mail_for_def sample_packet_hdr_def sample_pkt_def sample_mail_def)
  then show ?thesis using r9 at_put(3) by blast
qed

section \<open>Properties of the post office\<close>

lemma world_ok_fifo:
  assumes w: "world_ok nb w" and n: "at_node w d n" and b: "b < nb"
  shows "got w d b @ boxes n ! b @ filter (in_box b) (held_mail n @ buffered n @ map wire_mail (the (wires w d))) = filter (in_box b) (carried w d)"
    "subseq (got w d b) (filter (in_box b) (sent w d))"
    "(\<forall>a m. nodes w a = Some m \<longrightarrow> 1 \<le> chanceToWork m) \<Longrightarrow> prefix (got w d b) (filter (in_box b) (sent w d))"
proof -
  have sub: "subseq (carried w d) (sent w d)" and all: "(\<forall>a m. nodes w a = Some m \<longrightarrow> 1 \<le> chanceToWork m) \<longrightarrow> carried w = sent w"
    using w by (simp_all add: world_ok_def)
  show eq: "got w d b @ boxes n ! b @ filter (in_box b) (held_mail n @ buffered n @ map wire_mail (the (wires w d))) = filter (in_box b) (carried w d)"
    using world_node(2,3) [OF w n] b by (auto simp: node_ok_def transit_def)
  have pre: "prefix (got w d b) (filter (in_box b) (carried w d))" unfolding eq [symmetric] by simp
  have "subseq (filter (in_box b) (carried w d)) (filter (in_box b) (sent w d))" by (rule subseq_filter [OF sub])
  then show "subseq (got w d b) (filter (in_box b) (sent w d))" using prefix_imp_subseq [OF pre] subseq_order.trans by blast
  show "prefix (got w d b) (filter (in_box b) (sent w d))" if "\<forall>a m. nodes w a = Some m \<longrightarrow> 1 \<le> chanceToWork m"
    using pre all that by simp
qed

text \<open>
  (C6) Messages arrive unchanged and in order. However the threads, the postal workers and the interrupts of any number of
  machines interleave, as long as the machines have equally many mailboxes and threads write only to machines that
  run: what \<^verbatim>\<open>Receive\<close> has taken out of a box, what lies in the box, the message the postal worker has read from the
  network and not yet put into its box, and what is still in the buffer of the network device or in the socket is,
  in this order, what the network carried for the box: nothing is duplicated, altered, misdelivered or overtaken.
  What was received is a subsequence of what threads passed to \<^verbatim>\<open>Send\<close> for this machine and box, with the sender's
  address, headers and data, and when no machine drops packets it is a prefix of it.
\<close>

theorem post_office_fifo:
  assumes "po_reach nb w" "at_node w d n" "b < nb"
  shows "got w d b @ boxes n ! b @ filter (in_box b) (held_mail n @ buffered n @ map wire_mail (the (wires w d))) = filter (in_box b) (carried w d) \<and>
    subseq (got w d b) (filter (in_box b) (sent w d)) \<and>
    ((\<forall>a m. nodes w a = Some m \<longrightarrow> 1 \<le> chanceToWork m) \<longrightarrow> prefix (got w d b) (filter (in_box b) (sent w d)))"
  using world_ok_fifo [OF po_reach_ok [OF assms(1)] assms(2,3)] by blast

theorem post_office_fifo_witness:
  "\<exists>w. po_reach 1 w \<and> got w 0 0 = [mail_for 0 sample_pkt sample_mail [1, 2, 3]] \<and> mail_for 0 sample_pkt sample_mail [1, 2, 3] \<in> set (sent w 0)"
proof -
  obtain w n where w: "po_reach 1 w" "at_node w 0 n" "got w 0 0 = [mail_for 0 sample_pkt sample_mail [1, 2, 3]]" using sample_run by blast
  have "subseq (got w 0 0) (filter (in_box 0) (sent w 0))" using post_office_fifo [OF w(1,2), of 0] by simp
  then have "mail_for 0 sample_pkt sample_mail [1, 2, 3] \<in> set (filter (in_box 0) (sent w 0))" using w(3) by (simp add: subseq_singleton_left)
  then show ?thesis using w by auto
qed

lemma send_network_returns:
  assumes w: "world_ok nb w" "at_node w a n" and t: "clients n t = Locked h buf" "length mem = 64"
  shows "\<exists>n'. send_network random mem this t h buf n = Inr n'"
proof -
  note N = world_node [OF w]
  have c: "wires w (pkt_to h) \<noteq> None" "pkt_from h = a" "length buf = 52" "packet_ok nb (pkt_to h) h buf"
    using world_locks(2) [OF w, of t] t(1) by (simp_all add: client_ok_def)
  obtain q where q: "sockets n (pkt_to h) = Some q" using c(1) N(2) by auto
  have sh: "\<not> sendBusy n" "pkt_from h = ident n" using N(3) c(2) by (simp_all add: node_ok_def shape_def)
  have len: "0 < unat (pkt_length h)" "unat (pkt_length h) \<le> 52" using c(4) by (auto simp: packet_ok_def Let_def)
  show ?thesis using Network_Send_ok [OF sh(1) len sh(2) c(3) t(2) q, of random this] by (simp add: send_network_def Let_def)
qed

text \<open>
  (C14) When all machines have the same number of mailboxes and threads write only to machines that run (otherwise the
  receiver's check of the box number, or the host's check of the socket, does fail), no assertion of the network
  device or of the post office fails after \<^verbatim>\<open>Send\<close> has accepted a message, however threads, postal workers and interrupts
  interleave: a tick of the clock with the interrupts it makes due returns, so do \<^verbatim>\<open>Network::Send\<close> for the thread that
  holds the lock, the postal worker's reading of a packet it was told of and its append to the mailbox, and \<^verbatim>\<open>Receive\<close>
  from a box with mail. At most one thread is between \<^verbatim>\<open>Acquire\<close> and \<^verbatim>\<open>Release\<close>, and a packet in the buffer is
  announced once: the semaphore of the postal worker is 1 exactly when a packet is buffered that the worker has not
  been told of, also while the worker is still putting the one before into its box.
\<close>

theorem post_office_no_assertion_fails:
  assumes "po_reach nb w" "at_node w a n"
  shows "(\<exists>n'. tick_and_fire po_handlers n = Inr n') \<and>
    (\<forall>t h buf random mem this. clients n t = Locked h buf \<and> length mem = 64 \<longrightarrow> (\<exists>n'. send_network random mem this t h buf n = Inr n')) \<and>
    (worker n = HasMessage \<longrightarrow> (\<exists>n'. PostalDelivery_receive n = Inr n')) \<and>
    (\<forall>b mail. worker n = Putting b mail \<longrightarrow> (\<exists>n'. PostalDelivery_put b mail n = Inr n')) \<and>
    (\<forall>box buf. 0 \<le> box \<and> box < int nb \<and> boxes n ! nat box \<noteq> [] \<and> length buf = MaxMailSize \<longrightarrow> (\<exists>r. PostOffice_Receive box buf n = Inr r)) \<and>
    (\<forall>t u. in_send (clients n t) \<and> in_send (clients n u) \<longrightarrow> t = u) \<and>
    messageAvailable n = (if buffered n \<noteq> [] \<and> worker n \<noteq> HasMessage then 1 else 0)"
proof -
  note w = po_reach_ok [OF assms(1)] assms(2)
  note N = world_node [OF w]
  have c: "intr_ok n" "only_pending network_handler n" "status (intr n) \<noteq> IdleMode" using N(4) by (simp_all add: control_ok_def)
  have I: "node_ok nb a (carried w a) (got w a) n \<and> others_of a n = others_of a n" using N(3) by simp
  have "\<exists>n'. tick_and_fire po_handlers n = Inr n'" using net.tick_and_fire_ok [OF I c(1,3,2)] by blast
  moreover have "\<exists>n'. PostalDelivery_receive n = Inr n'" if "worker n = HasMessage" using PostalDelivery_node [OF N(3) that] by blast
  moreover have "\<exists>n'. PostalDelivery_put b mail n = Inr n'" if "worker n = Putting b mail" for b mail
    using PostalDelivery_put_node [OF N(3) that] by blast
  moreover have "\<exists>r. PostOffice_Receive box buf n = Inr r" if "0 \<le> box" "box < int nb" "boxes n ! nat box \<noteq> []" "length buf = MaxMailSize" for box buf
  proof -
    note ne = that(3)
    obtain mail mails where "boxes n ! nat box = mail # mails" using ne by (cases "boxes n ! nat box") auto
    then show ?thesis using Receive_node [OF N(3) that(1,2), of mail mails buf] that(4) by (auto simp: MaxMailSize_def packet_sizes)
  qed
  moreover have "t = u" if "in_send (clients n t)" "in_send (clients n u)" for t u using world_locks(1) [OF w] that by auto
  moreover have "messageAvailable n = (if buffered n \<noteq> [] \<and> worker n \<noteq> HasMessage then 1 else 0)"
    using N(3) by (auto simp: node_ok_def worker_ok_def buffered_def)
  ultimately show ?thesis using send_network_returns [OF w] by blast
qed

theorem post_office_no_assertion_fails_witness:
  "\<exists>w n n'. po_reach 1 w \<and> at_node w 0 n \<and> got w 0 0 = [mail_for 0 sample_pkt sample_mail [1, 2, 3]] \<and> tick_and_fire po_handlers n = Inr n'"
proof -
  obtain w n where w: "po_reach 1 w" "at_node w 0 n" "got w 0 0 = [mail_for 0 sample_pkt sample_mail [1, 2, 3]]" using sample_run by blast
  then show ?thesis using post_office_no_assertion_fails [OF w(1,2)] by blast
qed

end
