(* ===== verification/Nachos_Process.thy ===== *)
theory Nachos_Process
  imports Nachos_Frame Nachos_Exception Nachos_Synch_Safety
begin

text \<open>
  The system calls on threads (\<^verbatim>\<open>userprog/exception.cc\<close>: \<^verbatim>\<open>Exec\<close>, \<^verbatim>\<open>Fork\<close>, \<^verbatim>\<open>Yield\<close>, \<^verbatim>\<open>Join\<close>, \<^verbatim>\<open>Exit\<close>) over the kernel
  machine of \<open>Nachos_Synch\<close>, and the start of a program (\<^verbatim>\<open>exec_func\<close>, \<^verbatim>\<open>userprog/progtest.cc\<close>). A call runs up to the point
  where it may lose the processor: there it leaves the frame of \<^verbatim>\<open>Yield\<close> or \<^verbatim>\<open>Finish\<close> on the kernel stack. What comes
  behind the \<^verbatim>\<open>Yield\<close> is a definition of its own. A thread object has its number, in the order of creation, and an
  address, which the calls hand to the program as the number of the child and compare: \<open>addr t\<close> is where the allocator put the
  \<open>t\<close>-th object. An address may be given out again when its object has been deleted. The calls of the new thread are
  given as in \<open>Nachos_Thread\<close>.
\<close>

section \<open>System calls\<close>

definition slot_addr :: "(nat \<Rightarrow> u32) \<Rightarrow> nat option \<Rightarrow> u32" where
  "slot_addr addr p = (case p of None \<Rightarrow> 0 | Some t \<Rightarrow> addr t)"

lemma slot_addr_simps [simp]: "slot_addr addr None = 0" "slot_addr addr (Some t) = addr t"
  by (simp_all add: slot_addr_def)

text \<open>The first slot of the array \<^verbatim>\<open>child\<close> that holds a pointer.\<close>

definition find_child :: "(nat \<Rightarrow> u32) \<Rightarrow> u32 \<Rightarrow> nat option list \<Rightarrow> nat option" where
  "find_child addr a cs = find (\<lambda>i. slot_addr addr (cs ! i) = a) [0..<min 10 (length cs)]"

text \<open>
  \<^verbatim>\<open>Fork\<close>, and \<^verbatim>\<open>Exec\<close> once it has fetched the name: a new thread, entered in the first free slot. When there is none the call
  fails, and the new thread stays as it is. The result says whether the call goes on behind the \<^verbatim>\<open>Yield\<close>.
\<close>

definition spawn_child :: "(nat \<Rightarrow> u32) \<Rightarrow> frame list \<Rightarrow> kernel \<Rightarrow> (kernel \<times> bool) result" where
  "spawn_child addr body k =
     bindr (Thread_new ''new thread'' k) (\<lambda>(k1, new_thread).
     bindr (the_obj (threads k1 (currentThread k1))) (\<lambda>cur.
       case find_child addr 0 (child cur) of
         None \<Rightarrow> bindr (advance_pc k1) (\<lambda>k2. Inr (k2, False))
       | Some i \<Rightarrow>
           bindr (upd_thread (currentThread k1) (\<lambda>th. th\<lparr>child := (child th)[i := Some new_thread]\<rparr>) k1) (\<lambda>k2.
           bindr (set_result (addr new_thread) k2) (\<lambda>k3.
           bindr (upd_thread new_thread (\<lambda>th. th\<lparr>father := currentThread k3\<rparr>) k3) (\<lambda>k4.
           bindr (push [FYield] k4) (\<lambda>k5.
           bindr (Fork new_thread body k5) (\<lambda>k6. Inr (k6, True))))))))"

definition spawn_return :: "kernel \<Rightarrow> kernel result" where
  "spawn_return k = advance_pc k"

definition sys_Yield :: "kernel \<Rightarrow> kernel result" where
  "sys_Yield k = bindr (advance_pc k) (push [FYield])"

text \<open>
  \<^verbatim>\<open>Join\<close>: the search for the child, then one evaluation of the loop's condition; \<open>found\<close> is what the uninitialised
  variable holds. \<open>Some i\<close> means that the call waits for slot \<open>i\<close>.
\<close>

definition join_round :: "int \<Rightarrow> kernel \<Rightarrow> (kernel \<times> int option) result" where
  "join_round i k =
     bindr (the_obj (threads k (currentThread k))) (\<lambda>cur.
     bindr (arr_get (child cur) i) (\<lambda>c.
       if c \<noteq> None then bindr (push [FYield] k) (\<lambda>k1. Inr (k1, Some i))
       else bindr (advance_pc k) (\<lambda>k1. Inr (k1, None))))"

definition sys_Join :: "(nat \<Rightarrow> u32) \<Rightarrow> bool \<Rightarrow> kernel \<Rightarrow> (kernel \<times> int option) result" where
  "sys_Join addr found k =
     bindr (the_obj (threads k (currentThread k))) (\<lambda>cur.
       case find_child addr (registers (mach k) 4) (child cur) of
         Some i \<Rightarrow> join_round (int i) k
       | None \<Rightarrow> if found then join_round 10 k else bindr (advance_pc k) (\<lambda>k1. Inr (k1, None)))"

definition sys_Exit :: "(nat \<Rightarrow> u32) \<Rightarrow> kernel \<Rightarrow> kernel result" where
  "sys_Exit addr k =
     bindr (the_obj (threads k (currentThread k))) (\<lambda>cur.
       if father cur = currentThread k then advance_pc k
       else bindr (the_obj (threads k (father cur))) (\<lambda>f.
         bindr (case find_child addr (addr (currentThread k)) (child f) of
             None \<Rightarrow> Inr k
           | Some i \<Rightarrow> upd_thread (father cur) (\<lambda>th. th\<lparr>child := (child th)[i := None]\<rparr>) k) (push [FFinish])))"

text \<open>\<^verbatim>\<open>fork_func\<close>: the new thread gets a copy of the father's address space object, which shares its page table.\<close>

definition fork_func :: "u32 \<Rightarrow> nat \<Rightarrow> nat \<Rightarrow> kernel \<Rightarrow> kernel result" where
  "fork_func pc sp new_space k =
     bindr (the_obj (spaces k sp)) (\<lambda>tmp.
     bindr (upd_thread (currentThread k) (\<lambda>th. th\<lparr>space := Some new_space\<rparr>) (k\<lparr>spaces := (spaces k)(new_space \<mapsto> tmp)\<rparr>)) (\<lambda>k1.
     bindr (WriteRegister (mach k1) (int PCReg) pc) (\<lambda>m1.
     bindr (WriteRegister m1 (int NextPCReg) (pc + 4)) (\<lambda>m2.
       SaveUserState (currentThread k1) (k1\<lparr>mach := m2\<rparr>)))))"

section \<open>Starting a program\<close>

text \<open>
  \<^verbatim>\<open>StartProcess\<close> up to \<^verbatim>\<open>machine->Run()\<close>; \<open>None\<close> when the file cannot be opened.
\<close>

definition start_program ::
  "byte list \<Rightarrow> nat \<Rightarrow> byte list \<Rightarrow> TranslationEntry list \<Rightarrow> byte \<Rightarrow> 'a filesys_sim_scheme
     \<Rightarrow> ('a filesys_sim_scheme \<times> AddrSpace option) result" where
  "start_program filename p hdr_mem pt_mem ch w =
     bindr (Open filename w) (\<lambda>(w1, file). case file of
         None \<Rightarrow> Inr (w1, None)
       | Some executable \<Rightarrow>
           bindr (AddrSpace_new p hdr_mem pt_mem ch executable w1) (\<lambda>(w2, executable1, sp).
           bindr (OpenFile_delete executable1 w2) (\<lambda>w3.
           bindr (InitRegisters sp (mach w3)) (\<lambda>m.
             Inr (w3\<lparr>mach := RestoreState sp m\<rparr>, Some sp)))))"

text \<open>\<^verbatim>\<open>exec_func\<close>, the first function of a thread that \<^verbatim>\<open>Exec\<close> makes, does the same for the name it is given.\<close>

definition exec_func ::
  "byte list \<Rightarrow> nat \<Rightarrow> byte list \<Rightarrow> TranslationEntry list \<Rightarrow> byte \<Rightarrow> 'a filesys_sim_scheme
     \<Rightarrow> ('a filesys_sim_scheme \<times> AddrSpace option) result" where
  "exec_func = start_program"

section \<open>What the kernel machine does to the family tree\<close>

text \<open>
  Since \<open>k0\<close> no father and no child pointer of a thread has changed; threads may have ended, and new ones are
  their own fathers and have no children.
\<close>

definition family :: "kernel \<Rightarrow> kernel \<Rightarrow> bool" where
  "family k0 k \<longleftrightarrow> next_thread k0 \<le> next_thread k \<and>
     (\<forall>t th. threads k t = Some th \<longrightarrow>
        (\<exists>th0. threads k0 t = Some th0 \<and> child th = child th0 \<and> father th = father th0) \<or>
        next_thread k0 \<le> t \<and> t < next_thread k \<and> father th = t \<and> child th = replicate 10 None)"

lemma family_refl [simp]: "family k k"
  by (simp add: family_def)

lemma family_frames [simp]:
  "family k0 (k\<lparr>intr := i\<rparr>) = family k0 k" "family k0 (k\<lparr>mach := m\<rparr>) = family k0 k" "family k0 (k\<lparr>stats := x\<rparr>) = family k0 k"
  "family k0 (k\<lparr>readyList := r\<rparr>) = family k0 k" "family k0 (k\<lparr>currentThread := c\<rparr>) = family k0 k"
  "family k0 (k\<lparr>threadToBeDestroyed := d\<rparr>) = family k0 k" "family k0 (k\<lparr>thread_cnt := n\<rparr>) = family k0 k"
  "family k0 (k\<lparr>valid_id := v\<rparr>) = family k0 k" "family k0 (k\<lparr>thread_pointer := p\<rparr>) = family k0 k"
  "family k0 (k\<lparr>conditions := cs\<rparr>) = family k0 k" "family k0 (k\<lparr>barrierCnt := b\<rparr>) = family k0 k" "family k0 (k\<lparr>taken := z\<rparr>) = family k0 k"
  "family k0 (k\<lparr>semaphores := ss\<rparr>) = family k0 k" "family k0 (k\<lparr>locks := ls\<rparr>) = family k0 k" "family k0 (k\<lparr>synchlists := sls\<rparr>) = family k0 k"
  "family k0 (ChangeLevel l k) = family k0 k" "family k0 (upd_sem s y k) = family k0 k" "family k0 (setStatus st k) = family k0 k"
  by (simp_all add: family_def ChangeLevel_def upd_sem_def setStatus_def)

lemma family_update:
  "family k0 k \<Longrightarrow> threads k t = Some th \<Longrightarrow> child th' = child th \<Longrightarrow> father th' = father th \<Longrightarrow> family k0 (k\<lparr>threads := (threads k)(t \<mapsto> th')\<rparr>)"
  by (auto simp: family_def)

lemma upd_thread_family:
  "family k0 k \<Longrightarrow> (\<And>th. child (f th) = child th \<and> father (f th) = father th) \<Longrightarrow> returns (family k0) (upd_thread t f k)"
  by (auto simp: returns_def upd_thread_def bindr_eq_Inr intro: family_update)

lemmas the_obj_pure = returns_pure [where r = "the_obj x" for x] returns_pure [where r = "CheckOverflow t k" for t k]
lemmas upd_bind = returns_bind [OF upd_thread_family]

lemma push_family: "family k0 k \<Longrightarrow> returns (family k0) (push fs k)"
  by (simp add: push_def upd_thread_family)

lemma ReadyToRun_family: "family k0 k \<Longrightarrow> returns (family k0) (ReadyToRun t k)"
  unfolding ReadyToRun_def by (rule upd_bind) simp_all

lemma V_body_family: "family k0 k \<Longrightarrow> returns (family k0) (V_body s k)"
  unfolding V_body_def by (rule the_obj_pure) (auto simp: ReadyToRun_family split: list.split)

lemma set_owner_family: "family k0 k \<Longrightarrow> returns (family k0) (set_owner l w k)"
  unfolding set_owner_def by (rule the_obj_pure) simp

lemma Release_body_family: "family k0 k \<Longrightarrow> returns (family k0) (Release_body l k)"
  unfolding Release_body_def by (rule the_obj_pure, rule returns_bind [OF V_body_family]) (auto intro: set_owner_family)

lemma Signal_body_family: "family k0 k \<Longrightarrow> returns (family k0) (Signal_body c k)"
  unfolding Signal_body_def by (rule the_obj_pure) (auto simp: ReadyToRun_family split: list.split)

lemma Signal_times_family: "family k0 k \<Longrightarrow> returns (family k0) (Signal_times c n k)"
  by (induction n arbitrary: k) (auto intro: returns_bind [OF Signal_body_family])

lemma Sleep_family: "family k0 k \<Longrightarrow> returns (family k0) (Sleep k)"
  unfolding Sleep_def by (rule returns_pure, rule upd_bind) (auto intro: push_family)

lemma SaveUserState_family: "family k0 k \<Longrightarrow> returns (family k0) (SaveUserState t k)"
  unfolding SaveUserState_def by (rule upd_thread_family) simp_all

lemma Scheduler_Run_family: "family k0 k \<Longrightarrow> returns (family k0) (Scheduler_Run n k)"
  unfolding Scheduler_Run_def Let_def
  by (rule the_obj_pure, rule returns_bind [where P = "family k0"])
     (auto simp: returns_split SaveUserState_family intro!: the_obj_pure(2) returns_bind [OF push_family] upd_thread_family)

lemma FindNextToRun_family: "family k0 k \<Longrightarrow> FindNextToRun k = (k1, r) \<Longrightarrow> family k0 k1"
  by (auto simp: FindNextToRun_def split: list.splits)

lemma Yield_family: "family k0 k \<Longrightarrow> returns (family k0) (Yield k)"
  unfolding Yield_def level_off_def
  by (auto intro!: returns_bind [OF push_family] upd_bind returns_bind [OF ReadyToRun_family] Scheduler_Run_family
      dest: FindNextToRun_family split: prod.split option.split)

lemma Finish_family: "family k0 k \<Longrightarrow> returns (family k0) (Finish k)"
  unfolding Finish_def level_off_def by (auto intro!: returns_pure Sleep_family)

lemma Run_tail_family: "family k0 k \<Longrightarrow> returns (family k0) (Scheduler_Run_tail k)"
proof -
  assume k: "family k0 k"
  have "returns (family k0) (case threadToBeDestroyed k of None \<Rightarrow> Inr k
      | Some d \<Rightarrow> bindr (Thread_delete d k) (\<lambda>k1. Inr (k1\<lparr>threadToBeDestroyed := None\<rparr>)))"
    using k by (auto simp: returns_def Thread_delete_def bindr_eq_Inr family_def split: option.splits if_splits)
  then show ?thesis unfolding Scheduler_Run_tail_def
    by (rule returns_bind) (auto simp: returns_split RestoreUserState_def AddrSpace_RestoreState_def bindr_assoc intro!: the_obj_pure)
qed

interpretation fam: handlers_keep kernel_handlers "family k0" for k0
proof (unfold_locales, goal_cases)
  case (4 h a k k')
  have "returns (family k0) (TimerExpired (ktimer k) a k)" using 4(2) TimerExpired_intr [of "ktimer k" a k] by (auto simp: returns_def)
  then have "returns (family k0) (kernel_handlers h a k)"
    using V_body_family [OF 4(2)] by (cases h) (simp_all add: kernel_handlers_def)
  then show ?case using 4(1) by (rule returnsD)
qed simp_all

lemma kernel_SetLevel_family: "family k0 k \<Longrightarrow> returns (family k0) (kernel_SetLevel now k)"
proof -
  assume k: "family k0 k"
  have t: "returns (family k0) (tick_and_fire kernel_handlers (ChangeLevel now k))"
    using fam.tick_and_fire_keeps [of "ChangeLevel now k"] k by (auto simp: returns_def)
  have "returns (family k0) (kernel_OneTick (ChangeLevel now k))"
    unfolding kernel_OneTick_def by (rule returns_bind [OF t]) (auto simp: returns_split intro!: push_family)
  then show ?thesis unfolding kernel_SetLevel_def using k by (auto simp: returns_split intro!: returns_pure)
qed

lemma Thread_new_shape:
  assumes "Thread_new nm k = Inr (k1, t)"
  obtains ids tp th where "t = next_thread k" "k1 = k\<lparr>next_thread := Suc t, thread_cnt := thread_cnt k + 1, valid_id := ids, thread_pointer := tp,
      threads := (threads k)(t \<mapsto> th)\<rparr>" "child th = replicate 10 None" "father th = t"
  using assms by (auto simp: Thread_new_def getNewId_def Let_def bindr_eq_Inr split: option.splits)

lemma family_new:
  assumes "family k0 k" "child th = replicate 10 None" "father th = next_thread k"
  shows "family k0 (k\<lparr>next_thread := Suc (next_thread k), threads := (threads k)(next_thread k \<mapsto> th)\<rparr>)"
  using assms unfolding family_def by (auto simp: less_Suc_eq)

lemma Thread_new_family: "family k0 k \<Longrightarrow> returns (\<lambda>(k1, t). family k0 k1) (Thread_new nm k)"
proof -
  assume k: "family k0 k"
  have "family k0 k1" if r: "Thread_new nm k = Inr (k1, t)" for k1 t
  proof (rule Thread_new_shape [OF r])
    fix ids tp th
    assume t: "t = next_thread k" and k1: "k1 = k\<lparr>next_thread := Suc t, thread_cnt := thread_cnt k + 1, valid_id := ids, thread_pointer := tp,
      threads := (threads k)(t \<mapsto> th)\<rparr>" and th: "child th = replicate 10 None" "father th = t"
    show ?thesis using family_new [OF k th(1)] th(2) t by (simp add: k1 family_def)
  qed
  then show ?thesis by (auto simp: returns_def)
qed

lemma Fork_family: "family k0 k \<Longrightarrow> returns (family k0) (Fork t func k)"
  unfolding Fork_def StackAllocate_def level_off_def
  by (rule upd_bind) (auto intro!: returns_bind [OF ReadyToRun_family] push_family)

lemma Sleep_loop_family: "family k0 k \<Longrightarrow> returns (family k0) (Sleep_loop k)"
  unfolding Sleep_loop_def
  by (auto simp: returns_def bindr_eq_Inr dest: FindNextToRun_family returnsD [OF Scheduler_Run_family] fam.Idle_keeps returnsD [OF push_family] split: prod.splits option.splits)

lemma synch_family:
  assumes "family k0 k"
  shows "returns (family k0) (Semaphore_P s k)" "returns (family k0) (P_loop s old k)" "returns (family k0) (Semaphore_V s k)"
    "returns (family k0) (Acquire l k)" "returns (family k0) (Acquire_tail l old k)" "returns (family k0) (Release l k)"
    "returns (family k0) (Wait c l k)" "returns (family k0) (Signal c k)" "returns (family k0) (Broadcast c k)"
    "returns (family k0) (Barrier n k)" "returns (family k0) (Barrier_body n k)"
    "returns (family k0) (SynchList_Append i x k)" "returns (family k0) (Append_body i x k)" "returns (family k0) (SynchList_Remove i k)"
    "returns (family k0) (Remove_loop i k)"
  unfolding Semaphore_P_def P_loop_def Semaphore_V_def Acquire_def Acquire_tail_def Release_def Wait_def Signal_def Broadcast_def Barrier_def
    Barrier_body_def SynchList_Append_def Append_body_def SynchList_Remove_def Remove_loop_def level_off_def Let_def
  using assms
  by (auto simp: returns_split split: list.split
      intro!: push_family the_obj_pure returns_pure [where r = "ASSERT b" for b] returns_bind [OF push_family] Sleep_family returns_bind [OF V_body_family] returns_bind [OF set_owner_family]
        returns_bind [OF Release_body_family] returns_bind [OF Signal_body_family] returns_bind [OF Signal_times_family])

lemma exec_family: "family k0 k \<Longrightarrow> returns (family k0) (exec f k)"
proof (cases f)
  case (FSpawn nm p)
  assume k: "family k0 k"
  have "returns (\<lambda>(k1, t). family k0 k1) (createThread nm k)"
    using k Thread_new_family [OF k, of nm] by (auto simp: createThread_def returns_def bindr_eq_Inr)
  then show ?thesis unfolding FSpawn exec.simps by (rule returns_bind) (auto intro!: the_obj_pure Fork_family)
qed (auto intro: kernel_SetLevel_family Finish_family Yield_family Run_tail_family Sleep_loop_family synch_family push_family)

lemma kstep_family: "kstep k = Inr k' \<Longrightarrow> family k k'"
proof -
  assume s: "kstep k = Inr k'"
  obtain th f fs where th: "threads k (currentThread k) = Some th" "exec f (k\<lparr>threads := (threads k)(currentThread k \<mapsto> th\<lparr>kstack := fs\<rparr>)\<rparr>) = Inr k'"
    using kstepE [OF s] by metis
  have "family k (k\<lparr>threads := (threads k)(currentThread k \<mapsto> th\<lparr>kstack := fs\<rparr>)\<rparr>)" by (rule family_update [OF _ th(1)]) simp_all
  from returnsD [OF exec_family [OF this] th(2)] show ?thesis .
qed

section \<open>Fathers and children\<close>

text \<open>
  Runs of the kernel in which the running thread makes system calls at any time. \<open>F\<close> collects the pairs of a thread and a
  child it has forked, \<open>E\<close> the threads that have called \<^verbatim>\<open>Exit\<close> and were children.
\<close>

inductive proc_step :: "(nat \<Rightarrow> u32) \<Rightarrow> kernel \<times> (nat \<times> nat) set \<times> nat set \<Rightarrow> kernel \<times> (nat \<times> nat) set \<times> nat set \<Rightarrow> bool" for addr where
  kernel: "kstep k = Inr k' \<Longrightarrow> proc_step addr (k, F, E) (k', F, E)"
| forked: "spawn_child addr body k = Inr (k', True) \<Longrightarrow> proc_step addr (k, F, E) (k', insert (currentThread k, next_thread k) F, E)"
| no_slot: "spawn_child addr body k = Inr (k', False) \<Longrightarrow> proc_step addr (k, F, E) (k', F, E)"
| fork_returns: "spawn_return k = Inr k' \<Longrightarrow> proc_step addr (k, F, E) (k', F, E)"
| yields: "sys_Yield k = Inr k' \<Longrightarrow> proc_step addr (k, F, E) (k', F, E)"
| joins: "sys_Join addr found k = Inr (k', r) \<Longrightarrow> proc_step addr (k, F, E) (k', F, E)"
| joins_on: "join_round i k = Inr (k', r) \<Longrightarrow> proc_step addr (k, F, E) (k', F, E)"
| exits: "sys_Exit addr k = Inr k' \<Longrightarrow> threads k (currentThread k) = Some th \<Longrightarrow>
    proc_step addr (k, F, E) (k', F, if father th = currentThread k then E else insert (currentThread k) E)"

text \<open>
  What the allocator promises: objects that exist at the same time have different addresses, none of them 0. A child that was forked
  and has not called \<^verbatim>\<open>Exit\<close> is taken to exist (its father still points to it); the address of one that has may be used again.
\<close>

definition well_placed :: "(nat \<Rightarrow> u32) \<Rightarrow> kernel \<times> (nat \<times> nat) set \<times> nat set \<Rightarrow> bool" where
  "well_placed addr s \<longleftrightarrow> (case s of (k, F, E) \<Rightarrow>
     let objects = dom (threads k) \<union> {c. c \<notin> E \<and> (\<exists>f. (f, c) \<in> F)} in inj_on addr objects \<and> (\<forall>t \<in> objects. addr t \<noteq> 0))"

inductive proc_reach :: "(nat \<Rightarrow> u32) \<Rightarrow> kernel \<Rightarrow> kernel \<times> (nat \<times> nat) set \<times> nat set \<Rightarrow> bool" for addr k0 where
  start: "well_placed addr (k0, {}, {}) \<Longrightarrow> proc_reach addr k0 (k0, {}, {})"
| step: "proc_reach addr k0 s \<Longrightarrow> proc_step addr s s' \<Longrightarrow> well_placed addr s' \<Longrightarrow> proc_reach addr k0 s'"

text \<open>Before the first call: threads have numbers below \<^verbatim>\<open>next_thread\<close> and neither fathers nor children.\<close>

definition no_families :: "kernel \<Rightarrow> bool" where
  "no_families k \<longleftrightarrow> (\<forall>t th. threads k t = Some th \<longrightarrow> t < next_thread k \<and> father th = t \<and> child th = replicate 10 None)"

definition slots_ok :: "(nat \<times> nat) set \<Rightarrow> nat set \<Rightarrow> nat \<Rightarrow> nat option list \<Rightarrow> bool" where
  "slots_ok F E f cs \<longleftrightarrow> length cs = 10 \<and> (\<forall>c. Some c \<in> set cs \<longleftrightarrow> (f, c) \<in> F \<and> c \<notin> E) \<and> distinct (filter (\<lambda>x. x \<noteq> None) cs)"

definition proc_ok :: "kernel \<times> (nat \<times> nat) set \<times> nat set \<Rightarrow> bool" where
  "proc_ok s \<longleftrightarrow> (case s of (k, F, E) \<Rightarrow>
     (\<forall>f c. (f, c) \<in> F \<longrightarrow> f < next_thread k \<and> c < next_thread k) \<and> (\<forall>c \<in> E. c < next_thread k) \<and>
     (\<forall>t th. threads k t = Some th \<longrightarrow> t < next_thread k \<and> slots_ok F E t (child th) \<and>
        (\<forall>f. (f, t) \<in> F \<longrightarrow> father th = f) \<and> (father th \<noteq> t \<longrightarrow> (father th, t) \<in> F)))"

lemma proc_okD:
  assumes "proc_ok (k, F, E)" "threads k t = Some th"
  shows "t < next_thread k" "slots_ok F E t (child th)" "(f, t) \<in> F \<Longrightarrow> father th = f" "father th \<noteq> t \<Longrightarrow> (father th, t) \<in> F"
  using assms by (auto simp: proc_ok_def)

lemma proc_ok_bounds:
  assumes "proc_ok (k, F, E)"
  shows "(f, c) \<in> F \<Longrightarrow> f < next_thread k" "(f, c) \<in> F \<Longrightarrow> c < next_thread k" "c \<in> E \<Longrightarrow> c < next_thread k"
  using assms by (auto simp: proc_ok_def)

lemma proc_ok_family:
  assumes ok: "proc_ok (k, F, E)" and fam: "family k k'"
  shows "proc_ok (k', F, E)"
proof -
  have nx: "next_thread k \<le> next_thread k'" using fam by (simp add: family_def)
  have "t < next_thread k' \<and> slots_ok F E t (child th) \<and> (\<forall>f. (f, t) \<in> F \<longrightarrow> father th = f) \<and> (father th \<noteq> t \<longrightarrow> (father th, t) \<in> F)"
    if th: "threads k' t = Some th" for t th
  proof (cases "\<exists>th0. threads k t = Some th0 \<and> child th = child th0 \<and> father th = father th0")
    case True
    then obtain th0 where "threads k t = Some th0" "child th = child th0" "father th = father th0" by blast
    then show ?thesis using proc_okD [OF ok] nx by (auto intro: order_less_le_trans)
  next
    case False
    then have "next_thread k \<le> t" "t < next_thread k'" "father th = t" "child th = replicate 10 None" using fam th by (auto simp: family_def)
    moreover have "(t, c) \<notin> F" "(c, t) \<notin> F" for c using ok \<open>next_thread k \<le> t\<close> by (fastforce simp: proc_ok_def)+
    ultimately show ?thesis by (auto simp: slots_ok_def)
  qed
  moreover have "f < next_thread k'" "c < next_thread k'" if "(f, c) \<in> F" for f c using proc_ok_bounds(1,2) [OF ok that] nx by simp_all
  moreover have "c < next_thread k'" if "c \<in> E" for c using proc_ok_bounds(3) [OF ok that] nx by simp
  ultimately show ?thesis unfolding proc_ok_def by auto
qed

lemma find_child_Some:
  assumes "find_child addr a cs = Some i"
  shows "i < length cs" "i < 10" "slot_addr addr (cs ! i) = a"
  using find_Some_mem [OF assms [unfolded find_child_def]] by auto

lemma find_child_None: "find_child addr a cs = None \<Longrightarrow> length cs = 10 \<Longrightarrow> p \<in> set cs \<Longrightarrow> slot_addr addr p \<noteq> a"
  by (auto simp: find_child_def find_None_iff in_set_conv_nth)

text \<open>Among objects that exist, the address is as good as the object.\<close>

lemma find_child_object:
  assumes s: "slots_ok F E f cs" and w: "well_placed addr (k, F, E)" and i: "find_child addr a cs = Some i"
  shows "a = 0 \<Longrightarrow> cs ! i = None" "a = addr c \<Longrightarrow> threads k c \<noteq> None \<or> (f, c) \<in> F \<and> c \<notin> E \<Longrightarrow> cs ! i = Some c"
proof -
  note I = find_child_Some [OF i]
  let ?O = "dom (threads k) \<union> {c. c \<notin> E \<and> (\<exists>f. (f, c) \<in> F)}"
  have inj: "inj_on addr ?O" "\<forall>t \<in> ?O. addr t \<noteq> 0" using w by (simp_all add: well_placed_def Let_def)
  have pend: "d \<in> ?O \<and> addr d = a" if "cs ! i = Some d" for d
    using s nth_mem [OF I(1)] I(3) that by (auto simp: slots_ok_def)
  show "cs ! i = None" if "a = 0" using pend inj(2) that by (cases "cs ! i") auto
  show "cs ! i = Some c" if a: "a = addr c" "threads k c \<noteq> None \<or> (f, c) \<in> F \<and> c \<notin> E"
  proof -
    have c: "c \<in> ?O" using a(2) by auto
    then obtain d where d: "cs ! i = Some d" using I(3) a(1) inj(2) by (cases "cs ! i") auto
    then show ?thesis using inj_onD [OF inj(1), of d c] pend [OF d] c a(1) by simp
  qed
qed

lemma advance_pc_family: "family k0 k \<Longrightarrow> returns (family k0) (advance_pc k)"
  unfolding advance_pc_def by (rule returns_pure) simp

lemma quiet_calls:
  "returns (family k) (spawn_return k)" "returns (family k) (sys_Yield k)"
  "returns (\<lambda>(k', r). family k k') (join_round i k)" "returns (\<lambda>(k', r). family k k') (sys_Join addr found k)"
proof -
  have a: "returns (family k) (advance_pc k)" by (rule advance_pc_family) simp
  show "returns (family k) (spawn_return k)" using a by (simp add: spawn_return_def)
  show "returns (family k) (sys_Yield k)" unfolding sys_Yield_def by (rule returns_bind [OF a]) (rule push_family)
  show j: "returns (\<lambda>(k', r). family k k') (join_round i k)" for i
    unfolding join_round_def
    by (rule the_obj_pure, rule returns_pure) (auto simp: returns_split intro!: returns_bind [OF push_family] returns_bind [OF a])
  show "returns (\<lambda>(k', r). family k k') (sys_Join addr found k)"
    unfolding sys_Join_def
    by (rule the_obj_pure) (auto simp: returns_split j intro!: returns_bind [OF a])
qed

text \<open>Putting a new child into a free slot, and taking one out.\<close>

lemma filter_update_None:
  "i < length cs \<Longrightarrow> cs ! i = None \<Longrightarrow> filter (\<lambda>x. x \<noteq> None) (cs[i := Some c]) =
    filter (\<lambda>x. x \<noteq> None) (take i cs) @ Some c # filter (\<lambda>x. x \<noteq> None) (drop (Suc i) cs) \<and>
   filter (\<lambda>x. x \<noteq> None) cs = filter (\<lambda>x. x \<noteq> None) (take i cs) @ filter (\<lambda>x. x \<noteq> None) (drop (Suc i) cs)"
proof -
  assume i: "i < length cs" "cs ! i = None"
  have "filter (\<lambda>x. x \<noteq> None) cs = filter (\<lambda>x. x \<noteq> None) (take i cs @ cs ! i # drop (Suc i) cs)"
    by (rule arg_cong [OF id_take_nth_drop [OF i(1)]])
  then show ?thesis using i by (simp add: upd_conv_take_nth_drop)
qed

lemma slots_add:
  assumes s: "slots_ok F E f cs" and i: "i < 10" "cs ! i = None" and c: "\<And>g. (g, c) \<notin> F" "c \<notin> E"
  shows "slots_ok (insert (f, c) F) E f (cs[i := Some c])"
proof -
  have l: "length cs = 10" and m: "\<And>d. Some d \<in> set cs \<longleftrightarrow> (f, d) \<in> F \<and> d \<notin> E" and d: "distinct (filter (\<lambda>x. x \<noteq> None) cs)"
    using s by (simp_all add: slots_ok_def)
  note u = filter_update_None [of i cs c]
  have new: "Some c \<notin> set cs" using m c(1) by simp
  then have "Some c \<notin> set (filter (\<lambda>x. x \<noteq> None) (take i cs)) \<union> set (filter (\<lambda>x. x \<noteq> None) (drop (Suc i) cs))"
    by (auto dest: in_set_takeD in_set_dropD)
  then have "distinct (filter (\<lambda>x. x \<noteq> None) (cs[i := Some c]))" using u i l d by auto
  moreover have "set (filter (\<lambda>x. x \<noteq> None) (cs[i := Some c])) = insert (Some c) (set (filter (\<lambda>x. x \<noteq> None) cs))" using u i l by auto
  then have "Some d \<in> set (cs[i := Some c]) \<longleftrightarrow> d = c \<or> Some d \<in> set cs" for d by (auto simp: set_eq_iff)
  ultimately show ?thesis using l m c(2) by (auto simp: slots_ok_def)
qed

lemma slots_remove:
  assumes s: "slots_ok F E f cs" and i: "i < 10" "cs ! i = Some c"
  shows "slots_ok F (insert c E) f (cs[i := None])"
proof -
  have l: "length cs = 10" and m: "\<And>d. Some d \<in> set cs \<longleftrightarrow> (f, d) \<in> F \<and> d \<notin> E" and d: "distinct (filter (\<lambda>x. x \<noteq> None) cs)"
    using s by (simp_all add: slots_ok_def)
  note u = filter_update_None [of i "cs[i := None]" c]
  have e: "(cs[i := None])[i := Some c] = cs" using i l by (metis list_update_id list_update_overwrite)
  have u': "filter (\<lambda>x. x \<noteq> None) cs = filter (\<lambda>x. x \<noteq> None) (take i (cs[i := None])) @ Some c # filter (\<lambda>x. x \<noteq> None) (drop (Suc i) (cs[i := None]))"
    "filter (\<lambda>x. x \<noteq> None) (cs[i := None]) = filter (\<lambda>x. x \<noteq> None) (take i (cs[i := None])) @ filter (\<lambda>x. x \<noteq> None) (drop (Suc i) (cs[i := None]))"
    using u i l unfolding e by simp_all
  have ds: "distinct (filter (\<lambda>x. x \<noteq> None) (cs[i := None]))" using d unfolding u' by simp
  have "set (filter (\<lambda>x. x \<noteq> None) (cs[i := None])) = set (filter (\<lambda>x. x \<noteq> None) cs) - {Some c}" using d unfolding u' by auto
  then have "Some d \<in> set (cs[i := None]) \<longleftrightarrow> d \<noteq> c \<and> Some d \<in> set cs" for d by (auto simp: set_eq_iff)
  then show ?thesis using l m ds by (auto simp: slots_ok_def)
qed

lemma slots_other:
  "slots_ok F E f cs \<Longrightarrow> (\<And>c. (f, c) \<in> F' \<and> c \<notin> E' \<longleftrightarrow> (f, c) \<in> F \<and> c \<notin> E) \<Longrightarrow> slots_ok F' E' f cs"
  by (simp add: slots_ok_def)

lemma spawn_ok:
  assumes ok: "proc_ok (k, F, E)" and w: "well_placed addr (k, F, E)" and r: "spawn_child addr body k = Inr (k', b)"
  shows "if b then proc_ok (k', insert (currentThread k, next_thread k) F, E) else proc_ok (k', F, E)"
proof -
  obtain k1 t cur where r1: "Thread_new ''new thread'' k = Inr (k1, t)" "threads k1 (currentThread k1) = Some cur"
    "(case find_child addr 0 (child cur) of
         None \<Rightarrow> bindr (advance_pc k1) (\<lambda>k2. Inr (k2, False))
       | Some i \<Rightarrow>
           bindr (upd_thread (currentThread k1) (\<lambda>th. th\<lparr>child := (child th)[i := Some t]\<rparr>) k1) (\<lambda>k2.
           bindr (set_result (addr t) k2) (\<lambda>k3.
           bindr (upd_thread t (\<lambda>th. th\<lparr>father := currentThread k3\<rparr>) k3) (\<lambda>k4.
           bindr (push [FYield] k4) (\<lambda>k5.
           bindr (Fork t body k5) (\<lambda>k6. Inr (k6, True))))))) = Inr (k', b)"
    using r unfolding spawn_child_def bindr_eq_Inr by auto
  have ok1: "proc_ok (k1, F, E)" using proc_ok_family [OF ok] returnsD [OF Thread_new_family [OF family_refl] r1(1)] by simp
  show ?thesis
  proof (cases "find_child addr 0 (child cur)")
    case None
    then have "advance_pc k1 = Inr k'" "\<not> b" using r1(3) by (auto simp: bindr_eq_Inr)
    then show ?thesis using proc_ok_family [OF ok1] returnsD [OF advance_pc_family [OF family_refl]] by auto
  next
    case (Some i)
    obtain ids tp tt where n: "t = next_thread k" "k1 = k\<lparr>next_thread := Suc t, thread_cnt := thread_cnt k + 1, valid_id := ids, thread_pointer := tp,
      threads := (threads k)(t \<mapsto> tt)\<rparr>" "child tt = replicate 10 None" "father tt = t"
      by (rule Thread_new_shape [OF r1(1)])
    let ?c = "currentThread k"
    obtain k2 k3 k4 k5 where s: "upd_thread ?c (\<lambda>th. th\<lparr>child := (child th)[i := Some t]\<rparr>) k1 = Inr k2" "set_result (addr t) k2 = Inr k3"
      "upd_thread t (\<lambda>th. th\<lparr>father := currentThread k3\<rparr>) k3 = Inr k4" "push [FYield] k4 = Inr k5" "Fork t body k5 = Inr k'" "b"
      using r1(3) Some n(2) by (auto simp: bindr_eq_Inr)
    have k34: "threads k3 = threads k2" "next_thread k3 = next_thread k2" "currentThread k3 = currentThread k2"
      using s(2) by (auto simp: set_result_def bindr_eq_Inr)
    have c2: "currentThread k2 = ?c" "next_thread k2 = next_thread k1" using s(1) n(2) by (auto simp: upd_thread_def bindr_eq_Inr)
    have nx: "next_thread k4 = next_thread k1" using s(3) k34 c2 by (auto simp: upd_thread_def bindr_eq_Inr)
    have old: "\<exists>th1. threads k1 u = Some th1 \<and> child th = (if u = ?c then (child th1)[i := Some t] else child th1) \<and>
        father th = (if u = t then ?c else father th1)" if "threads k4 u = Some th" for u th
      using that s(1,3) k34 c2 by (auto simp: upd_thread_def bindr_eq_Inr split: if_splits)
    note B = proc_ok_bounds [OF ok] and fc = find_child_Some [OF Some]
    have fresh: "(g, t) \<notin> F" "t \<notin> E" for g using B(2) [of g t] B(3) [of t] n(1) by auto
    have cur: "threads k1 ?c = Some cur" "?c < next_thread k1" using r1(2) n(2) proc_okD(1) [OF ok1] by simp_all
    have free: "child cur ! i = None" by (rule find_child_object(1) [OF proc_okD(2) [OF ok1 cur(1)] w Some HOL.refl])
    have th: "u < next_thread k4 \<and> slots_ok (insert (?c, t) F) E u (child th) \<and> (\<forall>f. (f, u) \<in> insert (?c, t) F \<longrightarrow> father th = f) \<and>
        (father th \<noteq> u \<longrightarrow> (father th, u) \<in> insert (?c, t) F)" if u: "threads k4 u = Some th" for u th
    proof -
      obtain th1 where th1: "threads k1 u = Some th1" "child th = (if u = ?c then (child th1)[i := Some t] else child th1)"
        "father th = (if u = t then ?c else father th1)" using old [OF u] by blast
      note D = proc_okD [OF ok1 th1(1)]
      have "slots_ok (insert (?c, t) F) E u (child th)"
      proof (cases "u = ?c")
        case True
        then have "th1 = cur" using th1(1) cur(1) by simp
        then show ?thesis using slots_add [OF D(2) fc(2) _ fresh] free th1(2) True by simp
      next
        case False
        then show ?thesis using slots_other [OF D(2)] th1(2) by simp
      qed
      then show ?thesis using D(1,3,4) th1(3) fresh nx by (cases "u = t") auto
    qed
    have "proc_ok (k4, insert (?c, t) F, E)"
      unfolding proc_ok_def using th proc_ok_bounds [OF ok1] cur(2) nx n by auto
    moreover have "family k4 k'" using returnsD [OF push_family [OF family_refl] s(4)] returnsD [OF Fork_family s(5)] by blast
    ultimately show ?thesis using proc_ok_family s(6) n(1) by simp
  qed
qed

lemma exit_ok:
  assumes ok: "proc_ok (k, F, E)" and w: "well_placed addr (k, F, E)" and r: "sys_Exit addr k = Inr k'" and th: "threads k (currentThread k) = Some th"
  shows "proc_ok (k', F, if father th = currentThread k then E else insert (currentThread k) E)"
proof (cases "father th = currentThread k")
  case True
  then have "advance_pc k = Inr k'" using r th by (simp add: sys_Exit_def)
  then show ?thesis using proc_ok_family [OF ok] returnsD [OF advance_pc_family [OF family_refl]] True by simp
next
  case False
  let ?c = "currentThread k" and ?f = "father th"
  obtain ff k1 where f: "threads k ?f = Some ff" and k1: "(case find_child addr (addr ?c) (child ff) of None \<Rightarrow> Inr k
       | Some i \<Rightarrow> upd_thread ?f (\<lambda>th. th\<lparr>child := (child th)[i := None]\<rparr>) k) = Inr k1" and p: "push [FFinish] k1 = Inr k'"
    using r th False by (auto simp: sys_Exit_def bindr_eq_Inr)
  note D = proc_okD [OF ok th] and DF = proc_okD [OF ok f]
  have forked: "(?f, ?c) \<in> F" using D(4) False by blast
  have only: "g = ?f" if "(g, ?c) \<in> F" for g using D(3) that by blast
  have nx: "next_thread k1 = next_thread k" using k1 by (auto simp: upd_thread_def bindr_eq_Inr split: option.splits)
  have mine: "slots_ok F (insert ?c E) ?f (child ff')" "father ff' = father ff" if "threads k1 ?f = Some ff'" for ff'
  proof -
    show "father ff' = father ff" using that k1 f by (auto simp: upd_thread_def bindr_eq_Inr split: option.splits)
    show "slots_ok F (insert ?c E) ?f (child ff')"
    proof (cases "find_child addr (addr ?c) (child ff)")
      case None
      then have "ff' = ff" "Some ?c \<notin> set (child ff)" using that k1 f find_child_None [OF None, of "Some ?c"] DF(2) by (auto simp: slots_ok_def)
      then show ?thesis using DF(2) by (auto simp: slots_ok_def)
    next
      case (Some i)
      then have "child ff' = (child ff)[i := None]" using that k1 f by (auto simp: upd_thread_def bindr_eq_Inr)
      moreover have "child ff ! i = Some ?c" by (rule find_child_object(2) [OF DF(2) w Some HOL.refl]) (use th in simp)
      ultimately show ?thesis using slots_remove [OF DF(2)] find_child_Some(2) [OF Some] by simp
    qed
  qed
  have other: "threads k1 u = threads k u" if "u \<noteq> ?f" for u using that k1 by (auto simp: upd_thread_def bindr_eq_Inr split: option.splits)
  have all: "u < next_thread k1 \<and> slots_ok F (insert ?c E) u (child tu) \<and> (\<forall>g. (g, u) \<in> F \<longrightarrow> father tu = g) \<and> (father tu \<noteq> u \<longrightarrow> (father tu, u) \<in> F)"
    if u: "threads k1 u = Some tu" for u tu
  proof (cases "u = ?f")
    case True
    then show ?thesis using mine [of tu] u DF nx by auto
  next
    case False
    then have "threads k u = Some tu" using other u by simp
    note DU = proc_okD [OF ok this]
    have "slots_ok F (insert ?c E) u (child tu)" by (rule slots_other [OF DU(2)]) (use only False in auto)
    then show ?thesis using DU nx by auto
  qed
  have "proc_ok (k1, F, insert ?c E)" unfolding proc_ok_def using all proc_ok_bounds [OF ok] D(1) nx by auto
  then show ?thesis using proc_ok_family returnsD [OF push_family [OF family_refl] p] False by simp
qed

lemma proc_step_ok: "proc_step addr s s' \<Longrightarrow> proc_ok s \<Longrightarrow> well_placed addr s \<Longrightarrow> proc_ok s'"
proof (induction rule: proc_step.induct)
  case (kernel k k' F E)
  then show ?case using proc_ok_family kstep_family by blast
next
  case (forked body k k' F E)
  then show ?case using spawn_ok [OF forked.prems forked.hyps] by simp
next
  case (no_slot body k k' F E)
  then show ?case using spawn_ok [OF no_slot.prems no_slot.hyps] by simp
next
  case (fork_returns k k' F E)
  then show ?case using proc_ok_family returnsD [OF quiet_calls(1)] by blast
next
  case (yields k k' F E)
  then show ?case using proc_ok_family returnsD [OF quiet_calls(2)] by blast
next
  case (joins found k k' r F E)
  then show ?case using proc_ok_family returnsD [OF quiet_calls(4) joins.hyps] by auto
next
  case (joins_on i k k' r F E)
  then show ?case using proc_ok_family returnsD [OF quiet_calls(3) joins_on.hyps] by auto
next
  case (exits k k' th F E)
  then show ?case using exit_ok by blast
qed

lemma proc_reach_ok:
  assumes "proc_reach addr k0 s" "no_families k0"
  shows "proc_ok s \<and> well_placed addr s"
  using assms
proof (induction rule: proc_reach.induct)
  case start
  then show ?case by (auto simp: proc_ok_def no_families_def slots_ok_def)
next
  case (step s s')
  then show ?case using proc_step_ok by blast
qed

text \<open>
  (C17) \<^verbatim>\<open>Join\<close> waits exactly for the \<^verbatim>\<open>Exit\<close> of a child. From a kernel whose threads have neither fathers nor children, through any
  interleaving of kernel steps and of calls to \<^verbatim>\<open>Fork\<close>, \<^verbatim>\<open>Exec\<close>, \<^verbatim>\<open>Yield\<close>, \<^verbatim>\<open>Join\<close> and \<^verbatim>\<open>Exit\<close>, under an allocator that gives no new
  thread object the address of one that exists or of a child that has not called \<^verbatim>\<open>Exit\<close> (other addresses may come again): a
  father that has not ended has the child \<open>c\<close> it forked in one of its ten slots iff \<open>c\<close> has not called \<^verbatim>\<open>Exit\<close>. A \<^verbatim>\<open>Join\<close> with the
  address of a child that has not called \<^verbatim>\<open>Exit\<close> finds its slot and yields; this is so too when the address was first that of an
  older child that has ended, so that a late \<^verbatim>\<open>Join\<close> for the older one waits for the younger. With any other address but 0, such as
  that of a child that has called \<^verbatim>\<open>Exit\<close> and was not given out again to a child of this thread, \<^verbatim>\<open>Join\<close> returns at once when the
  variable \<^verbatim>\<open>found\<close> happens to start as false, and reads \<^verbatim>\<open>child[10]\<close>, behind the array, when it starts as true.
\<close>

theorem join_waits_for_exit:
  assumes "no_families k0" "proc_reach addr k0 (k, F, E)" "currentThread k = f" "threads k f = Some th"
  shows "(\<forall>c. (f, c) \<in> F \<longrightarrow> (Some c \<in> set (child th) \<longleftrightarrow> c \<notin> E)) \<and>
    (\<forall>c. (f, c) \<in> F \<and> c \<notin> E \<and> registers (mach k) 4 = addr c \<longrightarrow>
       (\<exists>i k'. i < 10 \<and> child th ! i = Some c \<and> push [FYield] k = Inr k' \<and> sys_Join addr found k = Inr (k', Some (int i)))) \<and>
    (registers (mach k) 4 \<noteq> 0 \<and> (\<forall>c. (f, c) \<in> F \<and> c \<notin> E \<longrightarrow> registers (mach k) 4 \<noteq> addr c) \<longrightarrow>
       sys_Join addr False k = bindr (advance_pc k) (\<lambda>k1. Inr (k1, None)) \<and> sys_Join addr True k = Inl OutOfBounds)"
proof -
  have ok: "proc_ok (k, F, E)" "well_placed addr (k, F, E)" using proc_reach_ok [OF assms(2,1)] by simp_all
  have s: "slots_ok F E f (child th)" using proc_okD(2) [OF ok(1) assms(4)] .
  then have l: "length (child th) = 10" and m: "\<And>c. Some c \<in> set (child th) \<longleftrightarrow> (f, c) \<in> F \<and> c \<notin> E" by (simp_all add: slots_ok_def)
  let ?a = "registers (mach k) 4"
  have waits: "\<exists>i k'. i < 10 \<and> child th ! i = Some c \<and> push [FYield] k = Inr k' \<and> sys_Join addr found k = Inr (k', Some (int i))"
    if c: "(f, c) \<in> F" "c \<notin> E" "?a = addr c" for c
  proof -
    have "find_child addr ?a (child th) \<noteq> None" using find_child_None [OF _ l, of addr ?a "Some c"] m c by auto
    then obtain i where i: "find_child addr ?a (child th) = Some i" by blast
    have i2: "i < 10" "child th ! i = Some c" using find_child_Some(2) [OF i] find_child_object(2) [OF s ok(2) i c(3)] c by simp_all
    obtain k' where k': "push [FYield] k = Inr k'" using assms(3,4) by (auto simp: push_def upd_thread_def)
    have "sys_Join addr found k = Inr (k', Some (int i))" using i i2 l k' assms(3,4) by (simp add: sys_Join_def join_round_def arr_get_def)
    then show ?thesis using i2 k' by blast
  qed
  have "sys_Join addr False k = bindr (advance_pc k) (\<lambda>k1. Inr (k1, None)) \<and> sys_Join addr True k = Inl OutOfBounds"
    if n: "?a \<noteq> 0" "\<forall>c. (f, c) \<in> F \<and> c \<notin> E \<longrightarrow> ?a \<noteq> addr c"
  proof -
    have "find_child addr ?a (child th) = None"
    proof (cases "find_child addr ?a (child th)")
      case (Some i)
      note I = find_child_Some [OF Some]
      show ?thesis using I(3) n m nth_mem [OF I(1)] by (cases "child th ! i") auto
    qed
    then show ?thesis using l assms(3,4) by (simp add: sys_Join_def join_round_def arr_get_def)
  qed
  then show ?thesis using m waits by blast
qed

text \<open>
  A run of one thread that forks a child, lets it run up to its end, where it calls \<^verbatim>\<open>Exit\<close>, and goes on.
\<close>

definition demo_family :: kernel where
  "demo_family = demo_kernel\<lparr>threads := [0 \<mapsto> demo_thread 0 0 None RUNNING []], readyList := [],
     mach := (mach demo_kernel)\<lparr>registers := \<lambda>_. 3\<rparr>\<rparr>"

definition demo_addr :: "nat \<Rightarrow> u32" where "demo_addr t = of_nat (Suc t)"

primrec ksteps :: "nat \<Rightarrow> kernel \<Rightarrow> kernel result" where
  "ksteps 0 k = Inr k"
| "ksteps (Suc n) k = bindr (kstep k) (\<lambda>k1. if next_thread k1 < 100 then ksteps n k1 else Inl Diverges)"

lemma demo_addr_unat: "t < 100 \<Longrightarrow> unat (demo_addr t) = Suc t"
  unfolding demo_addr_def unsigned_of_nat by (simp add: take_bit_nat_eq_self)

lemma demo_placed: "proc_ok (k, F, E) \<Longrightarrow> next_thread k < 100 \<Longrightarrow> well_placed demo_addr (k, F, E)"
proof -
  assume ok: "proc_ok (k, F, E)" and n: "next_thread k < 100"
  have b: "t < 100" if "t \<in> dom (threads k) \<union> {c. c \<notin> E \<and> (\<exists>f. (f, c) \<in> F)}" for t
    using that n proc_okD(1) [OF ok, of t] proc_ok_bounds(2) [OF ok, of _ t] by fastforce
  have "s = t" if "s < 100" "t < 100" "demo_addr s = demo_addr t" for s t using demo_addr_unat [OF that(1)] demo_addr_unat [OF that(2)] that(3) by (metis Suc_inject)
  moreover have "demo_addr t \<noteq> 0" if "t < 100" for t using demo_addr_unat [OF that] by auto
  ultimately show ?thesis unfolding well_placed_def Let_def prod.case
    by (intro conjI inj_onI ballI) (use b in blast)+
qed

lemma demo_step:
  assumes "proc_reach demo_addr k0 s" "no_families k0" "proc_step demo_addr s (k, F, E)" "next_thread k < 100"
  shows "proc_reach demo_addr k0 (k, F, E)"
  using proc_reach_ok [OF assms(1,2)] proc_step_ok [OF assms(3)] demo_placed [OF _ assms(4)] proc_reach.step [OF assms(1,3)] by blast

lemma ksteps_reach: "ksteps n k = Inr k' \<Longrightarrow> no_families k0 \<Longrightarrow> proc_reach demo_addr k0 (k, F, E) \<Longrightarrow> proc_reach demo_addr k0 (k', F, E)"
  by (induction n arbitrary: k) (auto simp: bindr_eq_Inr split: if_splits intro: demo_step proc_step.kernel)

definition forked_state :: "kernel result" where
  "forked_state = bindr (spawn_child demo_addr [] demo_family) (\<lambda>(k1, b). if b \<and> next_thread k1 < 100 then Inr k1 else Inl BadPointer)"

definition exiting_state :: "kernel result" where
  "exiting_state = bindr forked_state (ksteps 3)"

definition exited_state :: "kernel result" where
  "exited_state = bindr exiting_state (\<lambda>k. bindr (sys_Exit demo_addr k) (\<lambda>k1. if next_thread k1 < 100 then ksteps 4 k1 else Inl BadPointer))"

definition father_runs :: "kernel \<Rightarrow> bool" where
  "father_runs k \<longleftrightarrow> currentThread k = 0 \<and> threads k 0 \<noteq> None \<and> registers (mach k) 4 = demo_addr 2"

lemma case_Inr_ex: "(case r of Inr k \<Rightarrow> P k | Inl _ \<Rightarrow> False) \<Longrightarrow> \<exists>k. r = Inr k \<and> P k"
  by (cases r) simp_all

lemma forked_state_ok: "case forked_state of Inr k \<Rightarrow> father_runs k | Inl _ \<Rightarrow> False"
  by code_simp

lemma exiting_state_ok:
  "case exiting_state of Inr k \<Rightarrow> currentThread k = 2 \<and> (case threads k 2 of None \<Rightarrow> False | Some th \<Rightarrow> father th = 0) | Inl _ \<Rightarrow> False"
  by code_simp

lemma exited_state_ok: "case exited_state of Inr k \<Rightarrow> father_runs k | Inl _ \<Rightarrow> False"
  by code_simp

lemma demo_no_families: "no_families demo_family"
  by (simp add: no_families_def demo_family_def demo_kernel_def demo_thread_def)

lemma family_start: "proc_reach demo_addr demo_family (demo_family, {}, {})"
proof (rule proc_reach.start)
  have "proc_ok (demo_family, {}, {})" using demo_no_families by (auto simp: proc_ok_def no_families_def slots_ok_def)
  then show "well_placed demo_addr (demo_family, {}, {})" by (rule demo_placed) (simp add: demo_family_def demo_kernel_def)
qed

lemma forked_reach: "forked_state = Inr k \<Longrightarrow> proc_reach demo_addr demo_family (k, {(0, 2)}, {})"
proof -
  assume "forked_state = Inr k"
  then have s: "spawn_child demo_addr [] demo_family = Inr (k, True)" "next_thread k < 100" by (auto simp: forked_state_def bindr_eq_Inr split: if_splits)
  from proc_step.forked [OF s(1), of "{}" "{}"]
  have "proc_step demo_addr (demo_family, {}, {}) (k, {(0, 2)}, {})" by (simp add: demo_family_def demo_kernel_def)
  from demo_step [OF family_start demo_no_families this s(2)] show ?thesis .
qed

lemma exited_reach: "exited_state = Inr k \<Longrightarrow> proc_reach demo_addr demo_family (k, {(0, 2)}, {2})"
proof -
  assume "exited_state = Inr k"
  then obtain k2 k3 where s: "exiting_state = Inr k2" "sys_Exit demo_addr k2 = Inr k3" "next_thread k3 < 100" "ksteps 4 k3 = Inr k"
    unfolding exited_state_def bindr_eq_Inr by (auto split: if_splits)
  obtain k1 where s1: "forked_state = Inr k1" "ksteps 3 k1 = Inr k2" using s(1) unfolding exiting_state_def bindr_eq_Inr by blast
  obtain th where th: "currentThread k2 = 2" "threads k2 2 = Some th" "father th = 0" using exiting_state_ok unfolding s(1) by (auto split: option.splits)
  have "proc_reach demo_addr demo_family (k2, {(0, 2)}, {})" using ksteps_reach [OF s1(2) demo_no_families forked_reach [OF s1(1)]] .
  moreover have "proc_step demo_addr (k2, {(0, 2)}, {}) (k3, {(0, 2)}, {2})" using proc_step.exits [OF s(2), of th "{(0, 2)}" "{}"] th by simp
  ultimately have "proc_reach demo_addr demo_family (k3, {(0, 2)}, {2})" using demo_step [OF _ demo_no_families _ s(3)] by blast
  then show ?thesis by (rule ksteps_reach [OF s(4) demo_no_families])
qed

theorem join_waits_for_exit_witness:
  "(\<exists>k i k'. forked_state = Inr k \<and> i < 10 \<and> sys_Join demo_addr False k = Inr (k', Some (int i))) \<and>
   (\<exists>k. exited_state = Inr k \<and> sys_Join demo_addr True k = Inl OutOfBounds)"
proof
  obtain k where k: "forked_state = Inr k" "father_runs k" using case_Inr_ex [OF forked_state_ok] by blast
  then obtain th where th: "threads k 0 = Some th" by (auto simp: father_runs_def)
  have "\<exists>i k'. i < 10 \<and> child th ! i = Some 2 \<and> push [FYield] k = Inr k' \<and> sys_Join demo_addr False k = Inr (k', Some (int i))"
    using join_waits_for_exit [OF demo_no_families forked_reach [OF k(1)] _ th, of False] k(2) by (simp add: father_runs_def)
  then show "\<exists>k i k'. forked_state = Inr k \<and> i < 10 \<and> sys_Join demo_addr False k = Inr (k', Some (int i))" using k(1) by blast
next
  obtain k where k: "exited_state = Inr k" "father_runs k" using case_Inr_ex [OF exited_state_ok] by blast
  then obtain th where th: "threads k 0 = Some th" by (auto simp: father_runs_def)
  have "demo_addr 2 \<noteq> 0" by (simp add: demo_addr_def)
  then have "sys_Join demo_addr True k = Inl OutOfBounds"
    using join_waits_for_exit [OF demo_no_families exited_reach [OF k(1)] _ th, of False] k(2) by (simp add: father_runs_def)
  then show "\<exists>k. exited_state = Inr k \<and> sys_Join demo_addr True k = Inl OutOfBounds" using k(1) by blast
qed

end
