(* ===== verification/Nachos_Console.thy ===== *)
theory Nachos_Console
  imports Nachos_Interrupt
begin

text \<open>
  The console device (\<^verbatim>\<open>machine/console.h\<close>, \<^verbatim>\<open>console.cc\<close>) and the kernel's test of it, which echoes what is typed
  (\<^verbatim>\<open>ConsoleTest\<close> in \<^verbatim>\<open>userprog/progtest.cc\<close>). The keyboard is the characters that were typed and not yet read by the device, the
  display those written; a keyboard that reports the end of its input is left out. Semaphores are their values and the lock is a
  flag, as in \<open>Nachos_Post\<close>; between the operations of the test, interrupts and typing interleave freely.
\<close>

section \<open>The device\<close>

text \<open>\<^verbatim>\<open>EOF\<close> as a \<^verbatim>\<open>char\<close>: the value -1, which is the character 255.\<close>

definition EOF_char :: byte where "EOF_char = - 1"

text \<open>Where the test stands, with the character it holds.\<close>

datatype echo_pc = EchoP | EchoGet | EchoGetLocked | EchoGot byte | EchoPut byte | EchoPutLocked byte | EchoWritten byte
  | EchoWait byte | EchoReturned

record console_sim = sim +
  putBusy :: bool
  incoming :: byte
  con_lock :: bool
  keyboard :: "byte list"
  display :: "byte list"
  readAvail :: int
  writeDone :: int
  echo :: echo_pc

definition Console_new :: "int \<Rightarrow> 'a console_sim_scheme \<Rightarrow> 'a console_sim_scheme result" where
  "Console_new this s =
     Schedule ConsoleReadPoll this ConsoleTime ConsoleReadInt (s\<lparr>putBusy := False, incoming := EOF_char, con_lock := False\<rparr>)"

definition CheckCharAvail ::
  "('a console_sim_scheme \<Rightarrow> 'a console_sim_scheme result) \<Rightarrow> int \<Rightarrow> 'a console_sim_scheme \<Rightarrow> 'a console_sim_scheme result" where
  "CheckCharAvail readHandler this s =
     bindr (Schedule ConsoleReadPoll this ConsoleTime ConsoleReadInt s) (\<lambda>s1.
       if incoming s1 \<noteq> EOF_char then Inr s1
       else case keyboard s1 of
         [] \<Rightarrow> Inr s1
       | c # cs \<Rightarrow> readHandler (s1\<lparr>keyboard := cs, incoming := c,
           stats := (stats s1)\<lparr>numConsoleCharsRead := numConsoleCharsRead (stats s1) + 1\<rparr>\<rparr>))"

definition Console_WriteDone ::
  "('a console_sim_scheme \<Rightarrow> 'a console_sim_scheme result) \<Rightarrow> 'a console_sim_scheme \<Rightarrow> 'a console_sim_scheme result" where
  "Console_WriteDone writeHandler s =
     writeHandler (s\<lparr>putBusy := False, stats := (stats s)\<lparr>numConsoleCharsWritten := numConsoleCharsWritten (stats s) + 1\<rparr>\<rparr>)"

text \<open>\<^verbatim>\<open>GetChar\<close> and \<^verbatim>\<open>PutChar\<close> between \<^verbatim>\<open>Acquire\<close> and \<^verbatim>\<open>Release\<close>.\<close>

definition GetChar ::
  "('a console_sim_scheme \<Rightarrow> 'a console_sim_scheme result) \<Rightarrow> 'a console_sim_scheme \<Rightarrow> ('a console_sim_scheme \<times> byte) result" where
  "GetChar readHandler s = bindr (readHandler (s\<lparr>incoming := EOF_char\<rparr>)) (\<lambda>s1. Inr (s1, incoming s))"

definition PutChar ::
  "('a console_sim_scheme \<Rightarrow> 'a console_sim_scheme result) \<Rightarrow> int \<Rightarrow> byte \<Rightarrow> 'a console_sim_scheme \<Rightarrow> 'a console_sim_scheme result" where
  "PutChar writeHandler this ch s =
     bindr (ASSERT (putBusy s = False)) (\<lambda>_.
     bindr (Schedule ConsoleWriteDone this ConsoleTime ConsoleWriteInt (s\<lparr>display := display s @ [ch], putBusy := True\<rparr>))
       (Console_WriteDone writeHandler))"

section \<open>The console test\<close>

definition ReadAvail_V :: "'a console_sim_scheme \<Rightarrow> 'a console_sim_scheme result" where
  "ReadAvail_V s = Inr (s\<lparr>readAvail := readAvail s + 1\<rparr>)"

definition WriteDone_V :: "'a console_sim_scheme \<Rightarrow> 'a console_sim_scheme result" where
  "WriteDone_V s = Inr (s\<lparr>writeDone := writeDone s + 1\<rparr>)"

definition console_handlers :: "handler_fn \<Rightarrow> int \<Rightarrow> 'a console_sim_scheme \<Rightarrow> 'a console_sim_scheme result" where
  "console_handlers h this s =
     (case h of ConsoleReadPoll \<Rightarrow> CheckCharAvail ReadAvail_V this s
      | ConsoleWriteDone \<Rightarrow> Console_WriteDone WriteDone_V s
      | _ \<Rightarrow> Inl BadPointer)"

definition ConsoleTest_start :: "int \<Rightarrow> 'a console_sim_scheme \<Rightarrow> 'a console_sim_scheme result" where
  "ConsoleTest_start this s = bindr (Console_new this s) (\<lambda>s1. Inr (s1\<lparr>readAvail := 0, writeDone := 0, echo := EchoP\<rparr>))"

text \<open>One operation of the loop; \<open>None\<close> when the thread has to wait, or has returned.\<close>

definition ConsoleTest_step :: "int \<Rightarrow> 'a console_sim_scheme \<Rightarrow> 'a console_sim_scheme result option" where
  "ConsoleTest_step this s = (case echo s of
       EchoP \<Rightarrow> if readAvail s > 0 then Some (Inr (s\<lparr>readAvail := readAvail s - 1, echo := EchoGet\<rparr>)) else None
     | EchoGet \<Rightarrow> if con_lock s then None else Some (Inr (s\<lparr>con_lock := True, echo := EchoGetLocked\<rparr>))
     | EchoGetLocked \<Rightarrow> Some (bindr (GetChar ReadAvail_V s) (\<lambda>(s1, ch). Inr (s1\<lparr>echo := EchoGot ch\<rparr>)))
     | EchoGot ch \<Rightarrow> Some (Inr (s\<lparr>con_lock := False, echo := EchoPut ch\<rparr>))
     | EchoPut ch \<Rightarrow> if con_lock s then None else Some (Inr (s\<lparr>con_lock := True, echo := EchoPutLocked ch\<rparr>))
     | EchoPutLocked ch \<Rightarrow> Some (bindr (PutChar WriteDone_V this ch s) (\<lambda>s1. Inr (s1\<lparr>echo := EchoWritten ch\<rparr>)))
     | EchoWritten ch \<Rightarrow> Some (Inr (s\<lparr>con_lock := False, echo := EchoWait ch\<rparr>))
     | EchoWait ch \<Rightarrow> if writeDone s > 0
         then Some (Inr (s\<lparr>writeDone := writeDone s - 1, echo := (if ch = 0x71 then EchoReturned else EchoP)\<rparr>)) else None
     | EchoReturned \<Rightarrow> None)"

text \<open>The test together with the clock and somebody who types; the second component is all that was typed.\<close>

inductive echo_step :: "int \<Rightarrow> console_sim \<times> byte list \<Rightarrow> console_sim \<times> byte list \<Rightarrow> bool" for this where
  types: "echo_step this (s, ty) (s\<lparr>keyboard := keyboard s @ [c]\<rparr>, ty @ [c])"
| tick: "tick_and_fire console_handlers s = Inr s' \<Longrightarrow> echo_step this (s, ty) (s', ty)"
| idle: "Idle console_handlers (ChangeLevel IntOff s) = Inr s' \<Longrightarrow> echo_step this (s, ty) (s', ty)"
| thread: "ConsoleTest_step this s = Some (Inr s') \<Longrightarrow> echo_step this (s, ty) (s', ty)"

definition console_booted :: "console_sim \<Rightarrow> bool" where
  "console_booted s \<longleftrightarrow> intr s = Interrupt_new \<and> stats s = Statistics_new \<and> \<not> machine_on s \<and> keyboard s = [] \<and> display s = []"

inductive echo_reach :: "int \<Rightarrow> console_sim \<times> byte list \<Rightarrow> bool" for this where
  start: "console_booted s \<Longrightarrow> ConsoleTest_start this s = Inr s' \<Longrightarrow> echo_reach this (s', [])"
| step: "echo_reach this p \<Longrightarrow> echo_step this p p' \<Longrightarrow> echo_reach this p'"

section \<open>The invariant\<close>

definition visible :: "byte list \<Rightarrow> byte list" where
  "visible cs = filter (\<lambda>c. c \<noteq> EOF_char) cs"

lemma visible_simps [simp]: "visible (xs @ ys) = visible xs @ visible ys" "visible [] = []"
  "visible (c # cs) = (if c = EOF_char then visible cs else c # visible cs)"
  by (simp_all add: visible_def)

definition held :: "echo_pc \<Rightarrow> byte list" where
  "held e = (case e of EchoGot c \<Rightarrow> [c] | EchoPut c \<Rightarrow> [c] | EchoPutLocked c \<Rightarrow> [c] | _ \<Rightarrow> [])"

definition in_lock :: "echo_pc \<Rightarrow> bool" where
  "in_lock e = (case e of EchoGetLocked \<Rightarrow> True | EchoGot _ \<Rightarrow> True | EchoPutLocked _ \<Rightarrow> True | EchoWritten _ \<Rightarrow> True | _ \<Rightarrow> False)"

definition has_written :: "echo_pc \<Rightarrow> bool" where
  "has_written e = (case e of EchoWritten _ \<Rightarrow> True | EchoWait _ \<Rightarrow> True | _ \<Rightarrow> False)"

lemma echo_simps [simp]:
  "held EchoP = []" "held EchoGet = []" "held EchoGetLocked = []" "held (EchoGot c) = [c]" "held (EchoPut c) = [c]" "held (EchoPutLocked c) = [c]"
  "held (EchoWritten c) = []" "held (EchoWait c) = []" "held EchoReturned = []"
  "\<not> in_lock EchoP" "\<not> in_lock EchoGet" "in_lock EchoGetLocked" "in_lock (EchoGot c)" "\<not> in_lock (EchoPut c)" "in_lock (EchoPutLocked c)"
  "in_lock (EchoWritten c)" "\<not> in_lock (EchoWait c)" "\<not> in_lock EchoReturned"
  "\<not> has_written EchoP" "\<not> has_written EchoGet" "\<not> has_written EchoGetLocked" "\<not> has_written (EchoGot c)" "\<not> has_written (EchoPut c)"
  "\<not> has_written (EchoPutLocked c)" "has_written (EchoWritten c)" "has_written (EchoWait c)" "\<not> has_written EchoReturned"
  by (simp_all add: held_def in_lock_def has_written_def)

text \<open>
  The device is never busy, the lock is held where the test says so, a character in the device's buffer has been
  announced, and what was typed is on the display, in the test, in the buffer or at the keyboard.
\<close>

definition console_ok :: "byte list \<Rightarrow> 'a console_sim_scheme \<Rightarrow> bool" where
  "console_ok ty s \<longleftrightarrow> \<not> putBusy s \<and>
     visible ty = visible (display s) @ visible (held (echo s)) @ visible [incoming s] @ visible (keyboard s) \<and>
     (con_lock s \<longleftrightarrow> in_lock (echo s)) \<and> 0 \<le> readAvail s \<and> 0 \<le> writeDone s \<and> (has_written (echo s) \<longrightarrow> 0 < writeDone s) \<and>
     (0 < readAvail s \<or> echo s = EchoGet \<or> echo s = EchoGetLocked \<or>
       incoming s = EOF_char \<and> display s = [] \<and> echo s = EchoP)"

definition echo_control :: "console_sim \<Rightarrow> bool" where
  "echo_control s \<longleftrightarrow> intr_ok s \<and> only_pending (\<lambda>h. h = ConsoleReadPoll \<or> h = ConsoleWriteDone) s \<and> status (intr s) = SystemMode"

lemma console_frames [simp]:
  fixes s :: "'a console_sim_scheme"
  shows "console_ok ty (s\<lparr>intr := i\<rparr>) = console_ok ty s" "console_ok ty (s\<lparr>mach := m\<rparr>) = console_ok ty s" "console_ok ty (s\<lparr>stats := x\<rparr>) = console_ok ty s"
  by (simp_all add: console_ok_def)

text \<open>Scheduling an interrupt of the console.\<close>

definition console_entry :: "handler_fn \<Rightarrow> int \<Rightarrow> IntType \<Rightarrow> 'a sim_scheme \<Rightarrow> 'a sim_scheme" where
  "console_entry h this k s = s\<lparr>intr := (intr s)\<lparr>pending := kl_sorted_insert (PendingInterrupt_new h this (totalTicks (stats s) + ConsoleTime) k)
     (totalTicks (stats s) + ConsoleTime) (pending (intr s))\<rparr>\<rparr>"

lemma Schedule_console: "Schedule h this ConsoleTime k s = Inr (console_entry h this k s)"
  by (simp add: Schedule_def console_entry_def ConsoleTime_def Let_def)

lemma console_entry_effect:
  assumes "intr s' = intr (console_entry h this k s)" "same_clock s s'" "mach s' = mach s" "machine_on s' = machine_on s"
  shows "handler_effect s s'" "only_pending R s \<Longrightarrow> R h \<Longrightarrow> only_pending R s'" "intr_ok s \<Longrightarrow> intr_ok s'" "status (intr s') = status (intr s)"
proof -
  have t: "totalTicks (stats s') = totalTicks (stats s)" using assms(2) by (rule same_clock_total)
  have i: "intr s' = (intr s)\<lparr>pending := kl_sorted_insert (PendingInterrupt_new h this (totalTicks (stats s) + ConsoleTime) k)
     (totalTicks (stats s) + ConsoleTime) (pending (intr s))\<rparr>" using assms(1) by (simp add: console_entry_def)
  show "handler_effect s s'" using assms(2-4)
    by (simp add: handler_effect_def due_now_def t i ConsoleTime_def filter_sorted_insert_later kl_sorted_insert_sorted)
  show "only_pending R s'" if "only_pending R s" "R h" using that by (auto simp: only_pending_def i PendingInterrupt_new_def)
  show "intr_ok s'" if "intr_ok s" using that assms(3,4) same_clock_ok [OF assms(2)] by (simp add: intr_ok_def mach_ok_def i kl_sorted_insert_sorted)
  show "status (intr s') = status (intr s)" by (simp add: i)
qed

lemma CheckCharAvail_ok:
  assumes ok: "console_ok ty s"
  shows "\<exists>s'. CheckCharAvail ReadAvail_V this s = Inr s' \<and> console_ok ty s' \<and>
    intr s' = intr (console_entry ConsoleReadPoll this ConsoleReadInt s) \<and> same_clock s s' \<and> mach s' = mach s \<and> machine_on s' = machine_on s"
proof (cases "incoming s \<noteq> EOF_char \<or> keyboard s = []")
  case True
  then show ?thesis using ok by (auto simp: CheckCharAvail_def Schedule_console console_entry_def)
next
  case False
  then obtain c cs where k: "keyboard s = c # cs" "incoming s = EOF_char" by (cases "keyboard s") auto
  then show ?thesis using ok
    by (auto simp: CheckCharAvail_def Schedule_console console_entry_def ReadAvail_V_def console_ok_def same_clock_def)
qed

lemma WriteDone_ok:
  assumes ok: "console_ok ty s"
  shows "\<exists>s'. Console_WriteDone WriteDone_V s = Inr s' \<and> console_ok ty s' \<and> handler_effect s s' \<and> intr s' = intr s"
  using ok by (auto simp: Console_WriteDone_def WriteDone_V_def console_ok_def handler_effect_def same_clock_def due_now_def)

interpretation con: interrupt_handlers console_handlers "\<lambda>h. h = ConsoleReadPoll \<or> h = ConsoleWriteDone" "console_ok ty" for ty
proof (unfold_locales, goal_cases)
  case (4 h s a)
  show ?case
  proof (cases "h = ConsoleReadPoll")
    case True
    obtain s' where s': "CheckCharAvail ReadAvail_V a s = Inr s'" "console_ok ty s'"
      "intr s' = intr (console_entry ConsoleReadPoll a ConsoleReadInt s)" "same_clock s s'" "mach s' = mach s" "machine_on s' = machine_on s"
      using CheckCharAvail_ok [OF 4(2)] by blast
    show ?thesis using True s' 4(5) console_entry_effect [OF s'(3-6)] by (simp add: console_handlers_def)
  next
    case False
    then show ?thesis using 4 WriteDone_ok [OF 4(2)] by (auto simp: console_handlers_def only_pending_def)
  qed
qed simp_all

lemma thread_ok:
  assumes ok: "console_ok ty s" "echo_control s" and s': "ConsoleTest_step this s = Some r"
  shows "\<exists>s'. r = Inr s' \<and> console_ok ty s' \<and> echo_control s'"
proof (cases "\<exists>ch. echo s = EchoPutLocked ch")
  case True
  then obtain ch where e: "echo s = EchoPutLocked ch" by blast
  define s1 where "s1 = console_entry ConsoleWriteDone this ConsoleWriteInt s"
  define s2 where "s2 = s1\<lparr>display := display s @ [ch], putBusy := False, stats := (stats s)\<lparr>numConsoleCharsWritten := numConsoleCharsWritten (stats s) + 1\<rparr>,
    writeDone := writeDone s + 1, echo := EchoWritten ch\<rparr>"
  have r: "r = Inr s2" using s' e ok(1)
    by (cases s) (simp add: ConsoleTest_step_def PutChar_def Schedule_console console_entry_def Console_WriteDone_def WriteDone_V_def console_ok_def s2_def s1_def)
  have i: "intr s2 = intr (console_entry ConsoleWriteDone this ConsoleWriteInt s)" "same_clock s s2" "mach s2 = mach s" "machine_on s2 = machine_on s"
    by (simp_all add: s2_def s1_def console_entry_def same_clock_def)
  have "console_ok ty s2" using ok(1) e by (auto simp: console_ok_def s2_def s1_def console_entry_def)
  moreover have "echo_control s2" using ok(2) console_entry_effect [OF i] by (simp add: echo_control_def)
  ultimately show ?thesis using r by blast
next
  case False
  have "case r of Inl _ \<Rightarrow> False | Inr s' \<Rightarrow> console_ok ty s' \<and> intr s' = intr s \<and> stats s' = stats s \<and> mach s' = mach s \<and> machine_on s' = machine_on s"
    using ok(1) s' False unfolding console_ok_def ConsoleTest_step_def GetChar_def ReadAvail_V_def
    by (cases "echo s") (auto split: if_splits)
  then show ?thesis using ok(2) by (cases r) (auto simp: echo_control_def intr_ok_def only_pending_def mach_ok_def clock_ok_def)
qed

lemma tick_ok:
  assumes "console_ok ty s" "echo_control s"
  shows "\<exists>s'. tick_and_fire console_handlers s = Inr s' \<and> console_ok ty s' \<and> echo_control s'"
  using con.tick_and_fire_ok [OF assms(1)] assms(2) by (auto simp: echo_control_def)

lemma idle_ok:
  assumes "console_ok ty s" "echo_control s" "Idle console_handlers (ChangeLevel IntOff s) = Inr s'"
  shows "console_ok ty s' \<and> echo_control s'"
proof -
  let ?s = "ChangeLevel IntOff s"
  have c: "console_ok ty ?s" "intr_ok ?s" "only_pending (\<lambda>h. h = ConsoleReadPoll \<or> h = ConsoleWriteDone) ?s" "level (intr ?s) = IntOff"
    using assms(1,2) by (simp_all add: echo_control_def ChangeLevel_def intr_ok_def only_pending_def)
  have "pending (intr ?s) \<noteq> [] \<and> \<not> (\<exists>k p. pending (intr ?s) = [(k, p)] \<and> int_type p = TimerInt)"
    using con.Idle_halts [OF c(4)] assms(3) by (metis Inl_Inr_False)
  then obtain k p rest where p: "pending (intr ?s) = (k, p) # rest" "\<not> (int_type p = TimerInt \<and> rest = [])" by (cases "pending (intr ?s)") auto
  from con.Idle_resumes [OF c(1,2,4,3) p] assms(3) show ?thesis by (auto simp: echo_control_def)
qed

lemma echo_reach_ok: "echo_reach this (s, ty) \<Longrightarrow> console_ok ty s \<and> echo_control s"
proof (induction "(s, ty)" arbitrary: s ty rule: echo_reach.induct)
  case (start s0 s)
  then show ?case
    by (auto simp: ConsoleTest_start_def Console_new_def Schedule_console console_entry_def console_booted_def console_ok_def echo_control_def
        intr_ok_def only_pending_def kl_sorted_def mach_ok_def clock_ok_def Statistics_new_def Interrupt_new_def PendingInterrupt_new_def)
next
  case (step p s ty)
  obtain s0 ty0 where p: "p = (s0, ty0)" by (cases p)
  have ok: "console_ok ty0 s0" "echo_control s0" using step.hyps(2) [OF p] by blast+
  from step.hyps(3) [unfolded p] show ?case
  proof (cases rule: echo_step.cases)
    case (types c)
    then show ?thesis using ok by (auto simp: console_ok_def echo_control_def intr_ok_def only_pending_def mach_ok_def clock_ok_def)
  next
    case tick
    then show ?thesis using tick_ok [OF ok] by auto
  next
    case idle
    then show ?thesis using idle_ok [OF ok] by auto
  next
    case thread
    then show ?thesis using thread_ok [OF ok] by blast
  qed
qed

section \<open>A run of the test\<close>

datatype echo_action = Type byte | Tick | Wait_for_interrupt | Go

definition echo_act :: "int \<Rightarrow> echo_action \<Rightarrow> console_sim \<times> byte list \<Rightarrow> (console_sim \<times> byte list) option" where
  "echo_act this a p = (case p of (s, ty) \<Rightarrow> (case a of
       Type c \<Rightarrow> Some (s\<lparr>keyboard := keyboard s @ [c]\<rparr>, ty @ [c])
     | Tick \<Rightarrow> (case tick_and_fire console_handlers s of Inr s' \<Rightarrow> Some (s', ty) | Inl _ \<Rightarrow> None)
     | Wait_for_interrupt \<Rightarrow> (case Idle console_handlers (ChangeLevel IntOff s) of Inr s' \<Rightarrow> Some (s', ty) | Inl _ \<Rightarrow> None)
     | Go \<Rightarrow> (case ConsoleTest_step this s of Some (Inr s') \<Rightarrow> Some (s', ty) | _ \<Rightarrow> None)))"

fun echo_acts :: "int \<Rightarrow> echo_action list \<Rightarrow> console_sim \<times> byte list \<Rightarrow> (console_sim \<times> byte list) option" where
  "echo_acts this [] p = Some p"
| "echo_acts this (a # as) p = Option.bind (echo_act this a p) (echo_acts this as)"

lemma echo_act_step: "echo_act this a p = Some p' \<Longrightarrow> echo_step this p p'"
  by (auto simp: echo_act_def intro: echo_step.intros split: echo_action.splits prod.splits sum.splits option.splits)

lemma echo_acts_reach: "echo_acts this as p = Some p' \<Longrightarrow> echo_reach this p \<Longrightarrow> echo_reach this p'"
proof (induction as arbitrary: p)
  case (Cons a as)
  obtain q where q: "echo_act this a p = Some q" "echo_acts this as q = Some p'" using Cons.prems(1) by (auto simp: bind_eq_Some_conv)
  have "echo_reach this q" using Cons.prems(2) echo_act_step [OF q(1)] by (rule echo_reach.step)
  then show ?case by (rule Cons.IH [OF q(2)])
qed simp

definition echo_booted :: "machine \<Rightarrow> console_sim" where
  "echo_booted m = \<lparr>stats = Statistics_new, intr = Interrupt_new, machine_on = False, mach = m, putBusy = False, incoming = 0, con_lock = False,
     keyboard = [], display = [], readAvail = 0, writeDone = 0, echo = EchoP\<rparr>"

definition echo_sample :: "machine \<Rightarrow> (console_sim \<times> byte list) option" where
  "echo_sample m = (case ConsoleTest_start 7 (echo_booted m) of
       Inr s \<Rightarrow> echo_acts 7 ([Type 0x61, Wait_for_interrupt] @ replicate 14 Go) (s, [])
     | Inl _ \<Rightarrow> None)"

text \<open>The letter \<^verbatim>\<open>a\<close> is typed once; the test echoes it, and goes on at once to echo an \<^verbatim>\<open>EOF\<close> that nobody typed.\<close>

lemma echo_sample_display: "map_option (\<lambda>(s, ty). (display s, ty)) (echo_sample m) = Some ([0x61, EOF_char], [0x61])"
  by code_simp

lemma echo_sample_reach: "\<exists>s. echo_reach 7 (s, [0x61]) \<and> display s = [0x61, EOF_char]"
proof -
  fix m :: machine
  obtain s where s: "echo_sample m = Some (s, [0x61])" "display s = [0x61, EOF_char]" using echo_sample_display [of m] by auto
  obtain s0 where s0: "ConsoleTest_start 7 (echo_booted m) = Inr s0" "echo_acts 7 ([Type 0x61, Wait_for_interrupt] @ replicate 14 Go) (s0, []) = Some (s, [0x61])"
    using s(1) by (auto simp: echo_sample_def split: sum.splits)
  have "console_booted (echo_booted m)" by (simp add: console_booted_def echo_booted_def)
  then have "echo_reach 7 (s, [0x61])" using echo_acts_reach [OF s0(2) echo_reach.start] s0(1) by blast
  then show ?thesis using s(2) by blast
qed

section \<open>The property\<close>

text \<open>
  (C18) The console test echoes what is typed. However typing, the clock and the test interleave: what was typed is, in order and up to
  characters 255, which the code takes for \<^verbatim>\<open>EOF\<close>, what is on the display, then what the test holds, then the
  device's buffer, then the keyboard; nothing is lost, doubled or overtaken. The assertion of \<^verbatim>\<open>PutChar\<close> never fails, no handler
  fails, and the test waits for nothing but input: it never waits for the lock or for \<^verbatim>\<open>writeDone\<close>, and never for
  \<^verbatim>\<open>readAvail\<close> while a character is in the buffer. Because \<^verbatim>\<open>GetChar\<close> calls the read handler once more, it does not wait for input either
  after the first character: it spins and displays \<^verbatim>\<open>EOF\<close>s.
\<close>

theorem console_echo:
  assumes "echo_reach this (s, ty)"
  shows "visible ty = visible (display s) @ visible (held (echo s)) @ visible [incoming s] @ visible (keyboard s) \<and>
    (\<exists>s'. tick_and_fire console_handlers s = Inr s') \<and> (\<forall>f. ConsoleTest_step this s \<noteq> Some (Inl f)) \<and>
    (ConsoleTest_step this s = None \<longleftrightarrow> echo s = EchoReturned \<or>
       echo s = EchoP \<and> readAvail s = 0 \<and> incoming s = EOF_char \<and> display s = [])"
proof -
  have ok: "console_ok ty s" "echo_control s" using echo_reach_ok [OF assms] by blast+
  have "ConsoleTest_step this s = None \<longleftrightarrow> echo s = EchoReturned \<or> echo s = EchoP \<and> readAvail s = 0 \<and> incoming s = EOF_char \<and> display s = []"
    using ok(1) unfolding console_ok_def ConsoleTest_step_def by (cases "echo s") auto
  moreover have "ConsoleTest_step this s \<noteq> Some (Inl f)" for f using thread_ok [OF ok] by blast
  moreover have "visible ty = visible (display s) @ visible (held (echo s)) @ visible [incoming s] @ visible (keyboard s)"
    using ok(1) unfolding console_ok_def by blast
  ultimately show ?thesis using tick_ok [OF ok] by blast
qed

theorem console_echo_witness:
  "\<exists>s. echo_reach 7 (s, [0x61]) \<and> visible (display s) = [0x61] \<and> EOF_char \<in> set (display s) \<and> visible (keyboard s) = []"
proof -
  obtain s where s: "echo_reach 7 (s, [0x61])" "display s = [0x61, EOF_char]" using echo_sample_reach by blast
  have "(0x61 :: byte) \<noteq> EOF_char" by (simp add: EOF_char_def)
  then have "visible (keyboard s) = []" using console_echo [OF s(1)] s(2) by (auto split: if_splits)
  then show ?thesis using s \<open>0x61 \<noteq> EOF_char\<close> by auto
qed

end
