(* ===== verification/Spec2Isabelle.thy ===== *)
theory Spec2Isabelle
  imports Nachos_List Nachos_BitMap Nachos_Machine Nachos_Mips_Correct Nachos_Mips_Safety Nachos_Synch_Live Nachos_Loading Nachos_UserRun
    Nachos_Coff Nachos_Post_Delivery Nachos_Process Nachos_Console
begin

text \<open>
  Nachos 3.4 (\<^verbatim>\<open>src/nachos/nachos-3.4/code\<close>; all paths below are relative to it) is a teaching operating
  system: a kernel with threads, a file system and user programs, and the simulated workstation on which
  it runs. This development models the build of \<^verbatim>\<open>filesys/Makefile\<close> (threads, user programs, virtual memory
  and the real file system) on a little-endian host, without the software TLB unless stated.

  \<^bold>\<open>How the program is modelled.\<close> A C++ class is a record, an enumeration a datatype, a function or method a
  definition with the same name where Isabelle allows it. Everything that may abort or that C++ leaves
  undefined (a failed \<^verbatim>\<open>ASSERT\<close>, an index outside its array, a null or dangling pointer, a division by zero)
  is a branch: the result type is \<open>error + 'a\<close> and \<open>bindr\<close> sequences (\<open>Nachos_Prelude\<close>). Machine integers are
  32-bit words where they wrap (registers, unsigned quantities, bitmap words, the ages and counters of the TLB) and integers where
  the code stays in range or where the range is the point; a request to read or write a file whose end is no C int is an error.
  The clock and the counters of \<^verbatim>\<open>machine/stats\<close> are integers: the theorems are about runs in which they stay in range. The global variables are the fields of one record that
  grows from theory to theory: \<open>sim\<close> (statistics, interrupts, the machine), the disk, the synchronous disk, the
  file system, the user programs. Memory that the source reads before it writes it is a field or
  an argument with arbitrary contents: \<open>fresh_heap\<close>, \<open>fresh_stack\<close>, \<open>stack_junk\<close>, \<open>stack_int\<close>; the addresses
  \<^verbatim>\<open>new\<close> returns are \<open>heap_addr\<close>, the texts of the host's clock \<open>hostclock\<close>.

  \<^bold>\<open>Theories and sources.\<close>
  \<^item> \<open>Nachos_Prelude\<close>: results, bytes and words, the macros of \<^verbatim>\<open>threads/utility.h\<close>, shared lemmas.
  \<^item> \<open>Nachos_List\<close>: \<^verbatim>\<open>threads/list\<close>, linked cells in an explicit store. Every operation refines the operation
    on the list of (key, item) pairs; sorted insertion sorts; the destructor frees every cell up to the first null item. The other
    components use the list through the locale \<open>keyed_list\<close>.
  \<^item> \<open>Nachos_BitMap\<close>: \<^verbatim>\<open>userprog/bitmap\<close>, bits packed in words. \<^verbatim>\<open>Find\<close> returns the lowest clear bit, repeated
    calls never return the same one, the search for a run finds one or aborts (locale \<open>unit_allocator\<close>).
  \<^item> \<open>Nachos_Machine\<close>: \<^verbatim>\<open>machine/machine\<close>, \<^verbatim>\<open>machine/translate\<close>; registers, memory, page table and TLB,
    delayed loads, byte order. Translation through either table is characterised on every branch.
  \<^item> \<open>Nachos_Interrupt\<close>: \<^verbatim>\<open>machine/interrupt\<close>, \<^verbatim>\<open>machine/stats\<close>, \<^verbatim>\<open>machine/timer\<close>; simulated time, the queue of
    pending interrupts, the interrupt level and the time slice. The devices' handlers are parameters with
    the contract \<open>interrupt_handlers\<close>, which the theories of the devices discharge.
  \<^item> \<open>Nachos_Mips\<close>, \<open>Nachos_Mips_Correct\<close>, \<open>Nachos_Mips_Safety\<close>: \<^verbatim>\<open>machine/mipssim\<close>; decoder and interpreter of
    the MIPS instruction set with the traps to the kernel. Multiplication yields the full product, overflow
    detection is exact, memory round trips, and on a well-formed machine every instruction keeps the machine
    well formed or stops for one of the listed reasons, each tied to the instruction (locale \<open>trap_handler\<close> for the kernel's part).
  \<^item> \<open>Nachos_Disk\<close>, \<open>Nachos_SynchDisk\<close>: \<^verbatim>\<open>machine/disk\<close>, \<^verbatim>\<open>filesys/synchdisk\<close>; the latency of the device, its
    completion interrupt, the sector cache. As one thread runs it, the synchronous disk with its cache
    refines an array of sectors.
  \<^item> \<open>Nachos_FileHdr\<close>, \<open>Nachos_OpenFile\<close>, \<open>Nachos_FileData\<close>: \<^verbatim>\<open>filesys/filehdr\<close>, \<^verbatim>\<open>filesys/openfile\<close>; the block
    lists of files, their image on disk, reading and writing. A file is a sequence of bytes: \<^verbatim>\<open>ReadAt\<close>
    returns a part of it and \<^verbatim>\<open>WriteAt\<close> replaces a part of it, for files of up to 40 blocks.
  \<^item> \<open>Nachos_Directory\<close>, \<open>Nachos_FileSys\<close>: \<^verbatim>\<open>filesys/directory\<close>, \<^verbatim>\<open>filesys/filesys\<close>; a directory refines a finite
    map from names to sectors; formatting establishes the invariant of the file system, a created file can
    be opened, removing it undoes its creation.
  \<^item> \<open>Nachos_Thread\<close>, \<open>Nachos_Synch\<close>, \<open>Nachos_Synch_Safety\<close>, \<open>Nachos_Synch_Live\<close>: \<^verbatim>\<open>threads/thread\<close>, \<^verbatim>\<open>threads/scheduler\<close>,
    \<^verbatim>\<open>threads/synch\<close>, \<^verbatim>\<open>threads/synchlist\<close>. The kernel is a machine whose threads are stacks of frames; a step
    runs the top frame of the running thread up to its next context switch. Locks exclude each other and are never lost, under
    every interleaving; threads run in the order in which they became ready.
  \<^item> \<open>Nachos_AddrSpace\<close>, \<open>Nachos_Exception\<close>: \<^verbatim>\<open>userprog/addrspace\<close>, \<^verbatim>\<open>userprog/exception\<close>; loading a program,
    the page fault handler, the system calls on files.
  \<^item> \<open>Nachos_Frame\<close>, \<open>Nachos_Paging\<close>: every operation of the file system keeps what completing a delayed load
    keeps (locale \<open>load_stable\<close>); the fault handler therefore satisfies the contract \<open>trap_handler\<close> of the
    simulator.
  \<^item> \<open>Nachos_Swap\<close>, \<open>Nachos_Demand\<close>: demand paging. Frames and the file \<^verbatim>\<open>virtual_memory\<close> together are one flat
    memory; page faults do not change it, and the program's loads and stores read and write it.
  \<^item> \<open>Nachos_Large\<close>, \<open>Nachos_Loading\<close>: files of more than eight blocks are created through an index block, which the
    swap file needs; the constructor of an address space leaves the program with the memory and the registers
    its object file describes.
  \<^item> \<open>Nachos_UserRun\<close>: the loop of the simulator with its debugger and the exception handler together: a user program
    cannot crash the kernel except in the listed ways, each caused by the round that stops; the TLB is refilled by age, and the
    wrap-around of the ages is what breaks it.
  \<^item> \<open>Nachos_Coff\<close>: \<^verbatim>\<open>bin/coff2noff.c\<close>, \<^verbatim>\<open>bin/coff2flat.c\<close>, \<^verbatim>\<open>bin/coff.h\<close>; the conversion of object files. The
    file that \<^verbatim>\<open>coff2noff\<close> writes has a header that the loader accepts and contains the sections' bytes.
  \<^item> \<open>Nachos_Network\<close>, \<open>Nachos_Post\<close>, \<open>Nachos_Post_Delivery\<close>: \<^verbatim>\<open>machine/network\<close>, the sockets of \<^verbatim>\<open>machine/sysdep\<close>,
    \<^verbatim>\<open>network/post\<close>; any number of machines with their threads, postal workers and interrupts as an inductive step
    relation. The network's handlers discharge the contract of the interrupt controller; messages arrive
    unchanged and in order, and no assertion fails, for machines with equally many mailboxes whose threads write to machines that
    run. The postal worker reads a packet in one step and puts it into its mailbox in another, with anything in between.
  \<^item> \<open>Nachos_Process\<close>: the system calls on threads (\<^verbatim>\<open>userprog/exception\<close>) and the start of a program
    (\<^verbatim>\<open>userprog/progtest\<close>), over the kernel machine of \<open>Nachos_Synch\<close>; the addresses of thread objects are a parameter,
    and \<^verbatim>\<open>Join\<close> waits exactly until the child at the given address has called \<^verbatim>\<open>Exit\<close>, in every interleaving.
  \<^item> \<open>Nachos_Console\<close>: \<^verbatim>\<open>machine/console\<close> and the console test of \<^verbatim>\<open>userprog/progtest\<close>; what is typed is echoed once and in
    order.

  \<^bold>\<open>Bounds and fuel.\<close> Loops of the source are structural recursions or functions with a proved measure where
  they end. Three loops get a number of rounds: the handlers due in one tick (\<open>due_loop\<close>, bounded by
  the length of the pending list, since handlers do not schedule into the past), the wait of a thread for its
  disk (\<open>sleep_until\<close>, each round executes a pending interrupt; the theorems show that the wait ends), and the
  rounds of the user program. \<^verbatim>\<open>WriteAt\<close> calls itself through the bitmap when a file grows; the model
  unfolds three levels and the theorems about writing show that files that do not grow need one.

  \<^bold>\<open>Not modelled.\<close> The calls of the host's operating system in \<^verbatim>\<open>machine/sysdep\<close> other than the sockets (their
  results are arguments or the contents of the devices), \<^verbatim>\<open>threads/switch.s\<close> and \<^verbatim>\<open>switch.c\<close> (assembly code of the
  context switch: its effect is the change of the running thread's frame stack), \<^verbatim>\<open>threads/main.cc\<close>,
  \<^verbatim>\<open>threads/system.cc\<close> and the test drivers (command line, start-up and demonstrations), the stand-alone simulator
  and disassembler of \<^verbatim>\<open>bin\<close> (not used by the kernel), the programs of \<^verbatim>\<open>test\<close>, and debugging output.
\<close>

end
